(* ===== verification/Prelude.thy ===== *)
theory Prelude imports Main "HOL-Library.Word" begin

text \<open>
  The types and generic lemmas every other theory uses: bytes and byte strings (the contents a
  \<open>Slice\<close> or a \<open>std::string\<close> refers to), the fixed-width integers of the code, lemmas on
  \<open>take\<close>, \<open>drop\<close> and little-endian splitting of words, and the \<open>named_theorems\<close> collections
  the component theories add to.
\<close>

unbundle bit_operations_syntax

section \<open>Types\<close>

type_synonym byte = "8 word"
type_synonym bytes = "byte list"
type_synonym uint32 = "32 word"
type_synonym uint64 = "64 word"

section \<open>Collections of facts\<close>

named_theorems codec_simps \<open>round trips of encoders with their decoders\<close>
named_theorems length_simps \<open>lengths of encodings\<close>

section \<open>Lists\<close>

lemma take_append_length [simp]: "n = length xs \<Longrightarrow> take n (xs @ ys) = xs"
  by simp

lemma drop_append_length [simp]: "n = length xs \<Longrightarrow> drop n (xs @ ys) = ys"
  by simp

lemma append_take_drop_mid:
  "i \<le> j \<Longrightarrow> take i xs @ take (j - i) (drop i xs) = take j xs"
  by (metis le_add_diff_inverse take_add)

lemma length_take_le: "n \<le> length xs \<Longrightarrow> length (take n xs) = n"
  by simp

section \<open>Words\<close>

lemma or_eq_plus_if_disjoint:
  fixes a b :: "'a::len word"
  assumes "a AND b = 0"
  shows "a OR b = a + b"
  using assms word_plus_and_or [of a b] by simp

lemma unat_lt_power_iff_drop_bit:
  "unat (w :: 'a::len word) < 2 ^ n \<longleftrightarrow> drop_bit n w = 0"
proof -
  have "drop_bit n w = 0 \<longleftrightarrow> unat (drop_bit n w) = 0"
    by (simp add: unat_eq_zero)
  also have "\<dots> \<longleftrightarrow> unat w div 2 ^ n = 0"
    by (simp only: unat_drop_bit_eq, simp only: drop_bit_eq_div)
  also have "\<dots> \<longleftrightarrow> unat w < 2 ^ n"
    by (simp add: div_eq_0_iff)
  finally show ?thesis by simp
qed

lemma unat_drop_bit_nat: "unat (drop_bit k (v :: 'a::len word)) = unat v div 2 ^ k"
  by (simp only: unat_drop_bit_eq, simp only: drop_bit_eq_div)

lemma bit_128_iff [simp]: "bit (128 :: 'a::len word) n \<longleftrightarrow> n = 7 \<and> 7 < LENGTH('a)"
proof -
  have "bit (2 ^ 7 :: 'a word) n \<longleftrightarrow> n = 7 \<and> 7 < LENGTH('a)"
    by (subst bit_exp_iff) auto
  then show ?thesis by simp
qed

lemma and_127_take_bit: "(v :: 'a::len word) AND 127 = take_bit 7 v"
  by (simp add: take_bit_eq_mask mask_eq_exp_minus_1)

lemma bit_128_int [simp]: "bit (128 :: int) n \<longleftrightarrow> n = 7"
proof -
  have "bit (2 ^ 7 :: int) n \<longleftrightarrow> n = 7"
    by (subst bit_exp_iff) auto
  then show ?thesis by simp
qed

lemma unat_take_bit_7: "unat (take_bit 7 (v :: 'a::len word)) = unat v mod 128"
proof -
  have "unat (take_bit 7 v) = take_bit 7 (unat v)"
    by (simp only: unsigned_take_bit_eq)
  then show ?thesis by (simp only: take_bit_eq_mod) simp
qed

lemma ucast_of_nat_unat: "(ucast (w :: 'a::len word) :: byte) = of_nat (unat w)"
  by simp

lemma of_nat_mod_128: "(of_nat (unat (w :: 'a::len word) mod 128) :: byte) = take_bit 7 (ucast w)"
proof -
  have "(of_nat (unat w mod 128) :: byte) = of_nat (unat (take_bit 7 w))"
    by (simp only: unat_take_bit_7)
  also have "\<dots> = ucast (take_bit 7 w)" by (simp only: ucast_of_nat_unat)
  also have "\<dots> = take_bit 7 (ucast w)" by (rule bit_word_eqI) (auto simp: bit_simps dest: bit_imp_le_length)
  finally show ?thesis .
qed

lemma ucast_byte_or_128: "(ucast ((w::'a::len word) OR 128) :: byte) = of_nat (128 + unat w mod 128)" if "8 \<le> LENGTH('a)"
proof -
  have "of_nat (128 + unat w mod 128) = (128 :: byte) + take_bit 7 (ucast w)"
    by (simp only: of_nat_add of_nat_mod_128) simp
  also have "\<dots> = 128 OR take_bit 7 (ucast w)"
    by (rule or_eq_plus_if_disjoint [symmetric], rule bit_word_eqI) (auto simp: bit_simps)
  also have "\<dots> = ucast (w OR 128)"
    using that by (intro bit_word_eqI) (auto simp: bit_simps)
  finally show ?thesis by (rule sym)
qed

lemma unat_push_bit_1: "k < LENGTH('a) \<Longrightarrow> unat (push_bit k (1 :: 'a::len word)) = 2 ^ k"
  by (simp only: unsigned_push_bit_eq) (simp add: push_bit_eq_mult)

lemma or_push_bit_of_nat:
  fixes r :: "'a::len word"
  assumes "unat r < 2 ^ s"
  shows "r OR push_bit s (of_nat m) = of_nat (unat r + m * 2 ^ s)"
proof -
  have "take_bit s r = r"
    using assms by (simp only: word_unat_eq_iff unsigned_take_bit_eq) (simp add: take_bit_eq_mod)
  then have "bit r i \<Longrightarrow> i < s" for i
    by (metis bit_take_bit_iff)
  then have "r AND push_bit s (of_nat m) = 0"
    by (intro bit_word_eqI) (force simp: bit_and_iff bit_push_bit_iff)
  then have "r OR push_bit s (of_nat m) = r + push_bit s (of_nat m)"
    by (rule or_eq_plus_if_disjoint)
  also have "\<dots> = of_nat (unat r + m * 2 ^ s)"
    by (simp add: push_bit_eq_mult)
  finally show ?thesis .
qed

lemma ucast_of_nat_byte: "k < 256 \<Longrightarrow> (ucast (of_nat k :: byte) :: 'a::len word) = of_nat k"
  by (simp add: unsigned_of_nat take_bit_eq_mod)

lemma and_128_eq_0_iff:
  fixes w :: "'a::len word"
  assumes 8: "8 \<le> LENGTH('a)"
  shows "w AND 128 = 0 \<longleftrightarrow> \<not> bit w 7"
proof
  assume "w AND 128 = 0"
  then have "\<not> bit (w AND 128) 7" by simp
  with 8 show "\<not> bit w 7" by (simp add: bit_and_iff)
next
  assume "\<not> bit w 7"
  then show "w AND 128 = 0" by (intro bit_word_eqI) (auto simp: bit_and_iff)
qed

lemma bit_7_nat: "bit (k :: nat) 7 \<longleftrightarrow> odd (k div 128)"
  by (simp add: bit_iff_odd)

lemma and_128_lo: "k < 128 \<Longrightarrow> 8 \<le> LENGTH('a) \<Longrightarrow> (of_nat k :: 'a::len word) AND 128 = 0"
  by (simp add: and_128_eq_0_iff bit_of_nat_iff bit_7_nat)

lemma and_128_hi: "k < 128 \<Longrightarrow> 8 \<le> LENGTH('a) \<Longrightarrow> (of_nat (128 + k) :: 'a::len word) AND 128 \<noteq> 0"
proof -
  assume k: "k < 128" and 8: "8 \<le> LENGTH('a)"
  then have "(128 + k) div 128 = 1" by simp
  with 8 show ?thesis by (simp only: and_128_eq_0_iff bit_of_nat_iff bit_7_nat) simp
qed

lemma and_127_hi: "k < 128 \<Longrightarrow> (of_nat (128 + k) :: 'a::len word) AND 127 = of_nat k"
  by (simp only: and_127_take_bit take_bit_of_nat) (simp add: take_bit_eq_mod)

section \<open>Little-endian reference encoding\<close>

fun le_enc :: "nat \<Rightarrow> 'a::len word \<Rightarrow> bytes" where
  "le_enc 0 v = []"
| "le_enc (Suc n) v = ucast v # le_enc n (drop_bit 8 v)"

fun le_dec :: "bytes \<Rightarrow> 'a::len word" where
  "le_dec [] = 0"
| "le_dec (b # bs) = ucast b OR push_bit 8 (le_dec bs)"

lemma length_le_enc [simp]: "length (le_enc n v) = n"
  by (induction n v rule: le_enc.induct) simp_all

lemma and_255_take_bit: "(v :: 'a::len word) AND 255 = take_bit 8 v"
  by (simp add: take_bit_eq_mask mask_eq_exp_minus_1)

lemma ucast_and_255 [simp]: "(ucast (v AND 255 :: 'a::len word) :: byte) = ucast v"
  by (rule bit_word_eqI) (auto simp: and_255_take_bit bit_simps)

lemma take_bit_byte_split:
  "(ucast (ucast v :: byte) :: 'a::len word) OR push_bit 8 (take_bit n (drop_bit 8 v))
     = take_bit (8 + n) v"
  by (rule bit_word_eqI) (auto simp: bit_simps)

lemma le_dec_le_enc: "le_dec (le_enc n v) = take_bit (8 * n) v"
  by (induction n v rule: le_enc.induct) (simp_all add: take_bit_byte_split)

lemma ucast_or_push_bit_byte [simp]: "(ucast (ucast (b :: byte) OR push_bit 8 (w :: 'a::len word)) :: byte) = b" if "8 \<le> LENGTH('a)"
  using that by (intro bit_word_eqI) (auto simp: bit_simps)

lemma bit_le_dec: "8 * length bs \<le> i \<Longrightarrow> \<not> bit (le_dec bs :: 'a::len word) i"
proof (induction bs arbitrary: i)
  case Nil
  then show ?case by simp
next
  case (Cons b bs)
  then have "\<not> bit (le_dec bs :: 'a word) (i - 8)" by simp
  moreover have "\<not> bit b i" using Cons.prems by (auto dest: bit_imp_le_length)
  ultimately show ?case by (simp add: bit_simps)
qed

lemma bit_le_dec_lt: "bit (le_dec bs :: 'a::len word) i \<Longrightarrow> i < 8 * length bs"
  by (meson bit_le_dec not_less)

lemma drop_bit_byte [simp]:
  "8 + 8 * k \<le> LENGTH('a) \<Longrightarrow> (\<And>i. 8 * k \<le> i \<Longrightarrow> \<not> bit w i) \<Longrightarrow>
   drop_bit 8 (ucast (b :: byte) OR push_bit 8 (w :: 'a::len word)) = w"
  by (rule bit_word_eqI) (auto simp: bit_simps dest: bit_imp_le_length)

lemma le_enc_le_dec:
  "8 * length bs \<le> LENGTH('a) \<Longrightarrow> le_enc (length bs) (le_dec bs :: 'a::len word) = bs"
proof (induction bs)
  case Nil
  then show ?case by simp
next
  case (Cons b bs)
  have "drop_bit 8 (ucast b OR push_bit 8 (le_dec bs :: 'a word)) = le_dec bs"
    by (rule drop_bit_byte [where k = "length bs"]) (use Cons.prems in \<open>auto simp: bit_le_dec\<close>)
  with Cons show ?case by simp
qed


lemma unat_drop_bit_7_less: "128 \<le> v \<Longrightarrow> unat (drop_bit 7 v) < unat (v :: 64 word)"
proof -
  assume "128 \<le> v"
  then have "128 \<le> unat v" by (simp add: word_le_nat_alt)
  then show ?thesis by (simp add: unat_drop_bit_nat)
qed

lemma unat_less_2p32: "unat (v :: uint32) < 2 ^ 32"
  using unsigned_less [of v] by simp

lemma unat_less_2p64: "unat (v :: uint64) < 2 ^ 64"
  using unsigned_less [of v] by simp

lemma unat_of_nat_32: "n < 2 ^ 32 \<Longrightarrow> unat (of_nat n :: uint32) = n"
  by (simp add: unat_of_nat)

lemma unat_of_nat_64: "n < 2 ^ 64 \<Longrightarrow> unat (of_nat n :: uint64) = n"
  by (simp add: unat_of_nat)

lemma unat_byte_less: "unat (b :: byte) < 256"
  using unsigned_less [of b] by simp

end
