(* ===== verification/Slice.thy ===== *)
theory Slice imports Prelude begin

text \<open>
  \<^verbatim>\<open>include/leveldb/slice.h\<close>, \<^verbatim>\<open>include/leveldb/status.h\<close> and \<^verbatim>\<open>util/status.cc\<close>.
  A \<open>Slice\<close> is a pointer and a length; the model keeps the bytes it refers to, so two slices
  over equal bytes are equal. \<open>memcmp\<close> compares bytes as unsigned characters; the C library
  fixes only the sign of its result, the model returns \<open>-1\<close>, \<open>0\<close> or \<open>1\<close>.
  A \<open>Status\<close> is either OK (a null \<open>state_\<close>) or a code with a message.
\<close>

section \<open>Slices\<close>

fun memcmp :: "bytes \<Rightarrow> bytes \<Rightarrow> nat \<Rightarrow> int" where
  "memcmp (a # as) (b # bs) (Suc n) =
     (if a = b then memcmp as bs n else if a < b then -1 else 1)"
| "memcmp _ _ _ = 0"

definition remove_prefix :: "nat \<Rightarrow> bytes \<Rightarrow> bytes" where
  "remove_prefix n s = drop n s"

definition starts_with :: "bytes \<Rightarrow> bytes \<Rightarrow> bool" where
  "starts_with s x \<longleftrightarrow> length s \<ge> length x \<and> memcmp s x (length x) = 0"

definition slice_eq :: "bytes \<Rightarrow> bytes \<Rightarrow> bool" where
  "slice_eq x y \<longleftrightarrow> length x = length y \<and> memcmp x y (length x) = 0"

definition slice_compare :: "bytes \<Rightarrow> bytes \<Rightarrow> int" where
  "slice_compare a b =
     (let min_len = (if length a < length b then length a else length b);
          r = memcmp a b min_len
      in if r = 0
         then (if length a < length b then -1 else if length a > length b then 1 else r)
         else r)"

text \<open>\<open>slice_compare\<close> is the lexicographic three-way comparison on unsigned bytes.\<close>

lemma slice_compare_simps [simp]:
  "slice_compare [] [] = 0"
  "slice_compare [] (b # bs) = -1"
  "slice_compare (a # as) [] = 1"
  "slice_compare (a # as) (b # bs) =
     (if a = b then slice_compare as bs else if a < b then -1 else 1)"
  by (simp_all add: slice_compare_def Let_def)

lemma slice_compare_range: "slice_compare a b \<in> {-1, 0, 1}"
proof (induction a arbitrary: b)
  case Nil
  then show ?case by (cases b) simp_all
next
  case (Cons x a)
  then show ?case by (cases b) simp_all
qed

lemma slice_compare_eq_0 [simp]: "slice_compare a b = 0 \<longleftrightarrow> a = b"
proof (induction a arbitrary: b)
  case Nil
  then show ?case by (cases b) simp_all
next
  case (Cons x a)
  then show ?case by (cases b) simp_all
qed

lemma slice_compare_antisym: "slice_compare b a = - slice_compare a b"
proof (induction a arbitrary: b)
  case Nil
  then show ?case by (cases b) simp_all
next
  case (Cons x a)
  then show ?case by (cases b) auto
qed

lemma slice_compare_less_trans:
  "slice_compare a b < 0 \<Longrightarrow> slice_compare b c < 0 \<Longrightarrow> slice_compare a c < 0"
proof (induction a arbitrary: b c)
  case Nil
  then show ?case by (cases b; cases c) simp_all
next
  case (Cons x a)
  then show ?case by (cases b; cases c) (auto split: if_splits)
qed

lemma slice_eq_iff: "slice_eq x y \<longleftrightarrow> x = y"
proof (induction x arbitrary: y)
  case Nil
  then show ?case by (cases y) (simp_all add: slice_eq_def)
next
  case (Cons a x)
  then show ?case by (cases y) (auto simp: slice_eq_def)
qed

lemma starts_with_iff: "starts_with s x \<longleftrightarrow> (\<exists>t. s = x @ t)"
proof (induction x arbitrary: s)
  case Nil
  then show ?case by (simp add: starts_with_def)
next
  case (Cons a x)
  show ?case
  proof (cases s)
    case Nil
    then show ?thesis by (simp add: starts_with_def)
  next
    case (Cons b t)
    then show ?thesis using Cons.IH [of t] by (auto simp: starts_with_def)
  qed
qed

section \<open>Status\<close>

datatype code = kOk | kNotFound | kCorruption | kNotSupported | kInvalidArgument | kIOError

datatype status = OK | State code string

definition mk_status :: "code \<Rightarrow> string \<Rightarrow> string \<Rightarrow> status" where
  "mk_status code msg msg2 =
     State code (msg @ (if msg2 \<noteq> [] then '': '' @ msg2 else []))"

definition Corruption :: "string \<Rightarrow> status" where
  "Corruption msg = mk_status kCorruption msg []"

definition NotFound :: "string \<Rightarrow> status" where
  "NotFound msg = mk_status kNotFound msg []"

definition InvalidArgument :: "string \<Rightarrow> status" where
  "InvalidArgument msg = mk_status kInvalidArgument msg []"

definition IOError :: "string \<Rightarrow> string \<Rightarrow> status" where
  "IOError msg msg2 = mk_status kIOError msg msg2"

fun status_code :: "status \<Rightarrow> code" where
  "status_code OK = kOk"
| "status_code (State c msg) = c"

definition ok :: "status \<Rightarrow> bool" where
  "ok s \<longleftrightarrow> s = OK"

definition IsNotFound :: "status \<Rightarrow> bool" where
  "IsNotFound s \<longleftrightarrow> status_code s = kNotFound"

definition IsCorruption :: "status \<Rightarrow> bool" where
  "IsCorruption s \<longleftrightarrow> status_code s = kCorruption"

fun status_ToString :: "status \<Rightarrow> string" where
  "status_ToString OK = ''OK''"
| "status_ToString (State c msg) =
     (case c of
        kOk \<Rightarrow> ''OK''
      | kNotFound \<Rightarrow> ''NotFound: ''
      | kCorruption \<Rightarrow> ''Corruption: ''
      | kNotSupported \<Rightarrow> ''Not implemented: ''
      | kInvalidArgument \<Rightarrow> ''Invalid argument: ''
      | kIOError \<Rightarrow> ''IO error: '') @ msg"

lemma ok_simps [simp]:
  "ok OK" "\<not> ok (Corruption m)" "\<not> ok (NotFound m)" "\<not> ok (InvalidArgument m)" "\<not> ok (IOError m m')"
  by (simp_all add: ok_def Corruption_def NotFound_def InvalidArgument_def IOError_def mk_status_def)

lemma status_class_simps [simp]:
  "IsCorruption (Corruption m)" "\<not> IsCorruption OK" "IsNotFound (NotFound m)" "\<not> IsNotFound OK"
  "\<not> IsNotFound (Corruption m)" "\<not> IsCorruption (NotFound m)"
  by (simp_all add: IsCorruption_def IsNotFound_def Corruption_def NotFound_def mk_status_def)

lemma status_ne_OK [simp]:
  "Corruption m \<noteq> OK" "NotFound m \<noteq> OK" "InvalidArgument m \<noteq> OK" "IOError m m' \<noteq> OK"
  by (simp_all add: Corruption_def NotFound_def InvalidArgument_def IOError_def mk_status_def)

end
