(* ===== verification/Coding.thy ===== *)
theory Coding imports Slice begin

text \<open>
  \<^verbatim>\<open>util/coding.h\<close> and \<^verbatim>\<open>util/coding.cc\<close>: fixed-width little-endian integers, variable-length
  integers (base 128, low group first, high bit set on all but the last byte) and
  length-prefixed slices. An encoder returns the bytes it writes; a \<open>Put\<close> function returns the
  extended string; a decoder reads from the bytes between \<open>p\<close> and \<open>limit\<close> and returns the value
  with the bytes after it, or \<open>None\<close> where the code returns \<open>NULL\<close> or \<open>false\<close>. The
  \<open>memcpy\<close> branches for little-endian machines write and read the same bytes as the shifts.
  \<open>le_enc\<close>, \<open>le_dec\<close> and \<open>varint\<close> are the reference encodings the code's are proved equal to.
\<close>

section \<open>Fixed-width integers\<close>

definition EncodeFixed32 :: "uint32 \<Rightarrow> bytes" where
  "EncodeFixed32 value =
     [ucast (value AND 0xff), ucast (drop_bit 8 value AND 0xff),
      ucast (drop_bit 16 value AND 0xff), ucast (drop_bit 24 value AND 0xff)]"

definition DecodeFixed32 :: "bytes \<Rightarrow> uint32" where
  "DecodeFixed32 ptr =
     ucast (ptr ! 0) OR push_bit 8 (ucast (ptr ! 1)) OR push_bit 16 (ucast (ptr ! 2))
       OR push_bit 24 (ucast (ptr ! 3))"

definition EncodeFixed64 :: "uint64 \<Rightarrow> bytes" where
  "EncodeFixed64 value =
     [ucast (value AND 0xff), ucast (drop_bit 8 value AND 0xff),
      ucast (drop_bit 16 value AND 0xff), ucast (drop_bit 24 value AND 0xff),
      ucast (drop_bit 32 value AND 0xff), ucast (drop_bit 40 value AND 0xff),
      ucast (drop_bit 48 value AND 0xff), ucast (drop_bit 56 value AND 0xff)]"

definition DecodeFixed64 :: "bytes \<Rightarrow> uint64" where
  "DecodeFixed64 ptr =
     (let lo = ucast (DecodeFixed32 ptr); hi = ucast (DecodeFixed32 (drop 4 ptr))
      in push_bit 32 hi OR lo)"


definition PutFixed32 :: "bytes \<Rightarrow> uint32 \<Rightarrow> bytes" where
  "PutFixed32 dst value = dst @ EncodeFixed32 value"

definition PutFixed64 :: "bytes \<Rightarrow> uint64 \<Rightarrow> bytes" where
  "PutFixed64 dst value = dst @ EncodeFixed64 value"

section \<open>Variable-length integers\<close>

definition EncodeVarint32 :: "uint32 \<Rightarrow> bytes" where
  "EncodeVarint32 v =
     (let B = 128 in
      if v < push_bit 7 1 then [ucast v]
      else if v < push_bit 14 1 then [ucast (v OR B), ucast (drop_bit 7 v)]
      else if v < push_bit 21 1 then
        [ucast (v OR B), ucast (drop_bit 7 v OR B), ucast (drop_bit 14 v)]
      else if v < push_bit 28 1 then
        [ucast (v OR B), ucast (drop_bit 7 v OR B), ucast (drop_bit 14 v OR B),
         ucast (drop_bit 21 v)]
      else
        [ucast (v OR B), ucast (drop_bit 7 v OR B), ucast (drop_bit 14 v OR B),
         ucast (drop_bit 21 v OR B), ucast (drop_bit 28 v)])"

function EncodeVarint64 :: "uint64 \<Rightarrow> bytes" where
  "EncodeVarint64 v =
     (if v \<ge> 128 then ucast ((v AND 127) OR 128) # EncodeVarint64 (drop_bit 7 v)
      else [ucast v])"
  by pat_completeness auto
termination
proof (relation "measure unat")
  fix v :: uint64
  assume "128 \<le> v"
  then have "128 \<le> unat v" by (simp add: word_le_nat_alt)
  then have "unat v div 128 < unat v" by simp
  then show "(drop_bit 7 v, v) \<in> measure unat" by (simp add: unat_drop_bit_nat)
qed simp

declare EncodeVarint64.simps [simp del]

definition PutVarint32 :: "bytes \<Rightarrow> uint32 \<Rightarrow> bytes" where
  "PutVarint32 dst v = dst @ EncodeVarint32 v"

definition PutVarint64 :: "bytes \<Rightarrow> uint64 \<Rightarrow> bytes" where
  "PutVarint64 dst v = dst @ EncodeVarint64 v"

function VarintLength_loop :: "uint64 \<Rightarrow> nat \<Rightarrow> nat" where
  "VarintLength_loop v len =
     (if v \<ge> 128 then VarintLength_loop (drop_bit 7 v) (len + 1) else len)"
  by pat_completeness auto
termination
  by (relation "measure (unat \<circ> fst)") (auto intro: unat_drop_bit_7_less)

declare VarintLength_loop.simps [simp del]

definition VarintLength :: "uint64 \<Rightarrow> nat" where
  "VarintLength v = VarintLength_loop v 1"

text \<open>
  The two decoding loops of the code differ only in the width of the result and in the largest
  shift (28 and 63); the fast path of \<open>GetVarint32Ptr\<close> takes a single-byte value directly.
\<close>

fun GetVarint_loop :: "nat \<Rightarrow> nat \<Rightarrow> 'a::len word \<Rightarrow> bytes \<Rightarrow> ('a word \<times> bytes) option" where
  "GetVarint_loop maxshift shift result [] = None"
| "GetVarint_loop maxshift shift result (c # p) =
     (if maxshift < shift then None
      else let byte = (ucast c :: 'a word) in
        if byte AND 128 \<noteq> 0
        then GetVarint_loop maxshift (shift + 7) (result OR push_bit shift (byte AND 127)) p
        else Some (result OR push_bit shift byte, p))"

definition GetVarint32PtrFallback :: "bytes \<Rightarrow> (uint32 \<times> bytes) option" where
  "GetVarint32PtrFallback p = GetVarint_loop 28 0 0 p"

definition GetVarint32Ptr :: "bytes \<Rightarrow> (uint32 \<times> bytes) option" where
  "GetVarint32Ptr p =
     (case p of
        [] \<Rightarrow> GetVarint32PtrFallback p
      | c # q \<Rightarrow> let result = (ucast c :: uint32) in
          if result AND 128 = 0 then Some (result, q) else GetVarint32PtrFallback p)"

definition GetVarint32 :: "bytes \<Rightarrow> (uint32 \<times> bytes) option" where
  "GetVarint32 input = GetVarint32Ptr input"

definition GetVarint64Ptr :: "bytes \<Rightarrow> (uint64 \<times> bytes) option" where
  "GetVarint64Ptr p = GetVarint_loop 63 0 0 p"

definition GetVarint64 :: "bytes \<Rightarrow> (uint64 \<times> bytes) option" where
  "GetVarint64 input = GetVarint64Ptr input"

section \<open>Length-prefixed slices\<close>

text \<open>The length is the \<open>size_t\<close> of the slice converted to \<open>uint32_t\<close>.\<close>

definition PutLengthPrefixedSlice :: "bytes \<Rightarrow> bytes \<Rightarrow> bytes" where
  "PutLengthPrefixedSlice dst value = PutVarint32 dst (of_nat (length value)) @ value"

definition GetLengthPrefixedSlice :: "bytes \<Rightarrow> (bytes \<times> bytes) option" where
  "GetLengthPrefixedSlice input =
     (case GetVarint32 input of
        None \<Rightarrow> None
      | Some (len, rest) \<Rightarrow>
          if length rest \<ge> unat len then Some (take (unat len) rest, remove_prefix (unat len) rest)
          else None)"

section \<open>Fixed-width integers: the reference encoding and the round trips\<close>

lemma EncodeFixed32_le: "EncodeFixed32 v = le_enc 4 v"
  by (simp add: EncodeFixed32_def eval_nat_numeral)

lemma EncodeFixed64_le: "EncodeFixed64 v = le_enc 8 v"
  by (simp add: EncodeFixed64_def eval_nat_numeral)

lemma DecodeFixed32_le: "DecodeFixed32 (a # b # c # d # rest) = le_dec [a, b, c, d]"
  by (simp add: DecodeFixed32_def push_bit_or or.assoc)

lemma le_dec_append:
  "le_dec (xs @ ys) = le_dec xs OR push_bit (8 * length xs) (le_dec ys)"
  by (induction xs) (simp_all add: push_bit_or or.assoc)

lemma ucast_le_dec:
  "8 * length bs \<le> LENGTH('b) \<Longrightarrow> ucast (le_dec bs :: 'b::len word) = (le_dec bs :: 'a::len word)"
proof (induction bs)
  case Nil
  then show ?case by simp
next
  case (Cons b bs)
  have *: "bit (le_dec bs :: 'a word) i \<longleftrightarrow> i < LENGTH('a) \<and> bit (le_dec bs :: 'b word) i" for i
    using Cons by (auto simp: bit_simps dest: arg_cong [where f = "\<lambda>w. bit w i"])
  show ?case
    by (rule bit_word_eqI) (use Cons.prems in \<open>auto simp: * bit_simps dest: bit_imp_le_length bit_le_dec_lt\<close>)
qed

lemma DecodeFixed64_le: "DecodeFixed64 (a # b # c # d # e # f # g # h # rest) = le_dec [a, b, c, d, e, f, g, h]"
proof -
  have "DecodeFixed64 (a # b # c # d # e # f # g # h # rest)
      = push_bit 32 (ucast (le_dec [e, f, g, h] :: uint32)) OR ucast (le_dec [a, b, c, d] :: uint32)"
    by (simp add: DecodeFixed64_def DecodeFixed32_le Let_def del: le_dec.simps)
  also have "\<dots> = le_dec ([a, b, c, d] @ [e, f, g, h])"
    by (subst le_dec_append) (simp add: ucast_le_dec or.commute del: le_dec.simps)
  finally show ?thesis by simp
qed


lemma length_EncodeFixed [simp, length_simps]:
  "length (EncodeFixed32 v) = 4" "length (EncodeFixed64 w) = 8"
  by (simp_all add: EncodeFixed32_def EncodeFixed64_def)

lemma DecodeFixed32_EncodeFixed32 [simp, codec_simps]: "DecodeFixed32 (EncodeFixed32 v @ rest) = v"
proof -
  obtain a b c d where e: "EncodeFixed32 v = [a, b, c, d]"
    by (simp add: EncodeFixed32_def)
  have "DecodeFixed32 (EncodeFixed32 v @ rest) = le_dec (EncodeFixed32 v)"
    by (simp add: e DecodeFixed32_le del: le_dec.simps)
  also have "\<dots> = take_bit 32 v"
    by (simp only: EncodeFixed32_le le_dec_le_enc) simp
  finally show ?thesis by (simp add: take_bit_word_eq_self)
qed

lemma DecodeFixed64_EncodeFixed64 [simp, codec_simps]: "DecodeFixed64 (EncodeFixed64 v @ rest) = v"
proof -
  obtain a b c d e f g h where e: "EncodeFixed64 v = [a, b, c, d, e, f, g, h]"
    by (simp add: EncodeFixed64_def)
  have "DecodeFixed64 (EncodeFixed64 v @ rest) = le_dec (EncodeFixed64 v)"
    by (simp add: e DecodeFixed64_le del: le_dec.simps)
  also have "\<dots> = take_bit 64 v"
    by (simp only: EncodeFixed64_le le_dec_le_enc) simp
  finally show ?thesis by (simp add: take_bit_word_eq_self)
qed

lemmas DecodeFixed_Nil [simp, codec_simps] =
  DecodeFixed32_EncodeFixed32 [where rest = "[]", simplified]
  DecodeFixed64_EncodeFixed64 [where rest = "[]", simplified]

lemma EncodeFixed32_DecodeFixed32:
  assumes "length bs = 4"
  shows "EncodeFixed32 (DecodeFixed32 (bs @ rest)) = bs"
proof -
  obtain a b c d where bs: "bs = [a, b, c, d]"
    using assms by (auto simp: eval_nat_numeral length_Suc_conv)
  have "EncodeFixed32 (DecodeFixed32 (bs @ rest)) = le_enc (length bs) (le_dec bs :: uint32)"
    by (simp add: bs DecodeFixed32_le EncodeFixed32_le eval_nat_numeral del: le_dec.simps le_enc.simps)
  also have "\<dots> = bs"
    by (rule le_enc_le_dec) (simp add: assms)
  finally show ?thesis .
qed

lemma EncodeFixed64_DecodeFixed64:
  assumes "length bs = 8"
  shows "EncodeFixed64 (DecodeFixed64 (bs @ rest)) = bs"
proof -
  obtain a b c d e f g h where bs: "bs = [a, b, c, d, e, f, g, h]"
    using assms by (auto simp: eval_nat_numeral length_Suc_conv)
  have "EncodeFixed64 (DecodeFixed64 (bs @ rest)) = le_enc (length bs) (le_dec bs :: uint64)"
    by (simp add: bs DecodeFixed64_le EncodeFixed64_le eval_nat_numeral del: le_dec.simps le_enc.simps)
  also have "\<dots> = bs"
    by (rule le_enc_le_dec) (simp add: assms)
  finally show ?thesis .
qed

section \<open>Variable-length integers: the reference encoding and the round trips\<close>

fun varint :: "nat \<Rightarrow> bytes" where
  "varint n = (if n < 128 then [of_nat n] else of_nat (128 + n mod 128) # varint (n div 128))"

declare varint.simps [simp del]

lemma EncodeVarint64_varint: "EncodeVarint64 v = varint (unat v)"
proof (induction v rule: EncodeVarint64.induct)
  case (1 v)
  show ?case
  proof (cases "v \<ge> 128")
    case True
    have n: "\<not> unat v < 128" using True by (simp add: word_le_nat_alt)
    have "EncodeVarint64 v = ucast ((v AND 127) OR 128) # varint (unat v div 128)"
      using True 1 by (simp add: EncodeVarint64.simps [of v] unat_drop_bit_nat)
    also have "ucast ((v AND 127) OR 128) = (of_nat (128 + unat v mod 128) :: byte)"
      by (subst ucast_byte_or_128) (simp_all only: and_127_take_bit unat_take_bit_7 len_bit0 mod_mod_trivial, simp)
    finally show ?thesis using n by (simp add: varint.simps [of "unat v"])
  next
    case False
    then have "unat v < 128" by (simp add: word_le_nat_alt)
    with False show ?thesis
      by (simp add: EncodeVarint64.simps [of v] varint.simps [of "unat v"] ucast_of_nat_unat del: of_nat_unat)
  qed
qed

lemma varint_small: "n < 128 \<Longrightarrow> varint n = [of_nat n]"
  by (simp add: varint.simps [of n])

lemma varint_large: "128 \<le> n \<Longrightarrow> varint n = of_nat (128 + n mod 128) # varint (n div 128)"
  by (simp add: varint.simps [of n])

lemma EncodeVarint32_varint: "EncodeVarint32 v = varint (unat v)"
proof -
  define n where "n = unat v"
  have b: "n < 2 ^ 32" using unsigned_less [of v] by (simp add: n_def)
  have lt: "v < push_bit k 1 \<longleftrightarrow> n < 2 ^ k" if "k < 32" for k
    using that by (simp add: word_less_nat_alt n_def unat_push_bit_1 del: push_bit_of_1)
  have c: "(ucast (drop_bit k v) :: byte) = of_nat (n div 2 ^ k)" for k
    by (simp only: ucast_of_nat_unat unat_drop_bit_nat n_def)
  have c0: "(ucast v :: byte) = of_nat n"
    by (simp only: ucast_of_nat_unat n_def)
  have o: "(ucast (drop_bit k v OR 128) :: byte) = of_nat (128 + n div 2 ^ k mod 128)" for k
    by (subst ucast_byte_or_128) (simp_all only: unat_drop_bit_nat n_def, simp)
  have o0: "(ucast (v OR 128) :: byte) = of_nat (128 + n mod 128)"
    by (subst ucast_byte_or_128) (simp_all only: n_def, simp)
  consider "n < 2 ^ 7" | "2 ^ 7 \<le> n" "n < 2 ^ 14" | "2 ^ 14 \<le> n" "n < 2 ^ 21" | "2 ^ 21 \<le> n" "n < 2 ^ 28" | "2 ^ 28 \<le> n"
    by linarith
  then show ?thesis
  proof cases
    case 1
    then show ?thesis by (simp only: EncodeVarint32_def Let_def lt c0 n_def [symmetric]) (simp add: varint_small)
  next
    case 2
    then show ?thesis by (simp only: EncodeVarint32_def Let_def lt c o o0 n_def [symmetric]) (simp add: varint_small varint_large div_mult2_eq [symmetric])
  next
    case 3
    then show ?thesis by (simp only: EncodeVarint32_def Let_def lt c o o0 n_def [symmetric]) (simp add: varint_small varint_large div_mult2_eq [symmetric])
  next
    case 4
    then show ?thesis by (simp only: EncodeVarint32_def Let_def lt c o o0 n_def [symmetric]) (simp add: varint_small varint_large div_mult2_eq [symmetric])
  next
    case 5
    then show ?thesis using b by (simp only: EncodeVarint32_def Let_def lt c o o0 n_def [symmetric]) (simp add: varint_small varint_large div_mult2_eq [symmetric])
  qed
qed

lemma GetVarint_loop_varint:
  assumes "shift + 7 * (length (varint n) - 1) \<le> maxshift" and "unat result < 2 ^ shift"
    "unat result + n * 2 ^ shift < 2 ^ LENGTH('a)" "8 \<le> LENGTH('a)" 
  shows "GetVarint_loop maxshift shift (result :: 'a::len word) (varint n @ rest)
           = Some (of_nat (unat result + n * 2 ^ shift), rest)"
  using assms(1-3)
proof (induction n arbitrary: shift result rule: varint.induct)
  case (1 n)
  show ?case
  proof (cases "n < 128")
    case True
    with 1 assms(4) show ?thesis
      by (simp add: varint_small ucast_of_nat_byte and_128_lo or_push_bit_of_nat Let_def del: of_nat_add)
  next
    case False
    let ?r = "result OR push_bit shift (of_nat (n mod 128))"
    have "n * 2 ^ shift = (128 * (n div 128) + n mod 128) * 2 ^ shift" by simp
    then have eq: "unat result + n * 2 ^ shift
        = unat result + (n mod 128) * 2 ^ shift + n div 128 * 2 ^ (shift + 7)"
      by (simp only: add_mult_distrib power_add) simp
    have "unat result + (n mod 128) * 2 ^ shift < 2 ^ LENGTH('a)"
      using 1(4) eq by linarith
    then have ur: "unat ?r = unat result + (n mod 128) * 2 ^ shift"
      using 1(3) by (simp only: or_push_bit_of_nat unat_of_nat mod_less)
    have "n mod 128 \<le> 127" by simp
    then have "(n mod 128) * 2 ^ shift \<le> 127 * 2 ^ shift" by (rule mult_le_mono1)
    moreover have "(2 :: nat) ^ (shift + 7) = 128 * 2 ^ shift" by (simp add: power_add)
    ultimately have r7: "unat ?r < 2 ^ (shift + 7)" using 1(3) ur by linarith
    have len: "length (varint n) = Suc (length (varint (n div 128)))"
      using False by (simp add: varint_large)
    have "0 < length (varint (n div 128))" by (simp add: varint.simps [of "n div 128"])
    then have m: "shift + 7 + 7 * (length (varint (n div 128)) - 1) \<le> maxshift"
      using 1(2) len by linarith
    have IH: "GetVarint_loop maxshift (shift + 7) ?r (varint (n div 128) @ rest)
       = Some (of_nat (unat ?r + n div 128 * 2 ^ (shift + 7)), rest)"
      using False 1(4) m r7 by (intro 1(1)) (simp_all only: ur eq not_False_eq_True)
    have "\<not> maxshift < shift" using 1(2) by simp
    then show ?thesis using False IH assms(4) ur eq
      by (simp add: varint_large ucast_of_nat_byte and_128_hi and_127_hi Let_def add.assoc del: of_nat_add)
  qed
qed


lemma varint_not_Nil [simp]: "varint n \<noteq> []"
  by (simp add: varint.simps [of n])

lemma length_varint_pos [simp]: "0 < length (varint n)"
  by simp

lemma length_varint_le: "n < 128 ^ k \<Longrightarrow> 0 < k \<Longrightarrow> length (varint n) \<le> k"
proof (induction k arbitrary: n)
  case 0
  then show ?case by simp
next
  case (Suc k)
  show ?case
  proof (cases "n < 128")
    case True
    then show ?thesis by (simp add: varint_small)
  next
    case False
    then have "n div 128 < 128 ^ k" and "0 < k"
      using Suc.prems by (auto intro!: Nat.gr0I less_mult_imp_div_less simp: mult.commute)
    with Suc.IH [of "n div 128"] False show ?thesis by (simp add: varint_large)
  qed
qed

lemma length_EncodeVarint32: "length (EncodeVarint32 v) \<le> 5"
  using unat_less_2p32 [of v] by (simp add: EncodeVarint32_varint length_varint_le)

lemma length_EncodeVarint64: "length (EncodeVarint64 v) \<le> 10"
  using unat_less_2p64 [of v] by (simp add: EncodeVarint64_varint length_varint_le)

lemma EncodeVarint_not_Nil [simp]: "EncodeVarint32 v \<noteq> []" "EncodeVarint64 w \<noteq> []"
  by (simp_all add: EncodeVarint32_varint EncodeVarint64_varint)

lemma VarintLength_loop_varint: "VarintLength_loop v len = len + length (varint (unat v)) - 1"
proof (induction v len rule: VarintLength_loop.induct)
  case (1 v len)
  show ?case
  proof (cases "v \<ge> 128")
    case True
    then have n: "128 \<le> unat v" by (simp add: word_le_nat_alt)
    have "VarintLength_loop v len = (len + 1) + length (varint (unat v div 128)) - 1"
      using True 1 by (simp add: VarintLength_loop.simps [of v len] unat_drop_bit_nat)
    then show ?thesis using n by (simp add: varint_large)
  next
    case False
    then have "unat v < 128" by (simp add: word_le_nat_alt)
    with False show ?thesis by (simp add: VarintLength_loop.simps [of v len] varint_small)
  qed
qed

lemma VarintLength_varint: "VarintLength v = length (varint (unat v))"
  by (simp add: VarintLength_def VarintLength_loop_varint)

lemma GetVarint32Ptr_loop: "GetVarint32Ptr p = GetVarint_loop 28 0 0 p"
  by (cases p) (simp_all add: GetVarint32Ptr_def GetVarint32PtrFallback_def Let_def)

lemma GetVarint32_EncodeVarint32 [simp, codec_simps]:
  "GetVarint32 (EncodeVarint32 v @ rest) = Some (v, rest)"
proof -
  have "length (varint (unat v)) \<le> 5"
    using length_EncodeVarint32 [of v] by (simp add: EncodeVarint32_varint)
  then have "GetVarint_loop 28 0 (0 :: uint32) (varint (unat v) @ rest)
      = Some (of_nat (unat (0 :: uint32) + unat v * 2 ^ 0), rest)"
    using unat_less_2p32 [of v] by (intro GetVarint_loop_varint) auto
  then show ?thesis
    by (simp add: GetVarint32_def GetVarint32Ptr_loop EncodeVarint32_varint)
qed

lemma GetVarint64_EncodeVarint64 [simp, codec_simps]:
  "GetVarint64 (EncodeVarint64 v @ rest) = Some (v, rest)"
proof -
  have "length (varint (unat v)) \<le> 10"
    using length_EncodeVarint64 [of v] by (simp add: EncodeVarint64_varint)
  then have "GetVarint_loop 63 0 (0 :: uint64) (varint (unat v) @ rest)
      = Some (of_nat (unat (0 :: uint64) + unat v * 2 ^ 0), rest)"
    using unat_less_2p64 [of v] by (intro GetVarint_loop_varint) auto
  then show ?thesis
    by (simp add: GetVarint64_def GetVarint64Ptr_def EncodeVarint64_varint)
qed

lemmas GetVarint_Nil [simp, codec_simps] =
  GetVarint32_EncodeVarint32 [where rest = "[]", simplified]
  GetVarint64_EncodeVarint64 [where rest = "[]", simplified]

text \<open>A successful decode consumes a non-empty prefix of bounded length and leaves the rest.\<close>

lemma GetVarint_loop_suffix:
  "GetVarint_loop maxshift shift result p = Some (v, rest) \<Longrightarrow>
   \<exists>pre. p = pre @ rest \<and> pre \<noteq> [] \<and> shift + 7 * (length pre - 1) \<le> maxshift"
proof (induction maxshift shift result p rule: GetVarint_loop.induct)
  case (1 maxshift shift result)
  then show ?case by simp
next
  case (2 maxshift shift result c p)
  show ?case
  proof (cases "(ucast c :: 'a word) AND 128 \<noteq> 0")
    case True
    with 2 obtain pre where "p = pre @ rest" "pre \<noteq> []" "shift + 7 + 7 * (length pre - 1) \<le> maxshift"
      by (auto simp: Let_def split: if_splits)
    then show ?thesis by (intro exI [of _ "c # pre"]) (cases pre, auto)
  next
    case False
    with 2 show ?thesis by (auto simp: Let_def split: if_splits)
  qed
qed

lemma GetVarint32_suffix:
  assumes "GetVarint32 p = Some (v, rest)"
  shows "\<exists>pre. p = pre @ rest \<and> pre \<noteq> [] \<and> length pre \<le> 5"
  using GetVarint_loop_suffix [of 28 0 0 p v rest] assms
  by (fastforce simp: GetVarint32_def GetVarint32Ptr_loop)

lemma GetVarint64_suffix:
  assumes "GetVarint64 p = Some (v, rest)"
  shows "\<exists>pre. p = pre @ rest \<and> pre \<noteq> [] \<and> length pre \<le> 10"
  using GetVarint_loop_suffix [of 63 0 0 p v rest] assms
  by (fastforce simp: GetVarint64_def GetVarint64Ptr_def)

lemma GetVarint_Nil_None [simp]: "GetVarint32 [] = None" "GetVarint64 [] = None"
  by (simp_all add: GetVarint32_def GetVarint32Ptr_loop GetVarint64_def GetVarint64Ptr_def)

lemma GetLengthPrefixedSlice_Put [simp, codec_simps]:
  "length value < 2 ^ 32 \<Longrightarrow>
   GetLengthPrefixedSlice (PutLengthPrefixedSlice [] value @ rest) = Some (value, rest)"
  by (simp add: GetLengthPrefixedSlice_def PutLengthPrefixedSlice_def PutVarint32_def
      remove_prefix_def unat_of_nat_32)

lemma GetLengthPrefixedSlice_suffix:
  assumes "GetLengthPrefixedSlice input = Some (r, rest)"
  shows "\<exists>pre. input = pre @ r @ rest \<and> pre \<noteq> [] \<and> length pre \<le> 5"
proof -
  obtain len q where g: "GetVarint32 input = Some (len, q)" and q: "q = r @ rest"
    using assms by (auto simp: GetLengthPrefixedSlice_def remove_prefix_def split: option.splits if_splits)
  show ?thesis using GetVarint32_suffix [OF g] q by auto
qed

lemma PutLengthPrefixedSlice_append:
  "PutLengthPrefixedSlice dst value = dst @ PutLengthPrefixedSlice [] value"
  by (simp add: PutLengthPrefixedSlice_def PutVarint32_def)

end
