(* ===== verification/Lcg_Random.thy ===== *)
theory Lcg_Random imports Prelude begin

text \<open>
  \<^verbatim>\<open>util/random.h\<close>: the linear congruential generator the skip list draws heights from. The
  state is the 32-bit seed; \<open>Next\<close> returns the new seed. The reduction modulo \<open>2\<^sup>31 - 1\<close> is done
  by shifting and adding, and is proved equal to the remainder.
\<close>

definition Random_init :: "uint32 \<Rightarrow> uint32" where
  "Random_init s =
     (let seed = s AND 0x7fffffff in if seed = 0 \<or> seed = 2147483647 then 1 else seed)"

definition Random_Next :: "uint32 \<Rightarrow> uint32" where
  "Random_Next seed =
     (let M = 2147483647 :: uint32; A = 16807 :: uint64;
          product = ucast seed * A;
          seed' = ucast (drop_bit 31 product + (product AND ucast M)) :: uint32
      in if seed' > M then seed' - M else seed')"

definition Random_Uniform :: "uint32 \<Rightarrow> uint32 \<Rightarrow> uint32 \<times> uint32" where
  "Random_Uniform seed n = (let s = Random_Next seed in (s mod n, s))"

definition Random_OneIn :: "uint32 \<Rightarrow> uint32 \<Rightarrow> bool \<times> uint32" where
  "Random_OneIn seed n = (let s = Random_Next seed in (s mod n = 0, s))"

definition Random_Skewed :: "uint32 \<Rightarrow> uint32 \<Rightarrow> uint32 \<times> uint32" where
  "Random_Skewed seed max_log =
     (let (base, s) = Random_Uniform seed (max_log + 1)
      in Random_Uniform s (push_bit (unat base) 1))"

definition seed_ok :: "uint32 \<Rightarrow> bool" where
  "seed_ok s \<longleftrightarrow> 0 < unat s \<and> unat s < 2147483647"

lemma unat_and_mask31: "unat ((x :: 'a::len word) AND 2147483647) = unat x mod 2 ^ 31"
proof -
  have "x AND 2147483647 = take_bit 31 x"
    by (simp add: take_bit_eq_mask mask_eq_exp_minus_1)
  then show ?thesis
    by (simp only: unsigned_take_bit_eq) (simp add: take_bit_eq_mod)
qed

lemma Random_init_ok: "seed_ok (Random_init s)"
proof -
  let ?s = "s AND 2147483647"
  have "unat ?s < 2147483648" by (simp only: unat_and_mask31) simp
  moreover have "?s \<noteq> 0 \<Longrightarrow> unat ?s \<noteq> 0" by (simp add: unat_eq_zero)
  moreover have "?s \<noteq> 2147483647 \<Longrightarrow> unat ?s \<noteq> 2147483647"
    by (simp add: word_unat_eq_iff)
  ultimately show ?thesis
    by (auto simp: seed_ok_def Random_init_def Let_def)
qed

lemma mersenne_split:
  fixes p :: nat
  shows "(p div 2 ^ 31 + p mod 2 ^ 31) mod 2147483647 = p mod 2147483647"
proof -
  have "p = 2147483647 * (p div 2 ^ 31) + (p div 2 ^ 31 + p mod 2 ^ 31)"
    using div_mult_mod_eq [of p "2 ^ 31"] by simp
  then show ?thesis by (metis mod_mult_self4)
qed

lemma multiplier_coprime: "coprime (2147483647 :: nat) 16807"
  by (simp add: coprime_iff_gcd_eq_1 gcd_non_0_nat)

lemma Random_Next_unat:
  assumes "unat seed < 2147483647"
  shows "unat (Random_Next seed) = unat seed * 16807 mod 2147483647"
proof -
  define p where "p = unat seed * 16807"
  have p: "p < 2147483647 * 16807" using assms by (simp add: p_def)
  have prod: "unat (ucast seed * 16807 :: uint64) = p"
    using p by (simp add: unat_word_ariths p_def unsigned_ucast_eq take_bit_eq_mod)
  define q where "q = p div 2 ^ 31 + p mod 2 ^ 31"
  have "p div 2 ^ 31 < 16807" using p by (simp add: less_mult_imp_div_less)
  moreover have "p mod 2 ^ 31 < 2 ^ 31" by simp
  ultimately have q: "q < 2 ^ 32" by (simp add: q_def)
  have "unat (drop_bit 31 (ucast seed * 16807 :: uint64)) = p div 2 ^ 31"
    "unat ((ucast seed * 16807 :: uint64) AND 2147483647) = p mod 2 ^ 31"
    by (simp_all only: unat_drop_bit_nat unat_and_mask31 prod)
  then have s': "unat (ucast (drop_bit 31 (ucast seed * 16807) + (ucast seed * 16807 AND 2147483647) :: uint64) :: uint32) = q"
    using q by (simp add: unsigned_ucast_eq take_bit_eq_mod unat_word_ariths q_def)
  have qM: "q mod 2147483647 = p mod 2147483647"
    unfolding q_def by (rule mersenne_split)
  have "q \<noteq> 2147483647"
  proof
    assume "q = 2147483647"
    then have "2147483647 dvd unat seed * 16807" using qM by (simp add: p_def dvd_eq_mod_eq_0)
    then have "2147483647 dvd unat seed"
      using multiplier_coprime by (simp add: coprime_dvd_mult_left_iff)
    then have "unat seed = 0" using assms by (auto dest: dvd_imp_le)
    then have "q = 0" by (simp add: q_def p_def)
    with \<open>q = 2147483647\<close> show False by simp
  qed
  moreover have "q < 2147483647 + 16807"
    using \<open>p div 2 ^ 31 < 16807\<close> \<open>p mod 2 ^ 31 < 2 ^ 31\<close> by (simp add: q_def)
  ultimately have "(if q > 2147483647 then q - 2147483647 else q) = q mod 2147483647"
    by (auto simp: le_mod_geq)
  moreover have "unat (Random_Next seed) = (if q > 2147483647 then q - 2147483647 else q)"
    using s' by (simp add: Random_Next_def Let_def word_less_nat_alt unat_sub word_le_nat_alt)
  ultimately show ?thesis using qM by (simp add: p_def)
qed

lemma Random_Next_ok:
  assumes "seed_ok seed"
  shows "seed_ok (Random_Next seed)"
proof -
  have lt: "unat seed < 2147483647" and pos: "0 < unat seed"
    using assms by (simp_all add: seed_ok_def)
  have "\<not> 2147483647 dvd unat seed * 16807"
  proof
    assume "2147483647 dvd unat seed * 16807"
    then have "2147483647 dvd unat seed"
      using multiplier_coprime by (simp add: coprime_dvd_mult_left_iff)
    then show False using lt pos by (auto dest: dvd_imp_le)
  qed
  then show ?thesis
    by (auto simp: seed_ok_def Random_Next_unat [OF lt] dvd_eq_mod_eq_0)
qed

text \<open>
  The generator's shift-and-add step is multiplication by 16807 modulo \<open>2\<^sup>31 - 1\<close>, and from a
  seed in \<open>[1, 2\<^sup>31 - 2]\<close>, which the constructor guarantees, it never reaches the absorbing
  seeds 0 and \<open>2\<^sup>31 - 1\<close>.
\<close>

theorem Random_Next_is_modmult:
  assumes "seed_ok seed"
  shows "unat (Random_Next seed) = unat seed * 16807 mod (2 ^ 31 - 1) \<and> seed_ok (Random_Next seed)"
  using assms by (simp add: Random_Next_unat Random_Next_ok seed_ok_def [of seed])

theorem Random_Next_is_modmult_witness:
  "seed_ok (Random_init 0xdeadbeef)
   \<and> unat (Random_Next (Random_init 0xdeadbeef)) = unat (Random_init 0xdeadbeef) * 16807 mod (2 ^ 31 - 1)"
  using Random_Next_is_modmult [OF Random_init_ok] Random_init_ok by blast

end
