(* ===== verification/Arena.thy ===== *)
theory Arena imports Prelude begin

text \<open>
  \<^verbatim>\<open>util/arena.h\<close> and \<^verbatim>\<open>util/arena.cc\<close>: the bump allocator the memtable and the skip list
  take their memory from. The state keeps the size of each block; a pointer is a block number
  with an offset in it. Blocks come from \<open>new char[]\<close>, whose result is aligned for every type,
  so the low bits of an address are those of its offset. The ghost list of the regions handed
  out states that they never overlap.
\<close>

section \<open>State and operations\<close>

type_synonym arena_ptr = "nat \<times> nat"

record arena =
  alloc_ptr :: "arena_ptr option"
  alloc_bytes_remaining :: nat
  blocks :: "nat list"
  blocks_memory :: nat

definition kBlockSize :: nat where
  "kBlockSize = 4096"

definition Arena_init :: arena where
  "Arena_init = \<lparr>alloc_ptr = None, alloc_bytes_remaining = 0, blocks = [], blocks_memory = 0\<rparr>"

definition ptr_add :: "arena_ptr option \<Rightarrow> nat \<Rightarrow> arena_ptr option" where
  "ptr_add p n = map_option (\<lambda>(b, off). (b, off + n)) p"

definition AllocateNewBlock :: "arena \<Rightarrow> nat \<Rightarrow> arena_ptr option \<times> arena" where
  "AllocateNewBlock a block_bytes =
     (Some (length (blocks a), 0),
      a\<lparr>blocks_memory := blocks_memory a + block_bytes, blocks := blocks a @ [block_bytes]\<rparr>)"

definition AllocateFallback :: "arena \<Rightarrow> nat \<Rightarrow> arena_ptr option \<times> arena" where
  "AllocateFallback a bytes =
     (if bytes > kBlockSize div 4 then AllocateNewBlock a bytes
      else let (p, a) = AllocateNewBlock a kBlockSize;
               a = a\<lparr>alloc_ptr := p, alloc_bytes_remaining := kBlockSize\<rparr>;
               result = alloc_ptr a
           in (result, a\<lparr>alloc_ptr := ptr_add (alloc_ptr a) bytes,
                         alloc_bytes_remaining := alloc_bytes_remaining a - bytes\<rparr>))"

definition Allocate :: "arena \<Rightarrow> nat \<Rightarrow> arena_ptr option \<times> arena" where
  "Allocate a bytes =
     (if bytes \<le> alloc_bytes_remaining a
      then (alloc_ptr a, a\<lparr>alloc_ptr := ptr_add (alloc_ptr a) bytes,
                           alloc_bytes_remaining := alloc_bytes_remaining a - bytes\<rparr>)
      else AllocateFallback a bytes)"

text \<open>The low three bits of the address \<open>alloc_ptr_\<close>; a null pointer has none set.\<close>

definition current_mod :: "arena \<Rightarrow> nat" where
  "current_mod a = (case alloc_ptr a of None \<Rightarrow> 0 | Some (_, off) \<Rightarrow> off mod 8)"

definition AllocateAligned :: "arena \<Rightarrow> nat \<Rightarrow> arena_ptr option \<times> arena" where
  "AllocateAligned a bytes =
     (let align = 8;
          slop = (if current_mod a = 0 then 0 else align - current_mod a);
          needed = bytes + slop
      in if needed \<le> alloc_bytes_remaining a
         then (ptr_add (alloc_ptr a) slop,
               a\<lparr>alloc_ptr := ptr_add (alloc_ptr a) needed,
                 alloc_bytes_remaining := alloc_bytes_remaining a - needed\<rparr>)
         else AllocateFallback a bytes)"

text \<open>The capacity of the vector of blocks is the standard library's choice, a parameter.\<close>

definition MemoryUsage :: "(nat \<Rightarrow> nat) \<Rightarrow> arena \<Rightarrow> nat" where
  "MemoryUsage capacity a = blocks_memory a + capacity (length (blocks a)) * 8"

section \<open>Runs of an arena\<close>

type_synonym region = "arena_ptr \<times> nat"

fun disjoint_regions :: "region \<Rightarrow> region \<Rightarrow> bool" where
  "disjoint_regions ((b, off), n) ((b', off'), n') \<longleftrightarrow> b \<noteq> b' \<or> off + n \<le> off' \<or> off' + n' \<le> off"

inductive arena_run :: "arena \<Rightarrow> region list \<Rightarrow> bool" where
  init: "arena_run Arena_init []"
| alloc: "arena_run a rs \<Longrightarrow> 0 < n \<Longrightarrow> Allocate a n = (Some p, a') \<Longrightarrow> arena_run a' ((p, n) # rs)"
| aligned: "arena_run a rs \<Longrightarrow> 0 < n \<Longrightarrow> AllocateAligned a n = (Some p, a') \<Longrightarrow> arena_run a' ((p, n) # rs)"

definition arena_inv :: "arena \<Rightarrow> region list \<Rightarrow> bool" where
  "arena_inv a rs \<longleftrightarrow>
     (case alloc_ptr a of
        None \<Rightarrow> alloc_bytes_remaining a = 0
      | Some (b, off) \<Rightarrow> b < length (blocks a) \<and> off + alloc_bytes_remaining a = blocks a ! b
          \<and> (\<forall>((b', off'), n) \<in> set rs. b' = b \<longrightarrow> off' + n \<le> off)) \<and>
     (\<forall>((b, off), n) \<in> set rs. b < length (blocks a) \<and> off + n \<le> blocks a ! b) \<and>
     pairwise disjoint_regions (set rs) \<and> distinct rs \<and> blocks_memory a = sum_list (blocks a)"

lemma region_cases [case_names region]:
  obtains b off n where "r = (((b, off), n) :: region)"
  by (metis surj_pair)

lemma disjoint_regions_sym: "disjoint_regions r s \<Longrightarrow> disjoint_regions s r"
  by (cases r rule: region_cases; cases s rule: region_cases) auto

lemma arena_inv_init: "arena_inv Arena_init []"
  by (simp add: arena_inv_def Arena_init_def)

text \<open>A region from the free part of the current block, and one in a new block.\<close>

lemma arena_inv_bump:
  assumes inv: "arena_inv a rs" and p: "alloc_ptr a = Some (b, off)" and n: "0 < n"
    and le: "slop + n \<le> alloc_bytes_remaining a"
  shows "arena_inv (a\<lparr>alloc_ptr := Some (b, off + (slop + n)),
     alloc_bytes_remaining := alloc_bytes_remaining a - (slop + n)\<rparr>) (((b, off + slop), n) # rs)"
proof -
  have old: "disjoint_regions ((b, off + slop), n) r" if "r \<in> set rs" for r
    using inv that p by (cases r rule: region_cases) (auto simp: arena_inv_def)
  have new: "((b, off + slop), n) \<notin> set rs"
    using inv p n by (auto simp: arena_inv_def)
  show ?thesis
    using inv p le new by (auto simp: arena_inv_def pairwise_insert old disjoint_regions_sym)
qed

lemma arena_inv_new_block:
  assumes inv: "arena_inv a rs" and n: "0 < n" "n \<le> sz"
    and a': "a' = snd (AllocateNewBlock a sz)"
  shows "arena_inv a' (((length (blocks a), 0), n) # rs)"
    and "arena_inv (a'\<lparr>alloc_ptr := Some (length (blocks a), n), alloc_bytes_remaining := sz - n\<rparr>)
           (((length (blocks a), 0), n) # rs)"
proof -
  have old: "disjoint_regions ((length (blocks a), 0), n) r" "fst (fst r) \<noteq> length (blocks a)"
    if "r \<in> set rs" for r
    using inv that by (cases r rule: region_cases; fastforce simp: arena_inv_def)+
  have new: "((length (blocks a), 0), n) \<notin> set rs"
    using old(2) by fastforce
  have in_new: "\<forall>((b, off), k) \<in> set rs. b < Suc (length (blocks a)) \<and> off + k \<le> (blocks a @ [sz]) ! b"
    using inv by (fastforce simp: arena_inv_def nth_append)
  show "arena_inv a' (((length (blocks a), 0), n) # rs)"
    using inv n new in_new old(1)
    by (auto simp: arena_inv_def a' AllocateNewBlock_def pairwise_insert disjoint_regions_sym nth_append
        split: option.splits)
  show "arena_inv (a'\<lparr>alloc_ptr := Some (length (blocks a), n), alloc_bytes_remaining := sz - n\<rparr>)
           (((length (blocks a), 0), n) # rs)"
    using inv n new in_new old
    by (auto simp: arena_inv_def a' AllocateNewBlock_def pairwise_insert disjoint_regions_sym nth_append)
qed

lemma AllocateFallback_inv:
  assumes "arena_inv a rs" "0 < n" "AllocateFallback a n = (p, a')"
  shows "\<exists>b. p = Some (b, 0) \<and> arena_inv a' (((b, 0), n) # rs)"
  using assms arena_inv_new_block [of a rs n n] arena_inv_new_block [of a rs n kBlockSize]
  by (auto simp: AllocateFallback_def Let_def AllocateNewBlock_def ptr_add_def kBlockSize_def split: if_splits)

lemma Allocate_inv:
  assumes inv: "arena_inv a rs" and n: "0 < n" and r: "Allocate a n = (p, a')"
  shows "\<exists>q. p = Some q \<and> arena_inv a' ((q, n) # rs)"
proof (cases "n \<le> alloc_bytes_remaining a")
  case True
  then obtain b off where b: "alloc_ptr a = Some (b, off)"
    using inv n by (cases "alloc_ptr a") (auto simp: arena_inv_def)
  then show ?thesis
    using True r arena_inv_bump [OF inv b n, of 0] by (auto simp: Allocate_def ptr_add_def b)
next
  case False
  then show ?thesis using AllocateFallback_inv [OF inv n] r by (fastforce simp: Allocate_def)
qed

lemma AllocateAligned_inv:
  assumes inv: "arena_inv a rs" and n: "0 < n" and r: "AllocateAligned a n = (p, a')"
  shows "\<exists>q. p = Some q \<and> snd q mod 8 = 0 \<and> arena_inv a' ((q, n) # rs)"
proof -
  define slop where "slop = (if current_mod a = 0 then 0 else 8 - current_mod a)"
  show ?thesis
  proof (cases "slop + n \<le> alloc_bytes_remaining a")
    case True
    then obtain b off where b: "alloc_ptr a = Some (b, off)"
      using inv n by (cases "alloc_ptr a") (auto simp: arena_inv_def)
    have "(off + slop) mod 8 = 0"
      unfolding slop_def current_mod_def b by simp presburger
    then show ?thesis
      using True r b arena_inv_bump [OF inv b n, of slop]
      by (auto simp: AllocateAligned_def ptr_add_def Let_def add.commute add.left_commute simp flip: slop_def)
  next
    case False
    then show ?thesis
      using AllocateFallback_inv [OF inv n, of p a'] r
      by (auto simp: AllocateAligned_def Let_def add.commute simp flip: slop_def)
  qed
qed

lemma arena_run_inv: "arena_run a rs \<Longrightarrow> arena_inv a rs"
proof (induction rule: arena_run.induct)
  case init
  show ?case by (rule arena_inv_init)
next
  case (alloc a rs n p a')
  then show ?case using Allocate_inv [of a rs n "Some p" a'] by simp
next
  case (aligned a rs n p a')
  then show ?case using AllocateAligned_inv [of a rs n "Some p" a'] by simp
qed



end
