(* ===== verification/Comparators.thy ===== *)
theory Comparators imports Slice begin

text \<open>
  \<^verbatim>\<open>include/leveldb/comparator.h\<close> and \<^verbatim>\<open>util/comparator.cc\<close>. The abstract class
  \<open>Comparator\<close> is the interface the skip list, the blocks, the iterators and the internal keys
  are written against; here it is a hierarchy of locales whose assumptions are the laws its
  comments promise. \<open>valid\<close> is the set of keys on which a comparator may be called.
  The bytewise comparator is the code's default implementation and interprets them.
\<close>

section \<open>The interface\<close>

locale comparator =
  fixes cmp :: "'a \<Rightarrow> 'a \<Rightarrow> int"
    and valid :: "'a \<Rightarrow> bool"
  assumes cmp_refl: "valid a \<Longrightarrow> cmp a a = 0"
    and cmp_swap: "valid a \<Longrightarrow> valid b \<Longrightarrow> cmp a b < 0 \<longleftrightarrow> cmp b a > 0"
    and cmp_trans: "valid a \<Longrightarrow> valid b \<Longrightarrow> valid c \<Longrightarrow> cmp a b \<le> 0 \<Longrightarrow> cmp b c \<le> 0 \<Longrightarrow> cmp a c \<le> 0"
begin

lemma cmp_zero_sym: "valid a \<Longrightarrow> valid b \<Longrightarrow> cmp a b = 0 \<longleftrightarrow> cmp b a = 0"
  using cmp_swap [of a b] cmp_swap [of b a] by linarith

lemma cmp_le_iff: "valid a \<Longrightarrow> valid b \<Longrightarrow> cmp a b \<le> 0 \<longleftrightarrow> \<not> cmp b a < 0"
  using cmp_swap [of a b] cmp_swap [of b a] by linarith

lemma cmp_le_less_trans:
  "valid a \<Longrightarrow> valid b \<Longrightarrow> valid c \<Longrightarrow> cmp a b \<le> 0 \<Longrightarrow> cmp b c < 0 \<Longrightarrow> cmp a c < 0"
  using cmp_trans [of c a b] cmp_le_iff [of c a] cmp_le_iff [of c b] by auto

lemma cmp_less_le_trans:
  "valid a \<Longrightarrow> valid b \<Longrightarrow> valid c \<Longrightarrow> cmp a b < 0 \<Longrightarrow> cmp b c \<le> 0 \<Longrightarrow> cmp a c < 0"
  using cmp_trans [of b c a] cmp_le_iff [of c a] cmp_le_iff [of b a] by auto

lemma cmp_less_trans:
  "valid a \<Longrightarrow> valid b \<Longrightarrow> valid c \<Longrightarrow> cmp a b < 0 \<Longrightarrow> cmp b c < 0 \<Longrightarrow> cmp a c < 0"
  by (rule cmp_le_less_trans [of a b c]) simp_all

lemma cmp_irrefl: "valid a \<Longrightarrow> \<not> cmp a a < 0"
  by (simp add: cmp_refl)

end

locale total_comparator = comparator +
  assumes cmp_eq: "valid a \<Longrightarrow> valid b \<Longrightarrow> cmp a b = 0 \<Longrightarrow> a = b"
begin

lemma cmp_eq_iff: "valid a \<Longrightarrow> valid b \<Longrightarrow> cmp a b = 0 \<longleftrightarrow> a = b"
  using cmp_eq cmp_refl by blast

end

text \<open>
  The methods that shorten keys: \<open>FindShortestSeparator\<close>, which if \<open>start < limit\<close> changes
  \<open>start\<close> to a string in \<open>[start, limit)\<close> and otherwise leaves it, and \<open>FindShortSuccessor\<close>
  (a string \<open>\<ge> key\<close>).
\<close>

locale key_comparator = total_comparator cmp valid
  for cmp :: "'a \<Rightarrow> 'a \<Rightarrow> int" and valid +
  fixes sep :: "'a \<Rightarrow> 'a \<Rightarrow> 'a" and succ :: "'a \<Rightarrow> 'a"
  assumes sep_valid: "valid start \<Longrightarrow> valid limit \<Longrightarrow> valid (sep start limit)"
    and sep_ge: "valid start \<Longrightarrow> valid limit \<Longrightarrow> cmp start limit < 0 \<Longrightarrow> cmp start (sep start limit) \<le> 0"
    and sep_less: "valid start \<Longrightarrow> valid limit \<Longrightarrow> cmp start limit < 0 \<Longrightarrow> cmp (sep start limit) limit < 0"
    and sep_unchanged: "valid start \<Longrightarrow> valid limit \<Longrightarrow> \<not> cmp start limit < 0 \<Longrightarrow> sep start limit = start"
    and succ_valid: "valid key \<Longrightarrow> valid (succ key)"
    and succ_ge: "valid key \<Longrightarrow> cmp key (succ key) \<le> 0"

section \<open>The bytewise comparator\<close>

text \<open>The loop that finds the length of the common prefix of two strings.\<close>

function prefix_loop :: "nat \<Rightarrow> nat \<Rightarrow> bytes \<Rightarrow> bytes \<Rightarrow> nat" where
  "prefix_loop i min_length a b =
     (if i < min_length \<and> a ! i = b ! i then prefix_loop (Suc i) min_length a b else i)"
  by pat_completeness auto
termination by (relation "measure (\<lambda>(i, n, _). n - i)") auto

declare prefix_loop.simps [simp del]

definition bytewise_Compare :: "bytes \<Rightarrow> bytes \<Rightarrow> int" where
  "bytewise_Compare a b = slice_compare a b"

definition bytewise_FindShortestSeparator :: "bytes \<Rightarrow> bytes \<Rightarrow> bytes" where
  "bytewise_FindShortestSeparator start limit =
     (let min_length = min (length start) (length limit);
          diff_index = prefix_loop 0 min_length start limit
      in if diff_index \<ge> min_length then start
         else let diff_byte = start ! diff_index
              in if diff_byte < 0xff \<and> unat diff_byte + 1 < unat (limit ! diff_index)
                 then take (diff_index + 1) (start[diff_index := diff_byte + 1])
                 else start)"

fun short_successor_loop :: "bytes \<Rightarrow> bytes \<Rightarrow> bytes" where
  "short_successor_loop pre [] = pre"
| "short_successor_loop pre (b # key) =
     (if b \<noteq> 0xff then pre @ [b + 1] else short_successor_loop (pre @ [b]) key)"

definition bytewise_FindShortSuccessor :: "bytes \<Rightarrow> bytes" where
  "bytewise_FindShortSuccessor key = short_successor_loop [] key"

lemma prefix_loop_spec:
  assumes "i \<le> n" "n \<le> length a" "n \<le> length b" "take i a = take i b"
  shows "i \<le> prefix_loop i n a b" "prefix_loop i n a b \<le> n"
    "take (prefix_loop i n a b) a = take (prefix_loop i n a b) b"
    "prefix_loop i n a b < n \<Longrightarrow> a ! prefix_loop i n a b \<noteq> b ! prefix_loop i n a b"
proof -
  let ?r = "prefix_loop i n a b"
  have "i \<le> ?r \<and> ?r \<le> n \<and> take ?r a = take ?r b \<and> (?r < n \<longrightarrow> a ! ?r \<noteq> b ! ?r)"
    using assms
  proof (induction i n a b rule: prefix_loop.induct)
    case (1 i n a b)
    show ?case
    proof (cases "i < n \<and> a ! i = b ! i")
      case True
      with 1 have "take (Suc i) a = take (Suc i) b"
        by (simp add: take_Suc_conv_app_nth)
      with 1 True show ?thesis by (auto simp: prefix_loop.simps [of i n a b])
    next
      case False
      with 1 show ?thesis by (auto simp: prefix_loop.simps [of i n a b])
    qed
  qed
  then show "i \<le> ?r" "?r \<le> n" "take ?r a = take ?r b" "?r < n \<Longrightarrow> a ! ?r \<noteq> b ! ?r"
    by blast+
qed

lemmas prefix_loop_0 = prefix_loop_spec [where i = 0, simplified]

lemma slice_compare_common_prefix [simp]: "slice_compare (p @ a) (p @ b) = slice_compare a b"
  by (induction p) simp_all

lemma slice_compare_refl [simp]: "slice_compare a a = 0"
  by simp

lemma slice_compare_prefix: "slice_compare a (a @ b) \<le> 0"
  using slice_compare_common_prefix [of a "[]" b] by (cases b) simp_all

lemma unat_byte_plus1: "b < 255 \<Longrightarrow> unat (b + (1 :: byte)) = unat b + 1"
  by (simp add: unat_word_ariths word_less_nat_alt)

lemma byte_plus1_less: "b < 255 \<Longrightarrow> b < b + (1 :: byte)"
  by (simp add: word_less_nat_alt [of b "b + 1"] unat_byte_plus1)

lemma byte_ne_255_less: "b \<noteq> 255 \<Longrightarrow> b < (255 :: byte)"
proof -
  assume "b \<noteq> 255"
  then have "unat b \<noteq> unat (255 :: byte)" by (metis word_unat_eq_iff)
  then show ?thesis using unat_byte_less [of b] by (simp add: word_less_nat_alt)
qed

lemma bytewise_separator:
  assumes "slice_compare start limit < 0"
  defines "s \<equiv> bytewise_FindShortestSeparator start limit"
  shows "slice_compare start s \<le> 0" "slice_compare s limit < 0" "length s \<le> length start"
proof -
  define n where "n = min (length start) (length limit)"
  define d where "d = prefix_loop 0 n start limit"
  have "slice_compare start s \<le> 0 \<and> slice_compare s limit < 0 \<and> length s \<le> length start"
  proof (cases "d < n \<and> start ! d < 0xff \<and> unat (start ! d) + 1 < unat (limit ! d)")
    case False
    then have "s = start"
      by (auto simp: s_def bytewise_FindShortestSeparator_def Let_def d_def n_def)
    with assms(1) show ?thesis by simp
  next
    case True
    have pre: "take d start = take d limit"
      unfolding d_def by (rule prefix_loop_0) (simp_all add: n_def)
    define p x y u v where "p = take d start" and "x = start ! d" and "y = limit ! d"
      and "u = drop (Suc d) start" and "v = drop (Suc d) limit"
    have len: "d < length start" "d < length limit" using True by (simp_all add: n_def)
    have st: "start = p @ x # u"
      using len by (simp add: p_def x_def u_def id_take_nth_drop)
    have li: "limit = p @ y # v"
      using len by (simp add: p_def y_def v_def pre id_take_nth_drop)
    have s: "s = p @ [x + 1]"
      using True len by (simp add: s_def bytewise_FindShortestSeparator_def Let_def p_def x_def
          take_update_swap take_Suc_conv_app_nth list_update_append flip: d_def n_def)
    have "x < x + 1" using True by (simp add: x_def byte_plus1_less)
    moreover have "x + 1 < y"
      using True by (simp add: x_def y_def word_less_nat_alt unat_byte_plus1)
    ultimately show ?thesis
      by (auto simp: s st li)
  qed
  then show "slice_compare start s \<le> 0" "slice_compare s limit < 0" "length s \<le> length start"
    by blast+
qed

lemma bytewise_separator_unchanged:
  assumes "\<not> slice_compare start limit < 0"
  shows "bytewise_FindShortestSeparator start limit = start"
proof (rule ccontr)
  define n where "n = min (length start) (length limit)"
  define d where "d = prefix_loop 0 n start limit"
  assume "bytewise_FindShortestSeparator start limit \<noteq> start"
  then have d: "d < n" "start ! d < 0xff" "unat (start ! d) + 1 < unat (limit ! d)"
    by (auto simp: bytewise_FindShortestSeparator_def Let_def d_def n_def split: if_splits)
  have pre: "take d start = take d limit"
    unfolding d_def by (rule prefix_loop_0) (simp_all add: n_def)
  have len: "d < length start" "d < length limit" using d by (simp_all add: n_def)
  have "start = take d start @ start ! d # drop (Suc d) start" using len by (simp add: id_take_nth_drop)
  moreover have "limit = take d start @ limit ! d # drop (Suc d) limit"
    using len by (simp add: pre id_take_nth_drop)
  moreover have "start ! d < limit ! d" using d by (simp add: word_less_nat_alt)
  ultimately have "slice_compare start limit = -1"
    by (metis slice_compare_common_prefix slice_compare_simps(4) order_less_irrefl)
  with assms show False by simp
qed

lemma short_successor_loop_spec:
  "slice_compare (pre @ key) (short_successor_loop pre key) \<le> 0
   \<and> length (short_successor_loop pre key) \<le> length pre + length key"
proof (induction pre key rule: short_successor_loop.induct)
  case (1 pre)
  then show ?case by simp
next
  case (2 pre b key)
  show ?case
  proof (cases "b = 0xff")
    case True
    with 2 show ?thesis by simp
  next
    case False
    then show ?thesis using byte_plus1_less [OF byte_ne_255_less [of b]] by auto
  qed
qed

interpretation bytewise: key_comparator bytewise_Compare "\<lambda>_. True"
    bytewise_FindShortestSeparator bytewise_FindShortSuccessor
proof unfold_locales
  fix a b c :: bytes
  show "bytewise_Compare a a = 0"
    by (simp add: bytewise_Compare_def)
  show "bytewise_Compare a b < 0 \<longleftrightarrow> bytewise_Compare b a > 0"
    using slice_compare_antisym [of a b] by (simp add: bytewise_Compare_def)
  show "bytewise_Compare a b \<le> 0 \<Longrightarrow> bytewise_Compare b c \<le> 0 \<Longrightarrow> bytewise_Compare a c \<le> 0"
    using slice_compare_less_trans [of a b c]
    by (auto simp: bytewise_Compare_def order.order_iff_strict)
  show "bytewise_Compare a b = 0 \<Longrightarrow> a = b"
    by (simp add: bytewise_Compare_def)
next
  fix start limit key :: bytes
  show "bytewise_Compare start limit < 0 \<Longrightarrow>
      bytewise_Compare start (bytewise_FindShortestSeparator start limit) \<le> 0"
    "bytewise_Compare start limit < 0 \<Longrightarrow>
      bytewise_Compare (bytewise_FindShortestSeparator start limit) limit < 0"
    "\<not> bytewise_Compare start limit < 0 \<Longrightarrow> bytewise_FindShortestSeparator start limit = start"
    by (simp_all add: bytewise_Compare_def bytewise_separator bytewise_separator_unchanged)
  show "bytewise_Compare key (bytewise_FindShortSuccessor key) \<le> 0"
    using short_successor_loop_spec [of "[]" key]
    by (simp add: bytewise_Compare_def bytewise_FindShortSuccessor_def)
qed simp_all

text \<open>
  C24. The bytewise comparator shortens the key that separates two blocks soundly: whenever
  \<open>start < limit\<close>, the string it leaves in \<open>*start\<close> lies in \<open>[start, limit)\<close> and is no longer
  than \<open>start\<close>, which is the \<open>assert\<close> at the end of the branch that increments a byte.
\<close>

theorem bytewise_separator_sound:
  assumes "bytewise_Compare start limit < 0"
  shows "bytewise_Compare start (bytewise_FindShortestSeparator start limit) \<le> 0
    \<and> bytewise_Compare (bytewise_FindShortestSeparator start limit) limit < 0
    \<and> length (bytewise_FindShortestSeparator start limit) \<le> length start"
  using assms bytewise.sep_ge bytewise.sep_less
  by (simp add: bytewise_Compare_def bytewise_separator(3))

theorem bytewise_separator_sound_witness:
  "bytewise_Compare [1, 2, 3] [1, 9] < 0
   \<and> bytewise_FindShortestSeparator [1, 2, 3] [1, 9] = [1, 3]
   \<and> bytewise_Compare (bytewise_FindShortestSeparator [1, 2, 3] [1, 9]) [1, 9] < 0"
proof -
  have h: "bytewise_Compare [1, 2, 3] [1, 9] < 0"
    by (simp add: bytewise_Compare_def)
  have "bytewise_FindShortestSeparator [1, 2, 3] [1, 9] = [1, 3]"
    by (simp add: bytewise_FindShortestSeparator_def prefix_loop.simps Let_def)
  with h bytewise_separator_sound [OF h] show ?thesis by blast
qed

end
