(* ===== verification/SkipList.thy ===== *)
theory SkipList imports Comparators Lcg_Random begin

text \<open>
  \<^verbatim>\<open>db/skiplist.h\<close>. Nodes live in an arena and are reached by address: the state holds the
  list of allocated nodes, an address is an index of it, \<open>None\<close> is the null pointer, and the
  head node has address 0. A node has a key and its array of next links, one per level below
  its height. The search loops follow links, so they are partial functions; they are proved to
  return on every list that satisfies the representation invariant \<open>skip_rep\<close>, which relates
  the linked nodes to one sorted list of addresses: the link of a node at level \<open>l\<close> is the first
  later node higher than \<open>l\<close>. The atomic loads and stores order memory accesses between
  threads; the model is of one thread at a time.
\<close>

section \<open>Nodes and links\<close>

type_synonym addr = nat

record 'k node =
  nkey :: 'k
  nnext :: "addr option list"

record 'k skiplist =
  nodes :: "'k node list"
  max_height :: nat
  rnd :: uint32

definition kMaxHeight :: nat where
  "kMaxHeight = 12"

definition head_addr :: addr where
  "head_addr = 0"

definition node_key :: "'k skiplist \<Rightarrow> addr \<Rightarrow> 'k" where
  "node_key s x = nkey (nodes s ! x)"

definition Next :: "'k skiplist \<Rightarrow> addr \<Rightarrow> nat \<Rightarrow> addr option" where
  "Next s x n = nnext (nodes s ! x) ! n"

definition SetNext :: "'k skiplist \<Rightarrow> addr \<Rightarrow> nat \<Rightarrow> addr option \<Rightarrow> 'k skiplist" where
  "SetNext s x n y =
     s\<lparr>nodes := (nodes s)[x := (nodes s ! x)\<lparr>nnext := (nnext (nodes s ! x))[n := y]\<rparr>]\<rparr>"

definition NewNode :: "'k skiplist \<Rightarrow> 'k \<Rightarrow> nat \<Rightarrow> addr \<times> 'k skiplist" where
  "NewNode s key height =
     (length (nodes s), s\<lparr>nodes := nodes s @ [\<lparr>nkey = key, nnext = replicate height None\<rparr>]\<rparr>)"

text \<open>The constructor: a head node of full height (its key is arbitrary) with null links.\<close>

definition SkipList_init :: "'k \<Rightarrow> 'k skiplist" where
  "SkipList_init any_key =
     \<lparr>nodes = [\<lparr>nkey = any_key, nnext = replicate kMaxHeight None\<rparr>],
      max_height = 1, rnd = Random_init 0xdeadbeef\<rparr>"

section \<open>Searches\<close>

definition KeyIsAfterNode :: "('k \<Rightarrow> 'k \<Rightarrow> int) \<Rightarrow> 'k skiplist \<Rightarrow> 'k \<Rightarrow> addr option \<Rightarrow> bool" where
  "KeyIsAfterNode cmp s key n = (case n of None \<Rightarrow> False | Some y \<Rightarrow> cmp (node_key s y) key < 0)"

partial_function (option) FindGreaterOrEqual_loop ::
  "('k \<Rightarrow> 'k \<Rightarrow> int) \<Rightarrow> 'k skiplist \<Rightarrow> 'k \<Rightarrow> addr \<Rightarrow> nat \<Rightarrow> addr option list
     \<Rightarrow> (addr option \<times> addr option list) option" where
  "FindGreaterOrEqual_loop cmp s key x level prev =
     (let next = Next s x level in
      if KeyIsAfterNode cmp s key next
      then FindGreaterOrEqual_loop cmp s key (the next) level prev
      else let prev = prev[level := Some x] in
        if level = 0 then Some (next, prev)
        else FindGreaterOrEqual_loop cmp s key x (level - 1) prev)"

text \<open>The array \<open>prev\<close> is uninitialised at the call; entries above the list's height stay so.\<close>

definition FindGreaterOrEqual ::
  "('k \<Rightarrow> 'k \<Rightarrow> int) \<Rightarrow> 'k skiplist \<Rightarrow> 'k \<Rightarrow> (addr option \<times> addr option list) option" where
  "FindGreaterOrEqual cmp s key =
     FindGreaterOrEqual_loop cmp s key head_addr (max_height s - 1) (replicate kMaxHeight None)"

partial_function (option) FindLessThan_loop ::
  "('k \<Rightarrow> 'k \<Rightarrow> int) \<Rightarrow> 'k skiplist \<Rightarrow> 'k \<Rightarrow> addr \<Rightarrow> nat \<Rightarrow> addr option" where
  "FindLessThan_loop cmp s key x level =
     (case Next s x level of
        None \<Rightarrow> if level = 0 then Some x else FindLessThan_loop cmp s key x (level - 1)
      | Some y \<Rightarrow>
          if cmp (node_key s y) key \<ge> 0
          then if level = 0 then Some x else FindLessThan_loop cmp s key x (level - 1)
          else FindLessThan_loop cmp s key y level)"

definition FindLessThan :: "('k \<Rightarrow> 'k \<Rightarrow> int) \<Rightarrow> 'k skiplist \<Rightarrow> 'k \<Rightarrow> addr option" where
  "FindLessThan cmp s key = FindLessThan_loop cmp s key head_addr (max_height s - 1)"

partial_function (option) FindLast_loop :: "'k skiplist \<Rightarrow> addr \<Rightarrow> nat \<Rightarrow> addr option" where
  "FindLast_loop s x level =
     (case Next s x level of
        None \<Rightarrow> if level = 0 then Some x else FindLast_loop s x (level - 1)
      | Some y \<Rightarrow> FindLast_loop s y level)"

definition FindLast :: "'k skiplist \<Rightarrow> addr option" where
  "FindLast s = FindLast_loop s head_addr (max_height s - 1)"

section \<open>Insertion\<close>

function RandomHeight_loop :: "nat \<Rightarrow> uint32 \<Rightarrow> nat \<times> uint32" where
  "RandomHeight_loop height seed =
     (if height < kMaxHeight
      then let seed' = Random_Next seed in
        if seed' mod 4 = 0 then RandomHeight_loop (Suc height) seed' else (height, seed')
      else (height, seed))"
  by pat_completeness auto
termination by (relation "measure (\<lambda>(height, _). kMaxHeight - height)") auto

declare RandomHeight_loop.simps [simp del]

definition RandomHeight :: "uint32 \<Rightarrow> nat \<times> uint32" where
  "RandomHeight seed = RandomHeight_loop 1 seed"

fun link_levels :: "'k skiplist \<Rightarrow> addr \<Rightarrow> addr option list \<Rightarrow> nat list \<Rightarrow> 'k skiplist" where
  "link_levels s x prev [] = s"
| "link_levels s x prev (i # is) =
     (let p = the (prev ! i);
          s = SetNext s x i (Next s p i);
          s = SetNext s p i (Some x)
      in link_levels s x prev is)"

definition Insert :: "('k \<Rightarrow> 'k \<Rightarrow> int) \<Rightarrow> 'k skiplist \<Rightarrow> 'k \<Rightarrow> 'k skiplist option" where
  "Insert cmp s key =
     (case FindGreaterOrEqual cmp s key of
        None \<Rightarrow> None
      | Some (_, prev) \<Rightarrow>
          let (height, seed) = RandomHeight (rnd s);
              s = s\<lparr>rnd := seed\<rparr>;
              prev = (if height > max_height s
                      then foldl (\<lambda>prev i. prev[i := Some head_addr]) prev [max_height s..<height]
                      else prev);
              s = (if height > max_height s then s\<lparr>max_height := height\<rparr> else s);
              (x, s) = NewNode s key height
          in Some (link_levels s x prev [0..<height]))"

definition Contains :: "('k \<Rightarrow> 'k \<Rightarrow> int) \<Rightarrow> 'k skiplist \<Rightarrow> 'k \<Rightarrow> bool option" where
  "Contains cmp s key =
     (case FindGreaterOrEqual cmp s key of
        None \<Rightarrow> None
      | Some (None, _) \<Rightarrow> Some False
      | Some (Some x, _) \<Rightarrow> Some (cmp key (node_key s x) = 0))"

section \<open>Iterators\<close>

text \<open>An iterator is the address it is positioned at; \<open>None\<close> when it is not valid.\<close>

definition iter_Valid :: "addr option \<Rightarrow> bool" where
  "iter_Valid it \<longleftrightarrow> it \<noteq> None"

definition iter_key :: "'k skiplist \<Rightarrow> addr option \<Rightarrow> 'k" where
  "iter_key s it = node_key s (the it)"

definition iter_Next :: "'k skiplist \<Rightarrow> addr option \<Rightarrow> addr option" where
  "iter_Next s it = Next s (the it) 0"

definition iter_Prev :: "('k \<Rightarrow> 'k \<Rightarrow> int) \<Rightarrow> 'k skiplist \<Rightarrow> addr option \<Rightarrow> addr option option" where
  "iter_Prev cmp s it =
     map_option (\<lambda>n. if n = head_addr then None else Some n) (FindLessThan cmp s (iter_key s it))"

definition iter_Seek :: "('k \<Rightarrow> 'k \<Rightarrow> int) \<Rightarrow> 'k skiplist \<Rightarrow> 'k \<Rightarrow> addr option option" where
  "iter_Seek cmp s target = map_option fst (FindGreaterOrEqual cmp s target)"

definition iter_SeekToFirst :: "'k skiplist \<Rightarrow> addr option" where
  "iter_SeekToFirst s = Next s head_addr 0"

definition iter_SeekToLast :: "'k skiplist \<Rightarrow> addr option option" where
  "iter_SeekToLast s = map_option (\<lambda>n. if n = head_addr then None else Some n) (FindLast s)"

section \<open>The representation invariant\<close>

definition height :: "'k skiplist \<Rightarrow> addr \<Rightarrow> nat" where
  "height s x = length (nnext (nodes s ! x))"

text \<open>
  \<open>skip_rep s xs\<close>: the addresses \<open>xs\<close>, in order, are all the nodes but the head; the position
  before all of them is the head's. A link at level \<open>l\<close> leads to the first node after its
  position that is higher than \<open>l\<close>.
\<close>

definition skip_links :: "'k skiplist \<Rightarrow> addr list \<Rightarrow> bool" where
  "skip_links s xs \<longleftrightarrow>
     (\<forall>i \<le> length xs. \<forall>l < height s ((head_addr # xs) ! i).
        Next s ((head_addr # xs) ! i) l = find (\<lambda>y. l < height s y) (drop i xs))"

definition skip_rep :: "'k skiplist \<Rightarrow> addr list \<Rightarrow> bool" where
  "skip_rep s xs \<longleftrightarrow>
     distinct xs \<and> set xs = {1..<length (nodes s)} \<and> 1 \<le> length (nodes s) \<and>
     1 \<le> max_height s \<and> max_height s \<le> kMaxHeight \<and> height s head_addr = kMaxHeight \<and>
     (\<forall>x \<in> set xs. 1 \<le> height s x \<and> height s x \<le> max_height s) \<and> skip_links s xs"

definition skip_inv :: "('k \<Rightarrow> 'k \<Rightarrow> int) \<Rightarrow> ('k \<Rightarrow> bool) \<Rightarrow> 'k skiplist \<Rightarrow> addr list \<Rightarrow> bool" where
  "skip_inv cmp valid s xs \<longleftrightarrow>
     skip_rep s xs \<and> (\<forall>x \<in> set xs. valid (node_key s x)) \<and>
     sorted_wrt (\<lambda>x y. cmp (node_key s x) (node_key s y) < 0) xs"

text \<open>The keys in order, and the number of keys below a target.\<close>

definition skip_keys :: "'k skiplist \<Rightarrow> addr list \<Rightarrow> 'k list" where
  "skip_keys s xs = map (node_key s) xs"

definition rank :: "('k \<Rightarrow> 'k \<Rightarrow> int) \<Rightarrow> 'k skiplist \<Rightarrow> addr list \<Rightarrow> 'k \<Rightarrow> nat" where
  "rank cmp s xs key = length (takeWhile (\<lambda>y. cmp (node_key s y) key < 0) xs)"

definition pred :: "'k skiplist \<Rightarrow> addr list \<Rightarrow> nat \<Rightarrow> nat \<Rightarrow> addr" where
  "pred s xs k l = last (filter (\<lambda>y. l < height s y) (head_addr # take k xs))"

lemma find_append: "find P (xs @ ys) = (case find P xs of None \<Rightarrow> find P ys | Some y \<Rightarrow> Some y)"
  by (induction xs) simp_all

lemma find_Some_set: "find P xs = Some y \<Longrightarrow> y \<in> set xs"
  by (auto simp: find_Some_iff)

lemma find_None_filter: "find P xs = None \<longleftrightarrow> filter P xs = []"
  by (auto simp: find_None_iff filter_empty_conv)

lemma position_split:
  assumes "i \<le> k" "k \<le> length xs"
  shows "head_addr # take k xs = take i (head_addr # take k xs) @ (head_addr # xs) ! i # drop i (take k xs)"
proof -
  have "i < length (head_addr # take k xs)" using assms by simp
  then have "head_addr # take k xs
      = take i (head_addr # take k xs) @ (head_addr # take k xs) ! i # drop (Suc i) (head_addr # take k xs)"
    by (rule id_take_nth_drop)
  moreover have "(head_addr # take k xs) ! i = (head_addr # xs) ! i"
    using assms by (simp add: nth_Cons')
  ultimately show ?thesis by simp
qed

lemma drop_split: "i \<le> k \<Longrightarrow> k \<le> length xs \<Longrightarrow> drop i xs = drop i (take k xs) @ drop k xs"
proof -
  assume "i \<le> k" "k \<le> length xs"
  then have "drop i (take k xs @ drop k xs) = drop i (take k xs) @ drop k xs"
    by (simp only: drop_append) simp
  then show ?thesis by simp
qed

lemma pred_eqI:
  assumes "i \<le> k" "k \<le> length xs" "l < height s ((head_addr # xs) ! i)"
    and "find (\<lambda>y. l < height s y) (drop i (take k xs)) = None"
  shows "pred s xs k l = (head_addr # xs) ! i"
  unfolding pred_def using assms(3,4)
  by (subst position_split [OF assms(1,2)]) (simp add: find_None_filter del: drop_take)

lemma pred_eqD:
  assumes "i \<le> k" "k \<le> length xs" "l < height s ((head_addr # xs) ! i)" "distinct (head_addr # xs)"
    and "pred s xs k l = (head_addr # xs) ! i"
  shows "find (\<lambda>y. l < height s y) (drop i (take k xs)) = None"
proof (rule ccontr)
  let ?P = "\<lambda>y. l < height s y"
  assume "\<not> ?thesis"
  then have ne: "filter ?P (drop i (take k xs)) \<noteq> []"
    by (simp only: find_None_filter not_False_eq_True)
  have "pred s xs k l = last (filter ?P (drop i (take k xs)))"
    unfolding pred_def using assms(3) ne
    by (subst position_split [OF assms(1,2)]) (simp del: drop_take)
  then have "pred s xs k l \<in> set (drop i (take k xs))"
    using last_in_set [OF ne] by (simp del: drop_take)
  moreover have "distinct (take i (head_addr # take k xs) @ (head_addr # xs) ! i # drop i (take k xs))"
    using assms(4) by (simp only: position_split [OF assms(1,2), symmetric]) (auto dest: in_set_takeD)
  ultimately show False using assms(5) by (simp del: drop_take)
qed

lemma pred_position:
  assumes "k \<le> length xs" "l < height s head_addr"
  obtains i where "i \<le> k" "pred s xs k l = (head_addr # xs) ! i" "l < height s ((head_addr # xs) ! i)"
proof -
  have "filter (\<lambda>y. l < height s y) (head_addr # take k xs) \<noteq> []" using assms(2) by simp
  from last_in_set [OF this] have in_set: "pred s xs k l \<in> set (head_addr # take k xs)" and lt: "l < height s (pred s xs k l)"
    by (auto simp: pred_def simp del: filter.simps)
  from in_set obtain i where i: "i < length (head_addr # take k xs)" "(head_addr # take k xs) ! i = pred s xs k l"
    unfolding in_set_conv_nth by blast
  moreover have "(head_addr # take k xs) ! i = (head_addr # xs) ! i"
    using i(1) by (simp add: nth_Cons')
  ultimately show ?thesis using that [of i] lt assms(1) by simp
qed

lemma skip_linksD:
  "skip_links s xs \<Longrightarrow> i \<le> length xs \<Longrightarrow> l < height s ((head_addr # xs) ! i) \<Longrightarrow>
   Next s ((head_addr # xs) ! i) l = find (\<lambda>y. l < height s y) (drop i xs)"
  by (simp add: skip_links_def)

lemma skip_link_Some:
  assumes "skip_links s xs" "i \<le> length xs" "l < height s ((head_addr # xs) ! i)"
    and "Next s ((head_addr # xs) ! i) l = Some y"
  obtains j where "i \<le> j" "j < length xs" "y = (head_addr # xs) ! Suc j" "y = xs ! j" "l < height s y"
    "\<And>m. i \<le> m \<Longrightarrow> m < j \<Longrightarrow> \<not> l < height s (xs ! m)"
proof -
  have "find (\<lambda>y. l < height s y) (drop i xs) = Some y"
    using assms by (simp add: skip_linksD)
  then obtain j where j: "j < length (drop i xs)" "l < height s (drop i xs ! j)" "y = drop i xs ! j"
    "\<forall>m < j. \<not> l < height s (drop i xs ! m)"
    by (auto simp: find_Some_iff)
  show ?thesis
  proof (rule that [of "i + j"])
    fix m assume "i \<le> m" "m < i + j"
    then have "m - i < j" "i + (m - i) = m" by simp_all
    with j(4) show "\<not> l < height s (xs ! m)"
      by (metis assms(2) nth_drop)
  qed (use j assms(2) in auto)
qed

lemma skip_rep_height_pos:
  "skip_rep s xs \<Longrightarrow> i \<le> length xs \<Longrightarrow> 0 < height s ((head_addr # xs) ! i)"
proof -
  assume rep: "skip_rep s xs" and i: "i \<le> length xs"
  have "1 \<le> height s x" if "x \<in> set (head_addr # xs)" for x
    using rep that by (auto simp: skip_rep_def kMaxHeight_def)
  moreover have "(head_addr # xs) ! i \<in> set (head_addr # xs)"
    using i by (intro nth_mem) simp
  ultimately show ?thesis by fastforce
qed

lemma skip_rep_level0:
  assumes rep: "skip_rep s xs" and i: "i \<le> length xs"
  shows "Next s ((head_addr # xs) ! i) 0 = (if i < length xs then Some (xs ! i) else None)"
proof -
  have "Next s ((head_addr # xs) ! i) 0 = find (\<lambda>y. 0 < height s y) (drop i xs)"
    using rep i skip_rep_height_pos [OF rep i] by (intro skip_linksD) (simp_all add: skip_rep_def)
  also have "\<dots> = (if i < length xs then Some (xs ! i) else None)"
  proof (cases "i < length xs")
    case True
    then have "0 < height s (xs ! i)" using skip_rep_height_pos [OF rep, of "Suc i"] by simp
    with True show ?thesis by (simp add: Cons_nth_drop_Suc [symmetric])
  qed simp
  finally show ?thesis .
qed

lemma skip_rep_level_le:
  "skip_rep s xs \<Longrightarrow> max_height s - 1 < height s head_addr"
  by (auto simp: skip_rep_def)

context comparator
begin

lemma rank_le: "rank cmp s xs key \<le> length xs"
  by (simp add: rank_def length_takeWhile_le)

lemma rank_below:
  "i < rank cmp s xs key \<Longrightarrow> cmp (node_key s (xs ! i)) key < 0"
  unfolding rank_def by (metis nth_mem set_takeWhileD takeWhile_nth)

lemma rank_above:
  assumes inv: "skip_inv cmp valid s xs" and key: "valid key"
    and i: "rank cmp s xs key \<le> i" "i < length xs"
  shows "\<not> cmp (node_key s (xs ! i)) key < 0"
proof
  assume less: "cmp (node_key s (xs ! i)) key < 0"
  let ?k = "rank cmp s xs key"
  have k: "?k < length xs" using i by simp
  then have at_k: "\<not> cmp (node_key s (xs ! ?k)) key < 0"
    unfolding rank_def by (rule nth_length_takeWhile)
  moreover have "?k = i \<or> cmp (node_key s (xs ! ?k)) (node_key s (xs ! i)) < 0"
    using inv i k by (auto simp: skip_inv_def sorted_wrt_iff_nth_less le_less)
  moreover have "valid (node_key s (xs ! ?k))" "valid (node_key s (xs ! i))"
    using inv i k by (auto simp: skip_inv_def)
  ultimately show False using less key cmp_less_trans by blast
qed

text \<open>The searches return, and where they end is given by the rank of the key.\<close>

lemma FindGreaterOrEqual_loop_correct:
  assumes inv: "skip_inv cmp valid s xs" and key: "valid key"
    and i: "i \<le> rank cmp s xs key" and lv: "level < height s ((head_addr # xs) ! i)"
    and lp: "level < length prev"
  shows "\<exists>prev'. FindGreaterOrEqual_loop cmp s key ((head_addr # xs) ! i) level prev
      = Some (if rank cmp s xs key < length xs then Some (xs ! rank cmp s xs key) else None, prev')
    \<and> length prev' = length prev
    \<and> (\<forall>l \<le> level. prev' ! l = Some (pred s xs (rank cmp s xs key) l))
    \<and> (\<forall>l. level < l \<longrightarrow> prev' ! l = prev ! l)"
  using i lv lp
proof (induction "level + (rank cmp s xs key - i)" arbitrary: i level prev rule: less_induct)
  case less
  let ?k = "rank cmp s xs key" and ?x = "(head_addr # xs) ! i"
  note eq = FindGreaterOrEqual_loop.simps [of cmp s key ?x level prev]
  have rep: "skip_rep s xs" and links: "skip_links s xs" and k: "?k \<le> length xs"
    using inv rank_le by (auto simp: skip_inv_def skip_rep_def)
  have i: "i \<le> length xs" using less.prems(1) k by simp
  show ?case
  proof (cases "KeyIsAfterNode cmp s key (Next s ?x level)")
    case True
    then obtain y where y: "Next s ?x level = Some y" "cmp (node_key s y) key < 0"
      by (auto simp: KeyIsAfterNode_def split: option.splits)
    from skip_link_Some [OF links i less.prems(2) y(1)] obtain j where
      j: "i \<le> j" "j < length xs" "y = (head_addr # xs) ! Suc j" "y = xs ! j" "level < height s y"
      by metis
    have "j < ?k" using rank_above [OF inv key _ j(2)] y(2) j(4) by (meson not_less)
    then have "level + (?k - Suc j) < level + (?k - i)" "Suc j \<le> ?k" using j(1) by simp_all
    from less.hyps [OF this(1,2)] j(3,5) less.prems(3) show ?thesis
      unfolding eq using True y(1) by (simp add: Let_def)
  next
    case False
    have none: "find (\<lambda>y. level < height s y) (drop i (take ?k xs)) = None"
    proof (rule ccontr)
      assume "\<not> ?thesis"
      then obtain y where f: "find (\<lambda>y. level < height s y) (drop i (take ?k xs)) = Some y" by blast
      have "drop i xs = drop i (take ?k xs) @ drop ?k xs"
        using less.prems(1) k by (rule drop_split)
      then have "Next s ?x level = Some y"
        using skip_linksD [OF links i less.prems(2)] f by (simp add: find_append del: drop_take)
      moreover have "y \<in> set (take ?k xs)"
        using find_Some_set [OF f] by (meson in_set_dropD)
      then obtain m where "m < ?k" "y = xs ! m" by (auto simp: in_set_conv_nth)
      then have "cmp (node_key s y) key < 0" using rank_below by blast
      ultimately show False using False by (simp add: KeyIsAfterNode_def)
    qed
    let ?prev = "prev[level := Some ?x]"
    have here: "?prev ! level = Some (pred s xs ?k level)"
      using pred_eqI [OF less.prems(1) k less.prems(2) none] less.prems(3) by simp
    show ?thesis
    proof (cases "level = 0")
      case True
      have "i = ?k"
      proof (rule ccontr)
        assume "i \<noteq> ?k"
        then have "i < ?k" using less.prems(1) by simp
        then have "drop i (take ?k xs) ! 0 \<in> set (drop i (take ?k xs))"
          using k by (intro nth_mem) simp
        then have "xs ! i \<in> set (drop i (take ?k xs))"
          using \<open>i < ?k\<close> k by (simp del: drop_take)
        moreover have "0 < height s (xs ! i)"
          using skip_rep_height_pos [OF rep, of "Suc i"] \<open>i < ?k\<close> k by simp
        ultimately show False using none True by (simp add: find_None_iff del: drop_take)
      qed
      then have "Next s ?x 0 = (if ?k < length xs then Some (xs ! ?k) else None)"
        using skip_rep_level0 [of s xs i] inv k by (simp add: skip_inv_def)
      then show ?thesis
        unfolding eq using False True here by (simp add: Let_def)
    next
      case level: False
      have "level - 1 + (?k - i) < level + (?k - i)" using level by simp
      from level less.prems(2,3) have "level - 1 < height s ?x" "level - 1 < length ?prev" by simp_all
      from less.hyps [OF \<open>level - 1 + _ < _\<close> less.prems(1) this] obtain prev' where
        prev': "FindGreaterOrEqual_loop cmp s key ?x (level - 1) ?prev
          = Some (if ?k < length xs then Some (xs ! ?k) else None, prev')"
          "length prev' = length ?prev" "\<forall>l \<le> level - 1. prev' ! l = Some (pred s xs ?k l)"
          "\<forall>l. level - 1 < l \<longrightarrow> prev' ! l = ?prev ! l"
        by blast
      have "\<forall>l \<le> level. prev' ! l = Some (pred s xs ?k l)"
      proof (intro allI impI)
        fix l assume "l \<le> level"
        then consider "l \<le> level - 1" | "l = level" by linarith
        then show "prev' ! l = Some (pred s xs ?k l)"
          by cases (use prev'(3,4) here level in auto)
      qed
      moreover have "\<forall>l. level < l \<longrightarrow> prev' ! l = prev ! l"
        using prev'(4) by auto
      ultimately show ?thesis
        unfolding eq using False level prev'(1,2) by (simp add: Let_def)
    qed
  qed
qed

lemma FindGreaterOrEqual_correct:
  assumes inv: "skip_inv cmp valid s xs" and key: "valid key"
  shows "\<exists>prev. FindGreaterOrEqual cmp s key
      = Some (if rank cmp s xs key < length xs then Some (xs ! rank cmp s xs key) else None, prev)
    \<and> length prev = kMaxHeight
    \<and> (\<forall>l < max_height s. prev ! l = Some (pred s xs (rank cmp s xs key) l))"
proof -
  have rep: "skip_rep s xs" using inv by (simp add: skip_inv_def)
  have "max_height s - 1 < length (replicate kMaxHeight None)" "1 \<le> max_height s"
    using rep by (auto simp: skip_rep_def kMaxHeight_def)
  moreover have "l \<le> max_height s - 1" if "l < max_height s" for l using that by simp
  ultimately show ?thesis
    using FindGreaterOrEqual_loop_correct [OF inv key, of 0 "max_height s - 1" "replicate kMaxHeight None"]
      skip_rep_level_le [OF rep]
    by (fastforce simp: FindGreaterOrEqual_def)
qed

lemma FindLessThan_loop_correct:
  assumes inv: "skip_inv cmp valid s xs" and key: "valid key"
    and i: "i \<le> rank cmp s xs key" and lv: "level < height s ((head_addr # xs) ! i)"
  shows "FindLessThan_loop cmp s key ((head_addr # xs) ! i) level
      = Some ((head_addr # xs) ! rank cmp s xs key)"
  using i lv
proof (induction "level + (rank cmp s xs key - i)" arbitrary: i level rule: less_induct)
  case less
  let ?k = "rank cmp s xs key" and ?x = "(head_addr # xs) ! i"
  note eq = FindLessThan_loop.simps [of cmp s key ?x level]
  have rep: "skip_rep s xs" and links: "skip_links s xs" and k: "?k \<le> length xs"
    using inv rank_le by (auto simp: skip_inv_def skip_rep_def)
  have i: "i \<le> length xs" using less.prems(1) k by simp
  show ?case
  proof (cases "\<exists>y. Next s ?x level = Some y \<and> cmp (node_key s y) key < 0")
    case True
    then obtain y where y: "Next s ?x level = Some y" "cmp (node_key s y) key < 0" by blast
    from skip_link_Some [OF links i less.prems(2) y(1)] obtain j where
      j: "i \<le> j" "j < length xs" "y = (head_addr # xs) ! Suc j" "y = xs ! j" "level < height s y"
      by metis
    have "j < ?k" using rank_above [OF inv key _ j(2)] y(2) j(4) by (meson not_less)
    then have "level + (?k - Suc j) < level + (?k - i)" "Suc j \<le> ?k" using j(1) by simp_all
    from less.hyps [OF this(1,2)] j(3,5) show ?thesis
      unfolding eq using y by simp
  next
    case False
    show ?thesis
    proof (cases "level = 0")
      case True
      have "\<not> i < ?k"
      proof
        assume "i < ?k"
        then have "Next s ?x 0 = Some (xs ! i)" using skip_rep_level0 [OF rep i] k by simp
        with False True rank_below [OF \<open>i < ?k\<close>] show False by simp
      qed
      then have "i = ?k" using less.prems(1) by simp
      with False True show ?thesis unfolding eq by (auto split: option.splits)
    next
      case level: False
      then have "level - 1 + (?k - i) < level + (?k - i)" by simp
      from less.hyps [OF this less.prems(1)] less.prems(2) False level show ?thesis
        unfolding eq by (auto split: option.splits)
    qed
  qed
qed

lemma FindLessThan_correct:
  assumes inv: "skip_inv cmp valid s xs" and key: "valid key"
  shows "FindLessThan cmp s key = Some ((head_addr # xs) ! rank cmp s xs key)"
proof -
  have "skip_rep s xs" using inv by (simp add: skip_inv_def)
  then show ?thesis
    using FindLessThan_loop_correct [OF inv key, of 0 "max_height s - 1"] skip_rep_level_le [of s xs]
    by (simp add: FindLessThan_def)
qed

end

lemma FindLast_loop_correct:
  assumes rep: "skip_rep s xs" and i: "i \<le> length xs" and lv: "level < height s ((head_addr # xs) ! i)"
  shows "FindLast_loop s ((head_addr # xs) ! i) level = Some ((head_addr # xs) ! length xs)"
  using i lv
proof (induction "level + (length xs - i)" arbitrary: i level rule: less_induct)
  case less
  let ?x = "(head_addr # xs) ! i"
  note eq = FindLast_loop.simps [of s ?x level]
  have links: "skip_links s xs" using rep by (simp add: skip_rep_def)
  show ?case
  proof (cases "Next s ?x level")
    case None
    show ?thesis
    proof (cases "level = 0")
      case True
      with None skip_rep_level0 [OF rep less.prems(1)] less.prems(1) have "i = length xs"
        by (auto split: if_splits)
      with None True show ?thesis unfolding eq by simp
    next
      case False
      then have "level - 1 + (length xs - i) < level + (length xs - i)" by simp
      from less.hyps [OF this less.prems(1)] less.prems(2) None False show ?thesis
        unfolding eq by simp
    qed
  next
    case (Some y)
    from skip_link_Some [OF links less.prems Some] obtain j where
      j: "i \<le> j" "j < length xs" "y = (head_addr # xs) ! Suc j" "level < height s y"
      by metis
    then have "level + (length xs - Suc j) < level + (length xs - i)" "Suc j \<le> length xs" by simp_all
    from less.hyps [OF this] j(3,4) show ?thesis
      unfolding eq using Some by simp
  qed
qed

lemma FindLast_correct:
  "skip_rep s xs \<Longrightarrow> FindLast s = Some ((head_addr # xs) ! length xs)"
  using FindLast_loop_correct [of s xs 0 "max_height s - 1"] skip_rep_level_le [of s xs]
  by (simp add: FindLast_def)

section \<open>Insertion refines insertion into the sorted sequence\<close>

lemma RandomHeight_loop_bounds:
  "1 \<le> h \<Longrightarrow> h \<le> kMaxHeight \<Longrightarrow>
   1 \<le> fst (RandomHeight_loop h seed) \<and> fst (RandomHeight_loop h seed) \<le> kMaxHeight"
  by (induction h seed rule: RandomHeight_loop.induct)
    (simp add: RandomHeight_loop.simps Let_def)

lemma RandomHeight_bounds:
  "RandomHeight seed = (h, seed') \<Longrightarrow> 1 \<le> h \<and> h \<le> kMaxHeight"
  using RandomHeight_loop_bounds [of 1 seed] by (simp add: RandomHeight_def kMaxHeight_def)

lemma SetNext_simps [simp]:
  "length (nodes (SetNext s x n y)) = length (nodes s)"
  "max_height (SetNext s x n y) = max_height s"
  "rnd (SetNext s x n y) = rnd s"
  "node_key (SetNext s x n y) z = node_key s z"
  "height (SetNext s x n y) z = height s z"
  by (cases "x < length (nodes s)";
      simp add: SetNext_def node_key_def height_def nth_list_update list_update_beyond)+

lemma Next_SetNext:
  "x < length (nodes s) \<Longrightarrow> n < height s x \<Longrightarrow>
   Next (SetNext s x n y) z l = (if z = x \<and> l = n then y else Next s z l)"
  by (auto simp: SetNext_def Next_def height_def nth_list_update)

lemma link_levels_frame [simp]:
  "length (nodes (link_levels s x prev is)) = length (nodes s)"
  "max_height (link_levels s x prev is) = max_height s"
  "rnd (link_levels s x prev is) = rnd s"
  "node_key (link_levels s x prev is) z = node_key s z"
  "height (link_levels s x prev is) z = height s z"
  by (induction s x prev "is" rule: link_levels.induct) (simp_all add: Let_def)

lemma Next_link_levels:
  assumes "x < length (nodes s)" "distinct is"
    and "\<And>i. i \<in> set is \<Longrightarrow> i < height s x"
    and "\<And>i. i \<in> set is \<Longrightarrow> the (prev ! i) \<noteq> x \<and> the (prev ! i) < length (nodes s) \<and> i < height s (the (prev ! i))"
  shows "Next (link_levels s x prev is) z l =
    (if l \<in> set is \<and> z = x then Next s (the (prev ! l)) l
     else if l \<in> set is \<and> z = the (prev ! l) then Some x
     else Next s z l)"
  using assms
proof (induction s x prev "is" arbitrary: z l rule: link_levels.induct)
  case (1 s x prev)
  then show ?case by simp
next
  case (2 s x prev i "is")
  let ?p = "the (prev ! i)"
  let ?s1 = "SetNext s x i (Next s ?p i)"
  let ?s2 = "SetNext ?s1 ?p i (Some x)"
  have i: "i < height s x" "?p \<noteq> x" "?p < length (nodes s)" "i < height s ?p"
    using "2.prems"(3,4) by auto
  have n2: "Next ?s2 w m = (if w = ?p \<and> m = i then Some x else if w = x \<and> m = i then Next s ?p i else Next s w m)"
    for w m using i "2.prems"(1) by (simp add: Next_SetNext)
  have "Next (link_levels ?s2 x prev is) z l =
    (if l \<in> set is \<and> z = x then Next ?s2 (the (prev ! l)) l
     else if l \<in> set is \<and> z = the (prev ! l) then Some x else Next ?s2 z l)"
    by (rule "2.IH" [OF refl refl refl]) (use "2.prems" in auto)
  moreover have "i \<notin> set is" using "2.prems"(2) by simp
  ultimately show ?case using i by (auto simp: Let_def n2)
qed

lemma foldl_update_nth:
  "length (foldl (\<lambda>prev i. prev[i := v]) prev is) = length prev"
  "l < length prev \<Longrightarrow> foldl (\<lambda>prev i. prev[i := v]) prev is ! l = (if l \<in> set is then v else prev ! l)"
  by (induction "is" arbitrary: prev) (auto simp: nth_list_update)

text \<open>The state after the allocation and before the links are set.\<close>

definition with_node :: "'k skiplist \<Rightarrow> 'k \<Rightarrow> nat \<Rightarrow> uint32 \<Rightarrow> 'k skiplist" where
  "with_node s key h seed =
     s\<lparr>nodes := nodes s @ [\<lparr>nkey = key, nnext = replicate h None\<rparr>],
       max_height := max (max_height s) h, rnd := seed\<rparr>"

lemma with_node_simps [simp]:
  "length (nodes (with_node s key h seed)) = Suc (length (nodes s))"
  "max_height (with_node s key h seed) = max (max_height s) h"
  "z < length (nodes s) \<Longrightarrow> node_key (with_node s key h seed) z = node_key s z"
  "z < length (nodes s) \<Longrightarrow> height (with_node s key h seed) z = height s z"
  "z < length (nodes s) \<Longrightarrow> Next (with_node s key h seed) z l = Next s z l"
  "node_key (with_node s key h seed) (length (nodes s)) = key"
  "height (with_node s key h seed) (length (nodes s)) = h"
  by (simp_all add: with_node_def node_key_def height_def Next_def nth_append)

lemma pred_above_heights:
  assumes rep: "skip_rep s xs" and l: "max_height s \<le> l" "l < kMaxHeight"
  shows "pred s xs k l = head_addr"
proof -
  have "filter (\<lambda>y. l < height s y) (take k xs) = []"
    using rep l by (fastforce simp: skip_rep_def filter_empty_conv dest: in_set_takeD)
  moreover have "l < height s head_addr" using rep l by (simp add: skip_rep_def)
  ultimately show ?thesis by (simp add: pred_def)
qed

lemma find_cong_on: "(\<And>y. y \<in> set ys \<Longrightarrow> P y = Q y) \<Longrightarrow> find P ys = find Q ys"
  by (induction ys) auto

lemma link_levels_links:
  assumes rep: "skip_rep s xs" and k: "k \<le> length xs" and h: "1 \<le> h" "h \<le> kMaxHeight"
    and prev: "\<And>l. l < h \<Longrightarrow> prev ! l = Some (pred s xs k l)"
  defines "n \<equiv> length (nodes s)"
  shows "skip_links (link_levels (with_node s key h seed) n prev [0..<h]) (take k xs @ n # drop k xs)"
proof -
  let ?w = "with_node s key h seed" and ?xs = "take k xs @ n # drop k xs"
  let ?s = "link_levels ?w n prev [0..<h]"
  have links: "skip_links s xs" and dist: "distinct (head_addr # xs)" and n: "1 \<le> n"
    and below: "\<And>z. z \<in> set (head_addr # xs) \<Longrightarrow> z < n"
    using rep by (auto simp: skip_rep_def n_def head_addr_def)
  have hh: "height s head_addr = kMaxHeight" using rep by (simp add: skip_rep_def)
  have pos: "\<exists>i \<le> k. pred s xs k l = (head_addr # xs) ! i \<and> l < height s ((head_addr # xs) ! i)"
    if "l < h" for l
    using pred_position [OF k, of l s] that h(2) hh by (metis less_le_trans)
  have seq_below: "(head_addr # xs) ! i < n" if "i \<le> length xs" for i
    using that by (intro below nth_mem) simp
  have pred_lt: "pred s xs k l < n" "l < height s (pred s xs k l)" if "l < h" for l
    using pos [OF that] seq_below k by (metis le_trans)+
  have pl: "the (prev ! i) \<noteq> n \<and> the (prev ! i) < length (nodes ?w) \<and> i < height ?w (the (prev ! i))"
    if "i < h" for i
    using prev [OF that] pred_lt [OF that] by (simp add: n_def)
  have nx: "Next ?s z l =
      (if l < h \<and> z = n then Next s (pred s xs k l) l
       else if l < h \<and> z = pred s xs k l then Some n else Next s z l)" if "z < n \<or> z = n \<and> l < h" for z l
  proof -
    have "Next ?s z l =
        (if l \<in> set [0..<h] \<and> z = n then Next ?w (the (prev ! l)) l
         else if l \<in> set [0..<h] \<and> z = the (prev ! l) then Some n else Next ?w z l)"
      by (rule Next_link_levels) (use pl in \<open>auto simp: n_def\<close>)
    then show ?thesis using that prev pred_lt by (auto simp: n_def)
  qed
  have ht: "height ?s y = (if y = n then h else height s y)" if "y \<le> n" for y
    using that by (cases "y = n") (simp_all add: n_def)
  have find_old: "find (\<lambda>y. l < height ?s y) ys = find (\<lambda>y. l < height s y) ys" if "set ys \<subseteq> set xs" for l ys
    using that below ht by (intro find_cong_on) (metis insert_iff less_imp_le list.simps(15) nat_neq_iff subsetD)
  show ?thesis
    unfolding skip_links_def
  proof (intro allI impI)
    fix i l
    assume i: "i \<le> length ?xs" and l: "l < height ?s ((head_addr # ?xs) ! i)"
    consider "i \<le> k" | "i = Suc k" | "Suc k < i" by linarith
    then show "Next ?s ((head_addr # ?xs) ! i) l = find (\<lambda>y. l < height ?s y) (drop i ?xs)"
    proof cases
      case 1
      let ?z = "(head_addr # xs) ! i"
      have z: "(head_addr # ?xs) ! i = ?z" using 1 k by (cases i) (simp_all add: nth_append)
      have zn: "?z < n" using 1 k by (intro seq_below) simp
      have lz: "l < height s ?z" using l zn ht [of ?z] by (simp add: z)
      have d: "drop i ?xs = drop i (take k xs) @ n # drop k xs"
        using 1 k by (simp del: drop_take)
      have sub: "set (drop i (take k xs)) \<subseteq> set xs" "set (drop k xs) \<subseteq> set xs"
        by (meson in_set_dropD in_set_takeD subsetI)+
      have old: "Next s ?z l = find (\<lambda>y. l < height s y) (drop i (take k xs) @ drop k xs)"
        using skip_linksD [OF links _ lz] 1 k drop_split [OF 1 k] by simp
      show ?thesis
      proof (cases "find (\<lambda>y. l < height s y) (drop i (take k xs))")
        case None
        then have "pred s xs k l = ?z" by (rule pred_eqI [OF 1 k lz])
        then show ?thesis
          using None zn old find_old [OF sub(1)] find_old [OF sub(2)] ht [of n]
          by (simp only: z d find_append) (simp add: nx del: drop_take)
      next
        case (Some y)
        then have "pred s xs k l \<noteq> ?z"
          using pred_eqD [OF 1 k lz dist] by fastforce
        then show ?thesis
          using Some zn old find_old [OF sub(1)]
          by (simp add: z nx d find_append del: drop_take)
      qed
    next
      case 2
      have z: "(head_addr # ?xs) ! i = n" using 2 k by (simp add: nth_append)
      have lh: "l < h" using l ht [of n] by (simp add: z)
      obtain j where j: "j \<le> k" "pred s xs k l = (head_addr # xs) ! j" "l < height s ((head_addr # xs) ! j)"
        using pos [OF lh] by blast
      have "find (\<lambda>y. l < height s y) (drop j (take k xs)) = None"
        by (rule pred_eqD [OF j(1) k j(3) dist j(2)])
      moreover have "Next s ((head_addr # xs) ! j) l = find (\<lambda>y. l < height s y) (drop j (take k xs) @ drop k xs)"
        using skip_linksD [OF links _ j(3)] j(1) k drop_split [OF j(1) k] by simp
      ultimately have "Next s (pred s xs k l) l = find (\<lambda>y. l < height s y) (drop k xs)"
        using j(2) by (simp add: find_append del: drop_take)
      moreover have "drop i ?xs = drop k xs" using 2 k by simp
      moreover have "set (drop k xs) \<subseteq> set xs" by (meson in_set_dropD subsetI)
      note find_old [OF this]
      ultimately show ?thesis using lh by (simp only: z) (simp add: nx)
    next
      case 3
      let ?z = "(head_addr # xs) ! (i - 1)"
      have i1: "i - 1 \<le> length xs" "k < i - 1" using 3 i k by simp_all
      have z: "(head_addr # ?xs) ! i = ?z" using 3 k i
        by (cases i) (auto simp: nth_append nth_Cons' Suc_diff_le)
      have zn: "?z < n" using i1 by (intro seq_below)
      have lz: "l < height s ?z" using l zn ht [of ?z] by (simp add: z)
      have "?z \<noteq> pred s xs k l" if lh: "l < h"
      proof -
        obtain j where j: "j \<le> k" "pred s xs k l = (head_addr # xs) ! j" using pos [OF lh] by blast
        then show ?thesis using dist i1 k nth_eq_iff_index_eq [OF dist, of "i - 1" j] by simp
      qed
      moreover have "drop i ?xs = drop (i - 1) xs" using 3 k by (cases i) (simp_all add: Suc_diff_le)
      moreover have "set (drop (i - 1) xs) \<subseteq> set xs" by (meson in_set_dropD subsetI)
      note find_old [OF this]
      ultimately show ?thesis
        using zn skip_linksD [OF links i1(1) lz] by (simp only: z) (auto simp: nx)
    qed
  qed
qed

lemma link_levels_rep:
  assumes rep: "skip_rep s xs" and k: "k \<le> length xs" and h: "1 \<le> h" "h \<le> kMaxHeight"
    and prev: "\<And>l. l < h \<Longrightarrow> prev ! l = Some (pred s xs k l)"
  defines "n \<equiv> length (nodes s)"
  shows "skip_rep (link_levels (with_node s key h seed) n prev [0..<h]) (take k xs @ n # drop k xs)"
proof -
  have set_eq: "set (take k xs) \<union> set (drop k xs) = set xs"
    by (metis append_take_drop_id set_append)
  have xs: "set xs = {1..<n}" "distinct xs" "1 \<le> n"
    using rep by (auto simp: skip_rep_def n_def)
  have "distinct (take k xs @ n # drop k xs)"
    using xs set_take_disj_set_drop_if_distinct [of xs k k] set_eq by (auto dest: in_set_takeD in_set_dropD)
  moreover have "set (take k xs @ n # drop k xs) = {1..<Suc n}"
    using xs set_eq by auto
  moreover have "height (with_node s key h seed) head_addr = kMaxHeight"
    using rep xs(3) by (simp add: skip_rep_def n_def head_addr_def Suc_le_eq)
  moreover have "1 \<le> height (with_node s key h seed) x \<and> height (with_node s key h seed) x \<le> max (max_height s) h"
    if x: "x \<in> set (take k xs @ n # drop k xs)" for x
  proof (cases "x = n")
    case True
    then show ?thesis using h by (simp add: n_def)
  next
    case False
    then have "x \<in> set xs" using x set_eq by auto
    moreover from this have "x < n" using xs(1) by auto
    ultimately show ?thesis using rep by (auto simp: skip_rep_def n_def max.coboundedI1)
  qed
  moreover have "1 \<le> max (max_height s) h \<and> max (max_height s) h \<le> kMaxHeight"
    using rep h by (auto simp: skip_rep_def)
  ultimately show ?thesis
    using link_levels_links [OF rep k h prev, folded n_def] xs(3)
    by (simp add: skip_rep_def n_def)
qed

context comparator
begin

lemma Insert_rep:
  assumes inv: "skip_inv cmp valid s xs" and key: "valid key"
  defines "k \<equiv> rank cmp s xs key" and "n \<equiv> length (nodes s)"
  shows "\<exists>s'. Insert cmp s key = Some s' \<and> skip_rep s' (take k xs @ n # drop k xs)
    \<and> (\<forall>y < n. node_key s' y = node_key s y) \<and> node_key s' n = key"
proof -
  have rep: "skip_rep s xs" using inv by (simp add: skip_inv_def)
  obtain res prev where fge: "FindGreaterOrEqual cmp s key = Some (res, prev)"
    "length prev = kMaxHeight" "\<And>l. l < max_height s \<Longrightarrow> prev ! l = Some (pred s xs k l)"
    using FindGreaterOrEqual_correct [OF inv key] by (auto simp: k_def)
  obtain h seed where hs: "RandomHeight (rnd s) = (h, seed)" by fastforce
  have h: "1 \<le> h" "h \<le> kMaxHeight" using RandomHeight_bounds [OF hs] by simp_all
  have k: "k \<le> length xs" by (simp add: k_def rank_le)
  define prev' where "prev' = (if h > max_height s
      then foldl (\<lambda>prev i. prev[i := Some head_addr]) prev [max_height s..<h] else prev)"
  have prev': "prev' ! l = Some (pred s xs k l)" if l: "l < h" for l
  proof (cases "l < max_height s")
    case True
    with l h(2) fge show ?thesis by (simp add: prev'_def foldl_update_nth)
  next
    case False
    with l h(2) have "pred s xs k l = head_addr" by (intro pred_above_heights [OF rep]) simp_all
    with False l h(2) fge(2) show ?thesis by (simp add: prev'_def foldl_update_nth)
  qed
  let ?s = "link_levels (with_node s key h seed) n prev' [0..<h]"
  have "(if h > max_height s then (s\<lparr>rnd := seed\<rparr>)\<lparr>max_height := h\<rparr> else s\<lparr>rnd := seed\<rparr>)
      \<lparr>nodes := nodes s @ [\<lparr>nkey = key, nnext = replicate h None\<rparr>]\<rparr> = with_node s key h seed"
    by (simp add: with_node_def max_def)
  then have "Insert cmp s key = Some ?s"
    by (auto simp: Insert_def fge hs NewNode_def n_def prev'_def Let_def split: if_splits)
  moreover have "skip_rep ?s (take k xs @ n # drop k xs)"
    using link_levels_rep [OF rep k h prev'] by (simp add: n_def)
  ultimately show ?thesis by (auto simp: n_def)
qed

lemma Insert_inv:
  assumes inv: "skip_inv cmp valid s xs" and key: "valid key"
    and fresh: "\<And>x. x \<in> set xs \<Longrightarrow> cmp (node_key s x) key \<noteq> 0"
  defines "k \<equiv> rank cmp s xs key"
  shows "\<exists>s' xs'. Insert cmp s key = Some s' \<and> skip_inv cmp valid s' xs'
    \<and> skip_keys s' xs' = take k (skip_keys s xs) @ key # drop k (skip_keys s xs)"
proof -
  define n where "n = length (nodes s)"
  let ?xs = "take k xs @ n # drop k xs"
  obtain s' where s': "Insert cmp s key = Some s'" "skip_rep s' ?xs"
    "\<forall>y < n. node_key s' y = node_key s y" "node_key s' n = key"
    using Insert_rep [OF inv key] by (auto simp: n_def k_def)
  have rep: "skip_rep s xs" and sorted: "sorted_wrt (\<lambda>x y. cmp (node_key s x) (node_key s y) < 0) xs"
    and val: "\<And>x. x \<in> set xs \<Longrightarrow> valid (node_key s x)"
    using inv by (auto simp: skip_inv_def)
  have k: "k \<le> length xs" by (simp add: k_def rank_le)
  have old: "node_key s' x = node_key s x" if "x \<in> set xs" for x
    using s'(3) rep that by (auto simp: skip_rep_def n_def)
  have sub: "x \<in> set xs" if "x \<in> set (take k xs) \<or> x \<in> set (drop k xs)" for x
    using that by (auto dest: in_set_takeD in_set_dropD)
  have below: "cmp (node_key s x) key < 0" if "x \<in> set (take k xs)" for x
    using that k rank_below [of _ s xs key] by (auto simp: k_def in_set_conv_nth)
  have above: "cmp key (node_key s x) < 0" if x: "x \<in> set (drop k xs)" for x
  proof -
    obtain m where "m < length (drop k xs)" "drop k xs ! m = x" using x by (auto simp: in_set_conv_nth)
    then have "\<not> cmp (node_key s x) key < 0"
      using rank_above [OF inv key, of "k + m"] by (auto simp: k_def)
    moreover have "cmp (node_key s x) key \<noteq> 0" "valid (node_key s x)"
      using x sub fresh val by auto
    ultimately show ?thesis using cmp_swap [of key "node_key s x"] key by simp
  qed
  have "sorted_wrt (\<lambda>x y. cmp (node_key s' x) (node_key s' y) < 0) (take k xs @ drop k xs)"
    using sorted old by (simp add: sorted_wrt_iff_nth_less)
  then have "sorted_wrt (\<lambda>x y. cmp (node_key s' x) (node_key s' y) < 0) ?xs"
    using below above s'(4) old sub unfolding sorted_wrt_append by (auto simp del: append_take_drop_id)
  moreover have "\<forall>x \<in> set ?xs. valid (node_key s' x)"
    using val old sub s'(4) key by auto
  ultimately have "skip_inv cmp valid s' ?xs"
    using s'(2) by (simp add: skip_inv_def)
  moreover have "skip_keys s' ?xs = take k (skip_keys s xs) @ key # drop k (skip_keys s xs)"
    using old sub s'(4) by (auto simp: skip_keys_def take_map drop_map)
  ultimately show ?thesis using s'(1) by blast
qed

end

text \<open>The abstract insertion: into a list sorted by the comparator.\<close>

definition ins_sorted :: "('k \<Rightarrow> 'k \<Rightarrow> int) \<Rightarrow> 'k \<Rightarrow> 'k list \<Rightarrow> 'k list" where
  "ins_sorted cmp key ks =
     takeWhile (\<lambda>x. cmp x key < 0) ks @ key # dropWhile (\<lambda>x. cmp x key < 0) ks"

lemma set_ins_sorted [simp]: "set (ins_sorted cmp key ks) = insert key (set ks)"
  by (metis (no_types, lifting) Un_insert_right ins_sorted_def list.simps(15) set_append takeWhile_dropWhile_id)

lemma skip_keys_rank:
  "take (rank cmp s xs key) (skip_keys s xs) @ key # drop (rank cmp s xs key) (skip_keys s xs)
     = ins_sorted cmp key (skip_keys s xs)"
  by (simp add: ins_sorted_def skip_keys_def rank_def takeWhile_map dropWhile_map take_map drop_map
      comp_def takeWhile_eq_take [symmetric] dropWhile_eq_drop [symmetric])

lemma skip_inv_init: "skip_inv cmp valid (SkipList_init any_key) []"
  by (simp add: skip_inv_def skip_rep_def SkipList_init_def head_addr_def kMaxHeight_def height_def
      skip_links_def Next_def nth_Cons')

lemma skip_keys_Nil [simp]: "skip_keys s [] = []"
  by (simp add: skip_keys_def)

lemma length_skip_keys [simp]: "length (skip_keys s xs) = length xs"
  by (simp add: skip_keys_def)

lemma set_addr_pos: "skip_rep s xs \<Longrightarrow> x \<in> set xs \<Longrightarrow> x \<noteq> head_addr"
  by (auto simp: skip_rep_def head_addr_def)

lemma iter_SeekToFirst_correct:
  "skip_rep s xs \<Longrightarrow> iter_SeekToFirst s = (if xs = [] then None else Some (xs ! 0))"
  using skip_rep_level0 [of s xs 0] by (simp add: iter_SeekToFirst_def)

lemma iter_Next_correct:
  "skip_rep s xs \<Longrightarrow> i < length xs \<Longrightarrow>
   iter_Next s (Some (xs ! i)) = (if Suc i < length xs then Some (xs ! Suc i) else None)"
  using skip_rep_level0 [of s xs "Suc i"] by (simp add: iter_Next_def)

lemma iter_SeekToLast_correct:
  assumes "skip_rep s xs"
  shows "iter_SeekToLast s = Some (if xs = [] then None else Some (last xs))"
proof (cases xs rule: rev_cases)
  case Nil
  with FindLast_correct [OF assms] show ?thesis by (simp add: iter_SeekToLast_def)
next
  case (snoc ys y)
  with FindLast_correct [OF assms] have "FindLast s = Some y" by (simp add: nth_append)
  moreover have "y \<noteq> head_addr" using set_addr_pos [OF assms, of y] snoc by simp
  ultimately show ?thesis using snoc by (simp add: iter_SeekToLast_def)
qed

context comparator
begin

lemma Insert_refines:
  assumes "skip_inv cmp valid s xs" and "valid key"
    and "\<forall>x \<in> set (skip_keys s xs). cmp x key \<noteq> 0"
  shows "\<exists>s' xs'. Insert cmp s key = Some s' \<and> skip_inv cmp valid s' xs'
    \<and> skip_keys s' xs' = ins_sorted cmp key (skip_keys s xs)"
  using Insert_inv [OF assms(1,2)] assms(3) unfolding skip_keys_rank
  by (force simp: skip_keys_def)

lemma rank_nth:
  assumes inv: "skip_inv cmp valid s xs" and i: "i < length xs"
  shows "rank cmp s xs (node_key s (xs ! i)) = i"
proof -
  have v: "valid (node_key s (xs ! i))" using inv i by (simp add: skip_inv_def)
  have "i \<le> rank cmp s xs (node_key s (xs ! i))"
  proof (rule ccontr)
    let ?k = "rank cmp s xs (node_key s (xs ! i))"
    assume "\<not> ?thesis"
    then have "?k < i" by simp
    then have "\<not> cmp (node_key s (xs ! ?k)) (node_key s (xs ! i)) < 0"
      using rank_above [OF inv v, of ?k] i by simp
    moreover have "cmp (node_key s (xs ! ?k)) (node_key s (xs ! i)) < 0"
      using inv i \<open>?k < i\<close> by (simp add: skip_inv_def sorted_wrt_iff_nth_less)
    ultimately show False by simp
  qed
  moreover have "rank cmp s xs (node_key s (xs ! i)) \<le> i"
    using rank_below [of i s xs "node_key s (xs ! i)"] cmp_irrefl [OF v] by (meson not_le)
  ultimately show ?thesis by simp
qed

lemma iter_Seek_correct:
  "skip_inv cmp valid s xs \<Longrightarrow> valid target \<Longrightarrow>
   iter_Seek cmp s target
     = Some (if rank cmp s xs target < length xs then Some (xs ! rank cmp s xs target) else None)"
  using FindGreaterOrEqual_correct [of s xs target] by (auto simp: iter_Seek_def)

lemma iter_Prev_correct:
  assumes inv: "skip_inv cmp valid s xs" and i: "i < length xs"
  shows "iter_Prev cmp s (Some (xs ! i)) = Some (if i = 0 then None else Some (xs ! (i - 1)))"
proof -
  have v: "valid (node_key s (xs ! i))" and rep: "skip_rep s xs" using inv i by (simp_all add: skip_inv_def)
  have "xs ! (i - 1) \<noteq> head_addr" if "i \<noteq> 0"
    using that i set_addr_pos [OF rep, of "xs ! (i - 1)"] by simp
  then show ?thesis
    using FindLessThan_correct [OF inv v] i
    by (simp add: iter_Prev_def iter_key_def rank_nth [OF inv i] nth_Cons')
qed

text \<open>\<open>Seek\<close> finds the first key that is not below the target.\<close>

lemma iter_Seek_first_ge:
  assumes inv: "skip_inv cmp valid s xs" and t: "valid target"
  shows "\<exists>it. iter_Seek cmp s target = Some it \<and>
    map_option (node_key s) it = find (\<lambda>x. \<not> cmp x target < 0) (skip_keys s xs)"
proof -
  let ?k = "rank cmp s xs target"
  have seek: "iter_Seek cmp s target = Some (if ?k < length xs then Some (xs ! ?k) else None)"
    by (rule iter_Seek_correct [OF inv t])
  have "find (\<lambda>x. \<not> cmp x target < 0) (skip_keys s xs)
      = (if ?k < length xs then Some (node_key s (xs ! ?k)) else None)"
  proof (cases "?k < length xs")
    case True
    then have "\<not> cmp (node_key s (xs ! ?k)) target < 0" by (rule rank_above [OF inv t le_refl])
    with True rank_below show ?thesis by (auto simp: find_Some_iff skip_keys_def)
  next
    case False
    then have "cmp (node_key s (xs ! i)) target < 0" if "i < length xs" for i
      using that by (intro rank_below) simp
    with False show ?thesis by (auto simp: find_None_iff skip_keys_def in_set_conv_nth)
  qed
  with seek show ?thesis by auto
qed

lemma Contains_correct:
  assumes inv: "skip_inv cmp valid s xs" and key: "valid key"
  shows "Contains cmp s key = Some (\<exists>x \<in> set (skip_keys s xs). cmp key x = 0)"
proof -
  let ?k = "rank cmp s xs key"
  obtain prev where fge: "FindGreaterOrEqual cmp s key
      = Some (if ?k < length xs then Some (xs ! ?k) else None, prev)"
    using FindGreaterOrEqual_correct [OF inv key] by blast
  have at: "cmp key (node_key s (xs ! ?k)) = 0 \<and> ?k < length xs"
    if x: "x \<in> set xs" "cmp key (node_key s x) = 0" for x
  proof -
    obtain i where i: "i < length xs" "x = xs ! i" using x(1) by (auto simp: in_set_conv_nth)
    have v: "valid (node_key s x)" using inv x(1) by (simp add: skip_inv_def)
    then have "\<not> cmp (node_key s x) key < 0" using x(2) cmp_zero_sym [OF key v] by simp
    then have le: "?k \<le> i" using rank_below [of i s xs key] i(2) by (meson not_le)
    then have k: "?k < length xs" using i(1) by simp
    then have vk: "valid (node_key s (xs ! ?k))" using inv by (simp add: skip_inv_def)
    have "cmp (node_key s (xs ! ?k)) (node_key s x) \<le> 0"
    proof (cases "?k = i")
      case True
      then show ?thesis using i(2) cmp_refl [OF v] by simp
    next
      case False
      then show ?thesis using inv le i by (auto simp: skip_inv_def sorted_wrt_iff_nth_less less_imp_le)
    qed
    then have "cmp (node_key s (xs ! ?k)) key \<le> 0"
      using cmp_trans [OF vk v key] x(2) cmp_zero_sym [OF key v] by simp
    moreover have "\<not> cmp (node_key s (xs ! ?k)) key < 0" using rank_above [OF inv key le_refl k] .
    ultimately show ?thesis using cmp_zero_sym [OF key vk] k by simp
  qed
  show ?thesis
    using fge at by (auto simp: Contains_def skip_keys_def)
qed

end

text \<open>
  C15. Inserting a key that compares equal to no key of the list returns (the search terminates),
  keeps the representation invariant of the linked levels, and refines insertion into the
  sorted list of keys, for every comparator and whatever height is drawn.
\<close>

theorem SkipList_Insert_refines_sorted_insertion:
  assumes "comparator cmp valid" and "skip_inv cmp valid s xs" and "valid key"
    and "\<forall>x \<in> set (skip_keys s xs). cmp x key \<noteq> 0"
  shows "\<exists>s' xs'. Insert cmp s key = Some s' \<and> skip_inv cmp valid s' xs'
    \<and> skip_keys s' xs' = ins_sorted cmp key (skip_keys s xs)"
  by (rule comparator.Insert_refines [OF assms])

theorem SkipList_Insert_refines_sorted_insertion_witness:
  "\<exists>s' xs'. Insert bytewise_Compare (SkipList_init []) [7] = Some s'
     \<and> skip_inv bytewise_Compare (\<lambda>_. True) s' xs' \<and> skip_keys s' xs' = [[7]]"
proof -
  have "\<forall>x \<in> set (skip_keys (SkipList_init []) []). bytewise_Compare x [7] \<noteq> 0" by simp
  from SkipList_Insert_refines_sorted_insertion [OF bytewise.comparator_axioms skip_inv_init TrueI this]
  show ?thesis by (simp add: ins_sorted_def)
qed

text \<open>
  C22. On a list that satisfies the invariant, \<open>Contains\<close> returns and decides membership up to the
  comparator, and \<open>Seek\<close> returns and positions the iterator at the first key not below the
  target, or makes it invalid when there is none.
\<close>

theorem SkipList_search_correct:
  assumes "comparator cmp valid" and "skip_inv cmp valid s xs" and "valid key"
  shows "Contains cmp s key = Some (\<exists>x \<in> set (skip_keys s xs). cmp key x = 0) \<and>
    (\<exists>it. iter_Seek cmp s key = Some it \<and>
       map_option (node_key s) it = find (\<lambda>x. \<not> cmp x key < 0) (skip_keys s xs))"
  using comparator.Contains_correct [OF assms] comparator.iter_Seek_first_ge [OF assms] by blast

theorem SkipList_search_correct_witness:
  "Contains bytewise_Compare (SkipList_init []) [7] = Some False"
  using SkipList_search_correct [OF bytewise.comparator_axioms skip_inv_init TrueI, of "[]" "[7]"]
  by simp

text \<open>
  C23. From the position of the \<open>i\<close>-th key, \<open>Next\<close> moves to the following key and \<open>Prev\<close>, which
  searches for the last node before the key, moves to the preceding one; either makes the
  iterator invalid at the end it runs off. \<open>SeekToFirst\<close> and \<open>SeekToLast\<close> find the ends.
\<close>

theorem SkipList_iteration_in_order:
  assumes "comparator cmp valid" and "skip_inv cmp valid s xs" and "i < length xs"
  shows "iter_Next s (Some (xs ! i)) = (if Suc i < length xs then Some (xs ! Suc i) else None)
    \<and> iter_Prev cmp s (Some (xs ! i)) = Some (if i = 0 then None else Some (xs ! (i - 1)))
    \<and> iter_SeekToFirst s = Some (hd xs) \<and> iter_SeekToLast s = Some (Some (last xs))"
proof -
  have rep: "skip_rep s xs" and ne: "xs \<noteq> []" using assms by (auto simp: skip_inv_def)
  show ?thesis
    using iter_Next_correct [OF rep assms(3)] comparator.iter_Prev_correct [OF assms]
      iter_SeekToFirst_correct [OF rep] iter_SeekToLast_correct [OF rep] ne
    by (simp add: hd_conv_nth)
qed

theorem SkipList_iteration_in_order_witness:
  "\<exists>s xs. xs \<noteq> [] \<and> skip_keys s xs = [[7 :: byte]] \<and> iter_SeekToFirst s = Some (hd xs) \<and> iter_Next s (Some (xs ! 0)) = None"
proof -
  have "\<forall>x \<in> set (skip_keys (SkipList_init []) []). bytewise_Compare x [7] \<noteq> 0" by simp
  from bytewise.Insert_refines [OF skip_inv_init TrueI this] obtain s xs where
    s: "skip_inv bytewise_Compare (\<lambda>_. True) s xs" "skip_keys s xs = [[7]]"
    by (auto simp: ins_sorted_def)
  then have "length xs = 1" using length_skip_keys [of s xs] by simp
  with SkipList_iteration_in_order [OF bytewise.comparator_axioms s(1), of 0] s(2) show ?thesis
    by (intro exI [of _ s] exI [of _ xs]) auto
qed

end
