(* ===== verification/Filter_Policy.thy ===== *)
theory Filter_Policy imports Prelude begin

text \<open>
  \<^verbatim>\<open>include/leveldb/filter_policy.h\<close>. The abstract class \<open>FilterPolicy\<close> as a locale:
  \<open>CreateFilter\<close> appends a filter that summarises a list of keys to \<open>*dst\<close>, and \<open>KeyMayMatch\<close>
  must return true for every key that was in the list. False positives are allowed.
\<close>

locale filter_policy =
  fixes create_filter :: "bytes list \<Rightarrow> bytes \<Rightarrow> bytes"
    and key_may_match :: "bytes \<Rightarrow> bytes \<Rightarrow> bool"
  assumes create_appends: "create_filter keys dst = dst @ create_filter keys []"
    and no_false_negative: "key \<in> set keys \<Longrightarrow> key_may_match key (create_filter keys [])"
begin

lemma drop_create_filter [simp]: "drop (length dst) (create_filter keys dst) = create_filter keys []"
  by (subst create_appends) simp

lemma take_create_filter [simp]: "take (length dst) (create_filter keys dst) = dst"
  by (subst create_appends) simp

lemma length_create_filter: "length (create_filter keys dst) = length dst + length (create_filter keys [])"
  by (subst create_appends) simp

end

end
