(* ===== verification/DbFormat.thy ===== *)
theory DbFormat imports Coding Comparators Filter_Policy begin

text \<open>
  \<^verbatim>\<open>db/dbformat.h\<close> and \<^verbatim>\<open>db/dbformat.cc\<close>: internal keys (a user key followed by an eight
  byte tag that packs a 56-bit sequence number and a value type), their comparator and filter
  policy, which wrap those of the user, and the key formats used for lookups. The
  \<open>assert\<close>s of the code (keys of at least eight bytes, sequence numbers of at most 56 bits) are
  hypotheses of the lemmas. The comparator of internal keys is shown to satisfy the comparator
  interface whenever the user's does.
\<close>

section \<open>Value types and sequence numbers\<close>

datatype ValueType = kTypeDeletion | kTypeValue

fun type_code :: "ValueType \<Rightarrow> uint64" where
  "type_code kTypeDeletion = 0"
| "type_code kTypeValue = 1"

text \<open>The value types are ordered by their code, as the comparisons of the enum are.\<close>

instantiation ValueType :: linorder
begin

definition less_eq_ValueType :: "ValueType \<Rightarrow> ValueType \<Rightarrow> bool" where
  "s \<le> t \<longleftrightarrow> type_code s \<le> type_code t"

definition less_ValueType :: "ValueType \<Rightarrow> ValueType \<Rightarrow> bool" where
  "s < t \<longleftrightarrow> type_code s < type_code t"

instance
proof
  fix x y z :: ValueType
  show "x < y \<longleftrightarrow> x \<le> y \<and> \<not> y \<le> x" "x \<le> x" "x \<le> y \<Longrightarrow> y \<le> z \<Longrightarrow> x \<le> z" "x \<le> y \<or> y \<le> x"
    by (auto simp: less_eq_ValueType_def less_ValueType_def)
  show "x \<le> y \<Longrightarrow> y \<le> x \<Longrightarrow> x = y"
    by (cases x; cases y) (simp_all add: less_eq_ValueType_def)
qed

end

definition kValueTypeForSeek :: ValueType where
  "kValueTypeForSeek = kTypeValue"

definition kMaxSequenceNumber :: uint64 where
  "kMaxSequenceNumber = push_bit 56 1 - 1"

text \<open>The conversion \<open>static_cast<ValueType>(c)\<close>, where \<open>c\<close> is the code of a value type.\<close>

definition type_of_byte :: "byte \<Rightarrow> ValueType option" where
  "type_of_byte c = (if c = 0 then Some kTypeDeletion else if c = 1 then Some kTypeValue else None)"

record ParsedInternalKey =
  user_key :: bytes
  sequence :: uint64
  type :: ValueType

section \<open>Internal keys\<close>

definition InternalKeyEncodingLength :: "ParsedInternalKey \<Rightarrow> nat" where
  "InternalKeyEncodingLength key = length (user_key key) + 8"

definition PackSequenceAndType :: "uint64 \<Rightarrow> ValueType \<Rightarrow> uint64" where
  "PackSequenceAndType seq t = push_bit 8 seq OR type_code t"

definition AppendInternalKey :: "bytes \<Rightarrow> ParsedInternalKey \<Rightarrow> bytes" where
  "AppendInternalKey result key =
     PutFixed64 (result @ user_key key) (PackSequenceAndType (sequence key) (type key))"

definition ExtractUserKey :: "bytes \<Rightarrow> bytes" where
  "ExtractUserKey internal_key = take (length internal_key - 8) internal_key"

definition ExtractTag :: "bytes \<Rightarrow> uint64" where
  "ExtractTag internal_key = DecodeFixed64 (drop (length internal_key - 8) internal_key)"

definition ExtractValueType :: "bytes \<Rightarrow> ValueType option" where
  "ExtractValueType internal_key = type_of_byte (ucast (ExtractTag internal_key AND 0xff))"

definition ParseInternalKey :: "bytes \<Rightarrow> ParsedInternalKey option" where
  "ParseInternalKey internal_key =
     (if length internal_key < 8 then None
      else let num = ExtractTag internal_key; c = (ucast (num AND 0xff) :: byte)
           in case type_of_byte c of
                None \<Rightarrow> None
              | Some t \<Rightarrow> Some \<lparr> user_key = take (length internal_key - 8) internal_key,
                               sequence = drop_bit 8 num, type = t \<rparr>)"

text \<open>An \<open>InternalKey\<close> is its representation; the empty string is the invalid key.\<close>

definition InternalKey_make :: "bytes \<Rightarrow> uint64 \<Rightarrow> ValueType \<Rightarrow> bytes" where
  "InternalKey_make ukey s t = AppendInternalKey [] \<lparr> user_key = ukey, sequence = s, type = t \<rparr>"

section \<open>The comparator of internal keys\<close>

definition InternalKey_Compare :: "(bytes \<Rightarrow> bytes \<Rightarrow> int) \<Rightarrow> bytes \<Rightarrow> bytes \<Rightarrow> int" where
  "InternalKey_Compare ucmp akey bkey =
     (let r = ucmp (ExtractUserKey akey) (ExtractUserKey bkey)
      in if r = 0
         then let anum = ExtractTag akey; bnum = ExtractTag bkey
              in if anum > bnum then -1 else if anum < bnum then 1 else r
         else r)"

definition InternalKey_FindShortestSeparator ::
    "(bytes \<Rightarrow> bytes \<Rightarrow> int) \<Rightarrow> (bytes \<Rightarrow> bytes \<Rightarrow> bytes) \<Rightarrow> bytes \<Rightarrow> bytes \<Rightarrow> bytes" where
  "InternalKey_FindShortestSeparator ucmp usep start limit =
     (let user_start = ExtractUserKey start; user_limit = ExtractUserKey limit;
          tmp = usep user_start user_limit
      in if length tmp < length user_start \<and> ucmp user_start tmp < 0
         then PutFixed64 tmp (PackSequenceAndType kMaxSequenceNumber kValueTypeForSeek)
         else start)"

definition InternalKey_FindShortSuccessor ::
    "(bytes \<Rightarrow> bytes \<Rightarrow> int) \<Rightarrow> (bytes \<Rightarrow> bytes) \<Rightarrow> bytes \<Rightarrow> bytes" where
  "InternalKey_FindShortSuccessor ucmp usucc key =
     (let ukey = ExtractUserKey key; tmp = usucc ukey
      in if length tmp < length ukey \<and> ucmp ukey tmp < 0
         then PutFixed64 tmp (PackSequenceAndType kMaxSequenceNumber kValueTypeForSeek)
         else key)"

section \<open>The filter policy of internal keys\<close>

definition InternalFilterPolicy_CreateFilter ::
    "(bytes list \<Rightarrow> bytes \<Rightarrow> bytes) \<Rightarrow> bytes list \<Rightarrow> bytes \<Rightarrow> bytes" where
  "InternalFilterPolicy_CreateFilter ucreate keys dst = ucreate (map ExtractUserKey keys) dst"

definition InternalFilterPolicy_KeyMayMatch ::
    "(bytes \<Rightarrow> bytes \<Rightarrow> bool) \<Rightarrow> bytes \<Rightarrow> bytes \<Rightarrow> bool" where
  "InternalFilterPolicy_KeyMayMatch umatch key f = umatch (ExtractUserKey key) f"

section \<open>Lookup keys\<close>

text \<open>
  \<open>start_\<close>, \<open>kstart_\<close> and \<open>end_\<close> delimit one array: the length prefix, then the internal key.
\<close>

record LookupKey =
  lk_prefix :: bytes
  lk_ikey :: bytes

definition LookupKey_make :: "bytes \<Rightarrow> uint64 \<Rightarrow> LookupKey" where
  "LookupKey_make ukey s =
     \<lparr> lk_prefix = EncodeVarint32 (of_nat (length ukey + 8)),
       lk_ikey = ukey @ EncodeFixed64 (PackSequenceAndType s kValueTypeForSeek) \<rparr>"

definition memtable_key :: "LookupKey \<Rightarrow> bytes" where
  "memtable_key k = lk_prefix k @ lk_ikey k"

definition LookupKey_internal_key :: "LookupKey \<Rightarrow> bytes" where
  "LookupKey_internal_key k = lk_ikey k"

definition LookupKey_user_key :: "LookupKey \<Rightarrow> bytes" where
  "LookupKey_user_key k = take (length (lk_ikey k) - 8) (lk_ikey k)"

section \<open>Tags\<close>

lemma kMaxSequenceNumber_value: "kMaxSequenceNumber = 72057594037927935"
  by (simp add: kMaxSequenceNumber_def)

lemma unat_type_code: "unat (type_code t) \<le> 1"
  by (cases t) simp_all

lemma type_code_inject [simp]: "type_code s = type_code t \<longleftrightarrow> s = t"
  by (cases s; cases t) simp_all

lemma unat_Pack:
  assumes "seq \<le> kMaxSequenceNumber"
  shows "unat (PackSequenceAndType seq t) = 256 * unat seq + unat (type_code t)"
proof -
  have b: "unat seq < 2 ^ 56"
    using assms by (simp add: kMaxSequenceNumber_value word_le_nat_alt)
  have "push_bit 8 seq AND type_code t = 0"
    by (rule bit_word_eqI) (cases t; auto simp: bit_simps)
  then have "PackSequenceAndType seq t = push_bit 8 seq + type_code t"
    unfolding PackSequenceAndType_def by (rule or_eq_plus_if_disjoint)
  also have "unat \<dots> = (256 * unat seq + unat (type_code t)) mod 2 ^ 64"
    by (simp add: unat_word_ariths push_bit_eq_mult mod_simps mult.commute)
  finally show ?thesis using b unat_type_code [of t] by simp
qed

lemma Pack_less_iff:
  assumes "s \<le> kMaxSequenceNumber" "s' \<le> kMaxSequenceNumber"
  shows "PackSequenceAndType s t < PackSequenceAndType s' t' \<longleftrightarrow> s < s' \<or> s = s' \<and> t < t'"
  using unat_type_code [of t] unat_type_code [of t']
  by (auto simp: word_less_nat_alt unat_Pack assms less_ValueType_def word_unat_eq_iff)

lemma tag_parts_unique:
  assumes "256 * a + b = 256 * c + (d :: nat)" "b \<le> 1" "d \<le> 1"
  shows "a = c \<and> b = d"
proof -
  have "(256 * a + b) div 256 = (256 * c + d) div 256" by (simp only: assms(1))
  then have "a = c" using assms(2,3) by simp
  with assms(1) show ?thesis by simp
qed

lemma Pack_inject:
  assumes "s \<le> kMaxSequenceNumber" "s' \<le> kMaxSequenceNumber"
  shows "PackSequenceAndType s t = PackSequenceAndType s' t' \<longleftrightarrow> s = s' \<and> t = t'"
proof
  assume "PackSequenceAndType s t = PackSequenceAndType s' t'"
  then have "256 * unat s + unat (type_code t) = 256 * unat s' + unat (type_code t')"
    using unat_Pack [OF assms(1), of t] unat_Pack [OF assms(2), of t'] by (simp only:)
  from tag_parts_unique [OF this unat_type_code unat_type_code]
  show "s = s' \<and> t = t'" by (simp add: word_unat_eq_iff [symmetric])
qed simp

lemma drop_bit_8_Pack [simp]:
  assumes "seq \<le> kMaxSequenceNumber"
  shows "drop_bit 8 (PackSequenceAndType seq t) = seq"
  using unat_type_code [of t]
  by (simp add: word_unat_eq_iff unat_drop_bit_nat unat_Pack [OF assms])

lemma ucast_Pack [simp]: "(ucast (PackSequenceAndType seq t) :: byte) = ucast (type_code t)"
  by (rule bit_word_eqI) (auto simp: PackSequenceAndType_def bit_simps)

lemma type_of_byte_code [simp]: "type_of_byte (ucast (type_code t)) = Some t"
  by (cases t) (simp_all add: type_of_byte_def)

lemma Pack_max: "PackSequenceAndType s t \<le> PackSequenceAndType kMaxSequenceNumber kTypeValue"
  if "s \<le> kMaxSequenceNumber"
  using that unat_type_code [of t]
  by (simp add: word_le_nat_alt unat_Pack kMaxSequenceNumber_value)

section \<open>Parsing inverts appending\<close>

lemma AppendInternalKey_eq:
  "AppendInternalKey result key =
     result @ user_key key @ EncodeFixed64 (PackSequenceAndType (sequence key) (type key))"
  by (simp add: AppendInternalKey_def PutFixed64_def)

lemma length_AppendInternalKey [simp, length_simps]:
  "length (AppendInternalKey result key) = length result + InternalKeyEncodingLength key"
  by (simp add: AppendInternalKey_eq InternalKeyEncodingLength_def)

lemma Extract_tagged [simp]:
  "ExtractUserKey (u @ EncodeFixed64 n) = u" "ExtractTag (u @ EncodeFixed64 n) = n"
  by (simp_all add: ExtractUserKey_def ExtractTag_def)

lemma tagged_split:
  assumes "8 \<le> length k"
  shows "ExtractUserKey k @ EncodeFixed64 (ExtractTag k) = k"
proof -
  have "length (drop (length k - 8) k) = 8" using assms by simp
  from EncodeFixed64_DecodeFixed64 [OF this, where rest = "[]"]
  have "EncodeFixed64 (ExtractTag k) = drop (length k - 8) k" by (simp add: ExtractTag_def)
  then show ?thesis by (simp add: ExtractUserKey_def)
qed

lemma tagged_eqI:
  assumes "8 \<le> length a" "8 \<le> length b" "ExtractUserKey a = ExtractUserKey b" "ExtractTag a = ExtractTag b"
  shows "a = b"
proof -
  have "a = ExtractUserKey a @ EncodeFixed64 (ExtractTag a)" by (rule tagged_split [OF assms(1), symmetric])
  also have "\<dots> = ExtractUserKey b @ EncodeFixed64 (ExtractTag b)" by (simp only: assms(3,4))
  also have "\<dots> = b" by (rule tagged_split [OF assms(2)])
  finally show ?thesis .
qed

lemma Parse_Append:
  assumes "sequence key \<le> kMaxSequenceNumber"
  shows "ParseInternalKey (AppendInternalKey [] key) = Some key"
  by (simp add: ParseInternalKey_def AppendInternalKey_eq Let_def drop_bit_8_Pack [OF assms])

lemma Extract_InternalKey_make [simp]:
  "ExtractUserKey (InternalKey_make u s t) = u"
  "ExtractTag (InternalKey_make u s t) = PackSequenceAndType s t"
  "ExtractValueType (InternalKey_make u s t) = Some t"
  by (simp_all add: InternalKey_make_def AppendInternalKey_eq ExtractValueType_def)

lemma length_InternalKey_make [simp]: "length (InternalKey_make u s t) = length u + 8"
  by (simp add: InternalKey_make_def InternalKeyEncodingLength_def)

lemma Append_Parse:
  assumes "ParseInternalKey k = Some key"
  shows "AppendInternalKey [] key = k" "sequence key \<le> kMaxSequenceNumber"
proof -
  have k: "8 \<le> length k"
    using assms by (auto simp: ParseInternalKey_def split: if_splits)
  define c where "c = (ucast (ExtractTag k) :: byte)"
  have key: "user_key key = ExtractUserKey k" "sequence key = drop_bit 8 (ExtractTag k)"
    "type_of_byte c = Some (type key)"
    using assms k by (auto simp: ParseInternalKey_def ExtractUserKey_def Let_def c_def split: option.splits if_splits)
  have c: "c = ucast (type_code (type key))"
    using key(3) by (auto simp: type_of_byte_def split: if_splits)
  have "ExtractTag k = push_bit 8 (drop_bit 8 (ExtractTag k)) OR ucast c"
    unfolding c_def by (rule bit_word_eqI) (auto simp: bit_simps)
  also have "ucast c = type_code (type key)"
    unfolding c by (cases "type key") simp_all
  finally have tag: "PackSequenceAndType (sequence key) (type key) = ExtractTag k"
    by (simp add: PackSequenceAndType_def key)
  show "AppendInternalKey [] key = k"
    by (simp add: AppendInternalKey_eq tag key(1) tagged_split [OF k])
  have "unat (drop_bit 8 (ExtractTag k)) < 2 ^ 56"
    using unat_less_2p64 [of "ExtractTag k"] by (simp add: unat_drop_bit_nat less_mult_imp_div_less)
  then show "sequence key \<le> kMaxSequenceNumber"
    by (simp add: key word_le_nat_alt kMaxSequenceNumber_value)
qed

section \<open>The order of internal keys\<close>

text \<open>The keys the comparator is called on: the \<open>assert\<close> of \<open>ExtractUserKey\<close>, with a valid user key.\<close>

definition internal_valid :: "(bytes \<Rightarrow> bool) \<Rightarrow> bytes \<Rightarrow> bool" where
  "internal_valid uvalid k \<longleftrightarrow> 8 \<le> length k \<and> uvalid (ExtractUserKey k)"

lemma InternalKey_Compare_less:
  "InternalKey_Compare ucmp a b < 0 \<longleftrightarrow>
     ucmp (ExtractUserKey a) (ExtractUserKey b) < 0
     \<or> ucmp (ExtractUserKey a) (ExtractUserKey b) = 0 \<and> ExtractTag a > ExtractTag b"
  by (auto simp: InternalKey_Compare_def Let_def)

lemma InternalKey_Compare_greater:
  "InternalKey_Compare ucmp a b > 0 \<longleftrightarrow>
     ucmp (ExtractUserKey a) (ExtractUserKey b) > 0
     \<or> ucmp (ExtractUserKey a) (ExtractUserKey b) = 0 \<and> ExtractTag a < ExtractTag b"
  by (auto simp: InternalKey_Compare_def Let_def)

lemma InternalKey_Compare_zero:
  "InternalKey_Compare ucmp a b = 0 \<longleftrightarrow>
     ucmp (ExtractUserKey a) (ExtractUserKey b) = 0 \<and> ExtractTag a = ExtractTag b"
  by (auto simp: InternalKey_Compare_def Let_def)

lemma InternalKey_Compare_le:
  "InternalKey_Compare ucmp a b \<le> 0 \<longleftrightarrow>
     ucmp (ExtractUserKey a) (ExtractUserKey b) < 0
     \<or> ucmp (ExtractUserKey a) (ExtractUserKey b) = 0 \<and> ExtractTag a \<ge> ExtractTag b"
  by (auto simp: InternalKey_Compare_def Let_def)

locale user_key_comparator = user: key_comparator ucmp uvalid usep usucc
  for ucmp :: "bytes \<Rightarrow> bytes \<Rightarrow> int" and uvalid usep usucc
begin

lemma shortened_valid:
  "uvalid tmp \<Longrightarrow> internal_valid uvalid (PutFixed64 tmp (PackSequenceAndType kMaxSequenceNumber kValueTypeForSeek))"
  by (simp add: internal_valid_def PutFixed64_def)

lemma internal_comparator: "total_comparator (InternalKey_Compare ucmp) (internal_valid uvalid)"
proof
  fix a b c
  assume a: "internal_valid uvalid a"
  then have ua: "uvalid (ExtractUserKey a)" by (simp add: internal_valid_def)
  show "InternalKey_Compare ucmp a a = 0"
    by (simp add: InternalKey_Compare_zero user.cmp_refl [OF ua])
  assume b: "internal_valid uvalid b"
  then have ub: "uvalid (ExtractUserKey b)" by (simp add: internal_valid_def)
  show "InternalKey_Compare ucmp a b < 0 \<longleftrightarrow> InternalKey_Compare ucmp b a > 0"
    using user.cmp_swap [OF ua ub] user.cmp_zero_sym [OF ua ub]
    by (auto simp: InternalKey_Compare_less InternalKey_Compare_greater)
  show "InternalKey_Compare ucmp a b = 0 \<Longrightarrow> a = b"
    using a b user.cmp_eq_iff [OF ua ub]
    by (auto simp: InternalKey_Compare_zero internal_valid_def intro: tagged_eqI)
  assume c: "internal_valid uvalid c"
  then have uc: "uvalid (ExtractUserKey c)" by (simp add: internal_valid_def)
  show "InternalKey_Compare ucmp a b \<le> 0 \<Longrightarrow> InternalKey_Compare ucmp b c \<le> 0 \<Longrightarrow> InternalKey_Compare ucmp a c \<le> 0"
    using user.cmp_less_trans [OF ua ub uc] user.cmp_eq_iff [OF ua ub] user.cmp_eq_iff [OF ub uc]
    by (auto simp: InternalKey_Compare_le)
qed

end

sublocale user_key_comparator \<subseteq> internal: key_comparator "InternalKey_Compare ucmp" "internal_valid uvalid"
    "InternalKey_FindShortestSeparator ucmp usep" "InternalKey_FindShortSuccessor ucmp usucc"
proof (intro key_comparator.intro key_comparator_axioms.intro internal_comparator)
  let ?cmp = "InternalKey_Compare ucmp"
  fix a b
  let ?u = "ExtractUserKey a" and ?v = "ExtractUserKey b"
  let ?t = "usep ?u ?v" and ?s = "InternalKey_FindShortestSeparator ucmp usep a b"
  let ?max = "PackSequenceAndType kMaxSequenceNumber kValueTypeForSeek"
  assume va: "internal_valid uvalid a"
  then have ua: "uvalid ?u" by (simp add: internal_valid_def)
  have succ: "InternalKey_FindShortSuccessor ucmp usucc a =
      (if length (usucc ?u) < length ?u \<and> ucmp ?u (usucc ?u) < 0 then PutFixed64 (usucc ?u) ?max else a)"
    by (simp add: InternalKey_FindShortSuccessor_def Let_def)
  show "internal_valid uvalid (InternalKey_FindShortSuccessor ucmp usucc a)"
    using va user.succ_valid [OF ua] by (simp add: succ shortened_valid)
  show "?cmp a (InternalKey_FindShortSuccessor ucmp usucc a) \<le> 0"
    using user.cmp_refl [OF ua] by (simp add: succ InternalKey_Compare_le PutFixed64_def)
  assume vb: "internal_valid uvalid b"
  then have ub: "uvalid ?v" by (simp add: internal_valid_def)
  have s: "?s = (if length ?t < length ?u \<and> ucmp ?u ?t < 0 then PutFixed64 ?t ?max else a)"
    by (simp add: InternalKey_FindShortestSeparator_def Let_def)
  show "internal_valid uvalid ?s"
    using va user.sep_valid [OF ua ub] by (simp add: s shortened_valid)
  have unchanged: "?t = ?u" if "\<not> ucmp ?u ?v < 0"
    using user.sep_unchanged [OF ua ub that] .
  show "?cmp a b < 0 \<Longrightarrow> ?cmp a ?s \<le> 0"
    using user.cmp_refl [OF ua] by (simp add: s InternalKey_Compare_le PutFixed64_def)
  show "?cmp a b < 0 \<Longrightarrow> ?cmp ?s b < 0"
    using unchanged user.sep_less [OF ua ub] by (auto simp: s InternalKey_Compare_less PutFixed64_def)
  show "\<not> ?cmp a b < 0 \<Longrightarrow> ?s = a"
    using unchanged by (auto simp: s InternalKey_Compare_less)
qed

context user_key_comparator
begin

lemma internal_laws:
  assumes "internal_valid uvalid start" and "internal_valid uvalid limit"
    and "InternalKey_Compare ucmp start limit < 0"
  shows "internal_valid uvalid (InternalKey_FindShortestSeparator ucmp usep start limit)
    \<and> InternalKey_Compare ucmp start (InternalKey_FindShortestSeparator ucmp usep start limit) \<le> 0
    \<and> InternalKey_Compare ucmp (InternalKey_FindShortestSeparator ucmp usep start limit) limit < 0
    \<and> internal_valid uvalid (InternalKey_FindShortSuccessor ucmp usucc start)
    \<and> InternalKey_Compare ucmp start (InternalKey_FindShortSuccessor ucmp usucc start) \<le> 0"
  using internal.sep_valid [OF assms(1,2)] internal.sep_ge [OF assms] internal.sep_less [OF assms]
    internal.succ_valid [OF assms(1)] internal.succ_ge [OF assms(1)] by blast

end

interpretation bytewise_internal: user_key_comparator bytewise_Compare "\<lambda>_. True"
    bytewise_FindShortestSeparator bytewise_FindShortSuccessor
  by (rule user_key_comparator.intro) unfold_locales

text \<open>A filter policy lifts to internal keys: the filter of the user keys is asked for the user key.\<close>

locale user_filter_policy = user: filter_policy ucreate umatch for ucreate umatch

sublocale user_filter_policy \<subseteq> internal: filter_policy
    "InternalFilterPolicy_CreateFilter ucreate" "InternalFilterPolicy_KeyMayMatch umatch"
  by unfold_locales
    (auto simp: InternalFilterPolicy_CreateFilter_def InternalFilterPolicy_KeyMayMatch_def
      intro: user.create_appends user.no_false_negative)

section \<open>Lookup keys\<close>

lemma LookupKey_parts:
  "LookupKey_internal_key (LookupKey_make u s) = InternalKey_make u s kValueTypeForSeek"
  "LookupKey_user_key (LookupKey_make u s) = u"
  "memtable_key (LookupKey_make u s) =
     EncodeVarint32 (of_nat (length u + 8)) @ InternalKey_make u s kValueTypeForSeek"
  by (simp_all add: LookupKey_internal_key_def LookupKey_make_def LookupKey_user_key_def
      memtable_key_def InternalKey_make_def AppendInternalKey_eq)

section \<open>Properties\<close>

text \<open>
  C20. Internal keys round-trip: parsing an appended key returns it when its sequence number fits
  in 56 bits, and whatever parses is the encoding of its parts, so keys that are too short or
  carry an unknown value type are rejected.
\<close>

theorem InternalKey_roundtrip:
  "ParseInternalKey k = Some key \<longleftrightarrow>
     sequence key \<le> kMaxSequenceNumber \<and> k = AppendInternalKey [] key"
  using Parse_Append [of key] Append_Parse [of k key] by auto

text \<open>
  C21. Internal keys are ordered by increasing user key and then by decreasing sequence number and
  type: the comparator on encoded keys refines that order on their parts, so a newer version of
  a key comes before the older ones.
\<close>

theorem InternalKey_order:
  assumes "s \<le> kMaxSequenceNumber" and "s' \<le> kMaxSequenceNumber"
  shows "InternalKey_Compare ucmp (InternalKey_make u s t) (InternalKey_make u' s' t') < 0 \<longleftrightarrow>
     ucmp u u' < 0 \<or> ucmp u u' = 0 \<and> (s > s' \<or> s = s' \<and> t > t')"
  using Pack_less_iff [OF assms(2,1)] by (simp add: InternalKey_Compare_less) blast

theorem InternalKey_order_witness:
  "InternalKey_Compare bytewise_Compare (InternalKey_make [1] 9 kTypeDeletion)
     (InternalKey_make [1] 5 kTypeValue) < 0"
  by (subst InternalKey_order) (simp_all add: kMaxSequenceNumber_value bytewise_Compare_def)

text \<open>
  C19. The separator of two internal keys is sound for every user comparator that meets the
  interface: it is a valid internal key at least \<open>start\<close> and less than \<open>limit\<close>, and the short
  successor of a key is valid and not less than it.
\<close>

theorem InternalKey_shortening_sound:
  assumes "user_key_comparator ucmp uvalid usep usucc"
    and "internal_valid uvalid start" and "internal_valid uvalid limit"
    and "InternalKey_Compare ucmp start limit < 0"
  shows "internal_valid uvalid (InternalKey_FindShortestSeparator ucmp usep start limit)
    \<and> InternalKey_Compare ucmp start (InternalKey_FindShortestSeparator ucmp usep start limit) \<le> 0
    \<and> InternalKey_Compare ucmp (InternalKey_FindShortestSeparator ucmp usep start limit) limit < 0
    \<and> internal_valid uvalid (InternalKey_FindShortSuccessor ucmp usucc start)
    \<and> InternalKey_Compare ucmp start (InternalKey_FindShortSuccessor ucmp usucc start) \<le> 0"
  using user_key_comparator.internal_laws [OF assms] .

theorem InternalKey_shortening_sound_witness:
  "InternalKey_Compare bytewise_Compare
     (InternalKey_FindShortestSeparator bytewise_Compare bytewise_FindShortestSeparator
        (InternalKey_make [1, 2, 3] 5 kTypeValue) (InternalKey_make [1, 9] 7 kTypeValue))
     (InternalKey_make [1, 9] 7 kTypeValue) < 0"
proof -
  have "InternalKey_Compare bytewise_Compare (InternalKey_make [1, 2, 3] 5 kTypeValue)
      (InternalKey_make [1, 9] 7 kTypeValue) < 0"
    by (simp add: InternalKey_Compare_less bytewise_Compare_def)
  with InternalKey_shortening_sound [OF bytewise_internal.user_key_comparator_axioms]
  show ?thesis by (simp add: internal_valid_def)
qed

end
