(* ===== verification/MemTable.thy ===== *)
theory MemTable imports SkipList DbFormat begin

text \<open>
  \<^verbatim>\<open>db/memtable.h\<close> and \<^verbatim>\<open>db/memtable.cc\<close>: the in-memory table, a skip list whose keys point
  to entries that hold a length-prefixed internal key followed by a length-prefixed value. The
  model keeps the bytes of an entry in the node. The entries are ordered by the internal key
  comparator on their keys; the theory interprets the comparator interface with it, so the
  lemmas of the skip list apply. \<open>mem_rep\<close> relates a memtable to the sorted list of the
  versions it holds.
\<close>

section \<open>Entries\<close>

text \<open>
  The pointer version of \<open>GetLengthPrefixedSlice\<close> reads at most five bytes for the length and
  assumes that they are well formed; the model returns the empty slice when they are not.
\<close>

definition entry_slice :: "bytes \<Rightarrow> bytes" where
  "entry_slice data =
     (case GetVarint32Ptr data of None \<Rightarrow> [] | Some (len, p) \<Rightarrow> take (unat len) p)"

definition MemTable_KeyComparator :: "(bytes \<Rightarrow> bytes \<Rightarrow> int) \<Rightarrow> bytes \<Rightarrow> bytes \<Rightarrow> int" where
  "MemTable_KeyComparator ucmp aptr bptr =
     InternalKey_Compare ucmp (entry_slice aptr) (entry_slice bptr)"

definition EncodeKey :: "bytes \<Rightarrow> bytes" where
  "EncodeKey target = PutVarint32 [] (of_nat (length target)) @ target"

section \<open>The memtable\<close>

record memtable =
  refs :: int
  table :: "bytes skiplist"

definition MemTable_init :: memtable where
  "MemTable_init = \<lparr>refs = 0, table = SkipList_init []\<rparr>"

definition MemTable_Ref :: "memtable \<Rightarrow> memtable" where
  "MemTable_Ref m = m\<lparr>refs := refs m + 1\<rparr>"

text \<open>\<open>Unref\<close> deletes the memtable when no references are left.\<close>

definition MemTable_Unref :: "memtable \<Rightarrow> memtable option" where
  "MemTable_Unref m =
     (let m = m\<lparr>refs := refs m - 1\<rparr> in if refs m \<le> 0 then None else Some m)"

text \<open>
  \<open>Add\<close> writes the entry piece by piece into a buffer of \<open>encoded_len\<close> bytes; the lengths are
  converted to \<open>uint32_t\<close> when they are written.
\<close>

definition encoded_len :: "bytes \<Rightarrow> bytes \<Rightarrow> nat" where
  "encoded_len key value =
     (let internal_key_size = length key + 8; val_size = length value
      in VarintLength (of_nat internal_key_size) + internal_key_size
         + VarintLength (of_nat val_size) + val_size)"

definition encode_entry :: "uint64 \<Rightarrow> ValueType \<Rightarrow> bytes \<Rightarrow> bytes \<Rightarrow> bytes" where
  "encode_entry s t key value =
     EncodeVarint32 (of_nat (length key + 8)) @ key @ EncodeFixed64 (push_bit 8 s OR type_code t)
     @ EncodeVarint32 (of_nat (length value)) @ value"

definition MemTable_Add ::
  "(bytes \<Rightarrow> bytes \<Rightarrow> int) \<Rightarrow> memtable \<Rightarrow> uint64 \<Rightarrow> ValueType \<Rightarrow> bytes \<Rightarrow> bytes \<Rightarrow> memtable option" where
  "MemTable_Add ucmp m s t key value =
     map_option (\<lambda>tb. m\<lparr>table := tb\<rparr>)
       (Insert (MemTable_KeyComparator ucmp) (table m) (encode_entry s t key value))"

text \<open>
  \<open>Get\<close> returns the pair of its result with \<open>*value\<close> and \<open>*s\<close> as it leaves them. The outer
  option is the termination of the search. \<open>MemTable_Get_entry\<close> is the body of
  \<open>if (iter.Valid())\<close>, for the entry the iterator is at.
\<close>

definition MemTable_Get_entry ::
  "(bytes \<Rightarrow> bytes \<Rightarrow> int) \<Rightarrow> LookupKey \<Rightarrow> bytes \<Rightarrow> status \<Rightarrow> bytes \<Rightarrow> bool \<times> bytes \<times> status" where
  "MemTable_Get_entry ucmp key value s entry =
     (case GetVarint32Ptr entry of
        None \<Rightarrow> (False, value, s)
      | Some (key_length, key_ptr) \<Rightarrow>
          let k = unat key_length in
          if ucmp (take (k - 8) key_ptr) (LookupKey_user_key key) = 0
          then let tag = DecodeFixed64 (drop (k - 8) key_ptr) in
            case type_of_byte (ucast (tag AND 0xff)) of
              Some kTypeValue \<Rightarrow> (True, entry_slice (drop k key_ptr), s)
            | Some kTypeDeletion \<Rightarrow> (True, value, NotFound [])
            | None \<Rightarrow> (False, value, s)
          else (False, value, s))"

definition MemTable_Get ::
  "(bytes \<Rightarrow> bytes \<Rightarrow> int) \<Rightarrow> memtable \<Rightarrow> LookupKey \<Rightarrow> bytes \<Rightarrow> status \<Rightarrow> (bool \<times> bytes \<times> status) option" where
  "MemTable_Get ucmp m key value s =
     (case iter_Seek (MemTable_KeyComparator ucmp) (table m) (memtable_key key) of
        None \<Rightarrow> None
      | Some iter \<Rightarrow>
          if iter_Valid iter then Some (MemTable_Get_entry ucmp key value s (iter_key (table m) iter))
          else Some (False, value, s))"

section \<open>Iterators\<close>

text \<open>A memtable iterator wraps the iterator of its skip list.\<close>

definition mem_iter_Seek :: "(bytes \<Rightarrow> bytes \<Rightarrow> int) \<Rightarrow> memtable \<Rightarrow> bytes \<Rightarrow> addr option option" where
  "mem_iter_Seek ucmp m k = iter_Seek (MemTable_KeyComparator ucmp) (table m) (EncodeKey k)"

definition mem_iter_key :: "memtable \<Rightarrow> addr option \<Rightarrow> bytes" where
  "mem_iter_key m it = entry_slice (iter_key (table m) it)"

text \<open>The value starts where the internal key ends.\<close>

definition mem_iter_value :: "memtable \<Rightarrow> addr option \<Rightarrow> bytes" where
  "mem_iter_value m it =
     (case GetVarint32Ptr (iter_key (table m) it) of
        None \<Rightarrow> []
      | Some (len, p) \<Rightarrow> entry_slice (drop (unat len) p))"

definition mem_iter_SeekToFirst :: "memtable \<Rightarrow> addr option" where
  "mem_iter_SeekToFirst m = iter_SeekToFirst (table m)"

definition mem_iter_Next :: "memtable \<Rightarrow> addr option \<Rightarrow> addr option" where
  "mem_iter_Next m it = iter_Next (table m) it"

section \<open>Encoding and decoding entries\<close>

lemma GetVarint32Ptr_Encode [simp]: "GetVarint32Ptr (EncodeVarint32 v @ rest) = Some (v, rest)"
  using GetVarint32_EncodeVarint32 [of v rest] by (simp add: GetVarint32_def)

lemma encode_entry_eq:
  "encode_entry s t key value =
     EncodeVarint32 (of_nat (length key + 8)) @ InternalKey_make key s t
     @ EncodeVarint32 (of_nat (length value)) @ value"
  by (simp add: encode_entry_def InternalKey_make_def AppendInternalKey_eq PackSequenceAndType_def)

lemma entry_slice_prefixed [simp]:
  "length k < 2 ^ 32 \<Longrightarrow> entry_slice (EncodeVarint32 (of_nat (length k)) @ k @ rest) = k"
  by (simp add: entry_slice_def unat_of_nat_32)

text \<open>The \<open>assert\<close> at the end of \<open>Add\<close>: the entry fills the buffer that was allocated for it.\<close>

lemma length_encode_entry:
  assumes "length key + 8 < 2 ^ 32" "length value < 2 ^ 32"
  shows "length (encode_entry s t key value) = encoded_len key value"
proof -
  have "length (EncodeVarint32 (of_nat n)) = VarintLength (of_nat n)" if "n < 2 ^ 32" for n
  proof -
    have "n < 2 ^ 64" using that by simp
    with that show ?thesis
      by (simp add: EncodeVarint32_varint VarintLength_varint unat_of_nat_32 unat_of_nat_64)
  qed
  from this [OF assms(1)] this [OF assms(2)] show ?thesis
    by (simp add: encode_entry_def encoded_len_def Let_def)
qed

section \<open>The order of entries\<close>

text \<open>The strings the comparator is called on: entries, and the keys encoded for a search.\<close>

definition entry_valid :: "(bytes \<Rightarrow> bool) \<Rightarrow> bytes \<Rightarrow> bool" where
  "entry_valid uvalid e \<longleftrightarrow> internal_valid uvalid (entry_slice e)"

sublocale user_key_comparator \<subseteq> mem: comparator "MemTable_KeyComparator ucmp" "entry_valid uvalid"
proof unfold_locales
  fix a b c
  show "entry_valid uvalid a \<Longrightarrow> MemTable_KeyComparator ucmp a a = 0"
    by (simp add: entry_valid_def MemTable_KeyComparator_def internal.cmp_refl)
  show "entry_valid uvalid a \<Longrightarrow> entry_valid uvalid b \<Longrightarrow>
      MemTable_KeyComparator ucmp a b < 0 \<longleftrightarrow> MemTable_KeyComparator ucmp b a > 0"
    by (simp add: entry_valid_def MemTable_KeyComparator_def internal.cmp_swap)
  show "entry_valid uvalid a \<Longrightarrow> entry_valid uvalid b \<Longrightarrow> entry_valid uvalid c \<Longrightarrow>
      MemTable_KeyComparator ucmp a b \<le> 0 \<Longrightarrow> MemTable_KeyComparator ucmp b c \<le> 0 \<Longrightarrow>
      MemTable_KeyComparator ucmp a c \<le> 0"
    unfolding entry_valid_def MemTable_KeyComparator_def by (rule internal.cmp_trans)
qed

section \<open>The versions a memtable holds\<close>

record version =
  v_key :: bytes
  v_seq :: uint64
  v_type :: ValueType
  v_value :: bytes

definition enc_version :: "version \<Rightarrow> bytes" where
  "enc_version v = encode_entry (v_seq v) (v_type v) (v_key v) (v_value v)"

definition version_ok :: "(bytes \<Rightarrow> bool) \<Rightarrow> version \<Rightarrow> bool" where
  "version_ok uvalid v \<longleftrightarrow> uvalid (v_key v) \<and> v_seq v \<le> kMaxSequenceNumber
     \<and> length (v_key v) + 8 < 2 ^ 32 \<and> length (v_value v) < 2 ^ 32"

text \<open>
  The order of versions: by key, the newer one first; \<open>visible\<close> is the newest version of a key
  at a sequence number.
\<close>

definition version_before :: "(bytes \<Rightarrow> bytes \<Rightarrow> int) \<Rightarrow> version \<Rightarrow> version \<Rightarrow> bool" where
  "version_before ucmp a b \<longleftrightarrow> ucmp (v_key a) (v_key b) < 0
     \<or> ucmp (v_key a) (v_key b) = 0 \<and> (v_seq a > v_seq b \<or> v_seq a = v_seq b \<and> v_type a > v_type b)"

definition mem_rep ::
  "(bytes \<Rightarrow> bytes \<Rightarrow> int) \<Rightarrow> (bytes \<Rightarrow> bool) \<Rightarrow> memtable \<Rightarrow> version list \<Rightarrow> bool" where
  "mem_rep ucmp uvalid m vs \<longleftrightarrow>
     (\<forall>v \<in> set vs. version_ok uvalid v) \<and>
     (\<exists>xs. skip_inv (MemTable_KeyComparator ucmp) (entry_valid uvalid) (table m) xs
           \<and> skip_keys (table m) xs = map enc_version vs)"

definition visible :: "version list \<Rightarrow> bytes \<Rightarrow> uint64 \<Rightarrow> version option" where
  "visible vs u s = find (\<lambda>v. v_key v = u \<and> v_seq v \<le> s) vs"

lemma entry_slice_enc_version [simp]:
  "version_ok uvalid v \<Longrightarrow> entry_slice (enc_version v) = InternalKey_make (v_key v) (v_seq v) (v_type v)"
proof -
  assume "version_ok uvalid v"
  then have "length (InternalKey_make (v_key v) (v_seq v) (v_type v)) < 2 ^ 32"
    by (simp add: version_ok_def)
  from entry_slice_prefixed [OF this] show ?thesis
    by (simp add: enc_version_def encode_entry_eq)
qed

lemma entry_valid_enc_version: "version_ok uvalid v \<Longrightarrow> entry_valid uvalid (enc_version v)"
  by (simp add: entry_valid_def internal_valid_def) (simp add: version_ok_def)

lemma cmp_enc_version:
  assumes "version_ok uvalid a" "version_ok uvalid b"
  shows "MemTable_KeyComparator ucmp (enc_version a) (enc_version b) < 0 \<longleftrightarrow> version_before ucmp a b"
  using assms Pack_less_iff [of "v_seq b" "v_seq a" "v_type b" "v_type a"]
  by (auto simp: MemTable_KeyComparator_def InternalKey_Compare_less version_before_def) (auto simp: version_ok_def)

lemma mem_rep_sorted: "mem_rep ucmp uvalid m vs \<Longrightarrow> sorted_wrt (version_before ucmp) vs"
proof -
  assume "mem_rep ucmp uvalid m vs"
  then obtain xs where ok: "\<forall>v \<in> set vs. version_ok uvalid v"
    and inv: "skip_inv (MemTable_KeyComparator ucmp) (entry_valid uvalid) (table m) xs"
    and keys: "skip_keys (table m) xs = map enc_version vs"
    by (auto simp: mem_rep_def)
  have "sorted_wrt (\<lambda>x y. MemTable_KeyComparator ucmp x y < 0) (skip_keys (table m) xs)"
    using inv by (simp add: skip_inv_def skip_keys_def sorted_wrt_map)
  then have "sorted_wrt (\<lambda>a b. MemTable_KeyComparator ucmp (enc_version a) (enc_version b) < 0) vs"
    by (simp add: keys sorted_wrt_map)
  then show ?thesis
    using ok cmp_enc_version by (blast intro: sorted_wrt_mono_rel [rotated])
qed

lemma mem_rep_init: "mem_rep ucmp uvalid MemTable_init []"
  by (auto simp: mem_rep_def MemTable_init_def intro!: exI [of _ "[]"] skip_inv_init)


section \<open>Adding and looking up versions\<close>

definition ins_version :: "(bytes \<Rightarrow> bytes \<Rightarrow> int) \<Rightarrow> version \<Rightarrow> version list \<Rightarrow> version list" where
  "ins_version ucmp v vs =
     takeWhile (\<lambda>w. version_before ucmp w v) vs @ v # dropWhile (\<lambda>w. version_before ucmp w v) vs"

lemma set_ins_version [simp]: "set (ins_version ucmp v vs) = insert v (set vs)"
proof -
  have "set vs = set (takeWhile (\<lambda>w. version_before ucmp w v) vs) \<union> set (dropWhile (\<lambda>w. version_before ucmp w v) vs)"
    by (metis set_append takeWhile_dropWhile_id)
  then show ?thesis by (auto simp: ins_version_def)
qed

lemma ins_sorted_enc_version:
  assumes "version_ok uvalid v" "\<forall>w \<in> set vs. version_ok uvalid w"
  shows "ins_sorted (MemTable_KeyComparator ucmp) (enc_version v) (map enc_version vs)
     = map enc_version (ins_version ucmp v vs)"
proof -
  have "takeWhile ((\<lambda>x. MemTable_KeyComparator ucmp x (enc_version v) < 0) \<circ> enc_version) vs
      = takeWhile (\<lambda>w. version_before ucmp w v) vs"
    using assms by (intro takeWhile_cong) (auto simp: cmp_enc_version)
  moreover have "dropWhile ((\<lambda>x. MemTable_KeyComparator ucmp x (enc_version v) < 0) \<circ> enc_version) vs
      = dropWhile (\<lambda>w. version_before ucmp w v) vs"
    using assms by (intro dropWhile_cong) (auto simp: cmp_enc_version)
  ultimately show ?thesis by (simp add: ins_sorted_def ins_version_def takeWhile_map dropWhile_map)
qed

text \<open>The version a lookup key stands for: it precedes every version the lookup may return.\<close>

definition seek_version :: "bytes \<Rightarrow> uint64 \<Rightarrow> version" where
  "seek_version u s = \<lparr>v_key = u, v_seq = s, v_type = kValueTypeForSeek, v_value = []\<rparr>"

lemma entry_slice_memtable_key:
  "length u + 8 < 2 ^ 32 \<Longrightarrow> entry_slice (memtable_key (LookupKey_make u s)) = InternalKey_make u s kValueTypeForSeek"
  using entry_slice_prefixed [of "InternalKey_make u s kValueTypeForSeek" "[]"]
  by (simp add: LookupKey_parts)

lemma cmp_memtable_key:
  assumes "version_ok uvalid v" "length u + 8 < 2 ^ 32" "s \<le> kMaxSequenceNumber"
  shows "MemTable_KeyComparator ucmp (enc_version v) (memtable_key (LookupKey_make u s)) < 0
     \<longleftrightarrow> version_before ucmp v (seek_version u s)"
  using assms Pack_less_iff [of s "v_seq v" kValueTypeForSeek "v_type v"]
  by (auto simp: MemTable_KeyComparator_def entry_slice_memtable_key InternalKey_Compare_less
      version_before_def seek_version_def) (auto simp: version_ok_def)

lemma not_above_kValueTypeForSeek [simp]: "\<not> t > kValueTypeForSeek"
  by (cases t) (simp_all add: kValueTypeForSeek_def less_ValueType_def)

lemma Get_entry_enc_version:
  assumes "version_ok uvalid w"
  shows "MemTable_Get_entry ucmp key value st (enc_version w) =
     (if ucmp (v_key w) (LookupKey_user_key key) = 0
      then case v_type w of
             kTypeValue \<Rightarrow> (True, v_value w, st)
           | kTypeDeletion \<Rightarrow> (True, value, NotFound [])
      else (False, value, st))"
proof -
  have len: "unat (of_nat (length (v_key w) + 8) :: uint32) = length (v_key w) + 8"
    using assms by (intro unat_of_nat_32) (simp add: version_ok_def)
  have val: "entry_slice (EncodeVarint32 (of_nat (length (v_value w))) @ v_value w) = v_value w"
    using entry_slice_prefixed [of "v_value w" "[]"] assms by (simp add: version_ok_def)
  have tag: "push_bit 8 (v_seq w) OR type_code (v_type w) = PackSequenceAndType (v_seq w) (v_type w)"
    by (simp add: PackSequenceAndType_def)
  show ?thesis
    unfolding MemTable_Get_entry_def enc_version_def encode_entry_def tag
    by (simp only: append_assoc GetVarint32Ptr_Encode option.case prod.case Let_def len)
      (simp add: val split: ValueType.split)
qed

context user_key_comparator
begin

lemma Add_correct:
  assumes rep: "mem_rep ucmp uvalid m vs" and v: "version_ok uvalid v"
    and new: "\<forall>w \<in> set vs. v_key w = v_key v \<longrightarrow> v_seq w = v_seq v \<longrightarrow> v_type w \<noteq> v_type v"
  shows "\<exists>m'. MemTable_Add ucmp m (v_seq v) (v_type v) (v_key v) (v_value v) = Some m'
    \<and> mem_rep ucmp uvalid m' (ins_version ucmp v vs)"
proof -
  obtain xs where ok: "\<forall>w \<in> set vs. version_ok uvalid w"
    and inv: "skip_inv (MemTable_KeyComparator ucmp) (entry_valid uvalid) (table m) xs"
    and keys: "skip_keys (table m) xs = map enc_version vs"
    using rep by (auto simp: mem_rep_def)
  have "MemTable_KeyComparator ucmp (enc_version w) (enc_version v) \<noteq> 0" if "w \<in> set vs" for w
  proof
    assume "MemTable_KeyComparator ucmp (enc_version w) (enc_version v) = 0"
    then have "ucmp (v_key w) (v_key v) = 0"
      and tag: "PackSequenceAndType (v_seq w) (v_type w) = PackSequenceAndType (v_seq v) (v_type v)"
      using ok v that by (auto simp: MemTable_KeyComparator_def InternalKey_Compare_zero)
    moreover have "uvalid (v_key w)" "uvalid (v_key v)" "v_seq w \<le> kMaxSequenceNumber" "v_seq v \<le> kMaxSequenceNumber"
      using ok v that by (auto simp: version_ok_def)
    ultimately show False using new that by (auto simp: Pack_inject dest: user.cmp_eq)
  qed
  then have "\<forall>x \<in> set (skip_keys (table m) xs). MemTable_KeyComparator ucmp x (enc_version v) \<noteq> 0"
    by (simp add: keys)
  from mem.Insert_refines [OF inv entry_valid_enc_version [OF v] this]
  show ?thesis
    using ok v
    by (auto simp: keys MemTable_Add_def enc_version_def [symmetric] ins_sorted_enc_version mem_rep_def)
qed

text \<open>The first version at or after the lookup key is the visible one, if it has the right key.\<close>

lemma visible_seek:
  assumes "sorted_wrt (version_before ucmp) vs" "\<forall>w \<in> set vs. uvalid (v_key w)" "uvalid u"
  shows "visible vs u s = (case find (\<lambda>w. \<not> version_before ucmp w (seek_version u s)) vs of
     None \<Rightarrow> None | Some w \<Rightarrow> if v_key w = u then Some w else None)"
  using assms(1,2)
proof (induction vs)
  case Nil
  then show ?case by (simp add: visible_def)
next
  case (Cons v vs)
  have uv: "uvalid (v_key v)" using Cons.prems by simp
  show ?case
  proof (cases "version_before ucmp v (seek_version u s)")
    case True
    then have "\<not> (v_key v = u \<and> v_seq v \<le> s)"
      using user.cmp_refl [OF assms(3)] by (auto simp: version_before_def seek_version_def)
    with True Cons show ?thesis by (auto simp: visible_def)
  next
    case False
    show ?thesis
    proof (cases "v_key v = u")
      case True
      with False show ?thesis
        using user.cmp_refl [OF assms(3)] by (auto simp: visible_def version_before_def seek_version_def)
    next
      case ne: False
      have "v_key w \<noteq> u" if "w \<in> set vs" for w
        using False ne Cons.prems that user.cmp_eq_iff [OF uv assms(3)] user.cmp_le_iff [OF assms(3) uv]
          user.cmp_less_le_trans
        by (auto simp: version_before_def seek_version_def)
      then have "find (\<lambda>w. v_key w = u \<and> v_seq w \<le> s) vs = None" by (auto simp: find_None_iff)
      with False ne show ?thesis by (simp add: visible_def)
    qed
  qed
qed

lemma Get_correct:
  assumes rep: "mem_rep ucmp uvalid m vs" and u: "uvalid u" "length u + 8 < 2 ^ 32"
    and s: "s \<le> kMaxSequenceNumber"
  shows "MemTable_Get ucmp m (LookupKey_make u s) value st =
     Some (case visible vs u s of
             None \<Rightarrow> (False, value, st)
           | Some v \<Rightarrow> (case v_type v of
                 kTypeValue \<Rightarrow> (True, v_value v, st)
               | kTypeDeletion \<Rightarrow> (True, value, NotFound [])))"
proof -
  let ?cmp = "MemTable_KeyComparator ucmp" and ?k = "memtable_key (LookupKey_make u s)"
  obtain xs where ok: "\<forall>w \<in> set vs. version_ok uvalid w"
    and inv: "skip_inv ?cmp (entry_valid uvalid) (table m) xs"
    and keys: "skip_keys (table m) xs = map enc_version vs"
    using rep by (auto simp: mem_rep_def)
  have "entry_valid uvalid ?k"
    using u by (simp add: entry_valid_def entry_slice_memtable_key internal_valid_def)
  from mem.iter_Seek_first_ge [OF inv this] obtain it where
    it: "iter_Seek ?cmp (table m) ?k = Some it"
    "map_option (node_key (table m)) it = find (\<lambda>x. \<not> ?cmp x ?k < 0) (map enc_version vs)"
    by (auto simp: keys)
  have find: "find (\<lambda>x. \<not> ?cmp x ?k < 0) (map enc_version vs)
      = map_option enc_version (find (\<lambda>w. \<not> version_before ucmp w (seek_version u s)) vs)"
    using ok by (induction vs) (simp_all add: cmp_memtable_key [where uvalid = uvalid, OF _ u(2) s])
  have vis: "visible vs u s = (case find (\<lambda>w. \<not> version_before ucmp w (seek_version u s)) vs of
     None \<Rightarrow> None | Some w \<Rightarrow> if v_key w = u then Some w else None)"
    by (rule visible_seek [OF mem_rep_sorted [OF rep] _ u(1)]) (use ok in \<open>auto simp: version_ok_def\<close>)
  show ?thesis
  proof (cases "find (\<lambda>w. \<not> version_before ucmp w (seek_version u s)) vs")
    case None
    with it vis find show ?thesis by (simp add: MemTable_Get_def iter_Valid_def)
  next
    case (Some w)
    then have w: "version_ok uvalid w" using ok by (auto simp: find_Some_iff)
    from Some it find have "it \<noteq> None" "iter_key (table m) it = enc_version w"
      by (auto simp: iter_key_def)
    moreover have "ucmp (v_key w) u = 0 \<longleftrightarrow> v_key w = u"
      using w u by (simp add: user.cmp_eq_iff version_ok_def)
    ultimately show ?thesis
      using it(1) vis Some by (auto simp: MemTable_Get_def iter_Valid_def Get_entry_enc_version [OF w] LookupKey_parts)
  qed
qed


lemma version_before_irrefl: "uvalid (v_key v) \<Longrightarrow> \<not> version_before ucmp v v"
  by (simp add: version_before_def user.cmp_refl)

text \<open>Among the versions of a key, the visible one is the newest that is not too new.\<close>

lemma visible_newest:
  assumes "sorted_wrt (version_before ucmp) vs" "uvalid u"
  shows "visible vs u s = Some v \<longleftrightarrow>
     v \<in> set vs \<and> v_key v = u \<and> v_seq v \<le> s \<and>
     (\<forall>w \<in> set vs. v_key w = u \<and> v_seq w \<le> s \<longrightarrow>
        v_seq w < v_seq v \<or> v_seq w = v_seq v \<and> v_type w \<le> v_type v)"
  using assms(1)
proof (induction vs)
  case Nil
  then show ?case by (simp add: visible_def)
next
  case (Cons a vs)
  show ?case
  proof (cases "v_key a = u \<and> v_seq a \<le> s")
    case True
    have older: "v_seq w < v_seq a \<or> v_seq w = v_seq a \<and> v_type w < v_type a"
      if "w \<in> set vs" "v_key w = u" for w
      using Cons.prems that True user.cmp_refl [OF assms(2)] by (auto simp: version_before_def)
    with True show ?thesis
      by (fastforce simp: visible_def)
  next
    case False
    with Cons show ?thesis by (auto simp: visible_def)
  qed
qed

lemma visible_ins_version:
  assumes vs: "sorted_wrt (version_before ucmp) vs" "sorted_wrt (version_before ucmp) (ins_version ucmp v vs)"
    and new: "\<forall>w \<in> set vs. v_key w = v_key v \<longrightarrow> v_seq w < v_seq v" and u: "uvalid u"
  shows "visible (ins_version ucmp v vs) u s =
     (if u = v_key v \<and> v_seq v \<le> s then Some v else visible vs u s)"
proof (cases "u = v_key v \<and> v_seq v \<le> s")
  case True
  then have "visible (ins_version ucmp v vs) u s = Some v"
    unfolding visible_newest [OF vs(2) u] using new by auto
  with True show ?thesis by simp
next
  case False
  have "visible (ins_version ucmp v vs) u s = Some w \<longleftrightarrow> visible vs u s = Some w" for w
    using False by (auto simp: visible_newest [OF vs(2) u] visible_newest [OF vs(1) u])
  then have "visible (ins_version ucmp v vs) u s = visible vs u s"
    by (metis not_None_eq)
  with False show ?thesis by auto
qed

lemma read_your_write:
  assumes rep: "mem_rep ucmp uvalid m vs" and v: "version_ok uvalid v"
    and new: "\<forall>w \<in> set vs. v_key w = v_key v \<longrightarrow> v_seq w < v_seq v"
    and u: "uvalid u" "length u + 8 < 2 ^ 32" and s: "s \<le> kMaxSequenceNumber"
  shows "\<exists>m'. MemTable_Add ucmp m (v_seq v) (v_type v) (v_key v) (v_value v) = Some m'
    \<and> mem_rep ucmp uvalid m' (ins_version ucmp v vs)
    \<and> MemTable_Get ucmp m' (LookupKey_make u s) value st =
        (if u = v_key v \<and> v_seq v \<le> s
         then Some (case v_type v of
                      kTypeValue \<Rightarrow> (True, v_value v, st)
                    | kTypeDeletion \<Rightarrow> (True, value, NotFound []))
         else MemTable_Get ucmp m (LookupKey_make u s) value st)"
proof -
  have "\<forall>w \<in> set vs. v_key w = v_key v \<longrightarrow> v_seq w = v_seq v \<longrightarrow> v_type w \<noteq> v_type v"
    using new by auto
  from Add_correct [OF rep v this] obtain m' where m':
    "MemTable_Add ucmp m (v_seq v) (v_type v) (v_key v) (v_value v) = Some m'"
    "mem_rep ucmp uvalid m' (ins_version ucmp v vs)" by blast
  then show ?thesis
    using visible_ins_version [OF mem_rep_sorted [OF rep] mem_rep_sorted [OF m'(2)] new u(1)]
    by (simp add: Get_correct [OF rep u s] Get_correct [OF m'(2) u s])
qed

end

section \<open>Properties\<close>

text \<open>
  C14. A lookup in a memtable terminates and finds the newest version of the key whose sequence
  number is not above that of the lookup: its value, or \<open>NotFound\<close> when the version is a
  deletion; when there is none it returns false and leaves \<open>*value\<close> and \<open>*s\<close>.
\<close>

theorem MemTable_Get_newest_visible:
  assumes "user_key_comparator ucmp uvalid usep usucc" and "mem_rep ucmp uvalid m vs"
    and "uvalid u" and "length u + 8 < 2 ^ 32" and "s \<le> kMaxSequenceNumber"
  shows "MemTable_Get ucmp m (LookupKey_make u s) value st =
     Some (case visible vs u s of
             None \<Rightarrow> (False, value, st)
           | Some v \<Rightarrow> (case v_type v of
                 kTypeValue \<Rightarrow> (True, v_value v, st)
               | kTypeDeletion \<Rightarrow> (True, value, NotFound [])))
   \<and> (\<forall>v. visible vs u s = Some v \<longleftrightarrow>
        v \<in> set vs \<and> v_key v = u \<and> v_seq v \<le> s \<and>
        (\<forall>w \<in> set vs. v_key w = u \<and> v_seq w \<le> s \<longrightarrow>
           v_seq w < v_seq v \<or> v_seq w = v_seq v \<and> v_type w \<le> v_type v))"
  using user_key_comparator.Get_correct [OF assms]
    user_key_comparator.visible_newest [OF assms(1) mem_rep_sorted [OF assms(2)] assms(3)] by blast

theorem MemTable_Get_newest_visible_witness:
  "MemTable_Get bytewise_Compare MemTable_init (LookupKey_make [1] 5) [9] OK = Some (False, [9], OK)"
  using MemTable_Get_newest_visible [OF bytewise_internal.user_key_comparator_axioms mem_rep_init TrueI, of "[1]" 5 "[9]" OK]
  by (simp add: kMaxSequenceNumber_value visible_def)

text \<open>
  C13. Adding a version newer than those of its key keeps the representation and overrides it:
  from then on a lookup at that sequence number or later finds the new version, every lookup of
  an older snapshot or of another key gives what it gave before.
\<close>

theorem MemTable_read_your_write:
  assumes "user_key_comparator ucmp uvalid usep usucc" and "mem_rep ucmp uvalid m vs"
    and "version_ok uvalid v" and "\<forall>w \<in> set vs. v_key w = v_key v \<longrightarrow> v_seq w < v_seq v"
    and "uvalid u" and "length u + 8 < 2 ^ 32" and "s \<le> kMaxSequenceNumber"
  shows "\<exists>m'. MemTable_Add ucmp m (v_seq v) (v_type v) (v_key v) (v_value v) = Some m'
    \<and> mem_rep ucmp uvalid m' (ins_version ucmp v vs)
    \<and> MemTable_Get ucmp m' (LookupKey_make u s) value st =
        (if u = v_key v \<and> v_seq v \<le> s
         then Some (case v_type v of
                      kTypeValue \<Rightarrow> (True, v_value v, st)
                    | kTypeDeletion \<Rightarrow> (True, value, NotFound []))
         else MemTable_Get ucmp m (LookupKey_make u s) value st)"
  using user_key_comparator.read_your_write [OF assms] .

theorem MemTable_read_your_write_witness:
  "\<exists>m'. MemTable_Add bytewise_Compare MemTable_init 3 kTypeValue [1] [42] = Some m'
     \<and> MemTable_Get bytewise_Compare m' (LookupKey_make [1] 5) [] OK = Some (True, [42], OK)"
  using MemTable_read_your_write [OF bytewise_internal.user_key_comparator_axioms mem_rep_init,
      of "\<lparr>v_key = [1], v_seq = 3, v_type = kTypeValue, v_value = [42]\<rparr>" "[1]" 5 "[]" OK]
  by (auto simp: kMaxSequenceNumber_value version_ok_def)



end
