(* ===== verification/WriteBatch.thy ===== *)
theory WriteBatch imports MemTable begin

text \<open>
  \<^verbatim>\<open>include/leveldb/write_batch.h\<close>, \<^verbatim>\<open>db/write_batch_internal.h\<close> and \<^verbatim>\<open>db/write_batch.cc\<close>: a
  batch of updates in the form it has in the log, a sequence number, a count and the records.
  \<open>Iterate\<close> calls a handler, here two functions on its state, for each record it parses; the
  calls made before an error is met stay made. \<open>batch_rep\<close> relates a batch to the list of its
  updates. \<open>int\<close> variables of the code are integers; a batch has too few bytes for \<open>found\<close> or the
  count to reach \<open>2 ^ 31\<close>.
\<close>

section \<open>Batches\<close>

type_synonym write_batch = bytes

definition kHeader :: nat where
  "kHeader = 12"

definition WriteBatch_Clear :: write_batch where
  "WriteBatch_Clear = replicate kHeader 0"

definition WriteBatch_Count :: "write_batch \<Rightarrow> int" where
  "WriteBatch_Count b = sint (DecodeFixed32 (drop 8 b))"

definition WriteBatch_SetCount :: "write_batch \<Rightarrow> int \<Rightarrow> write_batch" where
  "WriteBatch_SetCount b n = take 8 b @ EncodeFixed32 (of_int n) @ drop 12 b"

definition WriteBatch_Sequence :: "write_batch \<Rightarrow> uint64" where
  "WriteBatch_Sequence b = DecodeFixed64 b"

definition WriteBatch_SetSequence :: "write_batch \<Rightarrow> uint64 \<Rightarrow> write_batch" where
  "WriteBatch_SetSequence b seq = EncodeFixed64 seq @ drop 8 b"

definition WriteBatch_Put :: "write_batch \<Rightarrow> bytes \<Rightarrow> bytes \<Rightarrow> write_batch" where
  "WriteBatch_Put b key value =
     (let b = WriteBatch_SetCount b (WriteBatch_Count b + 1);
          rep = b @ [ucast (type_code kTypeValue)];
          rep = PutLengthPrefixedSlice rep key
      in PutLengthPrefixedSlice rep value)"

definition WriteBatch_Delete :: "write_batch \<Rightarrow> bytes \<Rightarrow> write_batch" where
  "WriteBatch_Delete b key =
     (let b = WriteBatch_SetCount b (WriteBatch_Count b + 1);
          rep = b @ [ucast (type_code kTypeDeletion)]
      in PutLengthPrefixedSlice rep key)"

definition WriteBatch_SetContents :: "write_batch \<Rightarrow> bytes \<Rightarrow> write_batch" where
  "WriteBatch_SetContents b contents = contents"

definition WriteBatch_ByteSize :: "write_batch \<Rightarrow> nat" where
  "WriteBatch_ByteSize b = length b"

definition WriteBatch_Append :: "write_batch \<Rightarrow> write_batch \<Rightarrow> write_batch" where
  "WriteBatch_Append dst src =
     WriteBatch_SetCount dst (WriteBatch_Count dst + WriteBatch_Count src) @ drop kHeader src"

section \<open>Iteration\<close>

lemma GetLengthPrefixedSlice_length:
  "GetLengthPrefixedSlice input = Some (r, rest) \<Longrightarrow> length rest < length input"
  by (drule GetLengthPrefixedSlice_suffix) auto

text \<open>The loop returns the number of records found, or the error it returns early with.\<close>

function Iterate_loop ::
  "(bytes \<Rightarrow> bytes \<Rightarrow> 's \<Rightarrow> 's) \<Rightarrow> (bytes \<Rightarrow> 's \<Rightarrow> 's) \<Rightarrow> int \<Rightarrow> bytes \<Rightarrow> 's \<Rightarrow> (status + int) \<times> 's" where
  "Iterate_loop put del found [] st = (Inr found, st)"
| "Iterate_loop put del found (tag # input) st =
     (let found = found + 1 in
      case type_of_byte tag of
        Some kTypeValue \<Rightarrow>
          (case GetLengthPrefixedSlice input of
             None \<Rightarrow> (Inl (Corruption ''bad WriteBatch Put''), st)
           | Some (key, input') \<Rightarrow>
               (case GetLengthPrefixedSlice input' of
                  None \<Rightarrow> (Inl (Corruption ''bad WriteBatch Put''), st)
                | Some (value, input'') \<Rightarrow> Iterate_loop put del found input'' (put key value st)))
      | Some kTypeDeletion \<Rightarrow>
          (case GetLengthPrefixedSlice input of
             None \<Rightarrow> (Inl (Corruption ''bad WriteBatch Delete''), st)
           | Some (key, input') \<Rightarrow> Iterate_loop put del found input' (del key st))
      | None \<Rightarrow> (Inl (Corruption ''unknown WriteBatch tag''), st))"
  by pat_completeness auto
termination
  by (relation "measure (\<lambda>(_, _, _, input, _). length input)")
    (auto dest!: GetLengthPrefixedSlice_length)

definition WriteBatch_Iterate ::
  "(bytes \<Rightarrow> bytes \<Rightarrow> 's \<Rightarrow> 's) \<Rightarrow> (bytes \<Rightarrow> 's \<Rightarrow> 's) \<Rightarrow> write_batch \<Rightarrow> 's \<Rightarrow> status \<times> 's" where
  "WriteBatch_Iterate put del b st =
     (if length b < kHeader then (Corruption ''malformed WriteBatch (too small)'', st)
      else let input = remove_prefix kHeader b in
        case Iterate_loop put del 0 input st of
          (Inl err, st) \<Rightarrow> (err, st)
        | (Inr found, st) \<Rightarrow>
            if found \<noteq> WriteBatch_Count b then (Corruption ''WriteBatch has wrong count'', st)
            else (OK, st))"

text \<open>
  The handler that inserts into a memtable: its state is the next sequence number with the
  memtable, \<open>None\<close> if an insertion did not return.
\<close>

type_synonym inserter = "(uint64 \<times> memtable) option"

definition MemTableInserter_Put :: "(bytes \<Rightarrow> bytes \<Rightarrow> int) \<Rightarrow> bytes \<Rightarrow> bytes \<Rightarrow> inserter \<Rightarrow> inserter" where
  "MemTableInserter_Put ucmp key value ins =
     (case ins of None \<Rightarrow> None
      | Some (seq, mem) \<Rightarrow>
          map_option (\<lambda>mem. (seq + 1, mem)) (MemTable_Add ucmp mem seq kTypeValue key value))"

definition MemTableInserter_Delete :: "(bytes \<Rightarrow> bytes \<Rightarrow> int) \<Rightarrow> bytes \<Rightarrow> inserter \<Rightarrow> inserter" where
  "MemTableInserter_Delete ucmp key ins =
     (case ins of None \<Rightarrow> None
      | Some (seq, mem) \<Rightarrow>
          map_option (\<lambda>mem. (seq + 1, mem)) (MemTable_Add ucmp mem seq kTypeDeletion key []))"

definition WriteBatch_InsertInto ::
  "(bytes \<Rightarrow> bytes \<Rightarrow> int) \<Rightarrow> write_batch \<Rightarrow> memtable \<Rightarrow> status \<times> inserter" where
  "WriteBatch_InsertInto ucmp b mem =
     WriteBatch_Iterate (MemTableInserter_Put ucmp) (MemTableInserter_Delete ucmp) b
       (Some (WriteBatch_Sequence b, mem))"

section \<open>The updates of a batch\<close>

datatype write_op = PutOp (op_key: bytes) (op_value: bytes) | DeleteOp (op_key: bytes)

fun apply_op :: "(bytes \<Rightarrow> bytes \<Rightarrow> 's \<Rightarrow> 's) \<Rightarrow> (bytes \<Rightarrow> 's \<Rightarrow> 's) \<Rightarrow> write_op \<Rightarrow> 's \<Rightarrow> 's" where
  "apply_op put del (PutOp key value) st = put key value st"
| "apply_op put del (DeleteOp key) st = del key st"

fun enc_op :: "write_op \<Rightarrow> bytes" where
  "enc_op (PutOp key value) =
     1 # PutLengthPrefixedSlice [] key @ PutLengthPrefixedSlice [] value"
| "enc_op (DeleteOp key) = 0 # PutLengthPrefixedSlice [] key"

fun op_ok :: "write_op \<Rightarrow> bool" where
  "op_ok (PutOp key value) \<longleftrightarrow> length key < 2 ^ 32 \<and> length value < 2 ^ 32"
| "op_ok (DeleteOp key) \<longleftrightarrow> length key < 2 ^ 32"

definition batch_rep :: "write_batch \<Rightarrow> uint64 \<Rightarrow> write_op list \<Rightarrow> bool" where
  "batch_rep b seq ops \<longleftrightarrow>
     b = EncodeFixed64 seq @ EncodeFixed32 (of_nat (length ops)) @ concat (map enc_op ops)
     \<and> (\<forall>op \<in> set ops. op_ok op)"

lemma type_of_byte_simps [simp]:
  "type_of_byte 0 = Some kTypeDeletion" "type_of_byte 1 = Some kTypeValue"
  by (simp_all add: type_of_byte_def)

lemma batch_rep_Clear: "batch_rep WriteBatch_Clear 0 []"
  by (simp add: batch_rep_def WriteBatch_Clear_def kHeader_def EncodeFixed64_def EncodeFixed32_def eval_nat_numeral)

lemma SetCount_rep:
  "WriteBatch_SetCount (EncodeFixed64 seq @ EncodeFixed32 c @ data) n
     = EncodeFixed64 seq @ EncodeFixed32 (of_int n) @ data"
  by (simp add: WriteBatch_SetCount_def)

lemma Count_rep: "WriteBatch_Count (EncodeFixed64 seq @ EncodeFixed32 c @ data) = sint c"
  by (simp add: WriteBatch_Count_def)

lemma of_int_sint_add: "(of_int (sint (a :: uint32) + n) :: uint32) = a + of_int n"
  by simp

lemma Put_rep:
  assumes "batch_rep b seq ops" "op_ok (PutOp key value)"
  shows "batch_rep (WriteBatch_Put b key value) seq (ops @ [PutOp key value])"
  using assms
  by (simp add: batch_rep_def WriteBatch_Put_def Count_rep SetCount_rep
      PutLengthPrefixedSlice_append [of "_ @ _"] PutLengthPrefixedSlice_append [of "_ # _"] add.commute)

lemma Delete_rep:
  assumes "batch_rep b seq ops" "op_ok (DeleteOp key)"
  shows "batch_rep (WriteBatch_Delete b key) seq (ops @ [DeleteOp key])"
  using assms
  by (simp add: batch_rep_def WriteBatch_Delete_def Count_rep SetCount_rep
      PutLengthPrefixedSlice_append [of "_ @ _"] add.commute)

lemma SetSequence_rep:
  "batch_rep b seq ops \<Longrightarrow> batch_rep (WriteBatch_SetSequence b seq') seq' ops"
  by (simp add: batch_rep_def WriteBatch_SetSequence_def)

lemma Sequence_rep: "batch_rep b seq ops \<Longrightarrow> WriteBatch_Sequence b = seq"
  by (simp add: batch_rep_def WriteBatch_Sequence_def)

lemma Append_rep:
  assumes "batch_rep dst seq ops" "batch_rep src seq' ops'"
  shows "batch_rep (WriteBatch_Append dst src) seq (ops @ ops')"
  using assms
  by (auto simp: batch_rep_def WriteBatch_Append_def Count_rep SetCount_rep kHeader_def)

lemma Iterate_loop_rep:
  "\<forall>op \<in> set ops. op_ok op \<Longrightarrow>
   Iterate_loop put del found (concat (map enc_op ops)) st
     = (Inr (found + int (length ops)), fold (apply_op put del) ops st)"
proof (induction ops arbitrary: found st)
  case Nil
  then show ?case by simp
next
  case (Cons op ops)
  then show ?case by (cases op) (simp_all add: Let_def)
qed

lemma Iterate_rep:
  assumes "batch_rep b seq ops" "length ops < 2 ^ 31"
  shows "WriteBatch_Iterate put del b st = (OK, fold (apply_op put del) ops st)"
proof -
  have "sint (of_nat (length ops) :: uint32) = int (length ops)"
    using assms(2) by (simp add: signed_of_nat signed_take_bit_int_eq_self)
  then show ?thesis
    using assms(1) Iterate_loop_rep [of ops put del 0 st]
    by (auto simp: batch_rep_def WriteBatch_Iterate_def kHeader_def remove_prefix_def Count_rep)
qed


lemma Iterate_loop_error:
  "Iterate_loop put del found input st = (Inl e, st') \<Longrightarrow> IsCorruption e"
proof (induction put del found input st rule: Iterate_loop.induct)
  case (1 put del found st)
  then show ?case by simp
next
  case (2 put del found tag input st)
  show ?case
  proof (cases "type_of_byte tag")
    case None
    with 2 show ?thesis by auto
  next
    case (Some t)
    with 2 show ?thesis by (cases t) (auto split: option.splits)
  qed
qed

text \<open>
  What a handler sees does not depend on it: it is the fold of the updates that a handler
  collecting them in a list gets, and the loop counts them.
\<close>

abbreviation collect_put :: "bytes \<Rightarrow> bytes \<Rightarrow> write_op list \<Rightarrow> write_op list" where
  "collect_put key value ops \<equiv> ops @ [PutOp key value]"

abbreviation collect_del :: "bytes \<Rightarrow> write_op list \<Rightarrow> write_op list" where
  "collect_del key ops \<equiv> ops @ [DeleteOp key]"

lemma Iterate_loop_natural:
  "Iterate_loop collect_put collect_del found input acc = (r, ops) \<Longrightarrow>
   Iterate_loop put del found input (fold (apply_op put del) acc st) = (r, fold (apply_op put del) ops st)
   \<and> (\<forall>n. r = Inr n \<longrightarrow> n + int (length acc) = found + int (length ops))"
proof (induction collect_put collect_del found input acc rule: Iterate_loop.induct)
  case (1 found acc)
  then show ?case by auto
next
  case (2 found tag input acc)
  show ?case
  proof (cases "type_of_byte tag")
    case None
    with 2 show ?thesis by auto
  next
    case (Some t)
    with 2 show ?thesis by (cases t) (auto split: option.splits)
  qed
qed

section \<open>Insertion into a memtable\<close>

text \<open>The versions a list of updates gives, numbered from a sequence number.\<close>

fun op_version :: "uint64 \<Rightarrow> write_op \<Rightarrow> version" where
  "op_version seq (PutOp key value) = \<lparr>v_key = key, v_seq = seq, v_type = kTypeValue, v_value = value\<rparr>"
| "op_version seq (DeleteOp key) = \<lparr>v_key = key, v_seq = seq, v_type = kTypeDeletion, v_value = []\<rparr>"

fun op_insertable :: "(bytes \<Rightarrow> bool) \<Rightarrow> write_op \<Rightarrow> bool" where
  "op_insertable uvalid (PutOp key value) \<longleftrightarrow>
     uvalid key \<and> length key + 8 < 2 ^ 32 \<and> length value < 2 ^ 32"
| "op_insertable uvalid (DeleteOp key) \<longleftrightarrow> uvalid key \<and> length key + 8 < 2 ^ 32"

fun op_result :: "bytes \<Rightarrow> status \<Rightarrow> write_op \<Rightarrow> bool \<times> bytes \<times> status" where
  "op_result value st (PutOp key v) = (True, v, st)"
| "op_result value st (DeleteOp key) = (True, value, NotFound [])"

lemma apply_op_inserter:
  "apply_op (MemTableInserter_Put ucmp) (MemTableInserter_Delete ucmp) op (Some (seq, m)) =
     (let v = op_version seq op in
      map_option (\<lambda>m. (seq + 1, m)) (MemTable_Add ucmp m (v_seq v) (v_type v) (v_key v) (v_value v)))"
  by (cases op) (simp_all add: MemTableInserter_Put_def MemTableInserter_Delete_def)

lemma op_version_simps [simp]:
  "v_key (op_version seq op) = op_key op" "v_seq (op_version seq op) = seq"
  by (cases op; simp)+

lemma op_version_ok:
  "op_insertable uvalid op \<Longrightarrow> seq \<le> kMaxSequenceNumber \<Longrightarrow> version_ok uvalid (op_version seq op)"
  by (cases op) (simp_all add: version_ok_def)

lemma op_version_result:
  "(case v_type (op_version seq op) of
      kTypeValue \<Rightarrow> (True, v_value (op_version seq op), st)
    | kTypeDeletion \<Rightarrow> (True, value, NotFound [])) = op_result value st op"
  by (cases op) simp_all

text \<open>The next sequence number does not wrap while it stays below \<open>2 ^ 56\<close>.\<close>

lemma seq_plus1:
  assumes "unat seq + Suc n \<le> 2 ^ 56"
  shows "unat (seq + 1 :: uint64) = unat seq + 1" "seq \<le> kMaxSequenceNumber" "seq < seq + 1"
proof -
  show u: "unat (seq + 1) = unat seq + 1"
    using assms by (simp add: unat_word_ariths)
  show "seq \<le> kMaxSequenceNumber"
    using assms by (simp add: word_le_nat_alt kMaxSequenceNumber_value)
  show "seq < seq + 1"
    by (simp add: word_less_nat_alt u)
qed

context user_key_comparator
begin

lemma inserter_fold:
  assumes "mem_rep ucmp uvalid m vs" "\<forall>w \<in> set vs. v_seq w < seq"
    and "\<forall>op \<in> set ops. op_insertable uvalid op" "unat seq + length ops \<le> 2 ^ 56"
    and "uvalid u" "length u + 8 < 2 ^ 32" "s \<le> kMaxSequenceNumber" "unat seq + length ops \<le> unat s + 1"
  shows "\<exists>m' vs'. fold (apply_op (MemTableInserter_Put ucmp) (MemTableInserter_Delete ucmp)) ops (Some (seq, m))
       = Some (seq + of_nat (length ops), m')
     \<and> mem_rep ucmp uvalid m' vs' \<and> (\<forall>w \<in> set vs'. v_seq w < seq + of_nat (length ops))
     \<and> MemTable_Get ucmp m' (LookupKey_make u s) value st =
         (case find (\<lambda>op. op_key op = u) (rev ops) of
            None \<Rightarrow> MemTable_Get ucmp m (LookupKey_make u s) value st
          | Some op \<Rightarrow> Some (op_result value st op))"
  using assms
proof (induction ops arbitrary: m vs seq)
  case Nil
  then show ?case by auto
next
  case (Cons op ops)
  let ?v = "op_version seq op"
  have n: "unat seq + Suc (length ops) \<le> 2 ^ 56" using Cons.prems(4) by simp
  note seq = seq_plus1 [OF n]
  have v: "version_ok uvalid ?v" using Cons.prems(3) seq by (simp add: op_version_ok)
  have "\<forall>w \<in> set vs. v_key w = v_key ?v \<longrightarrow> v_seq w < v_seq ?v" using Cons.prems(2) by simp
  from read_your_write [OF Cons.prems(1) v this Cons.prems(5-7), of "value" st]
  obtain m1 where m1: "MemTable_Add ucmp m (v_seq ?v) (v_type ?v) (v_key ?v) (v_value ?v) = Some m1"
    "mem_rep ucmp uvalid m1 (ins_version ucmp ?v vs)"
    "MemTable_Get ucmp m1 (LookupKey_make u s) value st =
       (if u = op_key op \<and> seq \<le> s then Some (op_result value st op)
        else MemTable_Get ucmp m (LookupKey_make u s) value st)"
    by (auto simp: op_version_result)
  have "seq \<le> s" using Cons.prems(8) by (simp add: word_le_nat_alt)
  have "\<forall>w \<in> set (ins_version ucmp ?v vs). v_seq w < seq + 1"
    using Cons.prems(2) seq(3) by fastforce
  from Cons.IH [OF m1(2) this] Cons.prems(3-) n obtain m' vs' where
    m': "fold (apply_op (MemTableInserter_Put ucmp) (MemTableInserter_Delete ucmp)) ops (Some (seq + 1, m1))
        = Some (seq + 1 + of_nat (length ops), m')" "mem_rep ucmp uvalid m' vs'"
      "\<forall>w \<in> set vs'. v_seq w < seq + 1 + of_nat (length ops)"
      "MemTable_Get ucmp m' (LookupKey_make u s) value st =
         (case find (\<lambda>op. op_key op = u) (rev ops) of
            None \<Rightarrow> MemTable_Get ucmp m1 (LookupKey_make u s) value st
          | Some op \<Rightarrow> Some (op_result value st op))"
    by (auto simp: seq(1))
  have "apply_op (MemTableInserter_Put ucmp) (MemTableInserter_Delete ucmp) op (Some (seq, m)) = Some (seq + 1, m1)"
    using m1(1) by (simp add: apply_op_inserter Let_def)
  then show ?case
    using m' m1(3) \<open>seq \<le> s\<close>
    by (intro exI [of _ m'] exI [of _ vs']) (auto simp: find_append ac_simps split: option.split)
qed

end

section \<open>Properties\<close>

text \<open>
  C17. The operations on batches refine operations on lists of updates: a cleared batch is empty,
  \<open>Put\<close> and \<open>Delete\<close> append one update and count it, \<open>Append\<close> concatenates, \<open>SetSequence\<close> changes
  the number that \<open>Sequence\<close> reads; and \<open>Iterate\<close> calls the handler for exactly those updates, in
  order, and returns OK.
\<close>

theorem WriteBatch_refines_update_list:
  assumes "batch_rep b seq ops" and "batch_rep b' seq' ops'" and "length ops < 2 ^ 31"
    and "length key < 2 ^ 32" and "length value < 2 ^ 32"
  shows "batch_rep WriteBatch_Clear 0 []
    \<and> batch_rep (WriteBatch_Put b key value) seq (ops @ [PutOp key value])
    \<and> batch_rep (WriteBatch_Delete b key) seq (ops @ [DeleteOp key])
    \<and> batch_rep (WriteBatch_Append b b') seq (ops @ ops')
    \<and> batch_rep (WriteBatch_SetSequence b n) n ops \<and> WriteBatch_Sequence b = seq
    \<and> WriteBatch_Iterate put del b st = (OK, fold (apply_op put del) ops st)"
  using assms
  by (simp add: batch_rep_Clear Put_rep Delete_rep Append_rep SetSequence_rep Sequence_rep Iterate_rep)

theorem WriteBatch_refines_update_list_witness:
  "WriteBatch_Iterate (\<lambda>k v s. s @ [k, v]) (\<lambda>k s. s @ [k]) WriteBatch_Clear [] = (OK, [])"
  using WriteBatch_refines_update_list [OF batch_rep_Clear batch_rep_Clear, of "[1]" "[2]" 0
      "\<lambda>k v s. s @ [k, v]" "\<lambda>k s. s @ [k]" "[]"]
  by simp



text \<open>
  C12. Inserting a batch whose sequence numbers are above those of the memtable returns OK, uses
  one sequence number per update, and is seen whole by a lookup at its last sequence number or
  later: the last update of the key decides the result, and a key the batch does not mention is
  found as before.
\<close>

theorem WriteBatch_InsertInto_applies_updates:
  assumes "user_key_comparator ucmp uvalid usep usucc"
    and "batch_rep b seq ops" and "length ops < 2 ^ 31" and "mem_rep ucmp uvalid m vs"
    and "\<forall>w \<in> set vs. v_seq w < seq" and "\<forall>op \<in> set ops. op_insertable uvalid op"
    and "unat seq + length ops \<le> 2 ^ 56"
    and "uvalid u" and "length u + 8 < 2 ^ 32" and "s \<le> kMaxSequenceNumber"
    and "unat seq + length ops \<le> unat s + 1"
  shows "\<exists>m' vs'. WriteBatch_InsertInto ucmp b m = (OK, Some (seq + of_nat (length ops), m'))
     \<and> mem_rep ucmp uvalid m' vs'
     \<and> MemTable_Get ucmp m' (LookupKey_make u s) value st =
         (case find (\<lambda>op. op_key op = u) (rev ops) of
            None \<Rightarrow> MemTable_Get ucmp m (LookupKey_make u s) value st
          | Some op \<Rightarrow> Some (op_result value st op))"
  using user_key_comparator.inserter_fold [OF assms(1,4-)] Sequence_rep [OF assms(2)]
  by (simp add: WriteBatch_InsertInto_def Iterate_rep [OF assms(2,3)]) blast

theorem WriteBatch_InsertInto_applies_updates_witness:
  "\<exists>m'. WriteBatch_InsertInto bytewise_Compare (WriteBatch_Delete (WriteBatch_Put WriteBatch_Clear [1] [7]) [2]) MemTable_init
       = (OK, Some (2, m'))
     \<and> MemTable_Get bytewise_Compare m' (LookupKey_make [1] 9) [] OK = Some (True, [7], OK)"
proof -
  have "batch_rep (WriteBatch_Delete (WriteBatch_Put WriteBatch_Clear [1] [7]) [2]) 0 [PutOp [1] [7], DeleteOp [2]]"
    using Delete_rep [OF Put_rep [OF batch_rep_Clear]] by simp
  from WriteBatch_InsertInto_applies_updates [OF bytewise_internal.user_key_comparator_axioms this _ mem_rep_init, of "[1]" 9 "[]" OK]
  show ?thesis by (auto simp: kMaxSequenceNumber_value)
qed

end
