(* ===== verification/LogFormat.thy ===== *)
theory LogFormat imports Coding Crc32c begin

text \<open>
  \<^verbatim>\<open>db/log_format.h\<close>: the constants of the log, and the specification both sides are proved
  against. A log is a sequence of physical records, each a header of seven bytes (checksum,
  length, type) and a payload, laid out in blocks of \<open>kBlockSize\<close> bytes so that none crosses a
  block boundary; a block with less than a header's room left is filled with zeros. A logical
  record is one full physical record, or a first, some middle and a last one.
\<close>

section \<open>Constants\<close>

definition kZeroType :: uint32 where "kZeroType = 0"
definition kFullType :: uint32 where "kFullType = 1"
definition kFirstType :: uint32 where "kFirstType = 2"
definition kMiddleType :: uint32 where "kMiddleType = 3"
definition kLastType :: uint32 where "kLastType = 4"
definition kMaxRecordType :: uint32 where "kMaxRecordType = kLastType"

definition log_kBlockSize :: nat where "log_kBlockSize = 32768"
definition kHeaderSize :: nat where "kHeaderSize = 4 + 2 + 1"

lemmas record_type_defs = kZeroType_def kFullType_def kFirstType_def kMiddleType_def kLastType_def
  kMaxRecordType_def

lemmas log_size_defs = log_kBlockSize_def kHeaderSize_def

section \<open>Physical records and their layout\<close>

type_synonym fragment = "uint32 \<times> bytes"

definition physical :: "uint32 \<Rightarrow> bytes \<Rightarrow> bytes" where
  "physical t d =
     EncodeFixed32 (Mask (crc_Value (ucast t # d)))
     @ [of_nat (length d mod 256), of_nat (length d div 256), ucast t] @ d"

lemma length_physical [simp, length_simps]: "length (physical t d) = 7 + length d"
  by (simp add: physical_def)

text \<open>The zeros that fill a block at an offset, and the offset the next record starts at.\<close>

definition block_pad :: "nat \<Rightarrow> nat" where
  "block_pad off = (if log_kBlockSize - off < kHeaderSize then log_kBlockSize - off else 0)"

definition block_start :: "nat \<Rightarrow> nat" where
  "block_start off = (if log_kBlockSize - off < kHeaderSize then 0 else off)"

fun layout :: "nat \<Rightarrow> fragment list \<Rightarrow> bytes" where
  "layout off [] = []"
| "layout off ((t, d) # frs) =
     replicate (block_pad off) 0 @ physical t d @ layout (block_start off + 7 + length d) frs"

fun layout_end :: "nat \<Rightarrow> fragment list \<Rightarrow> nat" where
  "layout_end off [] = off"
| "layout_end off ((t, d) # frs) = layout_end (block_start off + 7 + length d) frs"

text \<open>Each record has one of the four types and fits in its block.\<close>

fun layout_ok :: "nat \<Rightarrow> fragment list \<Rightarrow> bool" where
  "layout_ok off [] \<longleftrightarrow> off \<le> log_kBlockSize"
| "layout_ok off ((t, d) # frs) \<longleftrightarrow>
     off \<le> log_kBlockSize \<and> t \<in> {kFullType, kFirstType, kMiddleType, kLastType} \<and>
     block_start off + 7 + length d \<le> log_kBlockSize \<and>
     layout_ok (block_start off + 7 + length d) frs"

text \<open>The fragments of one logical record; \<open>b\<close> says that none of it has been seen yet.\<close>

fun fragments_of :: "bool \<Rightarrow> fragment list \<Rightarrow> bool" where
  "fragments_of b [] \<longleftrightarrow> False"
| "fragments_of b [(t, d)] \<longleftrightarrow> t = (if b then kFullType else kLastType)"
| "fragments_of b ((t, d) # fr # frs) \<longleftrightarrow>
     t = (if b then kFirstType else kMiddleType) \<and> fragments_of False (fr # frs)"

definition payload :: "fragment list \<Rightarrow> bytes" where
  "payload frs = concat (map snd frs)"

lemma payload_simps [simp]:
  "payload [] = []" "payload ((t, d) # frs) = d @ payload frs" "payload (a @ b) = payload a @ payload b"
  by (simp_all add: payload_def)

lemma layout_append: "layout off (a @ b) = layout off a @ layout (layout_end off a) b"
  by (induction off a rule: layout.induct) simp_all

lemma layout_end_append: "layout_end off (a @ b) = layout_end (layout_end off a) b"
  by (induction off a rule: layout_end.induct) simp_all

lemma layout_ok_end: "layout_ok off a \<Longrightarrow> layout_end off a \<le> log_kBlockSize"
  by (induction off a rule: layout_end.induct) auto

lemma layout_ok_append: "layout_ok off (a @ b) \<longleftrightarrow> layout_ok off a \<and> layout_ok (layout_end off a) b"
proof (induction off a rule: layout_end.induct)
  case (1 off)
  have "layout_ok off b \<Longrightarrow> off \<le> log_kBlockSize" by (cases b) auto
  then show ?case by auto
next
  case (2 off t d frs)
  then show ?case by auto
qed

end
