(* ===== verification/File_Api.thy ===== *)
theory File_Api imports Slice begin

text \<open>
  \<^verbatim>\<open>include/leveldb/env.h\<close>: the file abstractions the log and the tables are written against,
  as locales. \<open>contents\<close> is what has been appended to a file, \<open>rest\<close> what is left to read of
  one. An operation returns its status with the new state of the file object; \<open>Read\<close> also
  returns \<open>*result\<close>.
\<close>

locale writable_file =
  fixes append :: "'f \<Rightarrow> bytes \<Rightarrow> status \<times> 'f"
    and flush :: "'f \<Rightarrow> status \<times> 'f"
    and contents :: "'f \<Rightarrow> bytes"
    and good :: "'f \<Rightarrow> bool"
  assumes append_ok: "good f \<Longrightarrow> append f data = (s, f') \<Longrightarrow> s = OK \<and> good f' \<and> contents f' = contents f @ data"
    and flush_ok: "good f \<Longrightarrow> flush f = (s, f') \<Longrightarrow> s = OK \<and> good f' \<and> contents f' = contents f"

text \<open>
  A sequential file: \<open>Read\<close> returns the next bytes, fewer than asked for only at the end of the
  file; \<open>Skip\<close> stops at the end.
\<close>

locale sequential_file =
  fixes read :: "'f \<Rightarrow> nat \<Rightarrow> status \<times> bytes \<times> 'f"
    and skip :: "'f \<Rightarrow> nat \<Rightarrow> status \<times> 'f"
    and rest :: "'f \<Rightarrow> bytes"
    and good :: "'f \<Rightarrow> bool"
  assumes read_ok: "good f \<Longrightarrow> read f n = (s, data, f') \<Longrightarrow>
      s = OK \<and> good f' \<and> data = take n (rest f) \<and> rest f' = drop n (rest f)"
    and skip_ok: "good f \<Longrightarrow> skip f n = (s, f') \<Longrightarrow> s = OK \<and> good f' \<and> rest f' = drop n (rest f)"

locale random_access_file =
  fixes pread :: "'f \<Rightarrow> nat \<Rightarrow> nat \<Rightarrow> status \<times> bytes"
    and contents :: "'f \<Rightarrow> bytes"
    and good :: "'f \<Rightarrow> bool"
  assumes pread_ok: "good f \<Longrightarrow> off \<le> length (contents f) \<Longrightarrow> pread f off n = (s, data) \<Longrightarrow>
      s = OK \<and> data = take n (drop off (contents f))"

end
