(* ===== verification/MemFile.thy ===== *)
theory MemFile imports File_Api begin

text \<open>
  \<^verbatim>\<open>helpers/memenv/memenv.cc\<close>, its file objects: a file is a list of blocks of \<open>kBlockSize\<close>
  bytes with the number of bytes in use. The bytes of a new block are not initialised; the
  model has zeros there, and no operation shows them. The theory interprets the three file
  interfaces with these files.
\<close>

section \<open>The state of a file\<close>

record file_state =
  fs_blocks :: "bytes list"
  fs_size :: nat

definition fs_kBlockSize :: nat where
  "fs_kBlockSize = 8 * 1024"

definition FileState_init :: file_state where
  "FileState_init = \<lparr>fs_blocks = [], fs_size = 0\<rparr>"

text \<open>\<open>memcpy\<close> into a block at an offset.\<close>

definition copy_into :: "bytes \<Rightarrow> nat \<Rightarrow> bytes \<Rightarrow> bytes" where
  "copy_into blk offset src = take offset blk @ src @ drop (offset + length src) blk"

text \<open>The loop of \<open>Append\<close>: \<open>avail\<close> bytes go to the last block, which is new when it was full.\<close>

function FileState_Append_loop :: "file_state \<Rightarrow> bytes \<Rightarrow> file_state" where
  "FileState_Append_loop f src =
     (if src = [] then f
      else let offset = fs_size f mod fs_kBlockSize;
               blks = (if offset \<noteq> 0 then fs_blocks f else fs_blocks f @ [replicate fs_kBlockSize 0]);
               avail = (if offset \<noteq> 0 then fs_kBlockSize - offset else fs_kBlockSize);
               avail = (if avail > length src then length src else avail);
               blks = blks[length blks - 1 := copy_into (last blks) offset (take avail src)]
           in FileState_Append_loop \<lparr>fs_blocks = blks, fs_size = fs_size f + avail\<rparr> (drop avail src))"
  by pat_completeness auto
termination
  by (relation "measure (\<lambda>(_, src). length src)") (auto simp: fs_kBlockSize_def mod_less_divisor Let_def)

declare FileState_Append_loop.simps [simp del]

definition FileState_Append :: "file_state \<Rightarrow> bytes \<Rightarrow> status \<times> file_state" where
  "FileState_Append f data = (OK, FileState_Append_loop f data)"

text \<open>
  The loop of \<open>Read\<close> that gathers the bytes of several blocks. The offset in a block is always
  below \<open>kBlockSize\<close>; the test for it makes the recursion terminate for every argument.
\<close>

function FileState_Read_loop :: "bytes list \<Rightarrow> nat \<Rightarrow> nat \<Rightarrow> nat \<Rightarrow> bytes \<Rightarrow> bytes" where
  "FileState_Read_loop blks block block_offset bytes_to_copy dst =
     (if bytes_to_copy = 0 \<or> block_offset \<ge> fs_kBlockSize then dst
      else let avail = fs_kBlockSize - block_offset;
               avail = (if avail > bytes_to_copy then bytes_to_copy else avail)
           in FileState_Read_loop blks (block + 1) 0 (bytes_to_copy - avail)
                (dst @ take avail (drop block_offset (blks ! block))))"
  by pat_completeness auto
termination
  by (relation "measure (\<lambda>(_, _, _, n, _). n)") (auto simp: Let_def)

declare FileState_Read_loop.simps [simp del]

definition FileState_Read :: "file_state \<Rightarrow> nat \<Rightarrow> nat \<Rightarrow> status \<times> bytes" where
  "FileState_Read f offset n =
     (if offset > fs_size f then (IOError ''Offset greater than file size.'' [], [])
      else let available = fs_size f - offset;
               n = (if n > available then available else n)
           in if n = 0 then (OK, [])
              else let block = offset div fs_kBlockSize;
                       block_offset = offset mod fs_kBlockSize
                   in if n \<le> fs_kBlockSize - block_offset
                      then (OK, take n (drop block_offset (fs_blocks f ! block)))
                      else (OK, FileState_Read_loop (fs_blocks f) block block_offset n []))"

section \<open>File objects\<close>

record seq_file =
  sf_file :: file_state
  sf_pos :: nat

definition SequentialFile_init :: "file_state \<Rightarrow> seq_file" where
  "SequentialFile_init f = \<lparr>sf_file = f, sf_pos = 0\<rparr>"

definition SequentialFile_Read :: "seq_file \<Rightarrow> nat \<Rightarrow> status \<times> bytes \<times> seq_file" where
  "SequentialFile_Read sf n =
     (let (s, result) = FileState_Read (sf_file sf) (sf_pos sf) n
      in (s, result, if ok s then sf\<lparr>sf_pos := sf_pos sf + length result\<rparr> else sf))"

definition SequentialFile_Skip :: "seq_file \<Rightarrow> nat \<Rightarrow> status \<times> seq_file" where
  "SequentialFile_Skip sf n =
     (if sf_pos sf > fs_size (sf_file sf) then (IOError ''pos_ > file_->Size()'' [], sf)
      else let available = fs_size (sf_file sf) - sf_pos sf;
               n = (if n > available then available else n)
           in (OK, sf\<lparr>sf_pos := sf_pos sf + n\<rparr>))"

definition RandomAccessFile_Read :: "file_state \<Rightarrow> nat \<Rightarrow> nat \<Rightarrow> status \<times> bytes" where
  "RandomAccessFile_Read f offset n = FileState_Read f offset n"

definition WritableFile_Append :: "file_state \<Rightarrow> bytes \<Rightarrow> status \<times> file_state" where
  "WritableFile_Append f data = FileState_Append f data"

definition WritableFile_Flush :: "file_state \<Rightarrow> status \<times> file_state" where
  "WritableFile_Flush f = (OK, f)"

section \<open>The contents of a file\<close>

text \<open>The blocks are as many as the size needs, and each is full-sized.\<close>

definition fs_inv :: "file_state \<Rightarrow> bool" where
  "fs_inv f \<longleftrightarrow> (\<forall>b \<in> set (fs_blocks f). length b = fs_kBlockSize) \<and>
     fs_size f \<le> length (fs_blocks f) * fs_kBlockSize \<and>
     length (fs_blocks f) * fs_kBlockSize < fs_size f + fs_kBlockSize"

definition fs_contents :: "file_state \<Rightarrow> bytes" where
  "fs_contents f = take (fs_size f) (concat (fs_blocks f))"

lemma length_concat_blocks:
  "\<forall>b \<in> set bs. length b = k \<Longrightarrow> length (concat bs) = length bs * k"
  by (induction bs) simp_all

lemma length_fs_contents [simp]: "fs_inv f \<Longrightarrow> length (fs_contents f) = fs_size f"
  using length_concat_blocks [of "fs_blocks f" fs_kBlockSize] by (simp add: fs_inv_def fs_contents_def)

lemma fs_inv_init [simp]: "fs_inv FileState_init" and fs_contents_init [simp]: "fs_contents FileState_init = []"
  by (simp_all add: fs_inv_def FileState_init_def fs_contents_def fs_kBlockSize_def)

lemma fs_kBlockSize_pos [simp]: "0 < fs_kBlockSize"
  by (simp add: fs_kBlockSize_def)

lemma length_copy_into [simp]:
  "offset + length src \<le> length b \<Longrightarrow> length (copy_into b offset src) = length b"
  by (simp add: copy_into_def)

text \<open>A file whose last block has just been written up to the size.\<close>

lemma fs_last_block:
  assumes bs: "\<forall>b \<in> set bs. length b = fs_kBlockSize" "length b = fs_kBlockSize"
    and n: "offset + length src \<le> fs_kBlockSize" "src \<noteq> []"
  defines "f \<equiv> \<lparr>fs_blocks = bs @ [copy_into b offset src], fs_size = length bs * fs_kBlockSize + offset + length src\<rparr>"
  shows "fs_inv f" "fs_contents f = concat bs @ take offset b @ src"
proof -
  have "0 < length src" using n by simp
  then show "fs_inv f" using bs n by (simp add: fs_inv_def f_def)
  have "take (offset + length src) (copy_into b offset src) = take offset b @ src"
    using n bs(2) by (simp add: copy_into_def)
  then show "fs_contents f = concat bs @ take offset b @ src"
    using length_concat_blocks [OF bs(1)] by (simp add: fs_contents_def f_def)
qed

text \<open>The blocks before and at the offset that \<open>Append\<close> writes next.\<close>

lemma fs_split:
  assumes inv: "fs_inv f"
  defines "offset \<equiv> fs_size f mod fs_kBlockSize"
  defines "blks \<equiv> (if offset \<noteq> 0 then fs_blocks f else fs_blocks f @ [replicate fs_kBlockSize 0])"
  obtains bs b where "blks = bs @ [b]" "\<forall>b \<in> set bs. length b = fs_kBlockSize" "length b = fs_kBlockSize"
    "fs_size f = length bs * fs_kBlockSize + offset" "fs_contents f = concat bs @ take offset b"
proof (cases "offset = 0")
  case True
  then obtain q where q: "fs_size f = fs_kBlockSize * q" by (auto simp: offset_def mod_eq_0_iff_dvd dvd_def)
  have bounds: "fs_kBlockSize * q \<le> length (fs_blocks f) * fs_kBlockSize"
    "length (fs_blocks f) * fs_kBlockSize < fs_kBlockSize * Suc q"
    using inv q by (simp_all add: fs_inv_def)
  then have "fs_kBlockSize * q \<le> fs_kBlockSize * length (fs_blocks f)"
    "fs_kBlockSize * length (fs_blocks f) < fs_kBlockSize * Suc q" by (simp_all add: mult.commute)
  then have "length (fs_blocks f) = q"
    by (simp only: nat_mult_less_cancel1 nat_mult_le_cancel1 fs_kBlockSize_pos)
  then show thesis
    using True inv q length_concat_blocks [of "fs_blocks f" fs_kBlockSize]
    by (intro that [of "fs_blocks f" "replicate fs_kBlockSize 0"])
      (simp_all add: blks_def fs_inv_def fs_contents_def)
next
  case False
  define q where "q = fs_size f div fs_kBlockSize"
  have sz: "fs_size f = q * fs_kBlockSize + offset" by (simp add: q_def offset_def)
  have off: "offset < fs_kBlockSize" by (simp add: offset_def)
  have "q * fs_kBlockSize + offset \<le> length (fs_blocks f) * fs_kBlockSize"
    "length (fs_blocks f) * fs_kBlockSize < q * fs_kBlockSize + offset + fs_kBlockSize"
    using inv unfolding fs_inv_def sz by blast+
  then have "q * fs_kBlockSize < length (fs_blocks f) * fs_kBlockSize"
    "length (fs_blocks f) * fs_kBlockSize < q * fs_kBlockSize + fs_kBlockSize + fs_kBlockSize"
    using off False by linarith+
  then have "fs_kBlockSize * q < fs_kBlockSize * length (fs_blocks f)"
    "fs_kBlockSize * length (fs_blocks f) < fs_kBlockSize * Suc (Suc q)" by (simp_all add: mult.commute)
  then have "q < length (fs_blocks f) \<and> length (fs_blocks f) < Suc (Suc q)"
    by (simp only: nat_mult_less_cancel1 fs_kBlockSize_pos)
  then have len: "length (fs_blocks f) = Suc q" by simp
  then have ne: "fs_blocks f = butlast (fs_blocks f) @ [last (fs_blocks f)]"
    by (metis append_butlast_last_id list.size(3) nat.distinct(1))
  have bl: "\<forall>b \<in> set (butlast (fs_blocks f)). length b = fs_kBlockSize" "length (last (fs_blocks f)) = fs_kBlockSize"
    using inv ne by (auto simp: fs_inv_def dest: in_set_butlastD) (metis in_set_conv_decomp)
  have "fs_contents f = take (q * fs_kBlockSize + offset) (concat (butlast (fs_blocks f)) @ last (fs_blocks f))"
    using ne sz by (metis concat.simps(1,2) concat_append fs_contents_def self_append_conv)
  also have "\<dots> = concat (butlast (fs_blocks f)) @ take offset (last (fs_blocks f))"
    using length_concat_blocks [OF bl(1)] len by simp
  finally show thesis
    using False ne bl sz len by (intro that) (simp_all add: blks_def)
qed

lemma FileState_Append_loop_correct:
  "fs_inv f \<Longrightarrow> fs_inv (FileState_Append_loop f src)
     \<and> fs_contents (FileState_Append_loop f src) = fs_contents f @ src"
proof (induction "length src" arbitrary: f src rule: less_induct)
  case less
  note simps = FileState_Append_loop.simps [of f src]
  show ?case
  proof (cases "src = []")
    case True
    then have "FileState_Append_loop f src = f" by (subst simps) simp
    with True less.prems show ?thesis by simp
  next
    case False
    define offset where "offset = fs_size f mod fs_kBlockSize"
    define blks where "blks = (if offset \<noteq> 0 then fs_blocks f else fs_blocks f @ [replicate fs_kBlockSize 0])"
    define avail where "avail = min (fs_kBlockSize - offset) (length src)"
    define f' where "f' = \<lparr>fs_blocks = blks[length blks - 1 := copy_into (last blks) offset (take avail src)],
        fs_size = fs_size f + avail\<rparr>"
    obtain bs b where bs: "blks = bs @ [b]" "\<forall>b \<in> set bs. length b = fs_kBlockSize" "length b = fs_kBlockSize"
      "fs_size f = length bs * fs_kBlockSize + offset" "fs_contents f = concat bs @ take offset b"
      using fs_split [OF less.prems] unfolding blks_def offset_def by metis
    have off: "offset < fs_kBlockSize" by (simp add: offset_def)
    have av: "offset + length (take avail src) \<le> fs_kBlockSize" "take avail src \<noteq> []"
      using off False by (simp_all add: avail_def)
    have f': "f' = \<lparr>fs_blocks = bs @ [copy_into b offset (take avail src)],
        fs_size = length bs * fs_kBlockSize + offset + length (take avail src)\<rparr>"
      by (simp add: f'_def bs avail_def)
    have new: "fs_inv f'" "fs_contents f' = fs_contents f @ take avail src"
      using fs_last_block [OF bs(2,3) av] by (simp_all add: f' bs(5))
    have step: "FileState_Append_loop f src = FileState_Append_loop f' (drop avail src)"
      using False
      by (simp add: simps Let_def f'_def blks_def avail_def min_def
          flip: offset_def)
    have "fs_inv (FileState_Append_loop f' (drop avail src))
        \<and> fs_contents (FileState_Append_loop f' (drop avail src)) = fs_contents f' @ drop avail src"
      using av(2) by (intro less.hyps new(1)) simp
    then show ?thesis using new by (simp add: step)
  qed
qed


lemma drop_concat_blocks:
  "\<forall>b \<in> set bs. length b = k \<Longrightarrow> drop (i * k) (concat bs) = concat (drop i bs)"
proof (induction i arbitrary: bs)
  case 0
  then show ?case by simp
next
  case (Suc i)
  then show ?case by (cases bs) (simp_all add: drop_drop [symmetric] add.commute del: drop_drop)
qed

lemma drop_concat_block:
  assumes bs: "\<forall>b \<in> set blks. length b = fs_kBlockSize" and i: "block < length blks" and off: "off \<le> fs_kBlockSize"
  shows "drop (block * fs_kBlockSize + off) (concat blks)
     = drop off (blks ! block) @ drop (Suc block * fs_kBlockSize) (concat blks)"
proof -
  have "drop (block * fs_kBlockSize + off) (concat blks) = drop off (concat (drop block blks))"
    using drop_concat_blocks [OF bs, of block] by (simp add: add.commute flip: drop_drop)
  also have "drop block blks = blks ! block # drop (Suc block) blks"
    by (rule Cons_nth_drop_Suc [OF i, symmetric])
  also have "drop off (concat \<dots>) = drop off (blks ! block) @ concat (drop (Suc block) blks)"
    using bs i off by simp
  finally show ?thesis using drop_concat_blocks [OF bs, of "Suc block"] by simp
qed

lemma FileState_Read_loop_correct:
  assumes bs: "\<forall>b \<in> set blks. length b = fs_kBlockSize"
  shows "off < fs_kBlockSize \<Longrightarrow> block * fs_kBlockSize + off + n \<le> length blks * fs_kBlockSize \<Longrightarrow>
     FileState_Read_loop blks block off n dst = dst @ take n (drop (block * fs_kBlockSize + off) (concat blks))"
proof (induction n arbitrary: block off dst rule: less_induct)
  case (less n)
  note simps = FileState_Read_loop.simps [of blks block off n dst]
  show ?case
  proof (cases "n = 0")
    case True
    then show ?thesis by (subst simps) simp
  next
    case False
    define avail where "avail = min (fs_kBlockSize - off) n"
    have "block * fs_kBlockSize < length blks * fs_kBlockSize" using less.prems False by linarith
    then have i: "block < length blks" by simp
    have len: "length (blks ! block) = fs_kBlockSize" using bs i by simp
    have step: "FileState_Read_loop blks block off n dst =
        FileState_Read_loop blks (block + 1) 0 (n - avail) (dst @ take avail (drop off (blks ! block)))"
      using less.prems False by (subst simps) (simp add: Let_def avail_def min_def)
    have lt: "n - avail < n" using less.prems False by (simp add: avail_def)
    note split = drop_concat_block [OF bs i, of off]
    show ?thesis
    proof (cases "n \<le> fs_kBlockSize - off")
      case True
      then have "avail = n" by (simp add: avail_def)
      moreover have "FileState_Read_loop blks (block + 1) 0 0 d = d" for d
        by (subst FileState_Read_loop.simps) simp
      ultimately show ?thesis
        using True step split less.prems len by simp
    next
      case big: False
      then have av: "avail = fs_kBlockSize - off" by (simp add: avail_def)
      have "Suc block * fs_kBlockSize + (n - avail) \<le> length blks * fs_kBlockSize"
        using less.prems big av by simp
      then have "FileState_Read_loop blks (block + 1) 0 (n - avail) (dst @ take avail (drop off (blks ! block)))
          = dst @ take avail (drop off (blks ! block))
            @ take (n - avail) (drop (Suc block * fs_kBlockSize) (concat blks))"
        using less.IH [OF lt, of 0 "Suc block"] by simp
      moreover have "take n (drop off (blks ! block)) = drop off (blks ! block)"
        using big len by simp
      ultimately show ?thesis using step split less.prems av len by simp
    qed
  qed
qed

lemma FileState_Read_correct:
  assumes inv: "fs_inv f" and le: "offset \<le> fs_size f"
  shows "FileState_Read f offset n = (OK, take n (drop offset (fs_contents f)))"
proof -
  define k where "k = min n (fs_size f - offset)"
  define block off where "block = offset div fs_kBlockSize" and "off = offset mod fs_kBlockSize"
  have bs: "\<forall>b \<in> set (fs_blocks f). length b = fs_kBlockSize" using inv by (simp add: fs_inv_def)
  have offset: "offset = block * fs_kBlockSize + off" "off < fs_kBlockSize" by (simp_all add: block_def off_def)
  have k: "offset + k \<le> length (fs_blocks f) * fs_kBlockSize"
    using inv le unfolding fs_inv_def k_def by linarith
  have res: "take n (drop offset (fs_contents f)) = take k (drop offset (concat (fs_blocks f)))"
    by (simp add: fs_contents_def drop_take k_def min.commute)
  show ?thesis
  proof (cases "k = 0")
    case True
    then show ?thesis using le by (auto simp: FileState_Read_def Let_def res k_def min_def split: if_splits)
  next
    case False
    have "block * fs_kBlockSize < length (fs_blocks f) * fs_kBlockSize" using k offset False by linarith
    then have i: "block < length (fs_blocks f)" by simp
    have "FileState_Read f offset n = (OK, if k \<le> fs_kBlockSize - off then take k (drop off (fs_blocks f ! block))
        else FileState_Read_loop (fs_blocks f) block off k [])"
      using le False by (auto simp: FileState_Read_def Let_def k_def min_def simp flip: block_def off_def)
    also have "\<dots> = (OK, take k (drop offset (concat (fs_blocks f))))"
      using FileState_Read_loop_correct [OF bs offset(2), of block k "[]"] k offset
        drop_concat_block [OF bs i, of off] bs i by simp
    finally show ?thesis by (simp add: res)
  qed
qed

section \<open>The interfaces\<close>

definition sf_good :: "seq_file \<Rightarrow> bool" where
  "sf_good sf \<longleftrightarrow> fs_inv (sf_file sf) \<and> sf_pos sf \<le> fs_size (sf_file sf)"

definition sf_rest :: "seq_file \<Rightarrow> bytes" where
  "sf_rest sf = drop (sf_pos sf) (fs_contents (sf_file sf))"

interpretation mem_writable: writable_file WritableFile_Append WritableFile_Flush fs_contents fs_inv
  by unfold_locales
    (auto simp: WritableFile_Append_def FileState_Append_def WritableFile_Flush_def FileState_Append_loop_correct)

interpretation mem_sequential: sequential_file SequentialFile_Read SequentialFile_Skip sf_rest sf_good
proof unfold_locales
  fix sf n s data sf'
  assume good: "sf_good sf"
  then have r: "FileState_Read (sf_file sf) (sf_pos sf) n = (OK, take n (sf_rest sf))"
    by (simp add: sf_good_def sf_rest_def FileState_Read_correct)
  show "SequentialFile_Read sf n = (s, data, sf') \<Longrightarrow>
      s = OK \<and> sf_good sf' \<and> data = take n (sf_rest sf) \<and> sf_rest sf' = drop n (sf_rest sf)"
    using good r
    by (auto simp: SequentialFile_Read_def sf_good_def sf_rest_def min_def add.commute)
  show "SequentialFile_Skip sf n = (s, sf') \<Longrightarrow> s = OK \<and> sf_good sf' \<and> sf_rest sf' = drop n (sf_rest sf)"
    using good
    by (auto simp: SequentialFile_Skip_def Let_def sf_good_def sf_rest_def add.commute split: if_splits)
qed

interpretation mem_random: random_access_file RandomAccessFile_Read fs_contents fs_inv
  by unfold_locales (auto simp: RandomAccessFile_Read_def FileState_Read_correct)

section \<open>Properties\<close>

text \<open>
  An in-memory file is a growing string: \<open>Append\<close> adds the bytes at its end across as many
  blocks as they need, and reading any range returns exactly those bytes of the string, from one
  block or gathered from several.
\<close>

theorem FileState_append_then_read:
  assumes "fs_inv f" and "offset \<le> fs_size f + length data"
  shows "\<exists>f'. FileState_Append f data = (OK, f') \<and> fs_inv f' \<and> fs_contents f' = fs_contents f @ data
     \<and> fs_size f' = fs_size f + length data
     \<and> FileState_Read f' offset n = (OK, take n (drop offset (fs_contents f @ data)))"
proof -
  let ?f' = "FileState_Append_loop f data"
  have f': "fs_inv ?f'" "fs_contents ?f' = fs_contents f @ data"
    using FileState_Append_loop_correct [OF assms(1)] by blast+
  then have "fs_size ?f' = fs_size f + length data"
    using length_fs_contents [OF f'(1)] length_fs_contents [OF assms(1)] by simp
  then show ?thesis
    using f' assms(2) FileState_Read_correct [OF f'(1), of offset n] by (simp add: FileState_Append_def)
qed

theorem FileState_append_then_read_witness:
  "\<exists>f'. FileState_Append FileState_init [1, 2, 3] = (OK, f') \<and> FileState_Read f' 1 5 = (OK, [2, 3])"
  using FileState_append_then_read [OF fs_inv_init, of 1 "[1, 2, 3]" 5] by auto

end
