(* ===== verification/LogWriter.thy ===== *)
theory LogWriter imports LogFormat MemFile begin

text \<open>
  \<^verbatim>\<open>db/log_writer.h\<close> and \<^verbatim>\<open>db/log_writer.cc\<close>. The writer is polymorphic in the file it
  appends to, whose operations are parameters. \<open>AddRecord\<close> is shown to append a layout of
  fragments of the record to every file that meets the interface, and to keep the asserted
  bounds on the offset in the block.
\<close>

record 'f log_writer =
  dest :: 'f
  block_offset :: nat
  type_crc :: "uint32 list"

definition Writer_init :: "'f \<Rightarrow> 'f log_writer" where
  "Writer_init f = \<lparr>dest = f, block_offset = 0, type_crc = map (\<lambda>i. crc_Value [of_nat i]) [0..<5]\<rparr>"

definition EmitPhysicalRecord ::
  "('f \<Rightarrow> bytes \<Rightarrow> status \<times> 'f) \<Rightarrow> ('f \<Rightarrow> status \<times> 'f) \<Rightarrow> 'f log_writer \<Rightarrow> uint32 \<Rightarrow> bytes
     \<Rightarrow> status \<times> 'f log_writer" where
  "EmitPhysicalRecord fappend fflush w t ptr =
     (let n = length ptr;
          crc = Mask (Extend (type_crc w ! unat t) ptr);
          buf = EncodeFixed32 crc @ [ucast ((of_nat n :: uint64) AND 0xff), ucast (drop_bit 8 (of_nat n :: uint64)), ucast t];
          (s, f) = fappend (dest w) buf;
          (s, f) = (if ok s
                    then let (s, f) = fappend f ptr in if ok s then fflush f else (s, f)
                    else (s, f))
      in (s, w\<lparr>dest := f, block_offset := block_offset w + (kHeaderSize + n)\<rparr>))"

text \<open>
  Switching to a new block when less than a header fits in the current one. The status of the
  append that fills the trailer is not looked at.
\<close>

definition Writer_switch_block :: "('f \<Rightarrow> bytes \<Rightarrow> status \<times> 'f) \<Rightarrow> 'f log_writer \<Rightarrow> 'f log_writer" where
  "Writer_switch_block fappend w =
     (let leftover = log_kBlockSize - block_offset w
      in if leftover < kHeaderSize
         then (if leftover > 0
               then w\<lparr>dest := snd (fappend (dest w) (take leftover (replicate 6 0)))\<rparr> else w)\<lparr>block_offset := 0\<rparr>
         else w)"

lemma block_offset_simps [simp]:
  "block_offset (Writer_switch_block fappend w) = block_start (block_offset w)"
  "EmitPhysicalRecord fappend fflush w t d = (s, w') \<Longrightarrow>
     block_offset w' = block_offset w + (kHeaderSize + length d)"
  by (auto simp: Writer_switch_block_def block_start_def EmitPhysicalRecord_def Let_def split: prod.splits)

lemma AddRecord_measure:
  assumes "frag < left" "frag = log_kBlockSize - block_start off - kHeaderSize"
  shows "2 * (left - frag) + (if block_start off + (kHeaderSize + frag) = log_kBlockSize then 0 else 1)
     < 2 * left + (if off = log_kBlockSize then 0 else (1 :: nat))"
  using assms unfolding block_start_def log_size_defs
  by (cases "32768 - off < 4 + 2 + (1::nat)"; cases "off = 32768"; cases "off = 32761"; simp)

text \<open>
  The \<open>do\<close> loop. A record that starts where just a header fits gets an empty first fragment,
  and the next turn of the loop starts a new block.
\<close>

function AddRecord_loop ::
  "('f \<Rightarrow> bytes \<Rightarrow> status \<times> 'f) \<Rightarrow> ('f \<Rightarrow> status \<times> 'f) \<Rightarrow> 'f log_writer \<Rightarrow> bool \<Rightarrow> bytes
     \<Rightarrow> status \<times> 'f log_writer" where
  "AddRecord_loop fappend fflush w begin ptr =
     (let w = Writer_switch_block fappend w;
          left = length ptr;
          avail = log_kBlockSize - block_offset w - kHeaderSize;
          fragment_length = (if left < avail then left else avail);
          end = (left = fragment_length);
          t = (if begin \<and> end then kFullType else if begin then kFirstType
               else if end then kLastType else kMiddleType)
      in case EmitPhysicalRecord fappend fflush w t (take fragment_length ptr) of
           (s, w) \<Rightarrow>
             if ok s \<and> left - fragment_length > 0
             then AddRecord_loop fappend fflush w False (drop fragment_length ptr)
             else (s, w))"
  by pat_completeness auto
termination
proof (relation "measure (\<lambda>(_, _, w, _, ptr). 2 * length ptr + (if block_offset w = log_kBlockSize then 0 else 1))", goal_cases)
  case 1
  then show ?case by simp
next
  case (2 fappend fflush w b ptr w1 left avail fl e t s w')
  let ?n = "log_kBlockSize - block_start (block_offset w) - kHeaderSize"
  have n: "fl = ?n" "?n < length ptr"
    using 2(1-4,8) by (auto split: if_splits)
  have "block_offset w' = block_start (block_offset w) + (kHeaderSize + ?n)"
    using block_offset_simps(2) [OF 2(7) [symmetric]] 2(1) n by simp
  then show ?case using AddRecord_measure [OF n(2) refl] n by simp
qed

declare AddRecord_loop.simps [simp del]

definition AddRecord ::
  "('f \<Rightarrow> bytes \<Rightarrow> status \<times> 'f) \<Rightarrow> ('f \<Rightarrow> status \<times> 'f) \<Rightarrow> 'f log_writer \<Rightarrow> bytes
     \<Rightarrow> status \<times> 'f log_writer" where
  "AddRecord fappend fflush w data = AddRecord_loop fappend fflush w True data"


section \<open>What the writer appends\<close>

lemma of_nat_byte_low: "ucast ((of_nat n :: uint64) AND 255) = (of_nat (n mod 256) :: byte)"
proof -
  have "(of_nat (n mod 256) :: byte) = of_nat n" by (simp add: word_unat_eq_iff unat_of_nat)
  moreover have "(of_nat (take_bit 64 n) :: byte) = of_nat n"
    by (simp add: word_unat_eq_iff unat_of_nat take_bit_eq_mod mod_mod_cancel)
  ultimately show ?thesis by (simp add: unsigned_of_nat)
qed

lemma of_nat_byte_high: "n < 2 ^ 64 \<Longrightarrow> ucast (drop_bit 8 (of_nat n :: uint64)) = (of_nat (n div 256) :: byte)"
proof -
  assume n: "n < 2 ^ 64"
  then have "(of_nat n :: uint64) = word_of_int (int n)" by simp
  have "unat (drop_bit 8 (of_nat n :: uint64)) = n div 256"
    using n by (simp add: unat_drop_bit_nat unat_of_nat_64)
  then show ?thesis by (metis ucast_of_nat_unat)
qed

definition writer_ok :: "('f \<Rightarrow> bool) \<Rightarrow> 'f log_writer \<Rightarrow> bool" where
  "writer_ok good w \<longleftrightarrow> good (dest w) \<and> type_crc w = map (\<lambda>i. crc_Value [of_nat i]) [0..<5]
     \<and> block_offset w \<le> log_kBlockSize"

lemma type_crc_nth:
  assumes "t \<in> {kFullType, kFirstType, kMiddleType, kLastType}"
  shows "map (\<lambda>i. crc_Value [of_nat i]) [0..<5] ! unat t = crc_Value [ucast t]"
  using assms by (auto simp: record_type_defs upt_rec)

lemma record_header:
  assumes "t \<in> {kFullType, kFirstType, kMiddleType, kLastType}" "length d < 2 ^ 64"
  shows "EncodeFixed32 (Mask (Extend (map (\<lambda>i. crc_Value [of_nat i]) [0..<5] ! unat t) d))
     @ [ucast ((of_nat (length d) :: uint64) AND 0xff), ucast (drop_bit 8 (of_nat (length d) :: uint64)), ucast t] @ d
     = physical t d"
proof -
  have "Extend (crc_Value [ucast t]) d = crc_Value (ucast t # d)"
    by (simp add: crc_Value_def Extend_Extend)
  then show ?thesis
    by (simp only: type_crc_nth [OF assms(1)] of_nat_byte_low of_nat_byte_high [OF assms(2)] physical_def append_assoc)
qed

context writable_file
begin

lemma EmitPhysicalRecord_correct:
  assumes ok: "writer_ok good w" and t: "t \<in> {kFullType, kFirstType, kMiddleType, kLastType}"
    and fits: "block_offset w + 7 + length d \<le> log_kBlockSize"
  shows "\<exists>w'. EmitPhysicalRecord append flush w t d = (OK, w') \<and> writer_ok good w'
    \<and> contents (dest w') = contents (dest w) @ physical t d
    \<and> block_offset w' = block_offset w + 7 + length d"
proof -
  let ?buf = "EncodeFixed32 (Mask (Extend (type_crc w ! unat t) d))
      @ [ucast ((of_nat (length d) :: uint64) AND 0xff), ucast (drop_bit 8 (of_nat (length d) :: uint64)), ucast t]"
  have len: "length d < 2 ^ 64" using fits by (simp add: log_kBlockSize_def)
  obtain s1 f1 where f1: "append (dest w) ?buf = (s1, f1)" by (rule prod.exhaust)
  obtain s2 f2 where f2: "append f1 d = (s2, f2)" by (rule prod.exhaust)
  obtain s3 f3 where f3: "flush f2 = (s3, f3)" by (rule prod.exhaust)
  have good: "good (dest w)" using ok by (simp add: writer_ok_def)
  note 1 = append_ok [OF good f1]
  note 2 = append_ok [OF conjunct1 [OF conjunct2 [OF 1]] f2]
  note 3 = flush_ok [OF conjunct1 [OF conjunct2 [OF 2]] f3]
  have eq: "?buf @ d = physical t d"
    using record_header [OF t len] ok by (simp only: writer_ok_def append_assoc)
  have "contents f3 = contents (dest w) @ ?buf @ d" using 1 2 3 by simp
  then have c: "contents f3 = contents (dest w) @ physical t d" by (simp only: eq)
  have "EmitPhysicalRecord append flush w t d
      = (OK, w\<lparr>dest := f3, block_offset := block_offset w + (kHeaderSize + length d)\<rparr>)"
    unfolding EmitPhysicalRecord_def Let_def f1 using 1 2 3 by (simp add: f2 f3)
  then show ?thesis
    using ok fits 3 c by (simp add: writer_ok_def kHeaderSize_def)
qed

lemma Writer_switch_block_correct:
  assumes ok: "writer_ok good w"
  shows "writer_ok good (Writer_switch_block append w)"
    "contents (dest (Writer_switch_block append w)) = contents (dest w) @ replicate (block_pad (block_offset w)) 0"
    "block_start (block_offset w) + 7 \<le> log_kBlockSize"
proof -
  obtain s f where f: "append (dest w) (take (log_kBlockSize - block_offset w) (replicate 6 0)) = (s, f)"
    by (rule prod.exhaust)
  have good: "good (dest w)" using ok by (simp add: writer_ok_def)
  note 1 = append_ok [OF good f]
  have "take n (replicate 6 (0::byte)) = replicate n 0" if "n < 7" for n
    using that by (simp add: min_def)
  with 1 f ok show "writer_ok good (Writer_switch_block append w)"
    "contents (dest (Writer_switch_block append w)) = contents (dest w) @ replicate (block_pad (block_offset w)) 0"
    by (auto simp: Writer_switch_block_def writer_ok_def Let_def block_pad_def kHeaderSize_def)
  show "block_start (block_offset w) + 7 \<le> log_kBlockSize"
    using ok by (auto simp: block_start_def writer_ok_def log_size_defs)
qed

lemma AddRecord_loop_correct:
  "writer_ok good w \<Longrightarrow>
   \<exists>w' frs. AddRecord_loop append flush w bg ptr = (OK, w') \<and> writer_ok good w'
     \<and> contents (dest w') = contents (dest w) @ layout (block_offset w) frs
     \<and> block_offset w' = layout_end (block_offset w) frs \<and> layout_ok (block_offset w) frs
     \<and> fragments_of bg frs \<and> payload frs = ptr"
proof (induction "2 * length ptr + (if block_offset w = log_kBlockSize then 0 else (1 :: nat))"
    arbitrary: w bg ptr rule: less_induct)
  case less
  define w1 where "w1 = Writer_switch_block append w"
  define off where "off = block_start (block_offset w)"
  define avail where "avail = log_kBlockSize - off - kHeaderSize"
  define fl where "fl = (if length ptr < avail then length ptr else avail)"
  define t where "t = (if bg \<and> length ptr = fl then kFullType else if bg then kFirstType
               else if length ptr = fl then kLastType else kMiddleType)"
  have t: "t \<in> {kFullType, kFirstType, kMiddleType, kLastType}" by (simp add: t_def)
  note w1 = Writer_switch_block_correct [OF less.prems, folded w1_def off_def]
  have off1: "block_offset w1 = off" by (simp add: w1_def off_def)
  have fits: "block_offset w1 + 7 + length (take fl ptr) \<le> log_kBlockSize"
    using w1(3) by (auto simp: off1 fl_def avail_def kHeaderSize_def)
  obtain w2 where w2: "EmitPhysicalRecord append flush w1 t (take fl ptr) = (OK, w2)" "writer_ok good w2"
    "contents (dest w2) = contents (dest w1) @ physical t (take fl ptr)"
    "block_offset w2 = off + 7 + length (take fl ptr)"
    using EmitPhysicalRecord_correct [OF w1(1) t fits] off1 by blast
  have loop: "AddRecord_loop append flush w bg ptr =
      (if length ptr - fl > 0 then AddRecord_loop append flush w2 False (drop fl ptr) else (OK, w2))"
    by (subst AddRecord_loop.simps)
      (simp only: Let_def w2(1) off1 prod.case ok_simps simp_thms flip: w1_def avail_def fl_def t_def)
  have ok1: "block_offset w \<le> log_kBlockSize" using less.prems by (simp add: writer_ok_def)
  have ok2: "off + 7 + length (take fl ptr) \<le> log_kBlockSize" using fits off1 by simp
  have lay: "contents (dest w2) = contents (dest w) @ replicate (block_pad (block_offset w)) 0 @ physical t (take fl ptr)"
    by (simp add: w2(3) w1(2))
  show ?case
  proof (cases "length ptr \<le> fl")
    case True
    then have fl: "fl = length ptr" by (simp add: fl_def split: if_splits)
    show ?thesis
      using loop w2 lay t ok1 ok2
      by (intro exI [of _ w2] exI [of _ "[(t, ptr)]"]) (simp add: fl off_def, simp add: t_def fl)
  next
    case False
    then have fl: "fl = avail" "fl < length ptr" by (simp_all add: fl_def split: if_splits)
    have a: "block_offset w2 = block_start (block_offset w) + (kHeaderSize + fl)"
      using w2(4) fl(2) by (simp add: off_def kHeaderSize_def)
    have eqfl: "fl = log_kBlockSize - block_start (block_offset w) - kHeaderSize"
      using fl(1) by (simp only: avail_def off_def)
    have "2 * length (drop fl ptr) + (if block_offset w2 = log_kBlockSize then 0 else 1)
        < 2 * length ptr + (if block_offset w = log_kBlockSize then 0 else (1 :: nat))"
      using AddRecord_measure [OF fl(2) eqfl] by (simp only: length_drop a)
    from less.hyps [OF this w2(2), of False] obtain w' frs where
      w': "AddRecord_loop append flush w2 False (drop fl ptr) = (OK, w')" "writer_ok good w'"
        "contents (dest w') = contents (dest w2) @ layout (block_offset w2) frs"
        "block_offset w' = layout_end (block_offset w2) frs" "layout_ok (block_offset w2) frs"
        "fragments_of False frs" "payload frs = drop fl ptr" by blast
    have frs: "fragments_of bg ((t, take fl ptr) # frs)"
      using w'(6) fl(2) by (cases frs) (simp_all add: t_def)
    show ?thesis
      using loop w' w2(4) lay t ok1 ok2 frs fl(2)
      by (intro exI [of _ w'] exI [of _ "(t, take fl ptr) # frs"]) (simp add: off_def)
  qed
qed

lemma AddRecord_correct:
  "writer_ok good w \<Longrightarrow>
   \<exists>w' frs. AddRecord append flush w data = (OK, w') \<and> writer_ok good w'
     \<and> contents (dest w') = contents (dest w) @ layout (block_offset w) frs
     \<and> block_offset w' = layout_end (block_offset w) frs \<and> layout_ok (block_offset w) frs
     \<and> fragments_of True frs \<and> payload frs = data"
  unfolding AddRecord_def by (rule AddRecord_loop_correct)

text \<open>A sequence of records: the layout of the fragments of all of them.\<close>

lemma AddRecords_correct:
  "writer_ok good w \<Longrightarrow>
   \<exists>w' frss. foldl (\<lambda>(s, w) data. AddRecord append flush w data) (OK, w) records = (OK, w') \<and> writer_ok good w'
     \<and> contents (dest w') = contents (dest w) @ layout (block_offset w) (concat frss)
     \<and> block_offset w' = layout_end (block_offset w) (concat frss)
     \<and> layout_ok (block_offset w) (concat frss)
     \<and> list_all2 (\<lambda>frs data. fragments_of True frs \<and> payload frs = data) frss records"
proof (induction records arbitrary: w)
  case Nil
  then show ?case by (intro exI [of _ w] exI [of _ "[]"]) (simp add: writer_ok_def)
next
  case (Cons data records)
  from AddRecord_correct [OF Cons.prems, of data] obtain w1 frs where
    w1: "AddRecord append flush w data = (OK, w1)" "writer_ok good w1"
      "contents (dest w1) = contents (dest w) @ layout (block_offset w) frs"
      "block_offset w1 = layout_end (block_offset w) frs" "layout_ok (block_offset w) frs"
      "fragments_of True frs" "payload frs = data" by blast
  from Cons.IH [OF w1(2)] obtain w' frss where
    w': "foldl (\<lambda>(s, w) data. AddRecord append flush w data) (OK, w1) records = (OK, w')" "writer_ok good w'"
      "contents (dest w') = contents (dest w1) @ layout (block_offset w1) (concat frss)"
      "block_offset w' = layout_end (block_offset w1) (concat frss)"
      "layout_ok (block_offset w1) (concat frss)"
      "list_all2 (\<lambda>frs data. fragments_of True frs \<and> payload frs = data) frss records" by blast
  show ?case
    using w1 w'
    by (intro exI [of _ w'] exI [of _ "frs # frss"]) (simp add: layout_append layout_ok_append layout_end_append)
qed

end

lemma writer_ok_init: "good f \<Longrightarrow> writer_ok good (Writer_init f)"
  by (simp add: writer_ok_def Writer_init_def)


section \<open>A remark on the code\<close>

text \<open>
  The status of the append that fills the trailer is dropped: on a file whose first append fails
  and writes nothing, \<open>AddRecord\<close> at the end of a block returns OK, and the record it wrote is
  not at the start of a block.
\<close>

definition failing_append :: "nat \<times> bytes \<Rightarrow> bytes \<Rightarrow> status \<times> nat \<times> bytes" where
  "failing_append f data =
     (if fst f = 0 then (IOError ''disk'' ''error'', 1, snd f) else (OK, fst f + 1, snd f @ data))"

lemma Emit_failing_append:
  "fst (dest w) \<noteq> 0 \<Longrightarrow> fst (EmitPhysicalRecord failing_append (\<lambda>f. (OK, f)) w t d) = OK"
  unfolding EmitPhysicalRecord_def Let_def failing_append_def by simp

theorem AddRecord_ignores_trailer_status:
  "fst (AddRecord failing_append (\<lambda>f. (OK, f)) \<lparr>dest = (0, []), block_offset = 32765, type_crc = crcs\<rparr> [7]) = OK"
proof -
  let ?w = "\<lparr>dest = (0, []), block_offset = 32765, type_crc = crcs\<rparr>"
  have "Writer_switch_block failing_append ?w = \<lparr>dest = (1, []), block_offset = 0, type_crc = crcs\<rparr>"
    by (simp add: Writer_switch_block_def failing_append_def log_size_defs)
  moreover obtain s w' where
    e: "EmitPhysicalRecord failing_append (\<lambda>f. (OK, f)) \<lparr>dest = (1, []), block_offset = 0, type_crc = crcs\<rparr> kFullType [7] = (s, w')"
    by (rule prod.exhaust)
  moreover have "s = OK" using Emit_failing_append [of "\<lparr>dest = (1, []), block_offset = 0, type_crc = crcs\<rparr>" kFullType "[7]"] e by simp
  ultimately show ?thesis
    unfolding AddRecord_def by (subst AddRecord_loop.simps) (simp add: Let_def log_size_defs)
qed

end
