(* ===== verification/Logging.thy ===== *)
theory Logging imports Slice begin

text \<open>
  \<^verbatim>\<open>util/logging.h\<close> and \<^verbatim>\<open>util/logging.cc\<close>: numbers and strings in readable form, and the
  number parser of the file names. Text is a \<open>string\<close>. \<open>decimal\<close> and \<open>hex2\<close> are the
  conversions \<open>%llu\<close> and \<open>%02x\<close> of the standard library. The overflow test of
  \<open>ConsumeDecimalNumber\<close> is shown to be exact.
\<close>

section \<open>Formatting\<close>

definition digit_char :: "nat \<Rightarrow> char" where
  "digit_char d = char_of (if d < 10 then 48 + d else 87 + d)"

fun decimal :: "nat \<Rightarrow> string" where
  "decimal n = (if n < 10 then [digit_char n] else decimal (n div 10) @ [digit_char (n mod 10)])"

declare decimal.simps [simp del]

definition hex2 :: "nat \<Rightarrow> string" where
  "hex2 n = [digit_char (n div 16), digit_char (n mod 16)]"

definition AppendNumberTo :: "string \<Rightarrow> uint64 \<Rightarrow> string" where
  "AppendNumberTo str num = str @ decimal (unat num)"

definition NumberToString :: "uint64 \<Rightarrow> string" where
  "NumberToString num = AppendNumberTo [] num"

text \<open>The characters from space to tilde are kept.\<close>

fun AppendEscapedStringTo :: "string \<Rightarrow> bytes \<Rightarrow> string" where
  "AppendEscapedStringTo str [] = str"
| "AppendEscapedStringTo str (c # value) =
     AppendEscapedStringTo
       (if 32 \<le> c \<and> c \<le> 126 then str @ [char_of (unat c)] else str @ [CHR 0x5C, CHR ''x''] @ hex2 (unat c))
       value"

definition EscapeString :: "bytes \<Rightarrow> string" where
  "EscapeString value = AppendEscapedStringTo [] value"

section \<open>Parsing\<close>

definition is_digit :: "char \<Rightarrow> bool" where
  "is_digit c \<longleftrightarrow> 48 \<le> (of_char c :: nat) \<and> (of_char c :: nat) \<le> 57"

fun Consume_loop :: "uint64 \<Rightarrow> nat \<Rightarrow> string \<Rightarrow> (uint64 \<times> nat \<times> string) option" where
  "Consume_loop v digits [] = Some (v, digits, [])"
| "Consume_loop v digits (c # rest) =
     (if is_digit c
      then let delta = of_char c - (48 :: nat); kMaxUint64 = (- 1 :: uint64) in
        if v > kMaxUint64 div 10 \<or> v = kMaxUint64 div 10 \<and> of_nat delta > kMaxUint64 mod 10
        then None
        else Consume_loop (v * 10 + of_nat delta) (digits + 1) rest
      else Some (v, digits, c # rest))"

text \<open>\<open>None\<close> where the code returns false; the callers do not use \<open>*in\<close> and \<open>*val\<close> then.\<close>

definition ConsumeDecimalNumber :: "string \<Rightarrow> (uint64 \<times> string) option" where
  "ConsumeDecimalNumber inp =
     (case Consume_loop 0 0 inp of
        None \<Rightarrow> None
      | Some (v, digits, rest) \<Rightarrow> if digits > 0 then Some (v, rest) else None)"

section \<open>The parser computes the value of the digits\<close>

definition digits_value :: "nat \<Rightarrow> string \<Rightarrow> nat" where
  "digits_value v ds = foldl (\<lambda>v c. 10 * v + (of_char c - 48)) v ds"

lemma digits_value_simps [simp]:
  "digits_value v [] = v" "digits_value v (c # ds) = digits_value (10 * v + (of_char c - 48)) ds"
  "digits_value v (ds @ es) = digits_value (digits_value v ds) es"
  by (simp_all add: digits_value_def)

lemma digits_value_ge: "v \<le> digits_value v ds"
proof (induction ds arbitrary: v)
  case Nil
  then show ?case by simp
next
  case (Cons c ds)
  have "v \<le> 10 * v + (of_char c - 48)" by simp
  also have "\<dots> \<le> digits_value (10 * v + (of_char c - 48)) ds" by (rule Cons.IH)
  finally show ?case by simp
qed

lemma overflow_test:
  fixes v :: uint64
  assumes "d < 10"
  shows "(v > (- 1) div 10 \<or> v = (- 1) div 10 \<and> of_nat d > (- 1 :: uint64) mod 10) \<longleftrightarrow> 2 ^ 64 \<le> 10 * unat v + d"
proof -
  have m: "unat ((- 1 :: uint64) div 10) = 1844674407370955161" "unat ((- 1 :: uint64) mod 10) = 5"
    by simp_all
  have d: "unat (of_nat d :: uint64) = d" using assms by (simp add: unat_of_nat)
  show ?thesis
    using assms unfolding word_less_nat_alt word_unat_eq_iff m d by auto
qed

lemma no_overflow_step:
  fixes v :: uint64
  assumes "10 * unat v + d < 2 ^ 64"
  shows "unat (v * 10 + of_nat d) = 10 * unat v + d"
proof -
  have "unat (v * 10 + of_nat d) = (10 * unat v + d) mod 2 ^ 64"
    by (simp add: unat_word_ariths unat_of_nat mod_simps mult.commute)
  with assms show ?thesis by simp
qed

lemma Consume_loop_correct:
  "Consume_loop v digits inp =
     (let ds = takeWhile is_digit inp in
      if digits_value (unat v) ds < 2 ^ 64
      then Some (of_nat (digits_value (unat v) ds), digits + length ds, dropWhile is_digit inp) else None)"
proof (induction v digits inp rule: Consume_loop.induct)
  case (1 v digits)
  then show ?case using unat_less_2p64 [of v] by simp
next
  case (2 v digits c rest)
  show ?case
  proof (cases "is_digit c")
    case False
    then show ?thesis using unat_less_2p64 [of v] by simp
  next
    case True
    define d where "d = of_char c - (48 :: nat)"
    have d: "d < 10" using True by (auto simp: is_digit_def d_def)
    show ?thesis
    proof (cases "10 * unat v + d < 2 ^ 64")
      case True2: True
      then have no: "\<not> (v > (- 1) div 10 \<or> v = (- 1) div 10 \<and> of_nat d > (- 1 :: uint64) mod 10)"
        using overflow_test [OF d, of v] by simp
      have "Consume_loop v digits (c # rest) = Consume_loop (v * 10 + of_nat d) (digits + 1) rest"
        using True no by (auto simp: Let_def d_def [symmetric] simp del: of_nat_diff)
      also have "\<dots> = (let ds = takeWhile is_digit rest in
          if digits_value (10 * unat v + d) ds < 2 ^ 64
          then Some (of_nat (digits_value (10 * unat v + d) ds), digits + 1 + length ds, dropWhile is_digit rest) else None)"
        using 2 True no no_overflow_step [OF True2] by (auto simp add: Let_def d_def [symmetric] del: of_nat_diff)
      finally show ?thesis using True by (simp add: Let_def d_def)
    next
      case big: False
      then have yes: "v > (- 1) div 10 \<or> v = (- 1) div 10 \<and> of_nat d > (- 1 :: uint64) mod 10"
        using overflow_test [OF d, of v] by simp
      have "Consume_loop v digits (c # rest) = None"
        using True yes by (auto simp add: Let_def d_def [symmetric] del: of_nat_diff)
      moreover have "\<not> digits_value (10 * unat v + d) ds < 2 ^ 64" for ds
        using digits_value_ge [of "10 * unat v + d" ds] big by linarith
      ultimately show ?thesis using True by (simp add: Let_def d_def)
    qed
  qed
qed

text \<open>Digits of a number.\<close>

lemma of_char_digit [simp]: "d < 10 \<Longrightarrow> (of_char (digit_char d) :: nat) = 48 + d"
  by (simp add: digit_char_def)

lemma decimal_digits: "\<forall>c \<in> set (decimal n). is_digit c"
proof (induction n rule: decimal.induct)
  case (1 n)
  then show ?case by (subst decimal.simps) (auto simp: is_digit_def)
qed

lemma decimal_not_Nil [simp]: "decimal n \<noteq> []"
  by (subst decimal.simps) simp

lemma digits_value_decimal: "digits_value 0 (decimal n) = n"
proof (induction n rule: decimal.induct)
  case (1 n)
  then show ?case by (subst decimal.simps) auto
qed

lemma digits_value_zeros [simp]: "digits_value 0 (replicate k (CHR ''0'')) = 0"
  by (induction k) simp_all

section \<open>Properties\<close>

text \<open>
  C29. \<open>ConsumeDecimalNumber\<close> takes the longest prefix of digits and returns its value, for every
  input: it fails exactly when there is no digit or the value does not fit in 64 bits, so the
  overflow test is neither too strict nor too lax.
\<close>

theorem ConsumeDecimalNumber_exact:
  "ConsumeDecimalNumber inp =
     (let ds = takeWhile is_digit inp in
      if ds = [] \<or> 2 ^ 64 \<le> digits_value 0 ds then None
      else Some (of_nat (digits_value 0 ds), dropWhile is_digit inp))"
  using Consume_loop_correct [of 0 0 inp] by (auto simp: ConsumeDecimalNumber_def Let_def)

end
