(* ===== verification/LogReader.thy ===== *)
theory LogReader imports LogWriter MemFile Logging "HOL-Library.Sublist" begin

text \<open>
  \<^verbatim>\<open>db/log_reader.h\<close> and \<^verbatim>\<open>db/log_reader.cc\<close>. The reader is polymorphic in the file it
  reads, whose \<open>Read\<close> and \<open>Skip\<close> are parameters; the calls of \<open>Reporter::Corruption\<close> are
  recorded in the state. Offsets and sizes are 64-bit words. The type of a record is an
  \<open>unsigned int\<close>, with the two values beyond the record types that \<open>ReadPhysicalRecord\<close> returns
  for the end of the file and for a bad record; the byte of the header is converted as an
  unsigned \<open>char\<close>, the default of ARM Android.
\<close>

section \<open>State\<close>

record 'f log_reader =
  r_file :: 'f
  has_reporter :: bool
  reports :: "(uint64 \<times> status) list"
  checksum :: bool
  buffer :: bytes
  r_eof :: bool
  last_record_offset :: uint64
  end_of_buffer_offset :: uint64
  initial_offset :: uint64

definition kEof :: uint32 where "kEof = kMaxRecordType + 1"
definition kBadRecord :: uint32 where "kBadRecord = kMaxRecordType + 2"

definition Reader_init :: "'f \<Rightarrow> bool \<Rightarrow> bool \<Rightarrow> uint64 \<Rightarrow> 'f log_reader" where
  "Reader_init f reporter chk offset =
     \<lparr>r_file = f, has_reporter = reporter, reports = [], checksum = chk, buffer = [], r_eof = False,
      last_record_offset = 0, end_of_buffer_offset = 0, initial_offset = offset\<rparr>"

abbreviation buffer_size :: "'f log_reader \<Rightarrow> uint64" where
  "buffer_size r \<equiv> of_nat (length (buffer r))"

definition ReportDrop :: "'f log_reader \<Rightarrow> uint64 \<Rightarrow> status \<Rightarrow> 'f log_reader" where
  "ReportDrop r n reason =
     (if has_reporter r \<and> end_of_buffer_offset r - buffer_size r - n \<ge> initial_offset r
      then r\<lparr>reports := reports r @ [(n, reason)]\<rparr> else r)"

definition ReportCorruption :: "'f log_reader \<Rightarrow> uint64 \<Rightarrow> string \<Rightarrow> 'f log_reader" where
  "ReportCorruption r n reason = ReportDrop r n (Corruption reason)"

definition SkipToInitialBlock :: "('f \<Rightarrow> nat \<Rightarrow> status \<times> 'f) \<Rightarrow> 'f log_reader \<Rightarrow> bool \<times> 'f log_reader" where
  "SkipToInitialBlock fskip r =
     (let offset_in_block = initial_offset r mod of_nat log_kBlockSize;
          block_start_location = initial_offset r - offset_in_block;
          block_start_location = (if offset_in_block > of_nat log_kBlockSize - 6
                                  then block_start_location + of_nat log_kBlockSize else block_start_location);
          r = r\<lparr>end_of_buffer_offset := block_start_location\<rparr>
      in if block_start_location > 0
         then let (skip_status, f) = fskip (r_file r) (unat block_start_location);
                  r = r\<lparr>r_file := f\<rparr>
              in if \<not> ok skip_status then (False, ReportDrop r block_start_location skip_status)
                 else (True, r)
         else (True, r))"

section \<open>Physical records\<close>

text \<open>
  One read of a block: the branch of \<open>ReadPhysicalRecord\<close> for a buffer that is too short for a
  header, before the end of the file. \<open>Inl\<close> is its early return.
\<close>

definition ReadBlockIntoBuffer ::
  "('f \<Rightarrow> nat \<Rightarrow> status \<times> bytes \<times> 'f) \<Rightarrow> 'f log_reader \<Rightarrow> 'f log_reader + 'f log_reader" where
  "ReadBlockIntoBuffer fread r =
     (case fread (r_file r) log_kBlockSize of
        (status, buf, f) \<Rightarrow>
          let r = r\<lparr>r_file := f, buffer := buf\<rparr>;
              r = r\<lparr>end_of_buffer_offset := end_of_buffer_offset r + buffer_size r\<rparr>
          in if \<not> ok status
             then Inl ((ReportDrop (r\<lparr>buffer := []\<rparr>) (of_nat log_kBlockSize) status)\<lparr>r_eof := True\<rparr>)
             else if length (buffer r) < log_kBlockSize then Inr (r\<lparr>r_eof := True\<rparr>)
             else Inr r)"

text \<open>The rest of the loop body: parse and check one record of the buffer.\<close>

definition ParsePhysicalRecord :: "'f log_reader \<Rightarrow> bytes \<Rightarrow> uint32 \<times> bytes \<times> 'f log_reader" where
  "ParsePhysicalRecord r result =
     (let header = buffer r;
          a = (ucast (header ! 4) :: uint32) AND 0xff;
          b = (ucast (header ! 5) :: uint32) AND 0xff;
          t = (ucast (header ! 6) :: uint32);
          len = unat (a OR push_bit 8 b)
      in if kHeaderSize + len > length (buffer r)
         then let drop_size = buffer_size r; r = r\<lparr>buffer := []\<rparr>
              in if \<not> r_eof r then (kBadRecord, result, ReportCorruption r drop_size ''bad record length'')
                 else (kEof, result, r)
         else if t = kZeroType \<and> len = 0 then (kBadRecord, result, r\<lparr>buffer := []\<rparr>)
         else if checksum r \<and>
                 crc_Value (take (1 + len) (drop 6 header)) \<noteq> Unmask (DecodeFixed32 header)
         then let drop_size = buffer_size r; r = r\<lparr>buffer := []\<rparr>
              in (kBadRecord, result, ReportCorruption r drop_size ''checksum mismatch'')
         else let r = r\<lparr>buffer := remove_prefix (kHeaderSize + len) (buffer r)\<rparr>
              in if end_of_buffer_offset r - buffer_size r - of_nat kHeaderSize - of_nat len < initial_offset r
                 then (kBadRecord, [], r)
                 else (t, take len (drop kHeaderSize header), r))"

function ReadPhysicalRecord ::
  "('f \<Rightarrow> nat \<Rightarrow> status \<times> bytes \<times> 'f) \<Rightarrow> 'f log_reader \<Rightarrow> bytes \<Rightarrow> uint32 \<times> bytes \<times> 'f log_reader" where
  "ReadPhysicalRecord fread r result =
     (if length (buffer r) < kHeaderSize
      then if \<not> r_eof r
           then (case ReadBlockIntoBuffer fread r of
                   Inl r \<Rightarrow> (kEof, result, r)
                 | Inr r \<Rightarrow> ReadPhysicalRecord fread r result)
           else (kEof, result, r\<lparr>buffer := []\<rparr>)
      else ParsePhysicalRecord r result)"
  by pat_completeness auto
termination
  by (relation "measure (\<lambda>(_, r, _). if r_eof r \<or> kHeaderSize \<le> length (buffer r) then 0 else 1)")
    (auto simp: ReadBlockIntoBuffer_def Let_def log_size_defs split: prod.splits if_splits)

declare ReadPhysicalRecord.simps [simp del]

section \<open>Logical records\<close>

text \<open>
  The loop returns its result with \<open>*record\<close>; it need not end on a file that never does, so it
  is partial. \<open>frag\<close> is \<open>in_fragmented_record\<close>, \<open>pro\<close> is \<open>prospective_record_offset\<close>.
\<close>

partial_function (option) ReadRecord_loop ::
  "('f \<Rightarrow> nat \<Rightarrow> status \<times> bytes \<times> 'f) \<Rightarrow> 'f log_reader \<Rightarrow> bool \<Rightarrow> bytes \<Rightarrow> uint64 \<Rightarrow> bytes
     \<Rightarrow> (bool \<times> bytes \<times> 'f log_reader) option" where
  "ReadRecord_loop fread r frag scratch pro fragment =
     (let physical_record_offset = end_of_buffer_offset r - buffer_size r in
      case ReadPhysicalRecord fread r fragment of
        (record_type, fragment, r) \<Rightarrow>
          if record_type = kFullType then
            (let r = (if frag \<and> scratch \<noteq> []
                      then ReportCorruption r (of_nat (length scratch)) ''partial record without end(1)'' else r);
                 pro = physical_record_offset
             in Some (True, fragment, r\<lparr>last_record_offset := pro\<rparr>))
          else if record_type = kFirstType then
            (let r = (if frag \<and> scratch \<noteq> []
                      then ReportCorruption r (of_nat (length scratch)) ''partial record without end(2)'' else r)
             in ReadRecord_loop fread r True fragment physical_record_offset fragment)
          else if record_type = kMiddleType then
            (if \<not> frag
             then ReadRecord_loop fread
                    (ReportCorruption r (of_nat (length fragment)) ''missing start of fragmented record(1)'')
                    frag scratch pro fragment
             else ReadRecord_loop fread r frag (scratch @ fragment) pro fragment)
          else if record_type = kLastType then
            (if \<not> frag
             then ReadRecord_loop fread
                    (ReportCorruption r (of_nat (length fragment)) ''missing start of fragmented record(2)'')
                    frag scratch pro fragment
             else Some (True, scratch @ fragment, r\<lparr>last_record_offset := pro\<rparr>))
          else if record_type = kEof then Some (False, [], r)
          else if record_type = kBadRecord then
            (if frag
             then ReadRecord_loop fread
                    (ReportCorruption r (of_nat (length scratch)) ''error in middle of record'')
                    False [] pro fragment
             else ReadRecord_loop fread r frag scratch pro fragment)
          else
            ReadRecord_loop fread
              (ReportCorruption r (of_nat (length fragment + (if frag then length scratch else 0)))
                 (''unknown record type '' @ decimal (unat record_type)))
              False [] pro fragment)"

definition ReadRecord ::
  "('f \<Rightarrow> nat \<Rightarrow> status \<times> bytes \<times> 'f) \<Rightarrow> ('f \<Rightarrow> nat \<Rightarrow> status \<times> 'f) \<Rightarrow> 'f log_reader
     \<Rightarrow> (bool \<times> bytes \<times> 'f log_reader) option" where
  "ReadRecord fread fskip r =
     (if last_record_offset r < initial_offset r
      then (case SkipToInitialBlock fskip r of
              (False, r) \<Rightarrow> Some (False, [], r)
            | (True, r) \<Rightarrow> ReadRecord_loop fread r False [] 0 [])
      else ReadRecord_loop fread r False [] 0 [])"

text \<open>The loop of the clients: read records until there are no more.\<close>

partial_function (option) ReadAll ::
  "('f \<Rightarrow> nat \<Rightarrow> status \<times> bytes \<times> 'f) \<Rightarrow> ('f \<Rightarrow> nat \<Rightarrow> status \<times> 'f) \<Rightarrow> 'f log_reader \<Rightarrow> bytes list
     \<Rightarrow> (bytes list \<times> 'f log_reader) option" where
  "ReadAll fread fskip r records =
     (case ReadRecord fread fskip r of
        None \<Rightarrow> None
      | Some (found, rec, r) \<Rightarrow>
          if found then ReadAll fread fskip r (records @ [rec]) else Some (records, r))"


section \<open>Parsing a physical record\<close>

abbreviation valid_type :: "uint32 \<Rightarrow> bool" where
  "valid_type t \<equiv> t \<in> {kFullType, kFirstType, kMiddleType, kLastType}"

lemma header_length:
  assumes "7 \<le> n" "length d < 65536" and h: "h = take n (physical t d @ rest)"
  shows "unat (((ucast (h ! 4) :: uint32) AND 0xff) OR push_bit 8 ((ucast (h ! 5) :: uint32) AND 0xff)) = length d"
proof -
  obtain w x y z where e: "EncodeFixed32 (Mask (crc_Value (ucast t # d))) = [w, x, y, z]"
    by (simp add: EncodeFixed32_def)
  have h4: "h ! 4 = of_nat (length d mod 256)" and h5: "h ! 5 = of_nat (length d div 256)"
    using assms(1) by (simp_all add: h physical_def e nth_append)
  have b: "length d div 256 < 256" using assms(2) by (simp add: less_mult_imp_div_less)
  have a: "(ucast (h ! 4) :: uint32) AND 0xff = of_nat (length d mod 256)"
    by (simp add: h4 ucast_of_nat_byte and_255_take_bit take_bit_of_nat) (simp add: take_bit_eq_mod)
  have "(ucast (h ! 5) :: uint32) AND 0xff = of_nat (length d div 256)"
    using b by (simp add: h5 ucast_of_nat_byte and_255_take_bit take_bit_of_nat) (simp add: take_bit_eq_mod)
  then have "((ucast (h ! 4) :: uint32) AND 0xff) OR push_bit 8 ((ucast (h ! 5) :: uint32) AND 0xff)
      = of_nat (unat (of_nat (length d mod 256) :: uint32) + length d div 256 * 2 ^ 8)"
    by (simp only: a) (rule or_push_bit_of_nat, simp add: unat_of_nat)
  also have "unat (of_nat (length d mod 256) :: uint32) = length d mod 256"
    by (simp add: unat_of_nat)
  also have "length d mod 256 + length d div 256 * 2 ^ 8 = length d" by simp
  finally show ?thesis using assms(2) by (simp add: unat_of_nat)
qed

lemma record_types_distinct:
  "kFullType \<noteq> kFirstType" "kFullType \<noteq> kMiddleType" "kFullType \<noteq> kLastType" "kFirstType \<noteq> kMiddleType"
  "kFirstType \<noteq> kLastType" "kMiddleType \<noteq> kLastType" "kEof \<noteq> kFullType" "kEof \<noteq> kFirstType"
  "kEof \<noteq> kMiddleType" "kEof \<noteq> kLastType"
  by (simp_all add: record_type_defs kEof_def)

lemmas record_types_ne = record_types_distinct record_types_distinct [symmetric]

lemma valid_type_byte: "valid_type t \<Longrightarrow> (ucast (ucast t :: byte) :: uint32) = t \<and> t \<noteq> kZeroType"
  by (auto simp: record_type_defs)

lemma Parse_complete:
  assumes t: "(ucast (ucast t :: byte) :: uint32) = t \<and> t \<noteq> kZeroType"
    and len: "length d < 65536" and buf: "buffer r = physical t d @ tail"
    and init: "initial_offset r = 0"
  shows "ParsePhysicalRecord r result = (t, d, r\<lparr>buffer := tail\<rparr>)"
proof -
  obtain w x y z where e: "EncodeFixed32 (Mask (crc_Value (ucast t # d))) = [w, x, y, z]"
    by (simp add: EncodeFixed32_def)
  let ?h = "buffer r"
  have l: "unat (((ucast (?h ! 4) :: uint32) AND 0xff) OR push_bit 8 ((ucast (?h ! 5) :: uint32) AND 0xff)) = length d"
    by (rule header_length [where n = "length ?h" and rest = tail]) (simp_all add: len buf)
  have h6: "(ucast (?h ! 6) :: uint32) = t"
    using t by (simp add: buf physical_def e nth_append)
  have crc: "crc_Value (take (1 + length d) (drop 6 ?h)) = Unmask (DecodeFixed32 ?h)"
  proof -
    have "DecodeFixed32 ?h = Mask (crc_Value (ucast t # d))"
      by (simp add: buf physical_def)
    moreover have "take (1 + length d) (drop 6 ?h) = ucast t # d"
      by (simp add: buf physical_def e)
    ultimately show ?thesis by simp
  qed
  have "drop (kHeaderSize + length d) ?h = tail"
    by (simp add: buf kHeaderSize_def)
  moreover have "take (length d) (drop kHeaderSize ?h) = d"
    by (simp add: buf physical_def kHeaderSize_def)
  ultimately show ?thesis
    unfolding ParsePhysicalRecord_def Let_def l h6 crc
    using t by (simp add: init remove_prefix_def) (simp add: buf kHeaderSize_def)
qed

lemma Parse_truncated:
  assumes len: "length d < 65536" and buf: "buffer r = take n (physical t d @ rest)"
    and n: "7 \<le> n" "n < 7 + length d" and eof: "r_eof r"
  shows "ParsePhysicalRecord r result = (kEof, result, r\<lparr>buffer := []\<rparr>)"
proof -
  have "length (buffer r) < kHeaderSize + length d"
    using n(2) by (simp add: buf kHeaderSize_def)
  then show ?thesis
    unfolding ParsePhysicalRecord_def Let_def header_length [OF n(1) len buf] using eof by simp
qed

section \<open>What the reader has left to read\<close>

text \<open>The records that lie completely in the first \<open>n\<close> bytes of a layout.\<close>

fun complete :: "nat \<Rightarrow> nat \<Rightarrow> fragment list \<Rightarrow> fragment list" where
  "complete n off [] = []"
| "complete n off ((t, d) # frs) =
     (let m = block_pad off + 7 + length d
      in if n < m then [] else (t, d) # complete (n - m) (block_start off + 7 + length d) frs)"

lemma prefix_complete: "prefix (complete n off frs) frs"
  by (induction n off frs rule: complete.induct) (simp_all add: Let_def)

lemma length_layout_Cons:
  "length (layout off ((t, d) # frs)) = block_pad off + 7 + length d + length (layout (block_start off + 7 + length d) frs)"
  by simp

lemma complete_all: "length (layout off a) \<le> n \<Longrightarrow> prefix a (complete n off (a @ b))"
proof (induction n off a rule: complete.induct)
  case (1 n off)
  then show ?case by simp
next
  case (2 n off t d frs)
  then show ?case by (auto simp: Let_def)
qed

context sequential_file
begin

definition reader_at :: "'f log_reader \<Rightarrow> nat \<Rightarrow> bytes \<Rightarrow> bool" where
  "reader_at r off rem \<longleftrightarrow>
     good (r_file r) \<and> off \<le> log_kBlockSize \<and> buffer r = take (log_kBlockSize - off) rem
     \<and> rest (r_file r) = drop (log_kBlockSize - off) rem
     \<and> (r_eof r \<longleftrightarrow> off + length rem < log_kBlockSize) \<and> initial_offset r = 0"

definition reader_rep :: "'f log_reader \<Rightarrow> fragment list \<Rightarrow> bool" where
  "reader_rep r frs \<longleftrightarrow>
     (\<exists>n off full. layout_ok off full \<and> reader_at r off (take n (layout off full)) \<and> frs = complete n off full)
     \<or> r_eof r \<and> buffer r = [] \<and> frs = [] \<and> initial_offset r = 0"

lemma ReadPhysicalRecord_load:
  assumes at: "reader_at r off rem" and short: "length (buffer r) < kHeaderSize" and "\<not> r_eof r"
  shows "\<exists>r'. ReadPhysicalRecord read r result = ReadPhysicalRecord read r' result
     \<and> reader_at r' 0 (drop (log_kBlockSize - off) rem) \<and> reports r' = reports r"
proof -
  obtain s data f where f: "read (r_file r) log_kBlockSize = (s, data, f)" by (metis surj_pair)
  have good: "good (r_file r)" using at by (simp add: reader_at_def)
  note f' = read_ok [OF good f]
  define r1 where "r1 = r\<lparr>r_file := f, buffer := data,
      end_of_buffer_offset := end_of_buffer_offset r + of_nat (length data)\<rparr>"
  define r2 where "r2 = (if length data < log_kBlockSize then r1\<lparr>r_eof := True\<rparr> else r1)"
  have "ReadBlockIntoBuffer read r = Inr r2"
    using f' by (simp add: ReadBlockIntoBuffer_def f r2_def r1_def Let_def)
  then have "ReadPhysicalRecord read r result = ReadPhysicalRecord read r2 result"
    using assms(2,3) by (subst ReadPhysicalRecord.simps) simp
  moreover have "reader_at r2 0 (drop (log_kBlockSize - off) rem)" "reports r2 = reports r"
    using at f' assms(3) by (auto simp: reader_at_def r2_def r1_def)
  ultimately show ?thesis by blast
qed

text \<open>Reading where the next record can start in the current block.\<close>

lemma ReadPhysicalRecord_here:
  assumes at: "reader_at r off (take n (layout off full))" and ok: "layout_ok off full"
    and room: "kHeaderSize \<le> log_kBlockSize - off"
  shows "\<exists>r'. reports r' = reports r \<and>
    (case complete n off full of
       [] \<Rightarrow> ReadPhysicalRecord read r result = (kEof, result, r') \<and> reader_rep r' []
     | (t, d) # frs \<Rightarrow> ReadPhysicalRecord read r result = (t, d, r') \<and> reader_rep r' frs)"
proof (cases full)
  case Nil
  then have "r_eof r" "buffer r = []"
    using at room by (auto simp: reader_at_def log_size_defs)
  then have "ReadPhysicalRecord read r result = (kEof, result, r)"
    by (subst ReadPhysicalRecord.simps) (simp add: kHeaderSize_def)
  then show ?thesis
    using Nil \<open>r_eof r\<close> \<open>buffer r = []\<close> at
    by (intro exI [of _ r]) (simp add: reader_rep_def reader_at_def)
next
  case (Cons fr frs)
  obtain t d where fr: "fr = (t, d)" by (cases fr)
  have start: "block_start off = off" "block_pad off = 0"
    using room by (simp_all add: block_start_def block_pad_def)
  have t: "valid_type t" and fits: "off + 7 + length d \<le> log_kBlockSize"
    and ok': "layout_ok (off + 7 + length d) frs"
    using ok Cons fr start by auto
  have len: "length d < 65536" using fits by (simp add: log_kBlockSize_def)
  let ?L = "layout (off + 7 + length d) frs"
  have lay: "layout off full = physical t d @ ?L" by (simp add: Cons fr start)
  show ?thesis
  proof (cases "n < 7 + length d")
    case True
    have lenrem: "length (take n (physical t d @ ?L)) = n" using True by simp
    then have eof: "r_eof r" and buf: "buffer r = take n (physical t d @ ?L)"
      using at fits True by (auto simp: reader_at_def lay)
    have "ReadPhysicalRecord read r result = (kEof, result, r\<lparr>buffer := []\<rparr>)"
    proof (cases "n < 7")
      case True
      then show ?thesis using eof buf by (subst ReadPhysicalRecord.simps) (simp add: kHeaderSize_def)
    next
      case False
      then show ?thesis
        using Parse_truncated [OF len buf _ True eof] buf True
        by (subst ReadPhysicalRecord.simps) (simp add: kHeaderSize_def)
    qed
    moreover have "complete n off full = []" using True by (simp add: Cons fr start)
    moreover have "reader_rep (r\<lparr>buffer := []\<rparr>) []" using eof at by (simp add: reader_rep_def reader_at_def)
    ultimately show ?thesis by (intro exI [of _ "r\<lparr>buffer := []\<rparr>"]) simp
  next
    case False
    let ?m = "7 + length d" and ?off = "off + 7 + length d"
    have rem: "take n (layout off full) = physical t d @ take (n - ?m) ?L"
      using False by (simp add: lay)
    have d: "log_kBlockSize - off = ?m + (log_kBlockSize - ?off)" using fits by simp
    have buf: "buffer r = physical t d @ take (log_kBlockSize - ?off) (take (n - ?m) ?L)"
      using at unfolding reader_at_def rem d by simp
    let ?r = "r\<lparr>buffer := take (log_kBlockSize - ?off) (take (n - ?m) ?L)\<rparr>"
    have init: "initial_offset r = 0" using at by (simp add: reader_at_def)
    have "ReadPhysicalRecord read r result = (t, d, ?r)"
      using Parse_complete [OF valid_type_byte [OF t] len buf init] buf
      by (subst ReadPhysicalRecord.simps) (simp add: kHeaderSize_def)
    moreover have "reader_at ?r ?off (take (n - ?m) ?L)"
      using at fits unfolding reader_at_def rem d by (auto simp: lay add.assoc)
    moreover have "complete n off full = (t, d) # complete (n - ?m) ?off frs"
      using False by (simp add: Cons fr start Let_def)
    ultimately show ?thesis
      using ok' by (intro exI [of _ ?r]) (auto simp: reader_rep_def)
  qed
qed

lemma ReadPhysicalRecord_correct:
  assumes rep: "reader_rep r frs"
  shows "\<exists>r'. reports r' = reports r \<and>
    (case frs of
       [] \<Rightarrow> ReadPhysicalRecord read r result = (kEof, result, r') \<and> reader_rep r' []
     | (t, d) # frs \<Rightarrow> ReadPhysicalRecord read r result = (t, d, r') \<and> reader_rep r' frs)"
proof (cases "r_eof r \<and> buffer r = [] \<and> frs = [] \<and> initial_offset r = 0")
  case True
  then have "ReadPhysicalRecord read r result = (kEof, result, r)"
    by (subst ReadPhysicalRecord.simps) (simp add: kHeaderSize_def)
  with True rep show ?thesis by (intro exI [of _ r]) simp
next
  case False
  then obtain n off full where ok: "layout_ok off full"
    and at: "reader_at r off (take n (layout off full))" and frs: "frs = complete n off full"
    using rep by (auto simp: reader_rep_def)
  show ?thesis
  proof (cases "kHeaderSize \<le> log_kBlockSize - off")
    case True
    then show ?thesis using ReadPhysicalRecord_here [OF at ok] by (simp add: frs)
  next
    case small: False
    then have start: "block_start off = 0" "block_pad off = log_kBlockSize - off"
      by (simp_all add: block_start_def block_pad_def)
    have short: "length (buffer r) < kHeaderSize" using at small by (simp add: reader_at_def)
    show ?thesis
    proof (cases "r_eof r")
      case True
      then have "ReadPhysicalRecord read r result = (kEof, result, r\<lparr>buffer := []\<rparr>)"
        using short by (subst ReadPhysicalRecord.simps) simp
      moreover have "frs = []"
        using at True by (cases full) (auto simp: frs reader_at_def start Let_def)
      moreover have "reader_rep (r\<lparr>buffer := []\<rparr>) []"
        using True at by (simp add: reader_rep_def reader_at_def)
      ultimately show ?thesis by (intro exI [of _ "r\<lparr>buffer := []\<rparr>"]) simp
    next
      case noeof: False
      obtain r1 where r1: "ReadPhysicalRecord read r result = ReadPhysicalRecord read r1 result"
        "reader_at r1 0 (drop (log_kBlockSize - off) (take n (layout off full)))" "reports r1 = reports r"
        using ReadPhysicalRecord_load [OF at short noeof] by blast
      have z: "block_start 0 = 0" "block_pad 0 = 0"
        by (simp_all add: block_start_def block_pad_def log_size_defs)
      have lay: "drop (log_kBlockSize - off) (take n (layout off full)) = take (n - (log_kBlockSize - off)) (layout 0 full)"
        by (cases full) (auto simp: start z drop_take)
      have ok0: "layout_ok 0 full" using ok by (cases full) (auto simp: start z)
      have "complete n off full = complete (n - (log_kBlockSize - off)) 0 full"
      proof (cases full)
        case (Cons fr frs)
        have "n - (log_kBlockSize - off) < 7 + l \<longleftrightarrow> n < log_kBlockSize - off + (7 + l)" for l
          by linarith
        then show ?thesis
          by (cases fr) (simp add: Cons start z Let_def add.assoc)
      qed simp
      then show ?thesis
        unfolding frs r1(1) r1(3) [symmetric]
        using ReadPhysicalRecord_here [OF r1(2) [unfolded lay] ok0, of result] by (simp add: log_size_defs)
    qed
  qed
qed

section \<open>Reading logical records\<close>

lemma reader_rep_last_record_offset [simp]:
  "reader_rep (r\<lparr>last_record_offset := x\<rparr>) frs \<longleftrightarrow> reader_rep r frs"
  by (simp add: reader_rep_def reader_at_def)

text \<open>A complete logical record is returned, one that is cut short ends the file.\<close>

lemma ReadRecord_loop_record:
  "fragments_of b frs \<Longrightarrow> reader_rep r (frs @ tl1) \<Longrightarrow>
   \<exists>r'. ReadRecord_loop read r (\<not> b) scratch pro fragment
     = Some (True, (if b then payload frs else scratch @ payload frs), r')
     \<and> reports r' = reports r \<and> reader_rep r' tl1"
proof (induction b frs arbitrary: r scratch pro fragment rule: fragments_of.induct)
  case (1 b)
  then show ?case by simp
next
  case (2 b t d)
  from ReadPhysicalRecord_correct [OF "2.prems"(2), of fragment] obtain r1 where
    r1: "reports r1 = reports r" "ReadPhysicalRecord read r fragment = (t, d, r1)" "reader_rep r1 tl1"
    by auto
  show ?case
    using "2.prems"(1) r1
    by (subst ReadRecord_loop.simps) (cases b; simp add: Let_def record_types_ne)
next
  case (3 b t d fr frs)
  from ReadPhysicalRecord_correct [OF "3.prems"(2), of fragment] obtain r1 where
    r1: "reports r1 = reports r" "ReadPhysicalRecord read r fragment = (t, d, r1)"
      "reader_rep r1 ((fr # frs) @ tl1)" by auto
  have f: "fragments_of False (fr # frs)" using "3.prems"(1) by simp
  have t: "t = (if b then kFirstType else kMiddleType)" using "3.prems"(1) by simp
  note IH = "3.IH" [OF f r1(3)]
  show ?case
  proof (cases b)
    case True
    then show ?thesis
      using IH [of d "end_of_buffer_offset r - buffer_size r" d] r1(1,2) t
      by (subst ReadRecord_loop.simps) (simp add: Let_def record_types_ne)
  next
    case False
    then show ?thesis
      using IH [of "scratch @ d" pro d] r1(1,2) t
      by (subst ReadRecord_loop.simps) (simp add: Let_def record_types_ne)
  qed
qed

lemma ReadRecord_loop_cut:
  "fragments_of b (frs @ tl1) \<Longrightarrow> tl1 \<noteq> [] \<Longrightarrow> reader_rep r frs \<Longrightarrow>
   \<exists>r'. ReadRecord_loop read r (\<not> b) scratch pro fragment = Some (False, [], r')
     \<and> reports r' = reports r \<and> reader_rep r' []"
proof (induction frs arbitrary: b r scratch pro fragment)
  case Nil
  from ReadPhysicalRecord_correct [OF Nil.prems(3), of fragment] obtain r1 where
    r1: "reports r1 = reports r" "ReadPhysicalRecord read r fragment = (kEof, fragment, r1)" "reader_rep r1 []"
    by auto
  then show ?case
    by (subst ReadRecord_loop.simps) (simp add: Let_def record_types_ne)
next
  case (Cons fr frs)
  obtain t d where fr: "fr = (t, d)" by (cases fr)
  obtain x xs where x: "frs @ tl1 = x # xs" using Cons.prems(2) by (cases "frs @ tl1") auto
  from ReadPhysicalRecord_correct [OF Cons.prems(3), of fragment] obtain r1 where
    r1: "reports r1 = reports r" "ReadPhysicalRecord read r fragment = (t, d, r1)" "reader_rep r1 frs"
    by (auto simp: fr)
  have f: "fragments_of False (frs @ tl1)" and t: "t = (if b then kFirstType else kMiddleType)"
    using Cons.prems(1) by (simp_all add: fr x)
  note IH = Cons.IH [OF f Cons.prems(2) r1(3)]
  show ?case
  proof (cases b)
    case True
    then show ?thesis
      using IH [of d "end_of_buffer_offset r - buffer_size r" d] r1(1,2) t
      by (subst ReadRecord_loop.simps) (simp add: Let_def record_types_ne)
  next
    case False
    then show ?thesis
      using IH [of "scratch @ d" pro d] r1(1,2) t
      by (subst ReadRecord_loop.simps) (simp add: Let_def record_types_ne)
  qed
qed

lemma ReadRecord_end:
  "reader_rep r [] \<Longrightarrow> \<exists>r'. ReadRecord_loop read r False scratch pro fragment = Some (False, [], r')
     \<and> reports r' = reports r \<and> reader_rep r' []"
  using ReadRecord_loop_cut [of True "[]" "[(kFullType, [])]" r scratch pro fragment] by simp

lemma ReadRecord_eq: "reader_rep r frs \<Longrightarrow> ReadRecord read skip r = ReadRecord_loop read r False [] 0 []"
  by (auto simp: ReadRecord_def reader_rep_def reader_at_def)

text \<open>
  Reading everything that is left, when what is left is some of the fragments of \<open>records\<close>: the
  records whose fragments are all there are returned, nothing is reported.
\<close>

lemma ReadAll_correct:
  assumes "list_all2 (\<lambda>frs data. fragments_of True frs \<and> payload frs = data) frss records"
    and "prefix frs (concat frss)" and "reader_rep r frs"
  shows "\<exists>k r'. ReadAll read skip r acc = Some (acc @ take k records, r') \<and> k \<le> length records
     \<and> reports r' = reports r
     \<and> (\<forall>j \<le> length records. prefix (concat (take j frss)) frs \<longrightarrow> j \<le> k)"
  using assms
proof (induction frss records arbitrary: frs r acc rule: list_all2_induct)
  case Nil
  then show ?case
    using ReadRecord_end [of r "[]" 0 "[]"]
    by (subst ReadAll.simps) (auto simp: ReadRecord_eq)
next
  case (Cons fr frss data records)
  have fr: "fragments_of True fr" "payload fr = data" using Cons.hyps by simp_all
  show ?case
  proof (cases "prefix fr frs")
    case True
    then obtain tl1 where tl1: "frs = fr @ tl1" by (auto simp: prefix_def)
    then have pre: "prefix tl1 (concat frss)" using Cons.prems(1) by simp
    from ReadRecord_loop_record [OF fr(1), of r tl1 "[]" 0 "[]"] Cons.prems(2) tl1 obtain r1 where
      r1: "ReadRecord_loop read r False [] 0 [] = Some (True, data, r1)" "reports r1 = reports r" "reader_rep r1 tl1"
      by (auto simp: fr(2))
    from Cons.IH [OF pre r1(3), of "acc @ [data]"] obtain k r' where
      k: "ReadAll read skip r1 (acc @ [data]) = Some ((acc @ [data]) @ take k records, r')" "k \<le> length records"
        "reports r' = reports r1" "\<forall>j \<le> length records. prefix (concat (take j frss)) tl1 \<longrightarrow> j \<le> k" by blast
    have "j \<le> Suc k" if "j \<le> length (data # records)" "prefix (concat (take j (fr # frss))) frs" for j
      using that k(4) tl1 by (cases j) auto
    then show ?thesis
      using k r1 Cons.prems(2)
      by (intro exI [of _ "Suc k"] exI [of _ r'], subst ReadAll.simps) (simp add: ReadRecord_eq)
  next
    case False
    then obtain rest' where rest': "fr = frs @ rest'" "rest' \<noteq> []"
      using Cons.prems(1) by (auto simp: prefix_append) (auto simp: prefix_def)
    from ReadRecord_loop_cut [of True frs rest' r "[]" 0 "[]"] fr(1) rest' Cons.prems(2) obtain r' where
      r': "ReadRecord_loop read r False [] 0 [] = Some (False, [], r')" "reports r' = reports r" by auto
    have "j = 0" if "j \<le> length (data # records)" "prefix (concat (take j (fr # frss))) frs" for j
      using that False by (cases j) (auto dest: append_prefixD)
    then show ?thesis
      using r' Cons.prems(2)
      by (intro exI [of _ 0] exI [of _ r'], subst ReadAll.simps) (auto simp: ReadRecord_eq)
  qed
qed

text \<open>A new reader of a file that holds the first \<open>n\<close> bytes of a layout.\<close>

lemma reader_rep_init:
  assumes "good f" "rest f = take n (layout 0 full)" "layout_ok 0 full"
  shows "reader_rep (Reader_init f rep chk 0) (complete n 0 full)"
proof -
  have s: "block_start log_kBlockSize = 0" "block_pad log_kBlockSize = 0" "block_start 0 = 0" "block_pad 0 = 0"
    by (simp_all add: block_start_def block_pad_def log_size_defs)
  have lay: "layout log_kBlockSize full = layout 0 full" by (cases full rule: list.exhaust) (auto simp: s)
  have com: "complete n log_kBlockSize full = complete n 0 full" by (cases full) (auto simp: s Let_def)
  have ok: "layout_ok log_kBlockSize full" using assms(3) by (cases full) (auto simp: s)
  have at: "reader_at (Reader_init f rep chk 0) log_kBlockSize (take n (layout log_kBlockSize full))"
    using assms(1,2) by (simp add: reader_at_def Reader_init_def lay)
  show ?thesis
    unfolding reader_rep_def com [symmetric] using ok at by blast
qed

end


section \<open>Properties\<close>

text \<open>Writing a list of records to an in-memory file, one \<open>AddRecord\<close> after the other.\<close>

definition write_log :: "bytes list \<Rightarrow> status \<times> file_state log_writer" where
  "write_log records =
     foldl (\<lambda>(s, w) data. AddRecord WritableFile_Append WritableFile_Flush w data)
       (OK, Writer_init FileState_init) records"

text \<open>Reading a log from a file that holds a byte string.\<close>

definition read_log :: "bool \<Rightarrow> bytes \<Rightarrow> (bytes list \<times> seq_file log_reader) option" where
  "read_log chk data =
     ReadAll SequentialFile_Read SequentialFile_Skip
       (Reader_init (SequentialFile_init (snd (FileState_Append FileState_init data))) True chk 0) []"

lemma write_log_correct:
  "\<exists>w frss. write_log records = (OK, w) \<and> writer_ok fs_inv w
     \<and> fs_contents (dest w) = layout 0 (concat frss) \<and> block_offset w = layout_end 0 (concat frss)
     \<and> layout_ok 0 (concat frss)
     \<and> list_all2 (\<lambda>frs data. fragments_of True frs \<and> payload frs = data) frss records"
  using mem_writable.AddRecords_correct [OF writer_ok_init [of fs_inv FileState_init], of records]
  by (simp add: write_log_def Writer_init_def)

lemma sf_good_init: "fs_inv f \<Longrightarrow> sf_good (SequentialFile_init f) \<and> sf_rest (SequentialFile_init f) = fs_contents f"
  by (simp add: sf_good_def sf_rest_def SequentialFile_init_def)

lemma read_log_correct:
  assumes "layout_ok 0 (concat frss)"
    and "list_all2 (\<lambda>frs data. fragments_of True frs \<and> payload frs = data) frss records"
  shows "\<exists>k r. read_log chk (take n (layout 0 (concat frss))) = Some (take k records, r) \<and> k \<le> length records
     \<and> reports r = []
     \<and> (\<forall>j \<le> length records. length (layout 0 (concat (take j frss))) \<le> n \<longrightarrow> j \<le> k)"
proof -
  let ?f = "snd (FileState_Append FileState_init (take n (layout 0 (concat frss))))"
  have f: "fs_inv ?f" "fs_contents ?f = take n (layout 0 (concat frss))"
    using FileState_Append_loop_correct [OF fs_inv_init] by (simp_all add: FileState_Append_def)
  have rep: "mem_sequential.reader_rep (Reader_init (SequentialFile_init ?f) True chk 0) (complete n 0 (concat frss))"
    using sf_good_init [OF f(1)] f(2) assms(1) by (intro mem_sequential.reader_rep_init) simp_all
  have "prefix (concat (take j frss)) (complete n 0 (concat frss))"
    if "length (layout 0 (concat (take j frss))) \<le> n" for j
    using complete_all [OF that, of "concat (drop j frss)"] by (simp flip: concat_append)
  with mem_sequential.ReadAll_correct [OF assms(2) prefix_complete rep, of "[]"]
  show ?thesis by (fastforce simp: read_log_def Reader_init_def)
qed

text \<open>
  C11. What is written to a log is read back: for every list of records, of any lengths, however
  they are fragmented over blocks, every \<open>AddRecord\<close> succeeds, and a reader of the file, with or
  without checksum verification, terminates, returns exactly those records in order, and reports
  no corruption.
\<close>

theorem Log_read_back:
  "\<exists>w r. write_log records = (OK, w) \<and> read_log chk (fs_contents (dest w)) = Some (records, r) \<and> reports r = []"
proof -
  obtain w frss where w: "write_log records = (OK, w)" "fs_contents (dest w) = layout 0 (concat frss)"
    "layout_ok 0 (concat frss)" "list_all2 (\<lambda>frs data. fragments_of True frs \<and> payload frs = data) frss records"
    using write_log_correct by blast
  have len: "length frss = length records" using w(4) by (rule list_all2_lengthD)
  from read_log_correct [OF w(3,4), of chk "length (layout 0 (concat frss))"] obtain k r where
    k: "read_log chk (layout 0 (concat frss)) = Some (take k records, r)" "k \<le> length records" "reports r = []"
      "length records \<le> k" by (auto simp: len)
  then show ?thesis using w by simp
qed

text \<open>
  C10. A crash loses only the tail: if the file holds just the first \<open>n\<close> bytes of what was
  written, a reader returns a prefix of the records, which includes all that had been written
  completely by then, and reports no corruption for the record that was cut short.
\<close>

theorem Log_crash_recovers_prefix:
  assumes "length (fs_contents (dest (snd (write_log records)))) \<le> n"
  shows "\<exists>k r. read_log chk (take n (fs_contents (dest (snd (write_log (records @ later))))))
       = Some (take k (records @ later), r) \<and> length records \<le> k \<and> reports r = []"
proof -
  let ?ok = "\<lambda>frs data. fragments_of True frs \<and> payload frs = data"
  obtain w frss where w: "write_log records = (OK, w)" "writer_ok fs_inv w"
    "fs_contents (dest w) = layout 0 (concat frss)" "block_offset w = layout_end 0 (concat frss)"
    "layout_ok 0 (concat frss)" "list_all2 ?ok frss records"
    using write_log_correct by blast
  from mem_writable.AddRecords_correct [OF w(2), of later] obtain w' frss' where
    w': "foldl (\<lambda>(s, w) data. AddRecord WritableFile_Append WritableFile_Flush w data) (OK, w) later = (OK, w')"
      "fs_contents (dest w') = fs_contents (dest w) @ layout (block_offset w) (concat frss')"
      "layout_ok (block_offset w) (concat frss')" "list_all2 ?ok frss' later" by blast
  have lay: "fs_contents (dest (snd (write_log (records @ later)))) = layout 0 (concat (frss @ frss'))"
    using w w' by (simp add: write_log_def layout_append)
  have ok: "layout_ok 0 (concat (frss @ frss'))" using w w' by (simp add: layout_ok_append)
  have all2: "list_all2 ?ok (frss @ frss') (records @ later)"
    using w(6) w'(4) by (rule list_all2_appendI)
  have len: "length frss = length records" using w(6) by (rule list_all2_lengthD)
  from read_log_correct [OF ok all2, of chk n] obtain k r where
    k: "read_log chk (take n (layout 0 (concat (frss @ frss')))) = Some (take k (records @ later), r)" "reports r = []"
      "\<forall>j \<le> length (records @ later). length (layout 0 (concat (take j (frss @ frss')))) \<le> n \<longrightarrow> j \<le> k" by blast
  have "length (layout 0 (concat (take (length records) (frss @ frss')))) \<le> n"
    using assms w len by simp
  then have "length records \<le> k" using k(3) by simp
  then show ?thesis unfolding lay using k(1,2) by blast
qed

theorem Log_crash_recovers_prefix_witness:
  "\<exists>k r. read_log True (take 20 (fs_contents (dest (snd (write_log ([] @ [replicate 30 7]))))))
     = Some (take k ([] @ [replicate 30 7]), r) \<and> reports r = []"
  using Log_crash_recovers_prefix [of "[]" 20 True "[replicate 30 7]"]
  by (auto simp: write_log_def Writer_init_def)


section \<open>Two remarks on the code\<close>

text \<open>
  C28. The values that stand for the end of the file and for a bad record follow the record types,
  and a byte of the file is compared with them: a well-formed record of type 5, which is an
  unknown type, ends the log silently instead of being reported, whatever follows it in the
  buffer.
\<close>

theorem unknown_type_five_ends_log:
  assumes "buffer r = physical 5 d @ tail" and "length d < 65536" and "initial_offset r = 0"
  shows "ReadRecord_loop fread r False [] 0 [] = Some (False, [], r\<lparr>buffer := tail\<rparr>)"
proof -
  have "ReadPhysicalRecord fread r [] = (kEof, d, r\<lparr>buffer := tail\<rparr>)"
    using Parse_complete [OF _ assms(2,1,3), of "[]"] assms(1)
    by (subst ReadPhysicalRecord.simps) (simp add: kHeaderSize_def kEof_def record_type_defs)
  then show ?thesis
    by (subst ReadRecord_loop.simps) (simp add: Let_def record_types_ne)
qed

theorem unknown_type_five_ends_log_witness:
  "\<exists>r. ReadRecord_loop SequentialFile_Read
       ((Reader_init (SequentialFile_init FileState_init) True True 0)\<lparr>buffer := physical 5 [1] @ physical 1 [2]\<rparr>)
       False [] 0 [] = Some (False, [], r) \<and> reports r = [] \<and> buffer r = physical 1 [2]"
  using unknown_type_five_ends_log [of "(Reader_init (SequentialFile_init FileState_init) True True 0)
      \<lparr>buffer := physical 5 [1] @ physical 1 [2]\<rparr>" "[1]" "physical 1 [2]" SequentialFile_Read]
  by (simp add: Reader_init_def)

text \<open>
  Six bytes before the end of a block there is no room for a header, but the test for the trailer
  is not met, and the reader searches the block; one byte later it skips it.
\<close>

theorem trailer_test_misses_one_offset:
  "block_start 32762 = 0 \<and>
   end_of_buffer_offset (snd (SkipToInitialBlock fskip (Reader_init f rep chk 32762))) = 0"
  "fskip f 32768 = (OK, f') \<Longrightarrow>
   end_of_buffer_offset (snd (SkipToInitialBlock fskip (Reader_init f rep chk 32763))) = 32768"
  by (simp_all add: SkipToInitialBlock_def Reader_init_def block_start_def log_size_defs Let_def)

end
