(* ===== verification/Filename.thy ===== *)
theory Filename imports Logging begin

text \<open>
  \<^verbatim>\<open>db/filename.h\<close> and \<^verbatim>\<open>db/filename.cc\<close>: the names of the files of a database and the
  parser of their base names. The functions of the environment that \<open>SetCurrentFile\<close> calls are
  parameters.
\<close>

datatype FileType = kLogFile | kDBLockFile | kTableFile | kDescriptorFile | kCurrentFile
  | kTempFile | kInfoLogFile

text \<open>The conversion \<open>%06llu\<close>.\<close>

definition decimal6 :: "uint64 \<Rightarrow> string" where
  "decimal6 number =
     (let ds = decimal (unat number) in replicate (6 - length ds) (CHR ''0'') @ ds)"

definition MakeFileName :: "string \<Rightarrow> uint64 \<Rightarrow> string \<Rightarrow> string" where
  "MakeFileName name number suffix = name @ ''/'' @ decimal6 number @ ''.'' @ suffix"

definition LogFileName :: "string \<Rightarrow> uint64 \<Rightarrow> string" where
  "LogFileName name number = MakeFileName name number ''log''"

definition TableFileName :: "string \<Rightarrow> uint64 \<Rightarrow> string" where
  "TableFileName name number = MakeFileName name number ''ldb''"

definition SSTTableFileName :: "string \<Rightarrow> uint64 \<Rightarrow> string" where
  "SSTTableFileName name number = MakeFileName name number ''sst''"

definition DescriptorFileName :: "string \<Rightarrow> uint64 \<Rightarrow> string" where
  "DescriptorFileName dbname number = dbname @ ''/MANIFEST-'' @ decimal6 number"

definition CurrentFileName :: "string \<Rightarrow> string" where
  "CurrentFileName dbname = dbname @ ''/CURRENT''"

definition LockFileName :: "string \<Rightarrow> string" where
  "LockFileName dbname = dbname @ ''/LOCK''"

definition TempFileName :: "string \<Rightarrow> uint64 \<Rightarrow> string" where
  "TempFileName dbname number = MakeFileName dbname number ''dbtmp''"

definition InfoLogFileName :: "string \<Rightarrow> string" where
  "InfoLogFileName dbname = dbname @ ''/LOG''"

definition OldInfoLogFileName :: "string \<Rightarrow> string" where
  "OldInfoLogFileName dbname = dbname @ ''/LOG.old''"

text \<open>\<open>Slice::starts_with\<close> on text.\<close>

definition text_starts_with :: "string \<Rightarrow> string \<Rightarrow> bool" where
  "text_starts_with s x \<longleftrightarrow> length s \<ge> length x \<and> take (length x) s = x"

definition ParseFileName :: "string \<Rightarrow> (uint64 \<times> FileType) option" where
  "ParseFileName fname =
     (let rest = fname in
      if rest = ''CURRENT'' then Some (0, kCurrentFile)
      else if rest = ''LOCK'' then Some (0, kDBLockFile)
      else if rest = ''LOG'' \<or> rest = ''LOG.old'' then Some (0, kInfoLogFile)
      else if text_starts_with rest ''MANIFEST-'' then
        (case ConsumeDecimalNumber (drop (length ''MANIFEST-'') rest) of
           None \<Rightarrow> None
         | Some (num, rest) \<Rightarrow> if rest \<noteq> [] then None else Some (num, kDescriptorFile))
      else
        (case ConsumeDecimalNumber rest of
           None \<Rightarrow> None
         | Some (num, suffix) \<Rightarrow>
             if suffix = ''.log'' then Some (num, kLogFile)
             else if suffix = ''.sst'' \<or> suffix = ''.ldb'' then Some (num, kTableFile)
             else if suffix = ''.dbtmp'' then Some (num, kTempFile)
             else None))"

definition SetCurrentFile ::
  "('e \<Rightarrow> string \<Rightarrow> string \<Rightarrow> status \<times> 'e) \<Rightarrow> ('e \<Rightarrow> string \<Rightarrow> string \<Rightarrow> status \<times> 'e)
     \<Rightarrow> ('e \<Rightarrow> string \<Rightarrow> status \<times> 'e) \<Rightarrow> 'e \<Rightarrow> string \<Rightarrow> uint64 \<Rightarrow> status \<times> 'e" where
  "SetCurrentFile WriteStringToFileSync RenameFile DeleteFile env dbname descriptor_number =
     (let manifest = DescriptorFileName dbname descriptor_number;
          contents = drop (length dbname + 1) manifest;
          tmp = TempFileName dbname descriptor_number;
          (s, env) = WriteStringToFileSync env (contents @ [CHR 0x0A]) tmp;
          (s, env) = (if ok s then RenameFile env tmp (CurrentFileName dbname) else (s, env));
          env = (if ok s then env else snd (DeleteFile env tmp))
      in (s, env))"

section \<open>Parsing inverts naming\<close>

lemma decimal6_digits: "\<forall>c \<in> set (decimal6 n). is_digit c"
  using decimal_digits by (auto simp: decimal6_def Let_def is_digit_def)

lemma decimal6_not_Nil [simp]: "decimal6 n \<noteq> []"
  by (simp add: decimal6_def Let_def)

lemma digits_value_decimal6: "digits_value 0 (decimal6 n) = unat n"
  by (simp add: decimal6_def Let_def digits_value_decimal)

lemma Consume_decimal6:
  assumes "rest = [] \<or> \<not> is_digit (hd rest)"
  shows "ConsumeDecimalNumber (decimal6 n @ rest) = Some (n, rest)"
proof -
  have "takeWhile is_digit rest = []" "dropWhile is_digit rest = rest"
    using assms by (cases rest; simp)+
  then have "Consume_loop 0 0 (decimal6 n @ rest) = Some (n, length (decimal6 n), rest)"
    using Consume_loop_correct [of 0 0 "decimal6 n @ rest"] decimal6_digits [of n] unat_less_2p64 [of n]
    by (simp add: takeWhile_append2 dropWhile_append2 digits_value_decimal6 Let_def)
  then show ?thesis by (simp add: ConsumeDecimalNumber_def)
qed

lemma not_special:
  assumes "\<forall>c \<in> set ds. is_digit c" "ds \<noteq> []"
  shows "ds @ s \<noteq> ''CURRENT''" "ds @ s \<noteq> ''LOCK''" "ds @ s \<noteq> ''LOG''" "ds @ s \<noteq> ''LOG.old''"
    "\<not> text_starts_with (ds @ s) ''MANIFEST-''"
  using assms by (cases ds; auto simp: is_digit_def text_starts_with_def)+

lemma Parse_numbered:
  assumes "suffix = [] \<or> \<not> is_digit (hd suffix)"
  shows "ParseFileName (decimal6 n @ suffix) =
     (if suffix = ''.log'' then Some (n, kLogFile)
      else if suffix = ''.sst'' \<or> suffix = ''.ldb'' then Some (n, kTableFile)
      else if suffix = ''.dbtmp'' then Some (n, kTempFile) else None)"
  using not_special [OF decimal6_digits decimal6_not_Nil, of n suffix]
  by (simp only: ParseFileName_def Let_def if_False Consume_decimal6 [OF assms] option.case prod.case simp_thms)

lemma drop_name [simp]: "drop (Suc (length name)) (MakeFileName name n suffix) = decimal6 n @ CHR ''.'' # suffix"
  by (simp add: MakeFileName_def)

text \<open>
  C30. Every name the database gives a file is recognised: after the directory is removed, parsing
  it returns the number and the kind of the file it was made for, whatever the width of the
  number, so no live file is overlooked or mistaken for another.
\<close>

theorem ParseFileName_inverts_names:
  "ParseFileName (drop (length dbname + 1) (LogFileName dbname n)) = Some (n, kLogFile)
   \<and> ParseFileName (drop (length dbname + 1) (TableFileName dbname n)) = Some (n, kTableFile)
   \<and> ParseFileName (drop (length dbname + 1) (SSTTableFileName dbname n)) = Some (n, kTableFile)
   \<and> ParseFileName (drop (length dbname + 1) (TempFileName dbname n)) = Some (n, kTempFile)
   \<and> ParseFileName (drop (length dbname + 1) (DescriptorFileName dbname n)) = Some (n, kDescriptorFile)
   \<and> ParseFileName (drop (length dbname + 1) (CurrentFileName dbname)) = Some (0, kCurrentFile)
   \<and> ParseFileName (drop (length dbname + 1) (LockFileName dbname)) = Some (0, kDBLockFile)
   \<and> ParseFileName (drop (length dbname + 1) (InfoLogFileName dbname)) = Some (0, kInfoLogFile)
   \<and> ParseFileName (drop (length dbname + 1) (OldInfoLogFileName dbname)) = Some (0, kInfoLogFile)"
proof -
  have dot: "\<not> is_digit (CHR ''.'')" by (simp add: is_digit_def)
  have "ParseFileName (''MANIFEST-'' @ decimal6 n) = Some (n, kDescriptorFile)"
    using Consume_decimal6 [of "[]" n] by (simp add: ParseFileName_def text_starts_with_def)
  then show ?thesis
    using dot
    by (simp add: LogFileName_def TableFileName_def SSTTableFileName_def TempFileName_def
        DescriptorFileName_def Parse_numbered)
      (simp add: CurrentFileName_def LockFileName_def InfoLogFileName_def OldInfoLogFileName_def ParseFileName_def)
qed

end
