(* ===== verification/Bloom.thy ===== *)
theory Bloom imports Coding DbFormat begin

text \<open>
  \<^verbatim>\<open>util/hash.h\<close>, \<^verbatim>\<open>util/hash.cc\<close> and \<^verbatim>\<open>util/bloom.cc\<close>: the hash function (similar to murmur)
  and the Bloom filter built on it with double hashing. The policy is shown to meet the filter
  policy interface for every number of bits per key, and so does its wrapper for internal keys.
\<close>

section \<open>Hash\<close>

definition hash_m :: uint32 where "hash_m = 0xc6a4a793"

function Hash_loop :: "uint32 \<Rightarrow> bytes \<Rightarrow> uint32 \<times> bytes" where
  "Hash_loop h data =
     (if 4 \<le> length data
      then let w = DecodeFixed32 data; h = h + w; h = h * hash_m; h = h XOR drop_bit 16 h
           in Hash_loop h (drop 4 data)
      else (h, data))"
  by pat_completeness auto
termination by (relation "measure (length \<circ> snd)") auto

declare Hash_loop.simps [simp del]

text \<open>The cases of the \<open>switch\<close> fall through from the third byte to the first.\<close>

definition Hash :: "bytes \<Rightarrow> uint32 \<Rightarrow> uint32" where
  "Hash data seed =
     (let h = seed XOR of_nat (length data) * hash_m;
          (h, rest) = Hash_loop h data;
          h = (if length rest = 3 then h + push_bit 16 (ucast (rest ! 2)) else h);
          h = (if length rest \<in> {2, 3} then h + push_bit 8 (ucast (rest ! 1)) else h)
      in if length rest \<in> {1, 2, 3}
         then let h = h + ucast (rest ! 0); h = h * hash_m in h XOR drop_bit 24 h
         else h)"

definition BloomHash :: "bytes \<Rightarrow> uint32" where
  "BloomHash key = Hash key 0xbc9f1d34"

section \<open>The Bloom filter policy\<close>

text \<open>
  \<open>k_\<close> is \<open>bits_per_key * 0.69\<close> rounded down, between 1 and 30. The product is no integer for the
  values that are not cut off, so the rounding of the floating-point product does not matter.
\<close>

definition bloom_k :: "nat \<Rightarrow> nat" where
  "bloom_k bits_per_key =
     (let k = bits_per_key * 69 div 100; k = (if k < 1 then 1 else k) in if k > 30 then 30 else k)"

fun set_probes :: "nat \<Rightarrow> nat \<Rightarrow> uint32 \<Rightarrow> uint32 \<Rightarrow> bytes \<Rightarrow> bytes" where
  "set_probes 0 bits h delta array = array"
| "set_probes (Suc j) bits h delta array =
     (let bitpos = unat h mod bits
      in set_probes j bits (h + delta) delta
           (array[bitpos div 8 := array ! (bitpos div 8) OR push_bit (bitpos mod 8) 1]))"

fun test_probes :: "nat \<Rightarrow> nat \<Rightarrow> uint32 \<Rightarrow> uint32 \<Rightarrow> bytes \<Rightarrow> bool" where
  "test_probes 0 bits h delta array = True"
| "test_probes (Suc j) bits h delta array =
     (let bitpos = unat h mod bits
      in if array ! (bitpos div 8) AND push_bit (bitpos mod 8) 1 = 0 then False
         else test_probes j bits (h + delta) delta array)"

definition bloom_delta :: "uint32 \<Rightarrow> uint32" where
  "bloom_delta h = drop_bit 17 h OR push_bit 15 h"

definition bloom_add :: "nat \<Rightarrow> nat \<Rightarrow> bytes \<Rightarrow> bytes \<Rightarrow> bytes" where
  "bloom_add k bits array key = (let h = BloomHash key in set_probes k bits h (bloom_delta h) array)"

definition Bloom_CreateFilter :: "nat \<Rightarrow> bytes list \<Rightarrow> bytes \<Rightarrow> bytes" where
  "Bloom_CreateFilter bits_per_key keys dst =
     (let k = bloom_k bits_per_key;
          bits = length keys * bits_per_key;
          bits = (if bits < 64 then 64 else bits);
          nbytes = (bits + 7) div 8;
          bits = nbytes * 8
      in dst @ foldl (bloom_add k bits) (replicate nbytes 0) keys @ [of_nat k])"

definition Bloom_KeyMayMatch :: "bytes \<Rightarrow> bytes \<Rightarrow> bool" where
  "Bloom_KeyMayMatch key bloom_filter =
     (let len = length bloom_filter in
      if len < 2 then False
      else let array = bloom_filter; bits = (len - 1) * 8; k = unat (array ! (len - 1)) in
        if k > 30 then True
        else let h = BloomHash key in test_probes k bits h (bloom_delta h) array)"

section \<open>No false negatives\<close>

lemma bit_nth_set_bit:
  "i < length array \<Longrightarrow> j < 8 \<Longrightarrow> bit (array[i := array ! i OR push_bit j 1] ! i :: byte) j"
  by (simp add: bit_simps)

lemma bit_mono_set_bit:
  "bit (array ! i :: byte) j \<Longrightarrow> bit (array[i' := array ! i' OR b] ! i) j"
  by (cases "i' < length array") (auto simp: nth_list_update list_update_beyond bit_simps)

lemma and_push_bit_1_eq_0: "(w :: byte) AND push_bit j 1 = 0 \<longleftrightarrow> \<not> bit w j" if "j < 8"
proof
  assume "w AND push_bit j 1 = 0"
  then have "\<not> bit (w AND push_bit j 1) j" by simp
  with that show "\<not> bit w j" by (simp add: bit_simps)
next
  assume "\<not> bit w j"
  then show "w AND push_bit j 1 = 0" by (intro bit_word_eqI) (auto simp: bit_simps)
qed

lemma length_set_probes [simp]: "length (set_probes k bits h delta array) = length array"
  by (induction k bits h delta array rule: set_probes.induct) (simp_all add: Let_def)

lemma set_probes_mono: "bit (array ! i) j \<Longrightarrow> bit (set_probes k bits h delta array ! i) j"
proof (induction k bits h delta array rule: set_probes.induct)
  case (1 bits h delta array)
  then show ?case by simp
next
  case (2 k bits h delta array)
  then show ?case by (simp only: set_probes.simps Let_def) (rule 2, rule refl, rule bit_mono_set_bit)
qed

lemma length_bloom_add [simp]: "length (bloom_add k bits array key) = length array"
  by (simp add: bloom_add_def Let_def)

lemma length_foldl_bloom_add [simp]: "length (foldl (bloom_add k bits) array keys) = length array"
  by (induction keys arbitrary: array) simp_all

lemma foldl_bloom_add_mono: "bit (array ! i) j \<Longrightarrow> bit (foldl (bloom_add k bits) array keys ! i) j"
  by (induction keys arbitrary: array) (simp_all add: bloom_add_def Let_def set_probes_mono)

text \<open>The probes of a key stay set in every array that has at least its bits.\<close>

lemma test_set_probes:
  assumes "0 < bits" "bits \<le> 8 * length array"
    and "\<And>i j. bit (set_probes k bits h delta array ! i) j \<Longrightarrow> bit (array' ! i) j"
  shows "test_probes k bits h delta array'"
  using assms
proof (induction k bits h delta array rule: set_probes.induct)
  case (1 bits h delta array)
  then show ?case by simp
next
  case (2 k bits h delta array)
  let ?p = "unat h mod bits"
  let ?a = "array[?p div 8 := array ! (?p div 8) OR push_bit (?p mod 8) 1]"
  have "?p < 8 * length array" using "2.prems"(1,2) by (meson less_le_trans mod_less_divisor)
  then have "bit (?a ! (?p div 8)) (?p mod 8)"
    by (intro bit_nth_set_bit) (simp_all add: less_mult_imp_div_less mult.commute)
  then have "bit (set_probes k bits (h + delta) delta ?a ! (?p div 8)) (?p mod 8)"
    by (rule set_probes_mono)
  then have "bit (array' ! (?p div 8)) (?p mod 8)" using "2.prems"(3) by (simp add: Let_def)
  then have "array' ! (?p div 8) AND push_bit (?p mod 8) 1 \<noteq> 0"
    using and_push_bit_1_eq_0 [of "?p mod 8"] by (simp del: push_bit_of_1)
  moreover have "test_probes k bits (h + delta) delta array'"
    using "2.prems" by (intro "2.IH" [OF refl]) (simp_all add: Let_def)
  ultimately show ?case by (simp add: Let_def)
qed

lemma bloom_k_bounds: "1 \<le> bloom_k b" "bloom_k b \<le> 30"
  by (simp_all add: bloom_k_def Let_def)

lemma test_probes_append:
  "bits = 8 * length array \<Longrightarrow> 0 < bits \<Longrightarrow> test_probes k bits h delta (array @ b) = test_probes k bits h delta array"
proof (induction k arbitrary: h)
  case 0
  then show ?case by simp
next
  case (Suc k)
  have "unat h mod bits < 8 * length array" using Suc.prems by simp
  then have "unat h mod bits div 8 < length array" by (simp add: less_mult_imp_div_less mult.commute)
  with Suc show ?case by (simp add: Let_def nth_append)
qed

lemma bloom_add_member:
  assumes "key \<in> set keys" "0 < bits" "bits \<le> 8 * length array"
  shows "test_probes k bits (BloomHash key) (bloom_delta (BloomHash key)) (foldl (bloom_add k bits) array keys)"
proof -
  obtain xs ys where keys: "keys = xs @ key # ys" using assms(1) by (auto simp: in_set_conv_decomp)
  let ?a = "foldl (bloom_add k bits) array xs"
  show ?thesis
    by (rule test_set_probes [where array = ?a])
      (use assms in \<open>auto simp: keys bloom_add_def Let_def intro: foldl_bloom_add_mono\<close>)
qed

lemma Bloom_no_false_negative:
  assumes "key \<in> set keys"
  shows "Bloom_KeyMayMatch key (Bloom_CreateFilter bpk keys [])"
proof -
  define nb where "nb = ((if length keys * bpk < 64 then 64 else length keys * bpk) + 7) div 8"
  define a where "a = foldl (bloom_add (bloom_k bpk) (nb * 8)) (replicate nb 0) keys"
  have nb: "8 \<le> nb" by (simp add: nb_def less_eq_div_iff_mult_less_eq)
  have len: "length a = nb" by (simp add: a_def)
  have f: "Bloom_CreateFilter bpk keys [] = a @ [of_nat (bloom_k bpk)]"
    by (simp add: Bloom_CreateFilter_def Let_def a_def nb_def)
  have k: "unat (of_nat (bloom_k bpk) :: byte) = bloom_k bpk"
    using bloom_k_bounds [of bpk] by (simp add: unat_of_nat)
  have "test_probes (bloom_k bpk) (nb * 8) (BloomHash key) (bloom_delta (BloomHash key)) a"
    unfolding a_def using nb by (intro bloom_add_member assms) simp_all
  then show ?thesis
    using nb by (simp add: Bloom_KeyMayMatch_def f len k nth_append Let_def test_probes_append)
qed

interpretation bloom: filter_policy "Bloom_CreateFilter bits_per_key" Bloom_KeyMayMatch for bits_per_key
proof unfold_locales
  show "Bloom_CreateFilter bits_per_key keys dst = dst @ Bloom_CreateFilter bits_per_key keys []" for keys dst
    by (simp add: Bloom_CreateFilter_def Let_def)
  show "key \<in> set keys \<Longrightarrow> Bloom_KeyMayMatch key (Bloom_CreateFilter bits_per_key keys [])" for key keys
    by (rule Bloom_no_false_negative)
qed

interpretation bloom_internal: user_filter_policy "Bloom_CreateFilter bits_per_key" Bloom_KeyMayMatch for bits_per_key
  by (rule user_filter_policy.intro) unfold_locales

lemma Hash_test_vectors:
  "Hash [] 0xbc9f1d34 = 0xbc9f1d34" "Hash [0x62] 0xbc9f1d34 = 0xef1345c4"
  "Hash [0xc3, 0x97] 0xbc9f1d34 = 0x5b663814" "Hash [0xe2, 0x99, 0xa5] 0xbc9f1d34 = 0x323c078f"
  "Hash [0xe1, 0x80, 0xb9, 0x32] 0xbc9f1d34 = 0xed21633a"
  by (simp_all add: Hash_def Hash_loop.simps DecodeFixed32_def hash_m_def Let_def)



end
