(* ===== verification/FilterBlock.thy ===== *)
theory FilterBlock imports Bloom begin

text \<open>
  \<^verbatim>\<open>table/filter_block.h\<close> and \<^verbatim>\<open>table/filter_block.cc\<close>: the block of a table that holds a
  filter for each range of \<open>kFilterBase\<close> bytes of file offsets. The builder and the reader are
  polymorphic in the filter policy, and the main lemma is proved for every policy that meets the
  interface: a key is never missed by the reader of the finished block.
\<close>

section \<open>The builder\<close>

definition kFilterBaseLg :: nat where "kFilterBaseLg = 11"
definition kFilterBase :: nat where "kFilterBase = 2 ^ kFilterBaseLg"

record filter_builder =
  fb_keys :: bytes
  fb_start :: "nat list"
  fb_result :: bytes
  filter_offsets :: "uint32 list"

definition FilterBlockBuilder_init :: filter_builder where
  "FilterBlockBuilder_init = \<lparr>fb_keys = [], fb_start = [], fb_result = [], filter_offsets = []\<rparr>"

definition GenerateFilter :: "(bytes list \<Rightarrow> bytes \<Rightarrow> bytes) \<Rightarrow> filter_builder \<Rightarrow> filter_builder" where
  "GenerateFilter create b =
     (let num_keys = length (fb_start b) in
      if num_keys = 0
      then b\<lparr>filter_offsets := filter_offsets b @ [of_nat (length (fb_result b))]\<rparr>
      else let start = fb_start b @ [length (fb_keys b)];
               tmp_keys = map (\<lambda>i. take (start ! (i + 1) - start ! i) (drop (start ! i) (fb_keys b))) [0..<num_keys]
           in b\<lparr>filter_offsets := filter_offsets b @ [of_nat (length (fb_result b))],
                fb_result := create tmp_keys (fb_result b), fb_keys := [], fb_start := []\<rparr>)"

function StartBlock_loop ::
  "(bytes list \<Rightarrow> bytes \<Rightarrow> bytes) \<Rightarrow> nat \<Rightarrow> filter_builder \<Rightarrow> filter_builder" where
  "StartBlock_loop create filter_index b =
     (if filter_index > length (filter_offsets b)
      then StartBlock_loop create filter_index (GenerateFilter create b) else b)"
  by pat_completeness auto
termination
  by (relation "measure (\<lambda>(_, i, b). i - length (filter_offsets b))") (auto simp: GenerateFilter_def Let_def)

declare StartBlock_loop.simps [simp del]

definition StartBlock :: "(bytes list \<Rightarrow> bytes \<Rightarrow> bytes) \<Rightarrow> filter_builder \<Rightarrow> uint64 \<Rightarrow> filter_builder" where
  "StartBlock create b block_offset = StartBlock_loop create (unat block_offset div kFilterBase) b"

definition fb_AddKey :: "filter_builder \<Rightarrow> bytes \<Rightarrow> filter_builder" where
  "fb_AddKey b key =
     b\<lparr>fb_start := fb_start b @ [length (fb_keys b)], fb_keys := fb_keys b @ key\<rparr>"

definition fb_Finish :: "(bytes list \<Rightarrow> bytes \<Rightarrow> bytes) \<Rightarrow> filter_builder \<Rightarrow> bytes" where
  "fb_Finish create b =
     (let b = (if fb_start b \<noteq> [] then GenerateFilter create b else b);
          array_offset = (of_nat (length (fb_result b)) :: uint32);
          result = foldl PutFixed32 (fb_result b) (filter_offsets b)
      in PutFixed32 result array_offset @ [of_nat kFilterBaseLg])"

section \<open>The reader\<close>

text \<open>\<open>data_\<close> is the contents and \<open>offset_\<close> a position in it.\<close>

record filter_reader =
  fr_data :: bytes
  fr_offset :: nat
  fr_num :: nat
  fr_base_lg :: nat

definition FilterBlockReader_make :: "bytes \<Rightarrow> filter_reader" where
  "FilterBlockReader_make contents =
     (let n = length contents; r = \<lparr>fr_data = [], fr_offset = 0, fr_num = 0, fr_base_lg = 0\<rparr> in
      if n < 5 then r
      else let r = r\<lparr>fr_base_lg := unat (contents ! (n - 1))\<rparr>;
               last_word = unat (DecodeFixed32 (drop (n - 5) contents))
           in if last_word > n - 5 then r
              else r\<lparr>fr_data := contents, fr_offset := last_word, fr_num := (n - 5 - last_word) div 4\<rparr>)"

definition FilterBlock_KeyMayMatch ::
  "(bytes \<Rightarrow> bytes \<Rightarrow> bool) \<Rightarrow> filter_reader \<Rightarrow> uint64 \<Rightarrow> bytes \<Rightarrow> bool" where
  "FilterBlock_KeyMayMatch match r block_offset key =
     (let index = unat (drop_bit (fr_base_lg r) block_offset) in
      if index < fr_num r
      then let start = unat (DecodeFixed32 (drop (fr_offset r + index * 4) (fr_data r)));
               limit = unat (DecodeFixed32 (drop (fr_offset r + index * 4 + 4) (fr_data r)))
           in if start \<le> limit \<and> limit \<le> fr_offset r
              then match key (take (limit - start) (drop start (fr_data r)))
              else if start = limit then False else True
      else True)"

section \<open>What the builder holds\<close>

text \<open>
  The keys of each filter generated so far, and those waiting for the next one. A filter without
  keys takes no bytes.
\<close>

context filter_policy
begin

definition chunk :: "bytes list \<Rightarrow> bytes" where
  "chunk ks = (if ks = [] then [] else create_filter ks [])"

definition builder_rep :: "filter_builder \<Rightarrow> bytes list list \<Rightarrow> bytes list \<Rightarrow> bool" where
  "builder_rep b gs ks \<longleftrightarrow>
     fb_keys b = concat ks \<and> fb_start b = map (\<lambda>i. length (concat (take i ks))) [0..<length ks] \<and>
     fb_result b = concat (map chunk gs) \<and>
     filter_offsets b = map (\<lambda>i. of_nat (length (concat (map chunk (take i gs))))) [0..<length gs]"

lemma keys_of_starts:
  assumes "start = map (\<lambda>i. length (concat (take i ks))) [0..<length ks] @ [length (concat ks)]"
  shows "map (\<lambda>i. take (start ! (i + 1) - start ! i) (drop (start ! i) (concat ks))) [0..<length ks] = ks"
proof (rule nth_equalityI)
  fix i
  assume "i < length (map (\<lambda>i. take (start ! (i + 1) - start ! i) (drop (start ! i) (concat ks))) [0..<length ks])"
  then have i: "i < length ks" by simp
  have nth: "start ! j = length (concat (take j ks))" if "j \<le> length ks" for j
    using that by (auto simp: assms nth_append)
  have split: "concat ks = concat (take i ks) @ ks ! i @ concat (drop (Suc i) ks)"
    using i by (metis append.assoc concat.simps(2) concat_append id_take_nth_drop)
  have nxt: "concat (take (Suc i) ks) = concat (take i ks) @ ks ! i"
    using i by (simp add: take_Suc_conv_app_nth)
  have "take (start ! (i + 1) - start ! i) (drop (start ! i) (concat ks)) = ks ! i"
    using i by (simp add: nth nxt) (simp add: split)
  then show "map (\<lambda>i. take (start ! (i + 1) - start ! i) (drop (start ! i) (concat ks))) [0..<length ks] ! i = ks ! i"
    using i by simp
qed simp

lemma builder_rep_init: "builder_rep FilterBlockBuilder_init [] []"
  by (simp add: builder_rep_def FilterBlockBuilder_init_def)

lemma AddKey_rep: "builder_rep b gs ks \<Longrightarrow> builder_rep (fb_AddKey b key) gs (ks @ [key])"
  by (auto simp: builder_rep_def fb_AddKey_def)

lemma GenerateFilter_rep:
  assumes "builder_rep b gs ks"
  shows "builder_rep (GenerateFilter create_filter b) (gs @ [ks]) []"
proof (cases "ks = []")
  case True
  with assms show ?thesis by (auto simp: builder_rep_def GenerateFilter_def chunk_def)
next
  case False
  then show ?thesis
    using assms keys_of_starts [OF refl, of ks] create_appends [of ks "concat (map chunk gs)"]
    by (auto simp: builder_rep_def GenerateFilter_def chunk_def Let_def)
qed

lemma StartBlock_loop_rep:
  "builder_rep b gs ks \<Longrightarrow>
   builder_rep (StartBlock_loop create_filter idx b)
     (if length gs < idx then gs @ [ks] @ replicate (idx - Suc (length gs)) [] else gs)
     (if length gs < idx then [] else ks)"
proof (induction "idx - length gs" arbitrary: b gs ks)
  case 0
  then have "\<not> length gs < idx" "length (filter_offsets b) = length gs"
    by (simp_all add: builder_rep_def)
  with 0 show ?case by (simp add: StartBlock_loop.simps [of create_filter idx b])
next
  case (Suc n)
  have len: "length (filter_offsets b) = length gs" "length gs < idx"
    using Suc by (simp_all add: builder_rep_def)
  have step: "StartBlock_loop create_filter idx b = StartBlock_loop create_filter idx (GenerateFilter create_filter b)"
    using len by (simp add: StartBlock_loop.simps [of create_filter idx b])
  have "n = idx - length (gs @ [ks])" using Suc(2) by simp
  show ?case
  proof (cases "Suc (length gs) < idx")
    case True
    then have "idx - Suc (length gs) = Suc (idx - Suc (Suc (length gs)))" by simp
    with True len Suc(1) [OF \<open>n = _\<close> GenerateFilter_rep [OF Suc.prems]] show ?thesis
      by (simp add: step)
  next
    case False
    then have "idx = Suc (length gs)" using len by simp
    with Suc(1) [OF \<open>n = _\<close> GenerateFilter_rep [OF Suc.prems]] step show ?thesis
      by simp
  qed
qed

section \<open>What the finished block holds\<close>

lemma Finish_layout:
  assumes "builder_rep b gs ks"
  defines "gs' \<equiv> (if ks = [] then gs else gs @ [ks])"
  shows "fb_Finish create_filter b =
    concat (map chunk gs') @
    concat (map (\<lambda>i. EncodeFixed32 (of_nat (length (concat (map chunk (take i gs')))))) [0..<length gs']) @
    EncodeFixed32 (of_nat (length (concat (map chunk gs')))) @ [11]"
proof -
  define b' where "b' = (if fb_start b \<noteq> [] then GenerateFilter create_filter b else b)"
  have "fb_start b = [] \<longleftrightarrow> ks = []" using assms(1) by (simp add: builder_rep_def)
  then have rep: "builder_rep b' gs' []"
    using assms(1) GenerateFilter_rep [OF assms(1)] by (auto simp: b'_def gs'_def)
  have put: "foldl PutFixed32 r os = r @ concat (map EncodeFixed32 os)" for r os
    by (induction os arbitrary: r) (simp_all add: PutFixed32_def)
  have "fb_Finish create_filter b =
     PutFixed32 (foldl PutFixed32 (fb_result b') (filter_offsets b')) (of_nat (length (fb_result b'))) @ [11]"
    by (simp add: fb_Finish_def b'_def Let_def kFilterBaseLg_def)
  also have "\<dots> = fb_result b' @ concat (map EncodeFixed32 (filter_offsets b')) @
      EncodeFixed32 (of_nat (length (fb_result b'))) @ [11]"
    by (simp add: put PutFixed32_def)
  finally show ?thesis using rep by (simp add: builder_rep_def comp_def)
qed

lemma length_concat_EncodeFixed32 [simp]:
  "length (concat (map (\<lambda>i. EncodeFixed32 (f i)) xs)) = 4 * length xs"
  by (induction xs) simp_all

lemma drop_concat_EncodeFixed32:
  "i < n \<Longrightarrow> drop (i * 4) (concat (map (\<lambda>i. EncodeFixed32 (f i)) [0..<n])) =
     EncodeFixed32 (f i) @ concat (map (\<lambda>i. EncodeFixed32 (f i)) [Suc i..<n])"
proof -
  assume "i < n"
  then have "[0..<n] = [0..<i] @ i # [Suc i..<n]"
    by (metis le_add_diff_inverse le_eq_less_or_eq upt_add_eq_append upt_conv_Cons zero_le)
  then show ?thesis by (simp add: mult.commute)
qed

lemma Finish_read_chunk:
  assumes rep: "builder_rep b gs ks"
    and size: "length (fb_Finish create_filter b) < 2 ^ 32"
    and i: "i < length (if ks = [] then gs else gs @ [ks])"
    and idx: "unat off div 2048 = i"
  shows "FilterBlock_KeyMayMatch match (FilterBlockReader_make (fb_Finish create_filter b)) off key =
     match key (chunk ((if ks = [] then gs else gs @ [ks]) ! i))"
proof -
  define gs' where "gs' = (if ks = [] then gs else gs @ [ks])"
  define D where "D = concat (map chunk gs')"
  define p where "p j = length (concat (map chunk (take j gs')))" for j
  define Q where "Q = concat (map (\<lambda>j. EncodeFixed32 (of_nat (p j))) [0..<length gs'])"
  define C where "C = D @ Q @ EncodeFixed32 (of_nat (length D)) @ [11]"
  have C: "fb_Finish create_filter b = C"
    using Finish_layout [OF rep] by (simp add: C_def D_def Q_def p_def gs'_def)
  have lenC: "length C = length D + 4 * length gs' + 5" by (simp add: C_def Q_def)
  have lenD: "length D < 2 ^ 32" using size lenC by (simp add: C)
  have ple: "p j \<le> length D" for j
  proof -
    have "D = concat (map chunk (take j gs')) @ concat (map chunk (drop j gs'))"
      unfolding D_def by (metis append_take_drop_id concat_append map_append)
    then show ?thesis by (simp add: p_def)
  qed
  have up: "unat (of_nat (p j) :: uint32) = p j" for j using ple [of j] lenD by (intro unat_of_nat_32) simp
  have last: "unat (DecodeFixed32 (drop (length C - 5) C)) = length D"
    using lenD by (simp add: lenC) (simp add: C_def Q_def unat_of_nat_32)
  have nth: "C ! (length C - 1) = 11" by (simp add: C_def nth_append)
  have r: "FilterBlockReader_make C =
      \<lparr>fr_data = C, fr_offset = length D, fr_num = length gs', fr_base_lg = 11\<rparr>"
    using last nth by (simp add: FilterBlockReader_make_def Let_def lenC)
  have i': "i < length gs'" using i by (simp add: gs'_def)
  have d: "unat (DecodeFixed32 (drop (length D + j * 4) C)) = p j" if "j < length gs'" for j
    using that by (simp add: C_def Q_def drop_concat_EncodeFixed32 up)
  have e: "unat (DecodeFixed32 (drop (length D + i * 4 + 4) C)) = p (Suc i)"
  proof (cases "Suc i < length gs'")
    case True
    then show ?thesis using d [of "Suc i"] by (simp add: algebra_simps)
  next
    case False
    then have "length gs' = Suc i" using i' by simp
    moreover from this have "p (Suc i) = length D" by (simp add: p_def D_def)
    ultimately show ?thesis using lenD by (simp add: C_def Q_def unat_of_nat_32)
  qed
  have ix: "unat (drop_bit 11 off) = i" using idx by (simp add: unat_drop_bit_nat)
  have psuc: "p (Suc i) = p i + length (chunk (gs' ! i))" using i' by (simp add: p_def take_Suc_conv_app_nth)
  have "D = concat (map chunk (take i gs')) @ chunk (gs' ! i) @ concat (map chunk (drop (Suc i) gs'))"
    unfolding D_def using i' by (metis append.assoc concat.simps(2) concat_append id_take_nth_drop list.simps(9) map_append)
  then have "take (p (Suc i) - p i) (drop (p i) C) = chunk (gs' ! i)"
    by (simp add: C_def psuc) (simp add: p_def)
  then show ?thesis
    using i' ple [of "Suc i"] psuc d [OF i'] e
    by (simp add: C r FilterBlock_KeyMayMatch_def Let_def ix flip: gs'_def)
qed

end

section \<open>A key is never missed\<close>

text \<open>
  The call sequence of the builder, \<open>(StartBlock AddKey*)* Finish\<close> in the header's words: for each
  data block its offset and the keys added after it.
\<close>

definition fb_block :: "(bytes list \<Rightarrow> bytes \<Rightarrow> bytes) \<Rightarrow> uint64 \<times> bytes list \<Rightarrow> filter_builder \<Rightarrow> filter_builder" where
  "fb_block create blk b = foldl fb_AddKey (StartBlock create b (fst blk)) (snd blk)"

definition fb_build :: "(bytes list \<Rightarrow> bytes \<Rightarrow> bytes) \<Rightarrow> (uint64 \<times> bytes list) list \<Rightarrow> filter_builder" where
  "fb_build create blks = fold (fb_block create) blks FilterBlockBuilder_init"

context filter_policy
begin

text \<open>Every block so far has its keys in the group of its range, which is complete or the last one.\<close>

definition covers :: "bytes list list \<Rightarrow> bytes list \<Rightarrow> (uint64 \<times> bytes list) list \<Rightarrow> bool" where
  "covers gs ks blks \<longleftrightarrow>
     (\<forall>(off, bks) \<in> set blks. unat off div 2048 \<le> length gs \<and> set bks \<subseteq> set ((gs @ [ks]) ! (unat off div 2048)))"

lemma foldl_AddKey_rep: "builder_rep b gs ks \<Longrightarrow> builder_rep (foldl fb_AddKey b bks) gs (ks @ bks)"
proof (induction bks arbitrary: b ks)
  case (Cons k bks)
  from Cons.IH [OF AddKey_rep [OF Cons.prems]] show ?case by simp
qed simp

lemma fb_block_rep:
  assumes rep: "builder_rep b gs ks" and cov: "covers gs ks blks"
    and mono: "length gs \<le> unat off div 2048"
  shows "\<exists>gs' ks'. builder_rep (fb_block create_filter (off, bks) b) gs' ks'
    \<and> covers gs' ks' (blks @ [(off, bks)]) \<and> length gs' = unat off div 2048"
proof (cases "length gs < unat off div 2048")
  case True
  let ?gs = "gs @ [ks] @ replicate (unat off div 2048 - Suc (length gs)) []"
  have "builder_rep (StartBlock create_filter b off) ?gs []"
    using StartBlock_loop_rep [OF rep, of "unat off div 2048"] True
    by (simp add: StartBlock_def kFilterBase_def kFilterBaseLg_def)
  then have r: "builder_rep (fb_block create_filter (off, bks) b) ?gs bks"
    unfolding fb_block_def fst_conv snd_conv using foldl_AddKey_rep by fastforce
  have "covers ?gs bks (blks @ [(off, bks)])"
    using cov True by (fastforce simp: covers_def nth_append)
  with r True show ?thesis by (intro exI [of _ ?gs] exI [of _ bks]) simp
next
  case False
  have "builder_rep (StartBlock create_filter b off) gs ks"
    using StartBlock_loop_rep [OF rep, of "unat off div 2048"] False
    by (simp add: StartBlock_def kFilterBase_def kFilterBaseLg_def)
  then have r: "builder_rep (fb_block create_filter (off, bks) b) gs (ks @ bks)"
    unfolding fb_block_def fst_conv snd_conv by (rule foldl_AddKey_rep)
  have "covers gs (ks @ bks) (blks @ [(off, bks)])"
    using cov False mono by (fastforce simp: covers_def nth_append)
  with r False mono show ?thesis by (intro exI [of _ gs] exI [of _ "ks @ bks"]) simp
qed

lemma fb_build_rep:
  "sorted (map fst blks) \<Longrightarrow>
   \<exists>gs ks. builder_rep (fb_build create_filter blks) gs ks \<and> covers gs ks blks
     \<and> length gs = (if blks = [] then 0 else unat (fst (last blks)) div 2048)"
proof (induction blks rule: rev_induct)
  case Nil
  show ?case by (intro exI [of _ "[]"]) (simp add: fb_build_def builder_rep_init covers_def)
next
  case (snoc blk blks)
  obtain off bks where blk: "blk = (off, bks)" by (rule prod.exhaust)
  from snoc obtain gs ks where IH: "builder_rep (fb_build create_filter blks) gs ks" "covers gs ks blks"
    "length gs = (if blks = [] then 0 else unat (fst (last blks)) div 2048)"
    by (auto simp: sorted_append)
  have "unat (fst (last blks)) \<le> unat off" if "blks \<noteq> []"
    using snoc.prems last_in_set [OF that] by (fastforce simp: sorted_append blk simp flip: word_le_nat_alt)
  then have "length gs \<le> unat off div 2048" using IH(3) by (simp add: div_le_mono)
  from fb_block_rep [OF IH(1,2) this, of bks] show ?case by (simp add: blk fb_build_def)
qed

lemma block_key_not_missed:
  assumes "sorted (map fst blks)" "(off, bks) \<in> set blks" "key \<in> set bks"
    and "length (fb_Finish create_filter (fb_build create_filter blks)) < 2 ^ 32"
  shows "FilterBlock_KeyMayMatch key_may_match
    (FilterBlockReader_make (fb_Finish create_filter (fb_build create_filter blks))) off key"
proof -
  obtain gs ks where r: "builder_rep (fb_build create_filter blks) gs ks" "covers gs ks blks"
    using fb_build_rep [OF assms(1)] by blast
  define i where "i = unat off div 2048"
  have i: "i \<le> length gs" "key \<in> set ((gs @ [ks]) ! i)"
    using r(2) assms(2,3) by (auto simp: covers_def i_def)
  then have lt: "i < length (if ks = [] then gs else gs @ [ks])"
    and nth: "(if ks = [] then gs else gs @ [ks]) ! i = (gs @ [ks]) ! i"
    by (auto simp: nth_append split: if_splits)
  have "key_may_match key (chunk ((gs @ [ks]) ! i))"
    using i(2) no_false_negative by (auto simp: chunk_def)
  then show ?thesis
    using Finish_read_chunk [OF r(1) assms(4) lt i_def [symmetric], of key_may_match key] by (simp add: nth)
qed

end

lemma length_Bloom_CreateFilter:
  "length (Bloom_CreateFilter bpk keys dst) =
     length dst + ((if length keys * bpk < 64 then 64 else length keys * bpk) + 7) div 8 + 1"
  by (simp add: Bloom_CreateFilter_def Let_def)

section \<open>Properties\<close>

text \<open>
  C31. A table's filter block never hides a key, from its construction to its reading. When the
  blocks of a table are announced to \<open>FilterBlockBuilder\<close> in the order of their offsets
  (\<open>StartBlock\<close>, then the keys of the block with \<open>AddKey\<close>), and the finished filter block, built
  with the Bloom filter of any number of bits per key, is shorter than 2^32 bytes, then
  \<open>FilterBlockReader\<close> on the bytes of that block answers \<open>KeyMayMatch\<close> with true for the offset of
  each block and each key added to it, also where several blocks share a filter, where a block
  spans several ranges of \<open>kFilterBase\<close> bytes and where a range has no keys.
\<close>

theorem FilterBlock_never_misses_a_key:
  assumes "sorted (map fst blks)" "(off, bks) \<in> set blks" "key \<in> set bks"
    and "length (fb_Finish (Bloom_CreateFilter bits_per_key) (fb_build (Bloom_CreateFilter bits_per_key) blks)) < 2 ^ 32"
  shows "FilterBlock_KeyMayMatch Bloom_KeyMayMatch
    (FilterBlockReader_make (fb_Finish (Bloom_CreateFilter bits_per_key) (fb_build (Bloom_CreateFilter bits_per_key) blks))) off key"
  using assms by (rule bloom.block_key_not_missed)

theorem FilterBlock_never_misses_a_key_witness:
  "FilterBlock_KeyMayMatch Bloom_KeyMayMatch
    (FilterBlockReader_make (fb_Finish (Bloom_CreateFilter 1)
      (fb_build (Bloom_CreateFilter 1) [(0, []), (5000, [[99]])]))) 5000 [99]"
  by (rule FilterBlock_never_misses_a_key [where bks = "[[99]]"], simp, simp, simp,
      simp add: fb_Finish_def fb_build_def fb_block_def StartBlock_def StartBlock_loop.simps
        GenerateFilter_def FilterBlockBuilder_init_def fb_AddKey_def PutFixed32_def kFilterBase_def
        kFilterBaseLg_def length_Bloom_CreateFilter)

text \<open>
  A range without keys is not skipped by the reader: its bounds are equal but lie inside the data,
  so the first test succeeds and the policy decides on an empty filter. The later test for an empty
  filter is reached only when the entry points past the data.
\<close>

lemma KeyMayMatch_empty_range:
  assumes "unat (drop_bit (fr_base_lg r) off) < fr_num r"
    and "unat (DecodeFixed32 (drop (fr_offset r + unat (drop_bit (fr_base_lg r) off) * 4) (fr_data r))) = s"
    and "unat (DecodeFixed32 (drop (fr_offset r + unat (drop_bit (fr_base_lg r) off) * 4 + 4) (fr_data r))) = s"
  shows "FilterBlock_KeyMayMatch match r off key \<longleftrightarrow> s \<le> fr_offset r \<and> match key []"
  using assms by (simp add: FilterBlock_KeyMayMatch_def Let_def)

end
