(* ===== verification/BlockBuilder.thy ===== *)
theory BlockBuilder imports Comparators Coding begin

text \<open>
  \<^verbatim>\<open>table/block_builder.h\<close> and \<^verbatim>\<open>table/block_builder.cc\<close>: the builder of blocks whose keys are
  compressed against the key before them, with restart points where the whole key is stored.
  \<open>block_restart_interval\<close> is a parameter. The last part states what the finished block is: the
  encodings of its entries, the offsets of the restart points, and their number.
\<close>

section \<open>The builder\<close>

record block_builder =
  bb_buffer :: bytes
  bb_restarts :: "uint32 list"
  bb_counter :: nat
  bb_finished :: bool
  bb_last_key :: bytes

definition BlockBuilder_init :: block_builder where
  "BlockBuilder_init =
     \<lparr>bb_buffer = [], bb_restarts = [0], bb_counter = 0, bb_finished = False, bb_last_key = []\<rparr>"

definition BlockBuilder_Reset :: "block_builder \<Rightarrow> block_builder" where
  "BlockBuilder_Reset b =
     b\<lparr>bb_buffer := [], bb_restarts := [0], bb_counter := 0, bb_finished := False, bb_last_key := []\<rparr>"

definition bb_empty :: "block_builder \<Rightarrow> bool" where
  "bb_empty b \<longleftrightarrow> bb_buffer b = []"

definition CurrentSizeEstimate :: "block_builder \<Rightarrow> nat" where
  "CurrentSizeEstimate b = length (bb_buffer b) + length (bb_restarts b) * 4 + 4"

definition BlockBuilder_Finish :: "block_builder \<Rightarrow> block_builder \<times> bytes" where
  "BlockBuilder_Finish b =
     (let buffer = foldl PutFixed32 (bb_buffer b) (bb_restarts b);
          buffer = PutFixed32 buffer (of_nat (length (bb_restarts b)))
      in (b\<lparr>bb_buffer := buffer, bb_finished := True\<rparr>, buffer))"

text \<open>The loop that counts the shared bytes is the one of the comparator's common prefix.\<close>

definition BlockBuilder_Add :: "nat \<Rightarrow> block_builder \<Rightarrow> bytes \<Rightarrow> bytes \<Rightarrow> block_builder" where
  "BlockBuilder_Add block_restart_interval b key val =
     (let last_key_piece = bb_last_key b;
          (shared, b) =
            (if bb_counter b < block_restart_interval
             then let min_length = min (length last_key_piece) (length key)
                  in (prefix_loop 0 min_length last_key_piece key, b)
             else (0, b\<lparr>bb_restarts := bb_restarts b @ [of_nat (length (bb_buffer b))], bb_counter := 0\<rparr>));
          non_shared = length key - shared;
          buffer = PutVarint32 (bb_buffer b) (of_nat shared);
          buffer = PutVarint32 buffer (of_nat non_shared);
          buffer = PutVarint32 buffer (of_nat (length val));
          buffer = buffer @ drop shared key;
          buffer = buffer @ val
      in b\<lparr>bb_buffer := buffer, bb_last_key := take shared (bb_last_key b) @ drop shared key,
           bb_counter := bb_counter b + 1\<rparr>)"

section \<open>The format of a block\<close>

text \<open>
  An entry is the number of bytes it shares with the key before it, its key and its value. The
  position of an entry is the number of bytes of the entries before it; the restart points are
  positions of entries that share nothing.
\<close>

type_synonym entry = "nat \<times> bytes \<times> bytes"

fun entry_bytes :: "entry \<Rightarrow> bytes" where
  "entry_bytes (s, k, v) = varint s @ varint (length k - s) @ varint (length v) @ drop s k @ v"

definition entries_bytes :: "entry list \<Rightarrow> bytes" where
  "entries_bytes es = concat (map entry_bytes es)"

definition entry_pos :: "entry list \<Rightarrow> nat \<Rightarrow> nat" where
  "entry_pos es i = length (entries_bytes (take i es))"

definition entry_key :: "entry list \<Rightarrow> nat \<Rightarrow> bytes" where
  "entry_key es i = fst (snd (es ! i))"

definition entry_val :: "entry list \<Rightarrow> nat \<Rightarrow> bytes" where
  "entry_val es i = snd (snd (es ! i))"

fun shares_ok :: "bytes \<Rightarrow> entry list \<Rightarrow> bool" where
  "shares_ok lk [] \<longleftrightarrow> True"
| "shares_ok lk ((s, k, v) # es) \<longleftrightarrow>
     s \<le> length lk \<and> s \<le> length k \<and> take s lk = take s k \<and> shares_ok k es"

definition restarts_ok :: "entry list \<Rightarrow> nat list \<Rightarrow> bool" where
  "restarts_ok es rs \<longleftrightarrow>
     rs \<noteq> [] \<and> hd rs = 0 \<and> sorted_wrt (<) rs \<and>
     (\<forall>r \<in> set rs. r = 0 \<or> r < length es) \<and> (\<forall>r \<in> set rs. r < length es \<longrightarrow> fst (es ! r) = 0)"

definition block_bytes :: "entry list \<Rightarrow> nat list \<Rightarrow> bytes" where
  "block_bytes es rs =
     entries_bytes es @ concat (map (\<lambda>r. EncodeFixed32 (of_nat (entry_pos es r))) rs) @ EncodeFixed32 (of_nat (length rs))"

definition block_ok :: "entry list \<Rightarrow> nat list \<Rightarrow> bool" where
  "block_ok es rs \<longleftrightarrow> shares_ok [] es \<and> restarts_ok es rs \<and> length (block_bytes es rs) < 2 ^ 32"

definition kvs :: "entry list \<Rightarrow> (bytes \<times> bytes) list" where
  "kvs es = map snd es"

lemma length_kvs [simp]: "length (kvs es) = length es"
  by (simp add: kvs_def)

lemma kvs_nth [simp]: "i < length es \<Longrightarrow> kvs es ! i = (entry_key es i, entry_val es i)"
  by (simp add: kvs_def entry_key_def entry_val_def)

lemma entries_bytes_Nil [simp]: "entries_bytes [] = []"
  and entries_bytes_Cons [simp]: "entries_bytes (e # es) = entry_bytes e @ entries_bytes es"
  and entries_bytes_append [simp]: "entries_bytes (es @ fs) = entries_bytes es @ entries_bytes fs"
  by (simp_all add: entries_bytes_def)

lemma entry_bytes_length_ge_3: "3 \<le> length (entry_bytes e)"
proof -
  obtain s k v where e: "e = (s, k, v)" by (rule prod_cases3)
  have "0 < length (varint n)" for n by simp
  from this [of s] this [of "length k - s"] this [of "length v"] show ?thesis by (simp add: e del: length_varint_pos length_greater_0_conv)
qed

lemma entry_pos_0 [simp]: "entry_pos es 0 = 0"
  by (simp add: entry_pos_def)

lemma entry_pos_Suc: "i < length es \<Longrightarrow> entry_pos es (Suc i) = entry_pos es i + length (entry_bytes (es ! i))"
  by (simp add: entry_pos_def take_Suc_conv_app_nth)

lemma entry_pos_all [simp]: "length es \<le> i \<Longrightarrow> entry_pos es i = length (entries_bytes es)"
  by (simp add: entry_pos_def)

lemma entry_pos_append [simp]: "i \<le> length es \<Longrightarrow> entry_pos (es @ fs) i = entry_pos es i"
  by (simp add: entry_pos_def)

lemma entry_pos_strict: "i < j \<Longrightarrow> j \<le> length es \<Longrightarrow> entry_pos es i < entry_pos es j"
proof (induction j)
  case (Suc j)
  then have "entry_pos es i \<le> entry_pos es j" by (cases "i = j") auto
  moreover have "3 \<le> length (entry_bytes (es ! j))" by (rule entry_bytes_length_ge_3)
  ultimately show ?case using Suc.prems entry_pos_Suc [of j es] by simp
qed simp

lemma entry_pos_less_iff: "i \<le> length es \<Longrightarrow> j \<le> length es \<Longrightarrow> entry_pos es i < entry_pos es j \<longleftrightarrow> i < j"
  using entry_pos_strict [of i j es] entry_pos_strict [of j i es]
  by (cases i j rule: linorder_cases) auto

lemma entry_pos_le: "entry_pos es i \<le> length (entries_bytes es)"
proof -
  have "entries_bytes es = entries_bytes (take i es) @ entries_bytes (drop i es)"
    by (metis append_take_drop_id entries_bytes_append)
  then show ?thesis by (simp add: entry_pos_def)
qed

lemma entries_bytes_split:
  "i < length es \<Longrightarrow> entries_bytes es = entries_bytes (take i es) @ entry_bytes (es ! i) @ entries_bytes (drop (Suc i) es)"
  by (metis entries_bytes_Cons entries_bytes_append id_take_nth_drop)

lemma shares_ok_nth:
  "shares_ok lk es \<Longrightarrow> i < length es \<Longrightarrow> es ! i = (s, k, v) \<Longrightarrow>
   s \<le> length k \<and> s \<le> length (if i = 0 then lk else entry_key es (i - 1))
     \<and> take s (if i = 0 then lk else entry_key es (i - 1)) = take s k"
proof (induction es arbitrary: lk i)
  case (Cons e es)
  obtain s' k' v' where e: "e = (s', k', v')" by (rule prod_cases3)
  show ?case
  proof (cases i)
    case 0
    with Cons.prems e show ?thesis by simp
  next
    case (Suc j)
    from Cons.prems have "shares_ok k' es" by (simp add: e)
    from Cons.IH [OF this, of j] Cons.prems Suc show ?thesis
      by (cases j) (auto simp: e entry_key_def)
  qed
qed simp

lemma shares_ok_snoc:
  "shares_ok lk (es @ [(s, k, v)]) \<longleftrightarrow>
   shares_ok lk es \<and> s \<le> length (if es = [] then lk else fst (snd (last es))) \<and> s \<le> length k
     \<and> take s (if es = [] then lk else fst (snd (last es))) = take s k"
  by (induction es arbitrary: lk) auto

section \<open>What the builder builds\<close>

definition bb_rep :: "block_builder \<Rightarrow> entry list \<Rightarrow> nat list \<Rightarrow> bool" where
  "bb_rep b es rs \<longleftrightarrow>
     bb_buffer b = entries_bytes es \<and> bb_restarts b = map (\<lambda>r. of_nat (entry_pos es r)) rs \<and>
     bb_last_key b = (if es = [] then [] else fst (snd (last es))) \<and>
     (es = [] \<longrightarrow> bb_counter b = 0) \<and> shares_ok [] es \<and> restarts_ok es rs"

lemma BlockBuilder_init_rep: "bb_rep BlockBuilder_init [] [0]"
  by (simp add: bb_rep_def BlockBuilder_init_def restarts_ok_def)

lemma BlockBuilder_Reset_init: "BlockBuilder_Reset b = BlockBuilder_init"
  by (simp add: BlockBuilder_Reset_def BlockBuilder_init_def)

lemma unat_of_nat_le_32: "n \<le> m \<Longrightarrow> m < 2 ^ 32 \<Longrightarrow> unat (of_nat n :: uint32) = n"
  by (rule unat_of_nat_32) simp

lemma restarts_ok_snoc:
  assumes "restarts_ok es rs" and "es = [] \<longrightarrow> fst e = 0"
  shows "restarts_ok (es @ [e]) rs"
  using assms by (fastforce simp: restarts_ok_def nth_append)

lemma restarts_ok_new:
  assumes "restarts_ok es rs" "es \<noteq> []" "fst e = 0"
  shows "restarts_ok (es @ [e]) (rs @ [length es])"
  using assms by (fastforce simp: restarts_ok_def nth_append sorted_wrt_append)

lemma BlockBuilder_Add_rep:
  assumes rep: "bb_rep b es rs" and "1 \<le> interval"
    and size: "length key < 2 ^ 32" "length val < 2 ^ 32"
  shows "\<exists>s rs'. bb_rep (BlockBuilder_Add interval b key val) (es @ [(s, key, val)]) rs'"
proof (cases "bb_counter b < interval")
  case True
  let ?last = "bb_last_key b"
  let ?s = "prefix_loop 0 (min (length ?last) (length key)) ?last key"
  have s: "?s \<le> min (length ?last) (length key)" "take ?s ?last = take ?s key"
    by (rule prefix_loop_0; simp)+
  have enc: "BlockBuilder_Add interval b key val =
      b\<lparr>bb_buffer := bb_buffer b @ entry_bytes (?s, key, val), bb_last_key := key, bb_counter := bb_counter b + 1\<rparr>"
    using True s size
    by (simp add: BlockBuilder_Add_def Let_def PutVarint32_def EncodeVarint32_varint unat_of_nat_le_32 [OF _ size(1)] unat_of_nat_32)
  have 1: "restarts_ok (es @ [(?s, key, val)]) rs"
    using rep s by (intro restarts_ok_snoc) (auto simp: bb_rep_def)
  have "bb_rep (BlockBuilder_Add interval b key val) (es @ [(?s, key, val)]) rs"
    using rep s 1 unfolding enc by (auto simp: bb_rep_def shares_ok_snoc restarts_ok_def)
  then show ?thesis by blast
next
  case False
  then have ne: "es \<noteq> []" using rep assms(2) by (auto simp: bb_rep_def)
  have enc: "BlockBuilder_Add interval b key val =
      b\<lparr>bb_buffer := bb_buffer b @ entry_bytes (0, key, val), bb_last_key := key, bb_counter := 1,
        bb_restarts := bb_restarts b @ [of_nat (length (bb_buffer b))]\<rparr>"
    using False size
    by (simp add: BlockBuilder_Add_def Let_def PutVarint32_def EncodeVarint32_varint unat_of_nat_32)
  have "restarts_ok (es @ [(0, key, val)]) (rs @ [length es])"
    using rep ne by (intro restarts_ok_new) (auto simp: bb_rep_def)
  then have "bb_rep (BlockBuilder_Add interval b key val) (es @ [(0, key, val)]) (rs @ [length es])"
    using rep ne unfolding enc by (auto simp: bb_rep_def shares_ok_snoc restarts_ok_def)
  then show ?thesis by blast
qed

lemma foldl_PutFixed32: "foldl PutFixed32 r os = r @ concat (map EncodeFixed32 os)"
  by (induction os arbitrary: r) (simp_all add: PutFixed32_def)

lemma BlockBuilder_Finish_bytes:
  "bb_rep b es rs \<Longrightarrow> snd (BlockBuilder_Finish b) = block_bytes es rs"
  by (simp add: BlockBuilder_Finish_def Let_def bb_rep_def foldl_PutFixed32 PutFixed32_def block_bytes_def comp_def)

lemma CurrentSizeEstimate_exact:
  "CurrentSizeEstimate b = length (snd (BlockBuilder_Finish b))"
proof -
  have "length (concat (map EncodeFixed32 os)) = 4 * length os" for os by (induction os) simp_all
  then show ?thesis
    by (simp add: CurrentSizeEstimate_def BlockBuilder_Finish_def Let_def foldl_PutFixed32 PutFixed32_def)
qed

text \<open>A run of the builder over a list of keys and values.\<close>

definition build_block :: "nat \<Rightarrow> (bytes \<times> bytes) list \<Rightarrow> block_builder" where
  "build_block interval l = foldl (\<lambda>b (k, v). BlockBuilder_Add interval b k v) BlockBuilder_init l"

lemma build_block_rep:
  assumes "1 \<le> interval" "\<forall>(k, v) \<in> set l. length k < 2 ^ 32 \<and> length v < 2 ^ 32"
  shows "\<exists>es rs. bb_rep (build_block interval l) es rs \<and> kvs es = l"
  using assms(2)
proof (induction l rule: rev_induct)
  case Nil
  show ?case using BlockBuilder_init_rep by (auto simp: build_block_def kvs_def)
next
  case (snoc kv l)
  obtain k v where kv: "kv = (k, v)" by (rule prod.exhaust)
  from snoc obtain es rs where IH: "bb_rep (build_block interval l) es rs" "kvs es = l" by auto
  from BlockBuilder_Add_rep [OF IH(1) assms(1), of k v] snoc.prems
  obtain s rs' where "bb_rep (BlockBuilder_Add interval (build_block interval l) k v) (es @ [(s, k, v)]) rs'"
    by (auto simp: kv)
  then show ?case using IH(2)
    by (intro exI [of _ "es @ [(s, k, v)]"] exI [of _ rs']) (simp add: kv build_block_def kvs_def)
qed

text \<open>An entry takes at most three varints of five bytes, its key, its value and a restart point.\<close>

lemma BlockBuilder_Add_size:
  "CurrentSizeEstimate (BlockBuilder_Add interval b key val) \<le> CurrentSizeEstimate b + 19 + length key + length val"
proof -
  have v: "length (PutVarint32 dst x) \<le> length dst + 5" for dst x
    using length_EncodeVarint32 [of x] by (simp add: PutVarint32_def)
  define sh where "sh = (if bb_counter b < interval
      then prefix_loop 0 (min (length (bb_last_key b)) (length key)) (bb_last_key b) key else 0)"
  define P where "P = PutVarint32 (PutVarint32 (PutVarint32 (bb_buffer b) (of_nat sh)) (of_nat (length key - sh))) (of_nat (length val))"
  have P: "length P \<le> length (bb_buffer b) + 15"
    unfolding P_def by (rule order_trans [OF v], rule order_trans [OF add_right_mono [OF v]],
        rule order_trans [OF add_right_mono [OF add_right_mono [OF v]]]) simp
  have "bb_buffer (BlockBuilder_Add interval b key val) = P @ drop sh key @ val"
    "length (bb_restarts (BlockBuilder_Add interval b key val)) \<le> length (bb_restarts b) + 1"
    by (cases "bb_counter b < interval"; simp add: BlockBuilder_Add_def Let_def P_def sh_def)+
  with P show ?thesis by (simp add: CurrentSizeEstimate_def)
qed

lemma build_block_size:
  "length (snd (BlockBuilder_Finish (build_block interval l))) \<le> 8 + sum_list (map (\<lambda>(k, v). 19 + length k + length v) l)"
proof -
  have "CurrentSizeEstimate (build_block interval l) \<le> 8 + sum_list (map (\<lambda>(k, v). 19 + length k + length v) l)"
  proof (induction l rule: rev_induct)
    case Nil
    show ?case by (simp add: build_block_def BlockBuilder_init_def CurrentSizeEstimate_def)
  next
    case (snoc kv l)
    obtain k v where "kv = (k, v)" by (rule prod.exhaust)
    with snoc BlockBuilder_Add_size [of interval "build_block interval l" k v] show ?case
      by (simp add: build_block_def)
  qed
  then show ?thesis by (simp add: CurrentSizeEstimate_exact)
qed

end
