(* ===== verification/Iterator_Api.thy ===== *)
theory Iterator_Api imports Comparators "HOL-Library.Monad_Syntax" begin

text \<open>
  \<^verbatim>\<open>include/leveldb/iterator.h\<close>, \<^verbatim>\<open>table/iterator.cc\<close> and \<^verbatim>\<open>table/iterator_wrapper.h\<close>.
  The abstract class \<open>Iterator\<close> is a record of operations, its table of virtual functions; a move
  returns the moved iterator, or \<open>None\<close> when its loops do not end. The contract is a locale: an
  iterator ranges over a sorted list of keys and values and stands at one of them or past the
  end; \<open>rep it l i\<close> says that \<open>it\<close> ranges over \<open>l\<close> and stands at position \<open>i\<close>, where
  \<open>i = length l\<close> is the state that is not valid. The laws say where each operation moves it (so
  also that the move ends). \<open>Prev\<close> from the first position and \<open>Next\<close> from the last one both
  leave it not valid. An iterator with a wrapper meets the contract again.
\<close>

section \<open>Positions in a sorted list\<close>

definition lower_bound :: "('k \<Rightarrow> 'k \<Rightarrow> int) \<Rightarrow> ('k \<times> 'v) list \<Rightarrow> 'k \<Rightarrow> nat" where
  "lower_bound cmp l t = length (takeWhile (\<lambda>(k, v). cmp k t < 0) l)"

definition cmp_sorted :: "('k \<Rightarrow> 'k \<Rightarrow> int) \<Rightarrow> ('k \<times> 'v) list \<Rightarrow> bool" where
  "cmp_sorted cmp l \<longleftrightarrow> sorted_wrt (\<lambda>a b. cmp (fst a) (fst b) < 0) l"

lemma lower_bound_le: "lower_bound cmp l t \<le> length l"
  by (simp add: lower_bound_def length_takeWhile_le)

lemma lower_bound_before: "i < lower_bound cmp l t \<Longrightarrow> cmp (fst (l ! i)) t < 0"
  using nth_mem [of i "takeWhile (\<lambda>(k, v). cmp k t < 0) l"]
  by (auto simp: lower_bound_def takeWhile_nth dest!: set_takeWhileD split: prod.splits)

lemma lower_bound_at: "lower_bound cmp l t < length l \<Longrightarrow> \<not> cmp (fst (l ! lower_bound cmp l t)) t < 0"
  using nth_length_takeWhile [of "\<lambda>(k, v). cmp k t < 0" l] by (auto simp: lower_bound_def split: prod.splits)

lemma lower_bound_unique:
  assumes "i \<le> length l" "\<And>j. j < i \<Longrightarrow> cmp (fst (l ! j)) t < 0" "i < length l \<Longrightarrow> \<not> cmp (fst (l ! i)) t < 0"
  shows "i = lower_bound cmp l t"
proof (rule linorder_cases [of i "lower_bound cmp l t"])
  assume "i < lower_bound cmp l t"
  with lower_bound_before [OF this] lower_bound_le [of cmp l t] assms(3) show ?thesis by simp
next
  assume *: "lower_bound cmp l t < i"
  then show ?thesis using lower_bound_at [of cmp l t] assms(1,2) by simp
qed

context comparator
begin

text \<open>In a sorted list the entries from the lower bound on are the ones not less than the target.\<close>

lemma drop_lower_bound:
  assumes sorted: "cmp_sorted cmp l" and keys: "\<forall>(k, v) \<in> set l. valid k" and t: "valid t"
  shows "drop (lower_bound cmp l t) l = filter (\<lambda>(k, v). cmp k t \<ge> 0) l"
proof -
  let ?j = "lower_bound cmp l t"
  have vl: "valid (fst (l ! i))" if "i < length l" for i
    using keys nth_mem [OF that] by (cases "l ! i") auto
  have ge: "\<not> cmp (fst (l ! i)) t < 0" if "?j \<le> i" "i < length l" for i
  proof
    assume less: "cmp (fst (l ! i)) t < 0"
    have "\<not> cmp (fst (l ! ?j)) t < 0" using lower_bound_at [of cmp l t] that by simp
    moreover have "cmp (fst (l ! ?j)) (fst (l ! i)) \<le> 0"
      using sorted that sorted_wrt_nth_less [of "\<lambda>a b. cmp (fst a) (fst b) < 0" l ?j i] cmp_refl vl
      by (cases "?j = i") (auto simp: cmp_sorted_def)
    ultimately show False
      using cmp_le_less_trans [of "fst (l ! ?j)" "fst (l ! i)" t] less vl that t by simp
  qed
  have "\<forall>e \<in> set (drop ?j l). \<not> cmp (fst e) t < 0"
  proof
    fix e
    assume "e \<in> set (drop ?j l)"
    then obtain i where "i < length l - ?j" "e = l ! (?j + i)" by (auto simp: in_set_conv_nth)
    with ge [of "?j + i"] show "\<not> cmp (fst e) t < 0" by simp
  qed
  moreover have "\<forall>e \<in> set (take ?j l). cmp (fst e) t < 0"
    using lower_bound_before [of _ cmp l t] lower_bound_le [of cmp l t] by (fastforce simp: in_set_conv_nth)
  ultimately have "filter (\<lambda>(k, v). cmp k t \<ge> 0) (take ?j l) = []"
    "filter (\<lambda>(k, v). cmp k t \<ge> 0) (drop ?j l) = drop ?j l"
    by (fastforce simp: filter_empty_conv filter_id_conv)+
  then show ?thesis by (metis append_Nil append_take_drop_id filter_append)
qed

end

section \<open>The operations and their contract\<close>

record 's iter_ops =
  op_Valid :: "'s \<Rightarrow> bool"
  op_SeekToFirst :: "'s \<Rightarrow> 's option"
  op_SeekToLast :: "'s \<Rightarrow> 's option"
  op_Seek :: "'s \<Rightarrow> bytes \<Rightarrow> 's option"
  op_Next :: "'s \<Rightarrow> 's option"
  op_Prev :: "'s \<Rightarrow> 's option"
  op_key :: "'s \<Rightarrow> bytes"
  op_value :: "'s \<Rightarrow> bytes"
  op_status :: "'s \<Rightarrow> status"

text \<open>Reading with an iterator while it is valid, \<open>n\<close> entries at most.\<close>

fun iter_read :: "('s iter_ops \<Rightarrow> 's \<Rightarrow> 's option) \<Rightarrow> 's iter_ops \<Rightarrow> nat \<Rightarrow> 's \<Rightarrow> (bytes \<times> bytes) list option" where
  "iter_read step ops 0 it = Some []"
| "iter_read step ops (Suc n) it =
     (if op_Valid ops it
      then do { it' \<leftarrow> step ops it; es \<leftarrow> iter_read step ops n it'; Some ((op_key ops it, op_value ops it) # es) }
      else Some [])"

definition read_forward :: "'s iter_ops \<Rightarrow> nat \<Rightarrow> 's \<Rightarrow> (bytes \<times> bytes) list option" where
  "read_forward ops n it = do { it \<leftarrow> op_SeekToFirst ops it; iter_read op_Next ops n it }"

definition read_backward :: "'s iter_ops \<Rightarrow> nat \<Rightarrow> 's \<Rightarrow> (bytes \<times> bytes) list option" where
  "read_backward ops n it = do { it \<leftarrow> op_SeekToLast ops it; iter_read op_Prev ops n it }"

definition read_from :: "'s iter_ops \<Rightarrow> bytes \<Rightarrow> nat \<Rightarrow> 's \<Rightarrow> (bytes \<times> bytes) list option" where
  "read_from ops t n it = do { it \<leftarrow> op_Seek ops it t; iter_read op_Next ops n it }"

locale iterator =
  fixes rep :: "'s \<Rightarrow> (bytes \<times> bytes) list \<Rightarrow> nat \<Rightarrow> bool"
    and cmp :: "bytes \<Rightarrow> bytes \<Rightarrow> int"
    and kvalid :: "bytes \<Rightarrow> bool"
    and ops :: "'s iter_ops"
  assumes rep_le: "rep it l i \<Longrightarrow> i \<le> length l"
    and valid_iff: "rep it l i \<Longrightarrow> op_Valid ops it \<longleftrightarrow> i < length l"
    and key_eq: "rep it l i \<Longrightarrow> i < length l \<Longrightarrow> op_key ops it = fst (l ! i)"
    and value_eq: "rep it l i \<Longrightarrow> i < length l \<Longrightarrow> op_value ops it = snd (l ! i)"
    and status_ok: "rep it l i \<Longrightarrow> op_status ops it = OK"
    and rep_sorted: "rep it l i \<Longrightarrow> cmp_sorted cmp l"
    and rep_keys: "rep it l i \<Longrightarrow> (k, v) \<in> set l \<Longrightarrow> kvalid k"
    and seek_first_rep: "rep it l i \<Longrightarrow> \<exists>it'. op_SeekToFirst ops it = Some it' \<and> rep it' l 0"
    and seek_last_rep: "rep it l i \<Longrightarrow> \<exists>it'. op_SeekToLast ops it = Some it' \<and> rep it' l (length l - 1)"
    and seek_rep: "rep it l i \<Longrightarrow> kvalid t \<Longrightarrow> \<exists>it'. op_Seek ops it t = Some it' \<and> rep it' l (lower_bound cmp l t)"
    and next_rep: "rep it l i \<Longrightarrow> i < length l \<Longrightarrow> \<exists>it'. op_Next ops it = Some it' \<and> rep it' l (Suc i)"
    and prev_rep: "rep it l i \<Longrightarrow> i < length l \<Longrightarrow>
      \<exists>it'. op_Prev ops it = Some it' \<and> rep it' l (if i = 0 then length l else i - 1)"
begin

lemma entry_eq: "rep it l i \<Longrightarrow> i < length l \<Longrightarrow> (op_key ops it, op_value ops it) = l ! i"
  by (simp add: key_eq value_eq)

lemma read_next: "rep it l i \<Longrightarrow> length l - i \<le> n \<Longrightarrow> iter_read op_Next ops n it = Some (drop i l)"
proof (induction n arbitrary: it i)
  case 0
  then show ?case by simp
next
  case (Suc n)
  show ?case
  proof (cases "i < length l")
    case True
    obtain it' where it': "op_Next ops it = Some it'" "rep it' l (Suc i)"
      using next_rep [OF Suc.prems(1) True] by blast
    with Suc.prems Suc.IH [OF it'(2)] True show ?thesis
      by (simp add: valid_iff [OF Suc.prems(1)] entry_eq [OF Suc.prems(1)] Cons_nth_drop_Suc)
  next
    case False
    with Suc.prems show ?thesis by (simp add: valid_iff [OF Suc.prems(1)])
  qed
qed

lemma read_prev:
  "rep it l i \<Longrightarrow> i < length l \<Longrightarrow> i < n \<Longrightarrow> iter_read op_Prev ops n it = Some (rev (take (Suc i) l))"
proof (induction n arbitrary: it i)
  case 0
  then show ?case by simp
next
  case (Suc n)
  obtain it' where it': "op_Prev ops it = Some it'" "rep it' l (if i = 0 then length l else i - 1)"
    using prev_rep [OF Suc.prems(1,2)] by blast
  have first: "iter_read op_Prev ops (Suc n) it = do { es \<leftarrow> iter_read op_Prev ops n it'; Some (l ! i # es) }"
    using Suc.prems it' by (simp add: valid_iff [OF Suc.prems(1)] entry_eq [OF Suc.prems(1)])
  show ?case
  proof (cases i)
    case 0
    then have "iter_read op_Prev ops n it' = Some []" using it'(2) by (cases n) (simp_all add: valid_iff)
    with first 0 Suc.prems show ?thesis by (cases l) simp_all
  next
    case (Suc j)
    then have "rep it' l j" using it'(2) by simp
    from Suc.IH [OF this] Suc Suc.prems first show ?thesis by (simp add: take_Suc_conv_app_nth)
  qed
qed

lemma read_forward_all:
  assumes "rep it l i"
  shows "read_forward ops (length l + n) it = Some l"
proof -
  obtain it' where "op_SeekToFirst ops it = Some it'" "rep it' l 0" using seek_first_rep [OF assms] by blast
  then show ?thesis using read_next [of it' l 0 "length l + n"] by (simp add: read_forward_def)
qed

lemma read_backward_all:
  assumes "rep it l i"
  shows "read_backward ops (length l + n) it = Some (rev l)"
proof -
  obtain it' where it': "op_SeekToLast ops it = Some it'" "rep it' l (length l - 1)"
    using seek_last_rep [OF assms] by blast
  show ?thesis
  proof (cases "l = []")
    case True
    then show ?thesis using it' valid_iff [OF it'(2)] by (cases n) (simp_all add: read_backward_def)
  next
    case False
    then have "0 < length l" by simp
    then have "length l - 1 < length l" "length l - 1 < length l + n" by linarith+
    from read_prev [OF it'(2) this] it'(1) \<open>0 < length l\<close> show ?thesis by (simp add: read_backward_def)
  qed
qed

lemma read_from_lower_bound:
  assumes "rep it l i" "kvalid t"
  shows "read_from ops t (length l + n) it = Some (drop (lower_bound cmp l t) l)"
proof -
  obtain it' where "op_Seek ops it t = Some it'" "rep it' l (lower_bound cmp l t)" using seek_rep [OF assms] by blast
  then show ?thesis using read_next [of it' l "lower_bound cmp l t" "length l + n"] by (simp add: read_from_def)
qed

end

section \<open>The empty iterator\<close>

text \<open>\<open>EmptyIterator\<close> of \<^verbatim>\<open>table/iterator.cc\<close>, also the iterator that only carries an error.\<close>

datatype empty_iterator = EmptyIterator status

definition NewEmptyIterator :: empty_iterator where
  "NewEmptyIterator = EmptyIterator OK"

definition NewErrorIterator :: "status \<Rightarrow> empty_iterator" where
  "NewErrorIterator s = EmptyIterator s"

fun empty_status :: "empty_iterator \<Rightarrow> status" where
  "empty_status (EmptyIterator s) = s"

definition empty_ops :: "empty_iterator iter_ops" where
  "empty_ops = \<lparr>op_Valid = \<lambda>_. False, op_SeekToFirst = Some, op_SeekToLast = Some, op_Seek = \<lambda>it _. Some it,
     op_Next = Some, op_Prev = Some, op_key = \<lambda>_. [], op_value = \<lambda>_. [], op_status = empty_status\<rparr>"

definition empty_rep :: "empty_iterator \<Rightarrow> (bytes \<times> bytes) list \<Rightarrow> nat \<Rightarrow> bool" where
  "empty_rep it l i \<longleftrightarrow> it = NewEmptyIterator \<and> l = [] \<and> i = 0"

interpretation empty_it: iterator empty_rep cmp kvalid empty_ops for cmp kvalid
  by unfold_locales (auto simp: empty_rep_def empty_ops_def NewEmptyIterator_def cmp_sorted_def lower_bound_def)

section \<open>The wrapper that caches validity and key\<close>

text \<open>A move of a wrapper without an iterator, where the code's assertion fails, has no result.\<close>

record 's wrapper =
  w_iter :: "'s option"
  w_valid :: bool
  w_key :: bytes

definition wrapper_init :: "'s wrapper" where
  "wrapper_init = \<lparr>w_iter = None, w_valid = False, w_key = []\<rparr>"

definition w_Update :: "'s iter_ops \<Rightarrow> 's wrapper \<Rightarrow> 's wrapper" where
  "w_Update ops w =
     (case w_iter w of
        None \<Rightarrow> w
      | Some it \<Rightarrow>
          let w = w\<lparr>w_valid := op_Valid ops it\<rparr>
          in if w_valid w then w\<lparr>w_key := op_key ops it\<rparr> else w)"

definition w_Set :: "'s iter_ops \<Rightarrow> 's wrapper \<Rightarrow> 's option \<Rightarrow> 's wrapper" where
  "w_Set ops w it =
     (let w = w\<lparr>w_iter := it\<rparr>
      in if it = None then w\<lparr>w_valid := False\<rparr> else w_Update ops w)"

definition w_move :: "'s iter_ops \<Rightarrow> ('s \<Rightarrow> 's option) \<Rightarrow> 's wrapper \<Rightarrow> 's wrapper option" where
  "w_move ops f w =
     (case w_iter w of
        None \<Rightarrow> None
      | Some it \<Rightarrow> do { it \<leftarrow> f it; Some (w_Update ops (w\<lparr>w_iter := Some it\<rparr>)) })"

definition w_value :: "'s iter_ops \<Rightarrow> 's wrapper \<Rightarrow> bytes" where
  "w_value ops w = (case w_iter w of None \<Rightarrow> [] | Some it \<Rightarrow> op_value ops it)"

definition w_status :: "'s iter_ops \<Rightarrow> 's wrapper \<Rightarrow> status" where
  "w_status ops w = (case w_iter w of None \<Rightarrow> OK | Some it \<Rightarrow> op_status ops it)"

definition wrapper_ops :: "'s iter_ops \<Rightarrow> 's wrapper iter_ops" where
  "wrapper_ops ops =
     \<lparr>op_Valid = w_valid, op_SeekToFirst = w_move ops (op_SeekToFirst ops), op_SeekToLast = w_move ops (op_SeekToLast ops),
      op_Seek = \<lambda>w k. w_move ops (\<lambda>it. op_Seek ops it k) w, op_Next = w_move ops (op_Next ops),
      op_Prev = w_move ops (op_Prev ops), op_key = w_key, op_value = w_value ops, op_status = w_status ops\<rparr>"

context iterator
begin

definition w_rep :: "'s wrapper \<Rightarrow> (bytes \<times> bytes) list \<Rightarrow> nat \<Rightarrow> bool" where
  "w_rep w l i \<longleftrightarrow> (\<exists>it. w_iter w = Some it \<and> rep it l i \<and> w_valid w = op_Valid ops it
     \<and> (w_valid w \<longrightarrow> w_key w = op_key ops it))"

lemma w_Update_rep: "w_iter w = Some it \<Longrightarrow> rep it l i \<Longrightarrow> w_rep (w_Update ops w) l i"
  by (auto simp: w_rep_def w_Update_def Let_def)

lemma w_Set_rep: "rep it l i \<Longrightarrow> w_rep (w_Set ops w (Some it)) l i"
  by (simp add: w_Set_def Let_def w_Update_rep)

lemma w_move_rep:
  assumes "w_rep w l i" "\<And>it. rep it l i \<Longrightarrow> \<exists>it'. f it = Some it' \<and> rep it' l j"
  shows "\<exists>w'. w_move ops f w = Some w' \<and> w_rep w' l j"
proof -
  obtain it where it: "w_iter w = Some it" "rep it l i" using assms(1) by (auto simp: w_rep_def)
  from assms(2) [OF it(2)] obtain it' where "f it = Some it'" "rep it' l j" by blast
  with it w_Update_rep [of "w\<lparr>w_iter := Some it'\<rparr>" it' l j] show ?thesis by (simp add: w_move_def)
qed

lemma wrapped: "iterator w_rep cmp kvalid (wrapper_ops ops)"
proof
  fix w l i
  assume w: "w_rep w l i"
  then obtain it where it: "w_iter w = Some it" "rep it l i" "w_valid w = op_Valid ops it" "w_valid w \<longrightarrow> w_key w = op_key ops it"
    by (auto simp: w_rep_def)
  show "i \<le> length l" "cmp_sorted cmp l" using rep_le rep_sorted it(2) by blast+
  show "op_Valid (wrapper_ops ops) w \<longleftrightarrow> i < length l" "op_status (wrapper_ops ops) w = OK"
    using it valid_iff [OF it(2)] status_ok [OF it(2)] by (simp_all add: wrapper_ops_def w_status_def)
  show "kvalid k" if "(k, v) \<in> set l" for k v using rep_keys it(2) that by blast
  show "\<exists>w'. op_SeekToFirst (wrapper_ops ops) w = Some w' \<and> w_rep w' l 0"
    "\<exists>w'. op_SeekToLast (wrapper_ops ops) w = Some w' \<and> w_rep w' l (length l - 1)"
    using w_move_rep [OF w] seek_first_rep seek_last_rep by (simp_all add: wrapper_ops_def)
  show "\<exists>w'. op_Seek (wrapper_ops ops) w t = Some w' \<and> w_rep w' l (lower_bound cmp l t)" if "kvalid t" for t
    using w_move_rep [OF w] seek_rep that by (simp add: wrapper_ops_def)
  assume i: "i < length l"
  show "op_key (wrapper_ops ops) w = fst (l ! i)" "op_value (wrapper_ops ops) w = snd (l ! i)"
    using it i valid_iff [OF it(2)] key_eq [OF it(2)] value_eq [OF it(2)] by (simp_all add: wrapper_ops_def w_value_def)
  show "\<exists>w'. op_Next (wrapper_ops ops) w = Some w' \<and> w_rep w' l (Suc i)"
    "\<exists>w'. op_Prev (wrapper_ops ops) w = Some w' \<and> w_rep w' l (if i = 0 then length l else i - 1)"
    using w_move_rep [OF w] next_rep prev_rep i by (simp_all add: wrapper_ops_def)
qed

end

end
