(* ===== verification/Block.thy ===== *)
theory Block imports BlockBuilder Iterator_Api begin

text \<open>
  \<^verbatim>\<open>table/block.h\<close> and \<^verbatim>\<open>table/block.cc\<close>: the contents of a block, the decoder of its
  entries and the iterator over them. Offsets in the block are the 32-bit words the code keeps; a
  pointer into the data is its offset. The iterator's \<open>value_\<close> is a slice of the data, given by
  its offset and length; a cleared one has length 0 (its offset is not used again). The binary
  search computes on naturals: a block shorter than 2^32 bytes has less than 2^30 restart points
  (\<open>NumRestarts_bound\<close>), so that \<open>left + right + 1\<close> does not wrap. The loops end on every data,
  correct or not, because each decoded entry moves the offset towards the restart array.
\<close>

section \<open>The block\<close>

record block =
  blk_data :: bytes
  blk_size :: nat
  blk_restart_offset :: uint32

definition NumRestarts :: "bytes \<Rightarrow> nat \<Rightarrow> uint32" where
  "NumRestarts data sz = DecodeFixed32 (drop (sz - 4) data)"

definition Block_make :: "bytes \<Rightarrow> block" where
  "Block_make contents =
     (let sz = length contents in
      if sz < 4 then \<lparr>blk_data = contents, blk_size = 0, blk_restart_offset = 0\<rparr>
      else let max_restarts_allowed = (sz - 4) div 4 in
        if unat (NumRestarts contents sz) > max_restarts_allowed
        then \<lparr>blk_data = contents, blk_size = 0, blk_restart_offset = 0\<rparr>
        else \<lparr>blk_data = contents, blk_size = sz,
               blk_restart_offset = of_nat (sz - unat (1 + NumRestarts contents sz) * 4)\<rparr>)"

definition DecodeEntry_slow :: "bytes \<Rightarrow> nat \<Rightarrow> nat \<Rightarrow> (uint32 \<times> uint32 \<times> uint32 \<times> nat) option" where
  "DecodeEntry_slow data p limit =
     (case GetVarint32Ptr (take (limit - p) (drop p data)) of
        None \<Rightarrow> None
      | Some (shared, q) \<Rightarrow> (case GetVarint32Ptr q of
            None \<Rightarrow> None
          | Some (non_shared, q) \<Rightarrow> (case GetVarint32Ptr q of
                None \<Rightarrow> None
              | Some (value_length, q) \<Rightarrow> Some (shared, non_shared, value_length, limit - length q))))"

definition DecodeEntry :: "bytes \<Rightarrow> nat \<Rightarrow> nat \<Rightarrow> (uint32 \<times> uint32 \<times> uint32 \<times> nat) option" where
  "DecodeEntry data p limit =
     (if int limit - int p < 3 then None
      else let shared = ucast (data ! p); non_shared = ucast (data ! (p + 1)); value_length = ucast (data ! (p + 2)) in
        case (if shared OR non_shared OR value_length < (128 :: uint32)
              then Some (shared, non_shared, value_length, p + 3)
              else DecodeEntry_slow data p limit) of
          None \<Rightarrow> None
        | Some (shared, non_shared, value_length, p) \<Rightarrow>
            if of_nat (limit - p) < non_shared + value_length then None
            else Some (shared, non_shared, value_length, p))"

lemma unat_plus_1_32: "unat (x :: uint32) + 1 < 2 ^ 32 \<Longrightarrow> unat (x + 1) = unat x + 1"
  by (simp add: unat_word_ariths)

lemma unat_ucast_byte: "unat (ucast (c :: byte) :: uint32) = unat c"
  using unat_byte_less [of c] by (simp add: unsigned_ucast_eq take_bit_nat_eq_self_iff)

section \<open>The iterator\<close>

record block_iter =
  bi_data :: bytes
  bi_restarts :: uint32
  bi_num_restarts :: uint32
  bi_current :: uint32
  bi_restart_index :: uint32
  bi_key :: bytes
  bi_value :: "nat \<times> nat"
  bi_status :: status

definition block_Iter :: "bytes \<Rightarrow> uint32 \<Rightarrow> uint32 \<Rightarrow> block_iter" where
  "block_Iter data restarts num_restarts =
     \<lparr>bi_data = data, bi_restarts = restarts, bi_num_restarts = num_restarts, bi_current = restarts,
      bi_restart_index = num_restarts, bi_key = [], bi_value = (0, 0), bi_status = OK\<rparr>"

definition bi_Valid :: "block_iter \<Rightarrow> bool" where
  "bi_Valid it \<longleftrightarrow> bi_current it < bi_restarts it"

definition bi_value_bytes :: "block_iter \<Rightarrow> bytes" where
  "bi_value_bytes it = take (snd (bi_value it)) (drop (fst (bi_value it)) (bi_data it))"

definition NextEntryOffset :: "block_iter \<Rightarrow> uint32" where
  "NextEntryOffset it = of_nat (fst (bi_value it) + snd (bi_value it))"

definition GetRestartPoint :: "block_iter \<Rightarrow> uint32 \<Rightarrow> uint32" where
  "GetRestartPoint it index = DecodeFixed32 (drop (unat (bi_restarts it) + unat index * 4) (bi_data it))"

definition SeekToRestartPoint :: "block_iter \<Rightarrow> uint32 \<Rightarrow> block_iter" where
  "SeekToRestartPoint it index =
     it\<lparr>bi_key := [], bi_restart_index := index, bi_value := (unat (GetRestartPoint it index), 0)\<rparr>"

definition block_CorruptionError :: "block_iter \<Rightarrow> block_iter" where
  "block_CorruptionError it =
     it\<lparr>bi_current := bi_restarts it, bi_restart_index := bi_num_restarts it,
        bi_status := Corruption ''bad entry in block'', bi_key := [], bi_value := (0, 0)\<rparr>"

function advance_restart :: "block_iter \<Rightarrow> block_iter" where
  "advance_restart it =
     (if bi_restart_index it + 1 < bi_num_restarts it
         \<and> GetRestartPoint it (bi_restart_index it + 1) < bi_current it
      then advance_restart (it\<lparr>bi_restart_index := bi_restart_index it + 1\<rparr>) else it)"
  by pat_completeness auto
termination
proof (relation "measure (\<lambda>it. unat (bi_num_restarts it) - unat (bi_restart_index it + 1))")
  fix it :: block_iter
  assume "bi_restart_index it + 1 < bi_num_restarts it
         \<and> GetRestartPoint it (bi_restart_index it + 1) < bi_current it"
  then have lt: "unat (bi_restart_index it + 1) < unat (bi_num_restarts it)"
    by (simp add: word_less_nat_alt)
  then have "unat (bi_restart_index it + 1 + 1) = unat (bi_restart_index it + 1) + 1"
    using unat_less_2p32 [of "bi_num_restarts it"] by (intro unat_plus_1_32) simp
  with lt show "(it\<lparr>bi_restart_index := bi_restart_index it + 1\<rparr>, it) \<in>
      measure (\<lambda>it. unat (bi_num_restarts it) - unat (bi_restart_index it + 1))"
    by simp
qed simp

declare advance_restart.simps [simp del]

definition ParseNextKey :: "block_iter \<Rightarrow> bool \<times> block_iter" where
  "ParseNextKey it =
     (let it = it\<lparr>bi_current := NextEntryOffset it\<rparr>;
          p = unat (bi_current it);
          limit = unat (bi_restarts it)
      in if p \<ge> limit
         then (False, it\<lparr>bi_current := bi_restarts it, bi_restart_index := bi_num_restarts it\<rparr>)
         else case DecodeEntry (bi_data it) p limit of
             None \<Rightarrow> (False, block_CorruptionError it)
           | Some (shared, non_shared, value_length, p) \<Rightarrow>
               if length (bi_key it) < unat shared then (False, block_CorruptionError it)
               else let it = it\<lparr>bi_key := take (unat shared) (bi_key it) @ take (unat non_shared) (drop p (bi_data it)),
                                bi_value := (p + unat non_shared, unat value_length)\<rparr>
                    in (True, advance_restart it))"

section \<open>Every decoded entry makes progress\<close>

lemma or_less_128:
  "(a OR b OR c :: uint32) < 128 \<longleftrightarrow> a < 128 \<and> b < 128 \<and> c < 128"
proof -
  have lt: "w < 128 \<longleftrightarrow> drop_bit 7 w = 0" for w :: uint32
    using unat_lt_power_iff_drop_bit [of w 7] by (simp add: word_less_nat_alt)
  have or0: "x OR y = 0 \<longleftrightarrow> x = 0 \<and> y = 0" for x y :: uint32
    by (metis or.right_neutral or_eq_0_iff)
  show ?thesis by (simp only: lt drop_bit_or or0)
qed

lemma GetVarint32Ptr_single:
  "(ucast c :: uint32) < 128 \<Longrightarrow> GetVarint32Ptr (c # q) = Some (ucast c, q)"
proof -
  assume "(ucast c :: uint32) < 128"
  then have "unat c < 128" by (simp add: word_less_nat_alt unat_ucast_byte)
  then have "(of_nat (unat c) :: uint32) AND 128 = 0" by (rule and_128_lo) simp
  moreover have "(of_nat (unat c) :: uint32) = ucast c"
    by (simp add: word_unat_eq_iff unat_ucast_byte unat_of_nat_32 unat_byte_less less_trans [OF unat_byte_less])
  ultimately have "(ucast c :: uint32) AND 128 = 0" by (rule subst [rotated])
  then show ?thesis by (simp add: GetVarint32Ptr_def Let_def)
qed

text \<open>The fast path decodes what the slow one does.\<close>

lemma DecodeEntry_fast:
  assumes "p + 3 \<le> limit" "limit \<le> length data"
    and "(ucast (data ! p) OR ucast (data ! (p + 1)) OR ucast (data ! (p + 2)) :: uint32) < 128"
  shows "DecodeEntry_slow data p limit =
    Some (ucast (data ! p), ucast (data ! (p + 1)), ucast (data ! (p + 2)), p + 3)"
proof -
  have "take (limit - p) (drop p data) =
     data ! p # data ! (p + 1) # data ! (p + 2) # take (limit - p - 3) (drop (p + 3) data)"
    using assms(1,2)
    by (simp add: take_Cons' Cons_nth_drop_Suc [symmetric] less_diff_conv numeral_3_eq_3)
  then show ?thesis using assms
    by (simp add: DecodeEntry_slow_def or_less_128 GetVarint32Ptr_single)
qed

lemma DecodeEntry_slow_bounds:
  assumes "DecodeEntry_slow data p limit = Some (s, ns, vl, p')" "p < limit"
  shows "p + 3 \<le> p'" "p' \<le> limit"
proof -
  obtain q1 q2 q3 where g: "GetVarint32 (take (limit - p) (drop p data)) = Some (s, q1)"
    "GetVarint32 q1 = Some (ns, q2)" "GetVarint32 q2 = Some (vl, q3)" and p': "p' = limit - length q3"
    using assms(1) by (auto simp: DecodeEntry_slow_def GetVarint32_def split: option.splits)
  have "length q1 < length (take (limit - p) (drop p data))" "length q2 < length q1" "length q3 < length q2"
    using GetVarint32_suffix [OF g(1)] GetVarint32_suffix [OF g(2)] GetVarint32_suffix [OF g(3)] by (auto simp del: length_take)
  then show "p + 3 \<le> p'" "p' \<le> limit" using p' assms(2) by auto
qed

lemma DecodeEntry_bounds:
  assumes "DecodeEntry data p limit = Some (s, ns, vl, p')" "limit < 2 ^ 32"
  shows "p + 3 \<le> p' \<and> p' + unat (ns + vl) \<le> limit"
proof -
  have 3: "p + 3 \<le> limit" using assms(1) by (auto simp: DecodeEntry_def split: if_splits)
  have *: "p + 3 \<le> p' \<and> p' \<le> limit \<and> \<not> of_nat (limit - p') < ns + vl"
    using assms(1) 3 DecodeEntry_slow_bounds [of data p limit]
    by (fastforce simp: DecodeEntry_def Let_def split: option.splits if_splits)
  then have "unat (ns + vl) \<le> unat (of_nat (limit - p') :: uint32)"
    by (simp add: word_le_nat_alt not_less del: of_nat_diff)
  moreover have "unat (of_nat (limit - p') :: uint32) = limit - p'"
    using assms(2) by (intro unat_of_nat_32) simp
  ultimately show ?thesis using * by linarith
qed

lemma advance_restart_frame:
  "\<exists>ri. advance_restart it = it\<lparr>bi_restart_index := ri\<rparr>
     \<and> (bi_restart_index it < bi_num_restarts it \<longrightarrow> ri < bi_num_restarts it)"
proof (induction it rule: advance_restart.induct)
  case (1 it)
  show ?case
  proof (cases "bi_restart_index it + 1 < bi_num_restarts it
      \<and> GetRestartPoint it (bi_restart_index it + 1) < bi_current it")
    case True
    with 1 obtain ri where "advance_restart (it\<lparr>bi_restart_index := bi_restart_index it + 1\<rparr>) =
       it\<lparr>bi_restart_index := ri\<rparr>" "ri < bi_num_restarts it" by auto
    with True show ?thesis by (intro exI [of _ ri]) (simp add: advance_restart.simps [of it])
  next
    case False
    then show ?thesis
      by (intro exI [of _ "bi_restart_index it"]) (simp only: advance_restart.simps [of it], simp)
  qed
qed

lemma advance_restart_simps [simp]:
  "bi_data (advance_restart it) = bi_data it" "bi_restarts (advance_restart it) = bi_restarts it"
  "bi_num_restarts (advance_restart it) = bi_num_restarts it" "bi_current (advance_restart it) = bi_current it"
  "bi_key (advance_restart it) = bi_key it" "bi_value (advance_restart it) = bi_value it"
  "bi_status (advance_restart it) = bi_status it"
  using advance_restart_frame [of it] by auto

lemma advance_restart_index:
  "bi_restart_index it < bi_num_restarts it \<Longrightarrow> bi_restart_index (advance_restart it) < bi_num_restarts it"
  using advance_restart_frame [of it] by auto

lemma ParseNextKey_constants:
  "ParseNextKey it = (b, it') \<Longrightarrow>
   bi_data it' = bi_data it \<and> bi_restarts it' = bi_restarts it \<and> bi_num_restarts it' = bi_num_restarts it"
  by (auto simp: ParseNextKey_def Let_def block_CorruptionError_def split: if_splits option.splits)

lemma ParseNextKey_progress:
  assumes "ParseNextKey it = (True, it')"
  shows "unat (NextEntryOffset it) + 3 \<le> unat (NextEntryOffset it') \<and> unat (NextEntryOffset it') \<le> unat (bi_restarts it)"
proof -
  obtain s ns vl p where d: "DecodeEntry (bi_data it) (unat (NextEntryOffset it)) (unat (bi_restarts it)) = Some (s, ns, vl, p)"
    and it': "NextEntryOffset it' = of_nat (p + unat ns + unat vl)"
    using assms by (auto simp: ParseNextKey_def Let_def NextEntryOffset_def split: if_splits option.splits)
  have b: "unat (NextEntryOffset it) + 3 \<le> p" "p + unat (ns + vl) \<le> unat (bi_restarts it)"
    using DecodeEntry_bounds [OF d unat_less_2p32] by simp_all
  have "NextEntryOffset it' = of_nat (p + unat (ns + vl))" unfolding it' by simp
  then have "unat (NextEntryOffset it') = p + unat (ns + vl)"
    using b(2) unat_less_2p32 [of "bi_restarts it"] by (simp only: unat_of_nat_32)
  with b show ?thesis by simp
qed

abbreviation bi_remaining :: "block_iter \<Rightarrow> nat" where
  "bi_remaining it \<equiv> unat (bi_restarts it) - unat (NextEntryOffset it)"

lemma ParseNextKey_remaining:
  assumes "ParseNextKey it = (True, it')"
  shows "bi_remaining it' < bi_remaining it"
  using ParseNextKey_progress [OF assms] ParseNextKey_constants [OF assms] by auto

section \<open>The operations of the iterator\<close>

definition bi_Next :: "block_iter \<Rightarrow> block_iter" where
  "bi_Next it = snd (ParseNextKey it)"

text \<open>\<open>do {} while (ParseNextKey() && NextEntryOffset() < bound)\<close>\<close>

function parse_until :: "uint32 \<Rightarrow> block_iter \<Rightarrow> block_iter" where
  "parse_until bound it =
     (if fst (ParseNextKey it) \<and> NextEntryOffset (snd (ParseNextKey it)) < bound
      then parse_until bound (snd (ParseNextKey it)) else snd (ParseNextKey it))"
  by pat_completeness auto
termination
  by (relation "measure (bi_remaining \<circ> snd)") (auto intro!: ParseNextKey_remaining simp: prod_eq_iff)

declare parse_until.simps [simp del]

text \<open>The scan backwards to a restart point before the entry; false when there is none.\<close>

function prev_restart :: "uint32 \<Rightarrow> block_iter \<Rightarrow> bool \<times> block_iter" where
  "prev_restart original it =
     (if GetRestartPoint it (bi_restart_index it) \<ge> original
      then if bi_restart_index it = 0
           then (False, it\<lparr>bi_current := bi_restarts it, bi_restart_index := bi_num_restarts it\<rparr>)
           else prev_restart original (it\<lparr>bi_restart_index := bi_restart_index it - 1\<rparr>)
      else (True, it))"
  by pat_completeness auto
termination
  by (relation "measure (\<lambda>(_, it). unat (bi_restart_index it))") (auto simp: unat_minus_one unat_gt_0)

declare prev_restart.simps [simp del]

definition bi_Prev :: "block_iter \<Rightarrow> block_iter" where
  "bi_Prev it =
     (let original = bi_current it in
      case prev_restart original it of
        (False, it) \<Rightarrow> it
      | (True, it) \<Rightarrow> parse_until original (SeekToRestartPoint it (bi_restart_index it)))"

text \<open>The binary search over the restart points; \<open>None\<close> for a bad entry.\<close>

function seek_restart :: "(bytes \<Rightarrow> bytes \<Rightarrow> int) \<Rightarrow> bytes \<Rightarrow> block_iter \<Rightarrow> nat \<Rightarrow> nat \<Rightarrow> nat option" where
  "seek_restart cmp target it left right =
     (if left < right
      then let mid = (left + right + 1) div 2;
               region_offset = GetRestartPoint it (of_nat mid)
           in case DecodeEntry (bi_data it) (unat region_offset) (unat (bi_restarts it)) of
                None \<Rightarrow> None
              | Some (shared, non_shared, value_length, key_ptr) \<Rightarrow>
                  if shared \<noteq> 0 then None
                  else let mid_key = take (unat non_shared) (drop key_ptr (bi_data it)) in
                    if cmp mid_key target < 0 then seek_restart cmp target it mid right
                    else seek_restart cmp target it left (mid - 1)
      else Some left)"
  by pat_completeness auto
termination by (relation "measure (\<lambda>(_, _, _, l, r). r - l)") auto

declare seek_restart.simps [simp del]

text \<open>The linear search for the first key that is not less than the target.\<close>

function seek_linear :: "(bytes \<Rightarrow> bytes \<Rightarrow> int) \<Rightarrow> bytes \<Rightarrow> block_iter \<Rightarrow> block_iter" where
  "seek_linear cmp target it =
     (if \<not> fst (ParseNextKey it) then snd (ParseNextKey it)
      else if cmp (bi_key (snd (ParseNextKey it))) target \<ge> 0 then snd (ParseNextKey it)
      else seek_linear cmp target (snd (ParseNextKey it)))"
  by pat_completeness auto
termination
  by (relation "measure (bi_remaining \<circ> snd \<circ> snd)") (auto intro!: ParseNextKey_remaining simp: prod_eq_iff)

declare seek_linear.simps [simp del]

definition bi_Seek :: "(bytes \<Rightarrow> bytes \<Rightarrow> int) \<Rightarrow> block_iter \<Rightarrow> bytes \<Rightarrow> block_iter" where
  "bi_Seek cmp it target =
     (case seek_restart cmp target it 0 (unat (bi_num_restarts it - 1)) of
        None \<Rightarrow> block_CorruptionError it
      | Some left \<Rightarrow> seek_linear cmp target (SeekToRestartPoint it (of_nat left)))"

definition bi_SeekToFirst :: "block_iter \<Rightarrow> block_iter" where
  "bi_SeekToFirst it = snd (ParseNextKey (SeekToRestartPoint it 0))"

definition bi_SeekToLast :: "block_iter \<Rightarrow> block_iter" where
  "bi_SeekToLast it = parse_until (bi_restarts it) (SeekToRestartPoint it (bi_num_restarts it - 1))"

text \<open>
  What \<open>NewIterator\<close> returns: an iterator without entries, with an error or not, or an iterator of
  the block. The operations of its class are selected by the constructor.
\<close>

datatype block_iterator = NoBlock empty_iterator | InBlock block_iter

definition Block_NewIterator :: "block \<Rightarrow> block_iterator" where
  "Block_NewIterator b =
     (if blk_size b < 4 then NoBlock (NewErrorIterator (Corruption ''bad block contents''))
      else let num_restarts = NumRestarts (blk_data b) (blk_size b) in
        if num_restarts = 0 then NoBlock NewEmptyIterator
        else InBlock (block_Iter (blk_data b) (blk_restart_offset b) num_restarts))"

definition bi_ops :: "(bytes \<Rightarrow> bytes \<Rightarrow> int) \<Rightarrow> block_iter iter_ops" where
  "bi_ops cmp =
     \<lparr>op_Valid = bi_Valid, op_SeekToFirst = Some \<circ> bi_SeekToFirst, op_SeekToLast = Some \<circ> bi_SeekToLast,
      op_Seek = \<lambda>it t. Some (bi_Seek cmp it t), op_Next = Some \<circ> bi_Next, op_Prev = Some \<circ> bi_Prev,
      op_key = bi_key, op_value = bi_value_bytes, op_status = bi_status\<rparr>"

fun on_block :: "(empty_iterator \<Rightarrow> 'r) \<Rightarrow> (block_iter \<Rightarrow> 'r) \<Rightarrow> block_iterator \<Rightarrow> 'r" where
  "on_block f g (NoBlock e) = f e"
| "on_block f g (InBlock it) = g it"

definition block_ops :: "(bytes \<Rightarrow> bytes \<Rightarrow> int) \<Rightarrow> block_iterator iter_ops" where
  "block_ops cmp =
     (let e = empty_ops; b = bi_ops cmp; lift = \<lambda>f g. on_block (map_option NoBlock \<circ> f) (map_option InBlock \<circ> g) in
     \<lparr>op_Valid = on_block (op_Valid e) (op_Valid b),
      op_SeekToFirst = lift (op_SeekToFirst e) (op_SeekToFirst b),
      op_SeekToLast = lift (op_SeekToLast e) (op_SeekToLast b),
      op_Seek = \<lambda>it t. lift (\<lambda>it. op_Seek e it t) (\<lambda>it. op_Seek b it t) it,
      op_Next = lift (op_Next e) (op_Next b),
      op_Prev = lift (op_Prev e) (op_Prev b),
      op_key = on_block (op_key e) (op_key b), op_value = on_block (op_value e) (op_value b),
      op_status = on_block (op_status e) (op_status b)\<rparr>)"

end
