(* ===== verification/BlockIter.thy ===== *)
theory BlockIter imports Block DbFormat begin

text \<open>
  The correctness of blocks: on the bytes the builder made, the iterator of \<^verbatim>\<open>table/block.cc\<close>
  is an iterator over the entries that were added, for every comparator whose order the
  entries follow. \<open>ready\<close> is the state in which \<open>ParseNextKey\<close> decodes the entry at a position,
  and \<open>block_at\<close> the state of an iterator that stands at it.
\<close>

section \<open>Decoding one entry\<close>

lemma GetVarint32Ptr_varint: "n < 2 ^ 32 \<Longrightarrow> GetVarint32Ptr (varint n @ rest) = Some (of_nat n, rest)"
  using GetVarint32_EncodeVarint32 [of "of_nat n" rest]
  by (simp add: EncodeVarint32_varint unat_of_nat_32 GetVarint32_def)

lemma length_EncodeFixed32s [simp]: "length (concat (map (\<lambda>r. EncodeFixed32 (f r)) rs)) = 4 * length rs"
  by (induction rs) simp_all

lemma block_bytes_length: "length (block_bytes es rs) = length (entries_bytes es) + 4 * length rs + 4"
  by (simp add: block_bytes_def)

lemma block_ok_size: "block_ok es rs \<Longrightarrow> length (entries_bytes es) + 4 * length rs + 4 < 2 ^ 32"
  by (simp add: block_ok_def block_bytes_length)

lemma entry_pos_32: "block_ok es rs \<Longrightarrow> unat (of_nat (entry_pos es i) :: uint32) = entry_pos es i"
  using entry_pos_le [of es i] block_ok_size [of es rs] by (intro unat_of_nat_32) simp

lemma restarts_32: "block_ok es rs \<Longrightarrow> unat (of_nat (length (entries_bytes es)) :: uint32) = length (entries_bytes es)"
  using block_ok_size [of es rs] by (intro unat_of_nat_32) simp

lemma num_restarts_32: "block_ok es rs \<Longrightarrow> unat (of_nat (length rs) :: uint32) = length rs"
  using block_ok_size [of es rs] by (intro unat_of_nat_32) simp

lemma entry_at:
  assumes i: "i < length es" and e: "es ! i = (s, k, v)"
  shows "drop (entry_pos es i) (block_bytes es rs) =
    entry_bytes (s, k, v) @ entries_bytes (drop (Suc i) es) @ drop (length (entries_bytes es)) (block_bytes es rs)"
    and "length (entries_bytes es) = entry_pos es i + length (entry_bytes (s, k, v)) + length (entries_bytes (drop (Suc i) es))"
proof -
  note split = entries_bytes_split [OF i, unfolded e]
  show "length (entries_bytes es) = entry_pos es i + length (entry_bytes (s, k, v)) + length (entries_bytes (drop (Suc i) es))"
    by (subst split) (simp add: entry_pos_def)
  have "drop (entry_pos es i) (entries_bytes es) = entry_bytes (s, k, v) @ entries_bytes (drop (Suc i) es)"
    by (subst split) (simp add: entry_pos_def)
  then show "drop (entry_pos es i) (block_bytes es rs) =
    entry_bytes (s, k, v) @ entries_bytes (drop (Suc i) es) @ drop (length (entries_bytes es)) (block_bytes es rs)"
    using entry_pos_le [of es i] by (simp add: block_bytes_def)
qed

text \<open>A key is at most as long as the bytes of the entries up to its own.\<close>

lemma key_length_le:
  "shares_ok [] es \<Longrightarrow> i < length es \<Longrightarrow> length (entry_key es i) \<le> entry_pos es (Suc i)"
proof (induction i)
  case 0
  obtain s k v where e: "es ! 0 = (s, k, v)" by (rule prod_cases3)
  from shares_ok_nth [OF 0 e] 0 show ?case by (simp add: entry_key_def e entry_pos_Suc)
next
  case (Suc i)
  obtain s k v where e: "es ! Suc i = (s, k, v)" by (rule prod_cases3)
  from shares_ok_nth [OF Suc.prems e] Suc have "s \<le> entry_pos es (Suc i)" by simp
  with Suc.prems show ?case by (simp add: entry_pos_Suc [of "Suc i"] e entry_key_def)
qed

lemma DecodeEntry_entry:
  assumes ok: "block_ok es rs" and i: "i < length es" and e: "es ! i = (s, k, v)" and s: "s \<le> length k"
  defines "p' \<equiv> entry_pos es (Suc i) - length v - (length k - s)"
  shows "DecodeEntry (block_bytes es rs) (entry_pos es i) (length (entries_bytes es)) =
      Some (of_nat s, of_nat (length k - s), of_nat (length v), p')"
    and "drop p' (block_bytes es rs) = drop s k @ v @ drop (entry_pos es (Suc i)) (block_bytes es rs)"
    and "p' + (length k - s) + length v = entry_pos es (Suc i)"
proof -
  let ?d = "block_bytes es rs" and ?p = "entry_pos es i" and ?l = "length (entries_bytes es)"
  let ?h = "varint s @ varint (length k - s) @ varint (length v)"
  let ?rest = "entries_bytes (drop (Suc i) es)"
  note at = entry_at(1) [OF i e, of rs] entry_at(2) [OF i e]
  have p': "p' = ?p + length ?h"
    using entry_pos_Suc [OF i] s by (simp add: p'_def e)
  have suc: "entry_pos es (Suc i) = ?p + length (entry_bytes (s, k, v))"
    using entry_pos_Suc [OF i] by (simp add: e)
  show sum: "p' + (length k - s) + length v = entry_pos es (Suc i)"
    by (simp add: p' suc)
  have "drop p' ?d = drop (length ?h) (drop ?p ?d)" by (simp add: p' add.commute)
  moreover have "drop (entry_pos es (Suc i)) ?d = drop (length (entry_bytes (s, k, v))) (drop ?p ?d)"
    by (simp add: suc add.commute)
  ultimately show "drop p' ?d = drop s k @ v @ drop (entry_pos es (Suc i)) ?d"
    unfolding at(1) by simp
  have lt: "?l < 2 ^ 32" using block_ok_size [OF ok] by simp
  have fits: "length k - s < 2 ^ 32" "length v < 2 ^ 32" "(length k - s) + length v < 2 ^ 32"
    using at(2) lt by auto
  have "length k < 2 ^ 32"
    using key_length_le [of es i] ok i at(2) lt by (simp add: block_ok_def suc entry_key_def e)
  with s have "s < 2 ^ 32" by simp
  have taken: "take (?l - ?p) (drop ?p ?d) = ?h @ drop s k @ v @ ?rest"
    using at(2) by (simp add: at(1))
  have slow: "DecodeEntry_slow ?d ?p ?l = Some (of_nat s, of_nat (length k - s), of_nat (length v), p')"
    using \<open>s < 2 ^ 32\<close> fits s at(2) unfolding DecodeEntry_slow_def taken
    by (simp add: GetVarint32Ptr_varint p')
  have 3: "?p + 3 \<le> ?l" using at(2) entry_bytes_length_ge_3 [of "(s, k, v)"] by simp
  have "?l \<le> length ?d" by (simp add: block_bytes_length)
  note fast = DecodeEntry_fast [OF 3 this]
  have cmp: "\<not> of_nat (?l - p') < (of_nat (length k - s) + of_nat (length v) :: uint32)"
  proof -
    have "unat (of_nat (?l - p') :: uint32) = ?l - p'" using lt by (intro unat_of_nat_32) simp
    moreover have "of_nat (length k - s) + of_nat (length v) = (of_nat ((length k - s) + length v) :: uint32)"
      by (simp only: of_nat_add)
    moreover have "unat (of_nat ((length k - s) + length v) :: uint32) = (length k - s) + length v"
      using fits(3) by (rule unat_of_nat_32)
    moreover have "(length k - s) + length v \<le> ?l - p'" using at(2) by (simp add: p')
    ultimately show ?thesis by (simp only: word_less_nat_alt not_less)
  qed
  show "DecodeEntry ?d ?p ?l = Some (of_nat s, of_nat (length k - s), of_nat (length v), p')"
    using 3 fast slow cmp by (auto simp: DecodeEntry_def Let_def simp del: of_nat_diff)
qed

section \<open>States of the iterator\<close>

definition block_base :: "entry list \<Rightarrow> nat list \<Rightarrow> block_iter \<Rightarrow> bool" where
  "block_base es rs it \<longleftrightarrow>
     block_ok es rs \<and> bi_data it = block_bytes es rs \<and> bi_restarts it = of_nat (length (entries_bytes es)) \<and>
     bi_num_restarts it = of_nat (length rs) \<and> bi_status it = OK"

definition block_at :: "entry list \<Rightarrow> nat list \<Rightarrow> block_iter \<Rightarrow> nat \<Rightarrow> bool" where
  "block_at es rs it i \<longleftrightarrow>
     block_base es rs it \<and> i \<le> length es \<and> bi_current it = of_nat (entry_pos es i) \<and>
     (i < length es \<longrightarrow> bi_key it = entry_key es i \<and>
        bi_value it = (entry_pos es (Suc i) - length (entry_val es i), length (entry_val es i)) \<and>
        bi_value_bytes it = entry_val es i \<and> bi_restart_index it < bi_num_restarts it)"

definition ready :: "entry list \<Rightarrow> nat list \<Rightarrow> block_iter \<Rightarrow> nat \<Rightarrow> bool" where
  "ready es rs it i \<longleftrightarrow>
     block_base es rs it \<and> i \<le> length es \<and> NextEntryOffset it = of_nat (entry_pos es i) \<and>
     (i < length es \<longrightarrow> fst (es ! i) \<le> length (bi_key it) \<and> take (fst (es ! i)) (bi_key it) = take (fst (es ! i)) (entry_key es i)) \<and>
     bi_restart_index it < bi_num_restarts it"

lemma block_at_valid: "block_at es rs it i \<Longrightarrow> bi_Valid it \<longleftrightarrow> i < length es"
  using entry_pos_less_iff [of i es "length es"]
  by (auto simp: block_at_def block_base_def bi_Valid_def word_less_nat_alt entry_pos_32 restarts_32)

lemma shares_ok_entry_key:
  assumes "shares_ok [] es" "i < length es"
  shows "fst (es ! i) \<le> length (entry_key es i)"
    and "0 < i \<Longrightarrow> fst (es ! i) \<le> length (entry_key es (i - 1))"
    and "0 < i \<Longrightarrow> take (fst (es ! i)) (entry_key es (i - 1)) = take (fst (es ! i)) (entry_key es i)"
proof -
  obtain s k v where e: "es ! i = (s, k, v)" by (rule prod_cases3)
  from shares_ok_nth [OF assms e] show "fst (es ! i) \<le> length (entry_key es i)"
    "0 < i \<Longrightarrow> fst (es ! i) \<le> length (entry_key es (i - 1))"
    "0 < i \<Longrightarrow> take (fst (es ! i)) (entry_key es (i - 1)) = take (fst (es ! i)) (entry_key es i)"
    by (simp_all add: e entry_key_def)
qed

lemma block_at_ready:
  assumes "block_at es rs it i" "i < length es"
  shows "ready es rs it (Suc i)"
proof -
  have ok: "block_ok es rs" using assms by (simp add: block_at_def block_base_def)
  then have sh: "shares_ok [] es" by (simp add: block_ok_def)
  have "length (entry_val es i) \<le> entry_pos es (Suc i)"
  proof -
    obtain s k v where e: "es ! i = (s, k, v)" by (rule prod_cases3)
    then show ?thesis using entry_pos_Suc [OF assms(2)] by (simp add: entry_val_def)
  qed
  then show ?thesis
    using assms shares_ok_entry_key [OF sh, of "Suc i"]
    by (auto simp: block_at_def ready_def NextEntryOffset_def simp flip: of_nat_add)
qed

lemma ParseNextKey_ready:
  assumes r: "ready es rs it i" and i: "i < length es"
  shows "\<exists>it'. ParseNextKey it = (True, it') \<and> block_at es rs it' i"
proof -
  obtain s k v where e: "es ! i = (s, k, v)" by (rule prod_cases3)
  from r have base: "block_base es rs it" and ok: "block_ok es rs"
    and off: "NextEntryOffset it = of_nat (entry_pos es i)"
    and key: "s \<le> length (bi_key it)" "take s (bi_key it) = take s k"
    and ri: "bi_restart_index it < bi_num_restarts it"
    using i by (auto simp: ready_def block_base_def e entry_key_def)
  have sk: "s \<le> length k" using shares_ok_entry_key(1) [of es i] ok i by (simp add: block_ok_def e entry_key_def)
  define p' where "p' = entry_pos es (Suc i) - length v - (length k - s)"
  note dec = DecodeEntry_entry [OF ok i e sk, folded p'_def]
  have u: "unat (NextEntryOffset it) = entry_pos es i" "unat (bi_restarts it) = length (entries_bytes es)"
    using base by (simp_all add: off block_base_def entry_pos_32 [OF ok] restarts_32 [OF ok])
  have lt: "entry_pos es i < length (entries_bytes es)"
    using entry_pos_less_iff [of i es "length es"] i by simp
  have le: "entry_pos es (Suc i) \<le> length (entries_bytes es)" by (rule entry_pos_le)
  have small: "unat (of_nat n :: uint32) = n" if "n \<le> length (entries_bytes es)" for n
    using block_ok_size [OF ok] that by (intro unat_of_nat_32) simp
  have s32: "unat (of_nat s :: uint32) = s"
    using key_length_le [of es i] ok i sk le
    by (intro small) (simp add: block_ok_def e entry_key_def)
  have n32: "unat (of_nat (length k - s) :: uint32) = length k - s" "unat (of_nat (length v) :: uint32) = length v"
    using dec(3) le by (simp_all add: small del: of_nat_diff)
  define it1 where "it1 = it\<lparr>bi_current := NextEntryOffset it, bi_key := k, bi_value := (p' + (length k - s), length v)\<rparr>"
  have d: "bi_data it = block_bytes es rs" using base by (simp add: block_base_def)
  have parse: "ParseNextKey it = (True, advance_restart it1)"
    using lt key sk by (simp add: ParseNextKey_def Let_def u d dec(1,2) s32 n32 it1_def del: of_nat_diff)
  have v: "bi_value it1 = (entry_pos es (Suc i) - length v, length v)"
    using dec(3) by (simp add: it1_def)
  have "entry_pos es (Suc i) - length v = p' + (length k - s)" using dec(3) by linarith
  then have "drop (entry_pos es (Suc i) - length v) (block_bytes es rs) = drop (length k - s) (drop p' (block_bytes es rs))"
    by (simp add: add.commute)
  then have "take (length v) (drop (entry_pos es (Suc i) - length v) (block_bytes es rs)) = v"
    by (simp add: dec(2))
  then have "block_at es rs (advance_restart it1) i"
    using base i off v advance_restart_index [of it1] ri
    by (simp add: block_at_def block_base_def bi_value_bytes_def entry_key_def entry_val_def e it1_def)
  with parse show ?thesis by blast
qed

lemma ParseNextKey_end:
  assumes "ready es rs it (length es)"
  shows "\<exists>it'. ParseNextKey it = (False, it') \<and> block_at es rs it' (length es)"
  using assms by (auto simp: ready_def block_base_def block_at_def ParseNextKey_def Let_def)

lemma bi_Next_at:
  assumes "block_at es rs it i" "i < length es"
  shows "block_at es rs (bi_Next it) (Suc i)"
proof (cases "Suc i < length es")
  case True
  with ParseNextKey_ready [OF block_at_ready [OF assms]] show ?thesis by (auto simp: bi_Next_def)
next
  case False
  with assms(2) have "Suc i = length es" by simp
  with ParseNextKey_end [of es rs it] block_at_ready [OF assms] show ?thesis by (auto simp: bi_Next_def)
qed

section \<open>Restart points\<close>

lemma restart_entry:
  assumes "block_ok es rs" "j < length rs"
  shows "rs ! j \<le> length es" "rs ! j < length es \<Longrightarrow> fst (es ! (rs ! j)) = 0"
    "0 < j \<Longrightarrow> rs ! j < length es" "rs ! 0 = 0"
proof -
  have ok: "restarts_ok es rs" using assms by (simp add: block_ok_def)
  with assms(2) have r: "rs ! j = 0 \<or> rs ! j < length es" by (simp add: restarts_ok_def)
  then show "rs ! j \<le> length es" by auto
  show "rs ! j < length es \<Longrightarrow> fst (es ! (rs ! j)) = 0" using ok assms(2) by (simp add: restarts_ok_def)
  show z: "rs ! 0 = 0" using ok hd_conv_nth [of rs] by (simp add: restarts_ok_def)
  assume "0 < j"
  then have "rs ! 0 < rs ! j" using ok assms(2) by (simp add: restarts_ok_def sorted_wrt_nth_less)
  with r show "rs ! j < length es" by auto
qed

lemma drop_EncodeFixed32s:
  "j < length rs \<Longrightarrow>
   DecodeFixed32 (drop (j * 4) (concat (map (\<lambda>r. EncodeFixed32 (f r)) rs)) @ q) = f (rs ! j)"
proof (induction rs arbitrary: j)
  case (Cons r rs)
  then show ?case by (cases j) simp_all
qed simp

lemma GetRestartPoint_nth:
  assumes "block_base es rs it" "j < length rs"
  shows "GetRestartPoint it (of_nat j) = of_nat (entry_pos es (rs ! j))"
proof -
  have ok: "block_ok es rs" using assms by (simp add: block_base_def)
  have j: "unat (of_nat j :: uint32) = j"
    using assms(2) block_ok_size [OF ok] by (intro unat_of_nat_32) simp
  have "j * 4 \<le> length (concat (map (\<lambda>r. EncodeFixed32 (of_nat (entry_pos es r))) rs))"
    using assms(2) by simp
  with assms drop_EncodeFixed32s [OF assms(2), of "\<lambda>r. of_nat (entry_pos es r)"] show ?thesis
    by (simp add: GetRestartPoint_def block_base_def j restarts_32 [OF ok] block_bytes_def)
qed

lemma SeekToRestartPoint_ready:
  assumes base: "block_base es rs it" and j: "j < length rs"
  shows "ready es rs (SeekToRestartPoint it (of_nat j)) (rs ! j)"
proof -
  have ok: "block_ok es rs" using base by (simp add: block_base_def)
  note r = restart_entry [OF ok j]
  have "of_nat j < (of_nat (length rs) :: uint32)"
    using j block_ok_size [OF ok] by (simp add: word_less_nat_alt num_restarts_32 [OF ok] unat_of_nat_32)
  then show ?thesis
    using base r(1,2)
    by (auto simp: ready_def block_base_def SeekToRestartPoint_def NextEntryOffset_def
        GetRestartPoint_nth [OF base j] entry_pos_32 [OF ok])
qed

lemma bi_SeekToFirst_at:
  assumes "block_base es rs it"
  shows "block_at es rs (bi_SeekToFirst it) 0"
proof -
  have ok: "block_ok es rs" using assms by (simp add: block_base_def)
  then have "0 < length rs" by (simp add: block_ok_def restarts_ok_def)
  from SeekToRestartPoint_ready [OF assms this] restart_entry(4) [OF ok this]
  have r: "ready es rs (SeekToRestartPoint it 0) 0" by simp
  show ?thesis
  proof (cases "es = []")
    case True
    with r ParseNextKey_end [of es rs "SeekToRestartPoint it 0"] show ?thesis by (auto simp: bi_SeekToFirst_def)
  next
    case False
    with r ParseNextKey_ready [OF r] show ?thesis by (auto simp: bi_SeekToFirst_def)
  qed
qed

section \<open>Moving backwards\<close>

lemma parse_until_at:
  assumes "ready es rs it j" "j \<le> m" "m < length es"
  shows "block_at es rs (parse_until (of_nat (entry_pos es (Suc m))) it) m"
  using assms
proof (induction "m - j" arbitrary: it j)
  case 0
  then have j: "j = m" by simp
  with 0 obtain it' where p: "ParseNextKey it = (True, it')" "block_at es rs it' m"
    using ParseNextKey_ready [of es rs it j] by auto
  then have "NextEntryOffset it' = of_nat (entry_pos es (Suc m))"
    using block_at_ready [OF p(2)] 0 by (simp add: ready_def)
  with p show ?case by (subst parse_until.simps) simp
next
  case (Suc n)
  then obtain it' where p: "ParseNextKey it = (True, it')" "block_at es rs it' j"
    using ParseNextKey_ready [of es rs it j] by auto
  have jm: "j < m" using Suc by simp
  have r: "ready es rs it' (Suc j)" using block_at_ready [OF p(2)] Suc.prems jm by simp
  have ok: "block_ok es rs" using Suc.prems by (simp add: ready_def block_base_def)
  have "entry_pos es (Suc j) < entry_pos es (Suc m)" using jm Suc.prems by (intro entry_pos_strict) simp_all
  then have "NextEntryOffset it' < of_nat (entry_pos es (Suc m))"
    using r by (simp add: ready_def word_less_nat_alt entry_pos_32 [OF ok])
  moreover have "block_at es rs (parse_until (of_nat (entry_pos es (Suc m))) it') m"
    using Suc.hyps(1) [OF _ r] Suc.hyps(2) Suc.prems jm by simp
  ultimately show ?case using p(1) by (subst parse_until.simps) simp
qed

lemma bi_SeekToLast_at:
  assumes base: "block_base es rs it"
  shows "block_at es rs (bi_SeekToLast it) (length es - 1)"
proof -
  have ok: "block_ok es rs" using base by (simp add: block_base_def)
  then have ne: "0 < length rs" by (simp add: block_ok_def restarts_ok_def)
  have n: "bi_num_restarts it - 1 = of_nat (length rs - 1)" using base ne by (cases rs) (simp_all add: block_base_def)
  have last: "length rs - 1 < length rs" using ne by simp
  note r = SeekToRestartPoint_ready [OF base last] and re = restart_entry [OF ok last]
  show ?thesis
  proof (cases "es = []")
    case True
    with r re(1) obtain it' where "ParseNextKey (SeekToRestartPoint it (of_nat (length rs - 1))) = (False, it')"
      "block_at es rs it' 0"
      using ParseNextKey_end [of es rs "SeekToRestartPoint it (of_nat (length rs - 1))"] by auto
    with True show ?thesis unfolding bi_SeekToLast_def n by (subst parse_until.simps) simp
  next
    case False
    have "rs ! (length rs - 1) = 0 \<or> rs ! (length rs - 1) < length es"
      using ok last by (auto simp: block_ok_def restarts_ok_def)
    then have "rs ! (length rs - 1) \<le> length es - 1" by auto
    from parse_until_at [OF r this] False
    have "block_at es rs (parse_until (of_nat (length (entries_bytes es))) (SeekToRestartPoint it (of_nat (length rs - 1)))) (length es - 1)"
      by simp
    moreover have "bi_restarts it = of_nat (length (entries_bytes es))" using base by (simp add: block_base_def)
    ultimately show ?thesis unfolding bi_SeekToLast_def n by simp
  qed
qed

lemma prev_restart_spec:
  assumes "block_base es rs it" "bi_restart_index it = of_nat j" "j < length rs" "i \<le> length es"
  shows "case prev_restart (of_nat (entry_pos es i)) it of
      (False, it') \<Rightarrow> i = 0 \<and> block_at es rs it' (length es)
    | (True, it') \<Rightarrow> block_base es rs it' \<and> (\<exists>j < length rs. bi_restart_index it' = of_nat j \<and> rs ! j < i)"
  using assms
proof (induction j arbitrary: it)
  case 0
  have ok: "block_ok es rs" using 0 by (simp add: block_base_def)
  have z: "rs ! 0 = 0" using restart_entry(4) [OF ok 0(3)] .
  have g: "GetRestartPoint it 0 = 0" using GetRestartPoint_nth [OF 0(1,3)] z by simp
  show ?case
  proof (cases "i = 0")
    case True
    with 0 g show ?thesis by (subst prev_restart.simps) (simp add: block_at_def block_base_def)
  next
    case False
    then have "entry_pos es 0 < entry_pos es i" using 0 by (intro entry_pos_strict) simp_all
    then have "\<not> of_nat (entry_pos es i) \<le> (0 :: uint32)"
      by (simp add: word_le_nat_alt entry_pos_32 [OF ok] del: word_le_0_iff)
    with 0 g z False show ?thesis by (subst prev_restart.simps) auto
  qed
next
  case (Suc j)
  have ok: "block_ok es rs" using Suc by (simp add: block_base_def)
  have g: "GetRestartPoint it (of_nat (Suc j)) = of_nat (entry_pos es (rs ! Suc j))"
    using GetRestartPoint_nth [OF Suc.prems(1,3)] .
  have nz: "(of_nat (Suc j) :: uint32) \<noteq> 0"
  proof -
    have "unat (of_nat (Suc j) :: uint32) = Suc j"
      using Suc.prems(3) block_ok_size [OF ok] by (intro unat_of_nat_32) simp
    then show ?thesis by (metis nat.distinct(1) unat_0)
  qed
  show ?case
  proof (cases "of_nat (entry_pos es i) \<le> (of_nat (entry_pos es (rs ! Suc j)) :: uint32)")
    case True
    have "prev_restart (of_nat (entry_pos es i)) it =
        prev_restart (of_nat (entry_pos es i)) (it\<lparr>bi_restart_index := of_nat j\<rparr>)"
      using True g nz Suc.prems(2) by (subst prev_restart.simps) simp
    with Suc.IH [of "it\<lparr>bi_restart_index := of_nat j\<rparr>"] Suc.prems show ?thesis by (simp add: block_base_def)
  next
    case False
    then have "entry_pos es (rs ! Suc j) < entry_pos es i"
      by (simp add: word_le_nat_alt entry_pos_32 [OF ok])
    then have "rs ! Suc j < i"
      using entry_pos_less_iff restart_entry(1) [OF ok Suc.prems(3)] Suc.prems(4) by blast
    with False g Suc.prems show ?thesis by (subst prev_restart.simps) auto
  qed
qed

lemma bi_Prev_at:
  assumes at: "block_at es rs it i" and i: "i < length es"
  shows "block_at es rs (bi_Prev it) (if i = 0 then length es else i - 1)"
proof -
  have base: "block_base es rs it" and ok: "block_ok es rs" and cur: "bi_current it = of_nat (entry_pos es i)"
    and ri: "bi_restart_index it < bi_num_restarts it"
    using at i by (auto simp: block_at_def block_base_def)
  define j where "j = unat (bi_restart_index it)"
  have j: "bi_restart_index it = of_nat j" "j < length rs"
    using ri base num_restarts_32 [OF ok] by (simp_all add: j_def word_less_nat_alt block_base_def)
  obtain b it' where pr: "prev_restart (of_nat (entry_pos es i)) it = (b, it')" by (rule prod.exhaust)
  note spec = prev_restart_spec [OF base j less_imp_le [OF i], unfolded pr]
  show ?thesis
  proof (cases b)
    case False
    with spec pr show ?thesis by (simp add: bi_Prev_def cur)
  next
    case True
    with spec obtain j' where b': "block_base es rs it'" and j': "j' < length rs" "bi_restart_index it' = of_nat j'" "rs ! j' < i"
      by auto
    have "block_at es rs (parse_until (of_nat (entry_pos es (Suc (i - 1)))) (SeekToRestartPoint it' (of_nat j'))) (i - 1)"
      using j' i by (intro parse_until_at [OF SeekToRestartPoint_ready [OF b' j'(1)]]) simp_all
    with True pr j' show ?thesis by (simp add: bi_Prev_def cur)
  qed
qed

section \<open>Searching\<close>

locale block_comparator = comparator cmp valid for cmp :: "bytes \<Rightarrow> bytes \<Rightarrow> int" and valid
begin

definition ordered :: "entry list \<Rightarrow> bool" where
  "ordered es \<longleftrightarrow> cmp_sorted cmp (kvs es) \<and> (\<forall>i < length es. valid (entry_key es i))"

definition block_rep :: "block_iterator \<Rightarrow> (bytes \<times> bytes) list \<Rightarrow> nat \<Rightarrow> bool" where
  "block_rep bi l i \<longleftrightarrow> (\<exists>it es rs. bi = InBlock it \<and> kvs es = l \<and> ordered es \<and> block_at es rs it i)"

lemma seek_restart_spec:
  assumes "block_base es rs it" "left \<le> right" "right < length rs"
    and "left = 0 \<or> cmp (entry_key es (rs ! left)) t < 0"
  shows "\<exists>r < length rs. seek_restart cmp t it left right = Some r
    \<and> (r = 0 \<or> cmp (entry_key es (rs ! r)) t < 0)"
  using assms
proof (induction "right - left" arbitrary: left right rule: less_induct)
  case less
  show ?case
  proof (cases "left < right")
    case False
    with less.prems show ?thesis by (subst seek_restart.simps) auto
  next
    case True
    define mid where "mid = (left + right + 1) div 2"
    have mid: "left < mid" "mid \<le> right" using True by (auto simp: mid_def)
    have ok: "block_ok es rs" using less.prems by (simp add: block_base_def)
    have ml: "mid < length rs" using mid less.prems by simp
    note re = restart_entry [OF ok ml]
    have lt: "rs ! mid < length es" using re(3) mid by simp
    obtain s k v where e: "es ! (rs ! mid) = (s, k, v)" by (rule prod_cases3)
    have s: "s = 0" using re(2) lt e by simp
    note dec = DecodeEntry_entry [OF ok lt e, unfolded s, simplified]
    have u: "unat (bi_restarts it) = length (entries_bytes es)" "bi_data it = block_bytes es rs"
      using less.prems by (simp_all add: block_base_def restarts_32 [OF ok])
    have k32: "unat (of_nat (length k) :: uint32) = length k"
      using dec(3) entry_pos_le [of es "Suc (rs ! mid)"] block_ok_size [OF ok] by (intro unat_of_nat_32) simp
    have step: "seek_restart cmp t it left right =
        (if cmp k t < 0 then seek_restart cmp t it mid right else seek_restart cmp t it left (mid - 1))"
      using True dec(1,2)
      by (simp only: seek_restart.simps [of cmp t it left right] Let_def flip: mid_def)
        (simp add: GetRestartPoint_nth [OF less.prems(1) ml] entry_pos_32 [OF ok] u k32)
    show ?thesis
    proof (cases "cmp k t < 0")
      case True
      with less.hyps [of right mid] mid less.prems show ?thesis by (simp add: step entry_key_def e)
    next
      case False
      with less.hyps [of "mid - 1" left] mid less.prems show ?thesis by (simp add: step)
    qed
  qed
qed

lemma seek_linear_at:
  assumes "ready es rs it j" "\<forall>i < j. cmp (entry_key es i) t < 0"
  shows "block_at es rs (seek_linear cmp t it) (lower_bound cmp (kvs es) t)"
  using assms
proof (induction "length es - j" arbitrary: it j)
  case 0
  then have j: "j = length es" by (simp add: ready_def)
  then have lb: "lower_bound cmp (kvs es) t = length es"
    using 0 by (intro lower_bound_unique [symmetric]) auto
  from 0 j ParseNextKey_end [of es rs it] lb show ?case by (subst seek_linear.simps) auto
next
  case (Suc n)
  then have j: "j < length es" by simp
  obtain it' where p: "ParseNextKey it = (True, it')" "block_at es rs it' j"
    using ParseNextKey_ready [OF Suc.prems(1) j] by blast
  have k: "bi_key it' = entry_key es j" using p(2) j by (simp add: block_at_def)
  show ?case
  proof (cases "cmp (entry_key es j) t < 0")
    case True
    have "block_at es rs (seek_linear cmp t it') (lower_bound cmp (kvs es) t)"
      using Suc.hyps(1) [OF _ block_at_ready [OF p(2) j]] Suc.hyps(2) Suc.prems(2) True by (auto simp: less_Suc_eq)
    with True p(1) k show ?thesis by (subst seek_linear.simps) simp
  next
    case False
    then have "lower_bound cmp (kvs es) t = j"
      using j Suc.prems(2) by (intro lower_bound_unique [symmetric]) auto
    with False p k show ?thesis by (subst seek_linear.simps) auto
  qed
qed

lemma ordered_less:
  assumes "ordered es" "i < j" "j < length es"
  shows "cmp (entry_key es i) (entry_key es j) < 0"
  using assms sorted_wrt_nth_less [of "\<lambda>a b. cmp (fst a) (fst b) < 0" "kvs es" i j]
  by (simp add: ordered_def cmp_sorted_def)

lemma bi_Seek_at:
  assumes base: "block_base es rs it" and ord: "ordered es" and t: "valid t"
  shows "block_at es rs (bi_Seek cmp it t) (lower_bound cmp (kvs es) t)"
proof -
  have ok: "block_ok es rs" using base by (simp add: block_base_def)
  then have ne: "0 < length rs" by (simp add: block_ok_def restarts_ok_def)
  have "unat (of_nat (length rs) - 1 :: uint32) = length rs - 1"
  proof -
    have "of_nat (length rs) - 1 = (of_nat (length rs - 1) :: uint32)" using ne by (cases rs) simp_all
    moreover have "unat (of_nat (length rs - 1) :: uint32) = length rs - 1"
      using block_ok_size [OF ok] by (intro unat_of_nat_32) simp
    ultimately show ?thesis by simp
  qed
  then have n: "unat (bi_num_restarts it - 1) = length rs - 1" using base by (simp add: block_base_def)
  obtain r where r: "r < length rs" "seek_restart cmp t it 0 (length rs - 1) = Some r"
    "r = 0 \<or> cmp (entry_key es (rs ! r)) t < 0"
    using seek_restart_spec [OF base, of 0 "length rs - 1" t] ne by auto
  note re = restart_entry [OF ok r(1)]
  have "cmp (entry_key es i) t < 0" if i: "i < rs ! r" for i
  proof -
    have "0 < r" using that re(4) by (cases r) auto
    then have lt: "rs ! r < length es" and c: "cmp (entry_key es (rs ! r)) t < 0" using re(3) r(3) by auto
    have "valid (entry_key es i)" "valid (entry_key es (rs ! r))" using ord lt i by (auto simp: ordered_def)
    from cmp_less_trans [OF this t] ordered_less [OF ord i lt] c show ?thesis by simp
  qed
  then show ?thesis
    using seek_linear_at [OF SeekToRestartPoint_ready [OF base r(1)]] by (simp add: bi_Seek_def n r(2) del: One_nat_def)
qed

lemma block_rep_iterator: "iterator block_rep cmp valid (block_ops cmp)"
proof
  fix bi l i
  assume "block_rep bi l i"
  then obtain it es rs where bi: "bi = InBlock it" and l: "kvs es = l" "length l = length es"
    and ord: "ordered es" and at: "block_at es rs it i"
    by (auto simp: block_rep_def)
  then have base: "block_base es rs it" by (simp add: block_at_def)
  have rep: "block_at es rs it' j \<Longrightarrow> block_rep (InBlock it') l j" for it' j
    using l ord by (auto simp: block_rep_def)
  note ops = block_ops_def bi_ops_def Let_def bi
  show "i \<le> length l" "op_status (block_ops cmp) bi = OK" "cmp_sorted cmp l"
    using at l ord by (auto simp: block_at_def block_base_def ordered_def ops)
  show "op_Valid (block_ops cmp) bi \<longleftrightarrow> i < length l" using block_at_valid [OF at] l by (simp add: ops)
  show "valid k" if "(k, v) \<in> set l" for k v
  proof -
    from that obtain n where "n < length es" "kvs es ! n = (k, v)" using l by (auto simp: in_set_conv_nth)
    with ord show ?thesis by (auto simp: ordered_def)
  qed
  show "\<exists>it'. op_SeekToFirst (block_ops cmp) bi = Some it' \<and> block_rep it' l 0"
    using rep [OF bi_SeekToFirst_at [OF base]] by (simp add: ops)
  show "\<exists>it'. op_SeekToLast (block_ops cmp) bi = Some it' \<and> block_rep it' l (length l - 1)"
    using rep [OF bi_SeekToLast_at [OF base]] by (simp add: ops l)
  show "\<exists>it'. op_Seek (block_ops cmp) bi t = Some it' \<and> block_rep it' l (lower_bound cmp l t)" if "valid t" for t
    using rep [OF bi_Seek_at [OF base ord that]] l by (simp add: ops)
  assume i: "i < length l"
  then have i': "i < length es" using l by simp
  show "op_key (block_ops cmp) bi = fst (l ! i)" "op_value (block_ops cmp) bi = snd (l ! i)"
    using at i' l(1) by (auto simp: block_at_def ops simp flip: l(1))
  show "\<exists>it'. op_Next (block_ops cmp) bi = Some it' \<and> block_rep it' l (Suc i)"
    using rep [OF bi_Next_at [OF at i']] by (simp add: ops)
  show "\<exists>it'. op_Prev (block_ops cmp) bi = Some it' \<and> block_rep it' l (if i = 0 then length l else i - 1)"
    using rep [OF bi_Prev_at [OF at i']] l(2) by (cases "i = 0") (simp_all add: ops)
qed

end

sublocale block_comparator \<subseteq> blk: iterator block_rep cmp valid "block_ops cmp"
  by (rule block_rep_iterator)

section \<open>The iterator of a block that was built\<close>

lemma Block_NewIterator_base:
  assumes ok: "block_ok es rs"
  shows "\<exists>it. Block_NewIterator (Block_make (block_bytes es rs)) = InBlock it \<and> block_at es rs it (length es)"
proof -
  let ?d = "block_bytes es rs"
  let ?it = "block_Iter ?d (of_nat (length (entries_bytes es))) (of_nat (length rs))"
  have "drop (length ?d - 4) ?d = EncodeFixed32 (of_nat (length rs))"
    by (simp only: block_bytes_length) (simp add: block_bytes_def)
  then have n: "NumRestarts ?d (length ?d) = of_nat (length rs)"
    using DecodeFixed32_EncodeFixed32 [of "of_nat (length rs)" "[]"] by (simp add: NumRestarts_def)
  have len: "length ?d = length (entries_bytes es) + 4 * length rs + 4" by (rule block_bytes_length)
  have ne: "rs \<noteq> []" using ok by (simp add: block_ok_def restarts_ok_def)
  have "unat (1 + of_nat (length rs) :: uint32) = length rs + 1"
    using block_ok_size [OF ok] unat_of_nat_32 [of "length rs + 1"] by (simp add: add.commute)
  then have "Block_NewIterator (Block_make ?d) = InBlock ?it"
    using n len ne num_restarts_32 [OF ok]
    by (auto simp: Block_make_def Block_NewIterator_def Let_def simp flip: unat_eq_zero)
  moreover have "block_at es rs ?it (length es)"
    using ok by (simp add: block_at_def block_base_def block_Iter_def)
  ultimately show ?thesis by blast
qed

context block_comparator
begin

theorem built_block_rep:
  assumes "1 \<le> interval" "cmp_sorted cmp l" "\<forall>(k, v) \<in> set l. valid k"
    and size: "length (snd (BlockBuilder_Finish (build_block interval l))) < 2 ^ 32"
    and kv: "\<forall>(k, v) \<in> set l. length k < 2 ^ 32 \<and> length v < 2 ^ 32"
  shows "block_rep (Block_NewIterator (Block_make (snd (BlockBuilder_Finish (build_block interval l))))) l (length l)"
proof -
  obtain es rs where r: "bb_rep (build_block interval l) es rs" "kvs es = l"
    using build_block_rep [OF assms(1) kv] by blast
  have b: "snd (BlockBuilder_Finish (build_block interval l)) = block_bytes es rs"
    by (rule BlockBuilder_Finish_bytes [OF r(1)])
  have ok: "block_ok es rs" using r(1) size by (simp add: block_ok_def b bb_rep_def)
  have "valid (entry_key es i)" if "i < length es" for i
    using assms(3) r(2) nth_mem [of i l] kvs_nth [OF that] length_kvs [of es] that by fastforce
  then have "ordered es" using assms(2) by (simp add: ordered_def r(2))
  moreover have "length es = length l" using r(2) by auto
  ultimately show ?thesis
    using Block_NewIterator_base [OF ok] r(2) by (auto simp: b block_rep_def)
qed

end

text \<open>Blocks of user keys, and blocks of internal keys as the tables hold them.\<close>

interpretation bytewise_block: block_comparator bytewise_Compare "\<lambda>_. True"
  by (rule block_comparator.intro) unfold_locales

interpretation internal_block: block_comparator "InternalKey_Compare bytewise_Compare" "internal_valid (\<lambda>_. True)"
  by (rule block_comparator.intro) (rule bytewise_internal.internal.comparator_axioms)

section \<open>Properties\<close>

lemma iterate_bound:
  "case iter_read op_Next (bi_ops cmp) n it of None \<Rightarrow> False
   | Some l \<Rightarrow> length l * 3 \<le> (unat (bi_restarts it) - unat (NextEntryOffset it)) + 3"
proof (induction n arbitrary: it)
  case (Suc n)
  have step: "op_Next (bi_ops cmp) it = Some (bi_Next it)" "op_Valid (bi_ops cmp) it = bi_Valid it" for it
    by (simp_all add: bi_ops_def)
  note IH = Suc.IH [of "bi_Next it"]
  show ?case
  proof (cases "fst (ParseNextKey it)")
    case True
    then have p: "ParseNextKey it = (True, bi_Next it)" by (simp add: bi_Next_def prod_eq_iff)
    from IH ParseNextKey_progress [OF p] ParseNextKey_constants [OF p] show ?thesis
      by (auto simp: step split: option.splits)
  next
    case False
    then have "\<not> bi_Valid (bi_Next it)"
      by (auto simp: bi_Next_def bi_Valid_def ParseNextKey_def Let_def block_CorruptionError_def split: if_splits option.splits)
    then have "iter_read op_Next (bi_ops cmp) n (bi_Next it) = Some []" by (cases n) (simp_all add: step)
    then show ?thesis by (simp add: step)
  qed
qed simp

text \<open>
  C8. A block gives back what was put into it, in both directions, and \<open>Seek\<close> finds the right place
  by its two searches, the binary one over the restart points and the linear one from there. For
  every comparator that meets the laws of the interface (the bytewise one and the one of internal
  keys do), every restart interval of at least 1 and every list of keys and values whose keys
  increase strictly: on the block that \<open>BlockBuilder\<close> builds with \<open>Add\<close> and \<open>Finish\<close>, if it is shorter
  than 2^32 bytes, the iterator of \<open>Block\<close> reads exactly the list from \<open>SeekToFirst\<close> with \<open>Next\<close>,
  the reversed list from \<open>SeekToLast\<close> with \<open>Prev\<close>, and after \<open>Seek(target)\<close> exactly the entries
  whose key is not less than the target, although the keys are stored as differences.
\<close>

theorem Block_roundtrip:
  assumes "comparator cmp valid" "1 \<le> interval" "cmp_sorted cmp l" "\<forall>(k, v) \<in> set l. valid k"
    and "length (snd (BlockBuilder_Finish (build_block interval l))) < 2 ^ 32"
    and "\<forall>(k, v) \<in> set l. length k < 2 ^ 32 \<and> length v < 2 ^ 32" "valid target"
  shows "let it = Block_NewIterator (Block_make (snd (BlockBuilder_Finish (build_block interval l)))) in
      read_forward (block_ops cmp) (length l + n) it = Some l
    \<and> read_backward (block_ops cmp) (length l + n) it = Some (rev l)
    \<and> read_from (block_ops cmp) target (length l + n) it = Some (filter (\<lambda>(k, v). cmp k target \<ge> 0) l)"
proof -
  note bc = block_comparator.intro [OF assms(1)]
  note it = block_comparator.block_rep_iterator [OF bc]
  note rep = block_comparator.built_block_rep [OF bc assms(2-6)]
  show ?thesis unfolding Let_def
    using iterator.read_forward_all [OF it rep] iterator.read_backward_all [OF it rep]
      iterator.read_from_lower_bound [OF it rep assms(7)]
      comparator.drop_lower_bound [OF assms(1,3,4,7)] by simp
qed

theorem Block_roundtrip_witness:
  "let l = [([1, 2], [5]), ([1, 3], []), ([1, 3, 3], [6])];
       it = Block_NewIterator (Block_make (snd (BlockBuilder_Finish (build_block 2 l))))
   in read_forward (block_ops bytewise_Compare) (length l + 0) it = Some l
    \<and> read_backward (block_ops bytewise_Compare) (length l + 0) it = Some (rev l)
    \<and> read_from (block_ops bytewise_Compare) [1, 2, 9] (length l + 0) it
      = Some (filter (\<lambda>(k, v). bytewise_Compare k [1, 2, 9] \<ge> 0) l)"
  unfolding Let_def
  by (rule Block_roundtrip [OF bytewise.comparator_axioms, unfolded Let_def])
    (simp_all add: cmp_sorted_def bytewise_Compare_def le_less_trans [OF build_block_size])

text \<open>
  C9. Iteration over a block always ends, whatever bytes the block holds. From every state of an
  iterator, on correct or corrupt data, the number of entries that \<open>Next\<close> gives before the iterator is
  no longer valid is at most a third of the offset of the restart array, plus one: an entry takes
  at least three bytes. (The same argument makes the loops of \<open>Seek\<close>, \<open>Prev\<close> and \<open>SeekToLast\<close> end.)
\<close>

theorem Block_iteration_ends:
  "\<exists>l. iter_read op_Next (bi_ops cmp) n it = Some l \<and> length l \<le> unat (bi_restarts it) div 3 + 1"
  using iterate_bound [where cmp = cmp and n = n and it = it] by (auto split: option.splits)


end
