(* ===== verification/TableFormat.thy ===== *)
theory TableFormat imports Coding Crc32c File_Api begin

text \<open>
  \<^verbatim>\<open>table/format.h\<close> and \<^verbatim>\<open>table/format.cc\<close>: block handles, the footer of a table, and
  \<open>ReadBlock\<close>, which reads a block with its trailer (one byte for the compression type and a
  masked checksum). The file is a parameter that reads \<open>n\<close> bytes at an offset; the functions of
  the compressor, which is not part of this library, are parameters. Sizes are the 64-bit words
  of \<open>size_t\<close> where a sum is computed on them.
\<close>

section \<open>Block handles\<close>

record block_handle =
  bh_offset :: uint64
  bh_size :: uint64

definition kMaxEncodedLength :: nat where "kMaxEncodedLength = 10 + 10"

definition BlockHandle_init :: block_handle where
  "BlockHandle_init = \<lparr>bh_offset = NOT 0, bh_size = NOT 0\<rparr>"

definition BlockHandle_EncodeTo :: "block_handle \<Rightarrow> bytes \<Rightarrow> bytes" where
  "BlockHandle_EncodeTo h dst = PutVarint64 (PutVarint64 dst (bh_offset h)) (bh_size h)"

text \<open>A decoder returns its status or the value with the input that is left.\<close>

definition BlockHandle_DecodeFrom :: "bytes \<Rightarrow> status + block_handle \<times> bytes" where
  "BlockHandle_DecodeFrom input =
     (case GetVarint64 input of
        None \<Rightarrow> Inl (Corruption ''bad block handle'')
      | Some (off, input) \<Rightarrow> (case GetVarint64 input of
            None \<Rightarrow> Inl (Corruption ''bad block handle'')
          | Some (sz, input) \<Rightarrow> Inr (\<lparr>bh_offset = off, bh_size = sz\<rparr>, input)))"

section \<open>The footer\<close>

record footer =
  metaindex_handle :: block_handle
  index_handle :: block_handle

definition kEncodedLength :: nat where "kEncodedLength = 2 * kMaxEncodedLength + 8"

definition kTableMagicNumber :: uint64 where "kTableMagicNumber = 0xdb4775248b80fb57"

definition resize :: "nat \<Rightarrow> bytes \<Rightarrow> bytes" where
  "resize n s = take n s @ replicate (n - length s) 0"

definition Footer_EncodeTo :: "footer \<Rightarrow> bytes \<Rightarrow> bytes" where
  "Footer_EncodeTo f dst =
     (let dst = BlockHandle_EncodeTo (metaindex_handle f) dst;
          dst = BlockHandle_EncodeTo (index_handle f) dst;
          dst = resize (2 * kMaxEncodedLength) dst;
          dst = PutFixed32 dst (ucast (kTableMagicNumber AND 0xffffffff))
      in PutFixed32 dst (ucast (drop_bit 32 kTableMagicNumber)))"

definition Footer_DecodeFrom :: "bytes \<Rightarrow> status + footer \<times> bytes" where
  "Footer_DecodeFrom input =
     (let magic_ptr = drop (kEncodedLength - 8) input;
          magic_lo = DecodeFixed32 magic_ptr;
          magic_hi = DecodeFixed32 (drop 4 magic_ptr);
          magic = push_bit 32 (ucast magic_hi) OR ucast magic_lo
      in if magic \<noteq> kTableMagicNumber then Inl (Corruption ''not an sstable (bad magic number)'')
         else case BlockHandle_DecodeFrom input of
             Inl s \<Rightarrow> Inl s
           | Inr (meta, rest) \<Rightarrow> (case BlockHandle_DecodeFrom rest of
                 Inl s \<Rightarrow> Inl s
               | Inr (idx, rest) \<Rightarrow>
                   Inr (\<lparr>metaindex_handle = meta, index_handle = idx\<rparr>, drop 8 magic_ptr)))"

section \<open>Reading a block\<close>

definition kBlockTrailerSize :: nat where "kBlockTrailerSize = 5"
definition kNoCompression :: byte where "kNoCompression = 0"
definition kSnappyCompression :: byte where "kSnappyCompression = 1"

record block_contents =
  bc_data :: bytes
  bc_cachable :: bool
  bc_heap_allocated :: bool

text \<open>
  The read and the test of its length, with the sum \<open>n + kBlockTrailerSize\<close> in \<open>size_t\<close>.
\<close>

definition ReadBlock_raw :: "(nat \<Rightarrow> nat \<Rightarrow> status \<times> bytes) \<Rightarrow> block_handle \<Rightarrow> status + bytes" where
  "ReadBlock_raw pread handle =
     (let n = bh_size handle;
          (s, contents) = pread (unat (bh_offset handle)) (unat (n + of_nat kBlockTrailerSize))
      in if \<not> ok s then Inl s
         else if length contents \<noteq> unat (n + of_nat kBlockTrailerSize) then Inl (Corruption ''truncated block read'')
         else Inr contents)"

definition block_crc_ok :: "nat \<Rightarrow> bytes \<Rightarrow> bool" where
  "block_crc_ok n data \<longleftrightarrow> crc_Value (take (n + 1) data) = Unmask (DecodeFixed32 (drop (n + 1) data))"

text \<open>
  \<open>in_buf\<close> tells whether \<open>Read\<close> put the data into the buffer it was given (\<open>data == buf\<close>).
\<close>

definition ReadBlock ::
  "(bytes \<Rightarrow> nat option) \<Rightarrow> (bytes \<Rightarrow> nat \<Rightarrow> bytes option) \<Rightarrow> (nat \<Rightarrow> nat \<Rightarrow> status \<times> bytes) \<Rightarrow> bool
    \<Rightarrow> bool \<Rightarrow> block_handle \<Rightarrow> status + block_contents" where
  "ReadBlock snappy_length snappy_uncompress pread in_buf verify_checksums handle =
     (case ReadBlock_raw pread handle of
        Inl s \<Rightarrow> Inl s
      | Inr data \<Rightarrow>
          let n = unat (bh_size handle) in
          if verify_checksums \<and> \<not> block_crc_ok n data then Inl (Corruption ''block checksum mismatch'')
          else if data ! n = kNoCompression
          then Inr (if \<not> in_buf then \<lparr>bc_data = take n data, bc_cachable = False, bc_heap_allocated = False\<rparr>
                    else \<lparr>bc_data = take n data, bc_cachable = True, bc_heap_allocated = True\<rparr>)
          else if data ! n = kSnappyCompression
          then case snappy_length (take n data) of
                 None \<Rightarrow> Inl (Corruption ''corrupted compressed block contents'')
               | Some ulength \<Rightarrow> (case snappy_uncompress (take n data) ulength of
                     None \<Rightarrow> Inl (Corruption ''corrupted compressed block contents'')
                   | Some ubuf \<Rightarrow> Inr \<lparr>bc_data = ubuf, bc_cachable = True, bc_heap_allocated = True\<rparr>)
          else Inl (Corruption ''bad block type''))"

section \<open>Round trips\<close>

lemma BlockHandle_EncodeTo_append: "BlockHandle_EncodeTo h dst = dst @ BlockHandle_EncodeTo h []"
  by (simp add: BlockHandle_EncodeTo_def PutVarint64_def)

lemma length_BlockHandle_EncodeTo: "length (BlockHandle_EncodeTo h []) \<le> kMaxEncodedLength"
  using length_EncodeVarint64 [of "bh_offset h"] length_EncodeVarint64 [of "bh_size h"]
  by (simp add: BlockHandle_EncodeTo_def PutVarint64_def kMaxEncodedLength_def)

lemma BlockHandle_roundtrip [simp]:
  "BlockHandle_DecodeFrom (BlockHandle_EncodeTo h [] @ rest) = Inr (h, rest)"
  by (simp add: BlockHandle_DecodeFrom_def BlockHandle_EncodeTo_def PutVarint64_def)

lemma BlockHandle_roundtrip_all [simp]: "BlockHandle_DecodeFrom (BlockHandle_EncodeTo h []) = Inr (h, [])"
  using BlockHandle_roundtrip [of h "[]"] by simp

lemma Footer_EncodeTo_bytes:
  "\<exists>pad. Footer_EncodeTo f [] =
     BlockHandle_EncodeTo (metaindex_handle f) [] @ BlockHandle_EncodeTo (index_handle f) [] @ pad
       @ EncodeFixed32 (ucast (kTableMagicNumber AND 0xffffffff)) @ EncodeFixed32 (ucast (drop_bit 32 kTableMagicNumber))
   \<and> length (BlockHandle_EncodeTo (metaindex_handle f) [] @ BlockHandle_EncodeTo (index_handle f) [] @ pad) = 40"
proof -
  let ?a = "BlockHandle_EncodeTo (metaindex_handle f) [] @ BlockHandle_EncodeTo (index_handle f) []"
  have l: "length ?a \<le> 40"
    using length_BlockHandle_EncodeTo [of "metaindex_handle f"] length_BlockHandle_EncodeTo [of "index_handle f"]
    by (simp add: kMaxEncodedLength_def)
  have e: "BlockHandle_EncodeTo (index_handle f) (BlockHandle_EncodeTo (metaindex_handle f) []) = ?a"
    by (rule BlockHandle_EncodeTo_append)
  show ?thesis
    using l by (intro exI [of _ "replicate (40 - length ?a) 0"])
      (simp add: Footer_EncodeTo_def Let_def e resize_def kMaxEncodedLength_def PutFixed32_def)
qed

lemma length_Footer_EncodeTo: "length (Footer_EncodeTo f []) = kEncodedLength"
proof -
  obtain pad where "Footer_EncodeTo f [] =
     (BlockHandle_EncodeTo (metaindex_handle f) [] @ BlockHandle_EncodeTo (index_handle f) [] @ pad)
       @ EncodeFixed32 (ucast (kTableMagicNumber AND 0xffffffff)) @ EncodeFixed32 (ucast (drop_bit 32 kTableMagicNumber))"
   "length (BlockHandle_EncodeTo (metaindex_handle f) [] @ BlockHandle_EncodeTo (index_handle f) [] @ pad) = 40"
    using Footer_EncodeTo_bytes [of f] by auto
  then show ?thesis by (simp add: kEncodedLength_def kMaxEncodedLength_def)
qed

lemma Footer_decode_encode: "Footer_DecodeFrom (Footer_EncodeTo f [] @ rest) = Inr (f, rest)"
proof -
  let ?m = "BlockHandle_EncodeTo (metaindex_handle f) []" and ?i = "BlockHandle_EncodeTo (index_handle f) []"
  let ?lo = "ucast (kTableMagicNumber AND 0xffffffff) :: uint32" and ?hi = "ucast (drop_bit 32 kTableMagicNumber) :: uint32"
  obtain pad where e: "Footer_EncodeTo f [] = ?m @ ?i @ pad @ EncodeFixed32 ?lo @ EncodeFixed32 ?hi"
    and l: "length (?m @ ?i @ pad) = 40"
    using Footer_EncodeTo_bytes [of f] by blast
  have "drop 40 ((?m @ ?i @ pad) @ EncodeFixed32 ?lo @ EncodeFixed32 ?hi @ rest) = EncodeFixed32 ?lo @ EncodeFixed32 ?hi @ rest"
    by (rule drop_append_length) (simp only: l)
  then have d: "drop (kEncodedLength - 8) (Footer_EncodeTo f [] @ rest) = EncodeFixed32 ?lo @ EncodeFixed32 ?hi @ rest"
    by (simp add: e kEncodedLength_def kMaxEncodedLength_def)
  have m: "push_bit 32 (ucast ?hi) OR ucast ?lo = kTableMagicNumber"
    by (simp add: kTableMagicNumber_def)
  have b: "BlockHandle_DecodeFrom (Footer_EncodeTo f [] @ rest) =
      Inr (metaindex_handle f, ?i @ pad @ EncodeFixed32 ?lo @ EncodeFixed32 ?hi @ rest)"
    by (simp add: e)
  show ?thesis
    unfolding Footer_DecodeFrom_def Let_def d b using m by simp
qed

definition block_trailer :: "byte \<Rightarrow> bytes \<Rightarrow> bytes" where
  "block_trailer type contents = type # EncodeFixed32 (Mask (Extend (crc_Value contents) [type]))"

lemma length_block_trailer [simp]: "length (block_trailer type contents) = 5"
  by (simp add: block_trailer_def)

end
