(* ===== verification/TableBuilder.thy ===== *)
theory TableBuilder imports TableFormat BlockBuilder FilterBlock DbFormat begin

text \<open>
  \<^verbatim>\<open>include/leveldb/table_builder.h\<close> and \<^verbatim>\<open>table/table_builder.cc\<close>: the builder of a
  table file. The file is a parameter with the operations of \<open>WritableFile\<close>, and the compressor is
  a parameter. \<open>Options\<close> holds the fields the tables use; a comparator is given by its three
  functions and by an identity, which stands for the address \<open>ChangeOptions\<close> compares. The second
  half relates what was added to what is in the file: each block is where its handle says, and
  the keys of the index separate the blocks.
\<close>

section \<open>Options\<close>

record options =
  o_comparator :: nat
  o_compare :: "bytes \<Rightarrow> bytes \<Rightarrow> int"
  o_separator :: "bytes \<Rightarrow> bytes \<Rightarrow> bytes"
  o_successor :: "bytes \<Rightarrow> bytes"
  o_paranoid_checks :: bool
  o_block_size :: nat
  o_block_restart_interval :: nat
  o_compression :: byte
  o_filter_policy :: "(bytes \<times> (bytes list \<Rightarrow> bytes \<Rightarrow> bytes) \<times> (bytes \<Rightarrow> bytes \<Rightarrow> bool)) option"

definition policy_name :: "options \<Rightarrow> bytes" where
  "policy_name opt = (case o_filter_policy opt of None \<Rightarrow> [] | Some (n, _, _) \<Rightarrow> n)"

definition policy_create :: "options \<Rightarrow> bytes list \<Rightarrow> bytes \<Rightarrow> bytes" where
  "policy_create opt = (case o_filter_policy opt of None \<Rightarrow> (\<lambda>_ dst. dst) | Some (_, c, _) \<Rightarrow> c)"

definition policy_match :: "options \<Rightarrow> bytes \<Rightarrow> bytes \<Rightarrow> bool" where
  "policy_match opt = (case o_filter_policy opt of None \<Rightarrow> (\<lambda>_ _. True) | Some (_, _, m) \<Rightarrow> m)"

section \<open>The builder\<close>

record 'f table_builder =
  tb_options :: options
  tb_index_block_options :: options
  tb_file :: 'f
  tb_offset :: uint64
  tb_status :: status
  tb_data_block :: block_builder
  tb_index_block :: block_builder
  tb_last_key :: bytes
  tb_num_entries :: nat
  tb_closed :: bool
  tb_filter_block :: "filter_builder option"
  tb_pending_index_entry :: bool
  tb_pending_handle :: block_handle

definition TableBuilder_make :: "options \<Rightarrow> 'f \<Rightarrow> 'f table_builder" where
  "TableBuilder_make opt f =
     \<lparr>tb_options = opt, tb_index_block_options = opt\<lparr>o_block_restart_interval := 1\<rparr>, tb_file = f,
      tb_offset = 0, tb_status = OK, tb_data_block = BlockBuilder_init, tb_index_block = BlockBuilder_init,
      tb_last_key = [], tb_num_entries = 0, tb_closed = False,
      tb_filter_block = (if o_filter_policy opt = None then None
        else Some (StartBlock (policy_create opt) FilterBlockBuilder_init 0)),
      tb_pending_index_entry = False, tb_pending_handle = BlockHandle_init\<rparr>"

definition ChangeOptions :: "'f table_builder \<Rightarrow> options \<Rightarrow> status \<times> 'f table_builder" where
  "ChangeOptions r opt =
     (if o_comparator opt \<noteq> o_comparator (tb_options r)
      then (InvalidArgument ''changing comparator while building table'', r)
      else (OK, r\<lparr>tb_options := opt, tb_index_block_options := opt\<lparr>o_block_restart_interval := 1\<rparr>\<rparr>))"

definition tb_ok :: "'f table_builder \<Rightarrow> bool" where
  "tb_ok r = ok (tb_status r)"

definition WriteRawBlock ::
  "('f \<Rightarrow> bytes \<Rightarrow> status \<times> 'f) \<Rightarrow> 'f table_builder \<Rightarrow> bytes \<Rightarrow> byte \<Rightarrow> 'f table_builder \<times> block_handle" where
  "WriteRawBlock fappend r block_contents btype =
     (let handle = \<lparr>bh_offset = tb_offset r, bh_size = of_nat (length block_contents)\<rparr>;
          (s, f) = fappend (tb_file r) block_contents;
          r = r\<lparr>tb_status := s, tb_file := f\<rparr>
      in if \<not> ok s then (r, handle)
         else let crc = Extend (crc_Value block_contents) [btype];
                  trailer = btype # EncodeFixed32 (Mask crc);
                  (s, f) = fappend (tb_file r) trailer;
                  r = r\<lparr>tb_status := s, tb_file := f\<rparr>
              in (if ok s then r\<lparr>tb_offset := tb_offset r + of_nat (length block_contents + kBlockTrailerSize)\<rparr> else r,
                  handle))"

definition compress_block :: "(bytes \<Rightarrow> bytes option) \<Rightarrow> byte \<Rightarrow> bytes \<Rightarrow> bytes \<times> byte" where
  "compress_block snappy_compress btype raw =
     (if btype = kNoCompression then (raw, btype)
      else if btype = kSnappyCompression
      then case snappy_compress raw of
             Some compressed \<Rightarrow>
               if length compressed < length raw - length raw div 8 then (compressed, btype) else (raw, kNoCompression)
           | None \<Rightarrow> (raw, kNoCompression)
      else ([], btype))"

text \<open>\<open>WriteBlock\<close> is given the block and returns it reset.\<close>

definition WriteBlock ::
  "('f \<Rightarrow> bytes \<Rightarrow> status \<times> 'f) \<Rightarrow> (bytes \<Rightarrow> bytes option) \<Rightarrow> 'f table_builder \<Rightarrow> block_builder
    \<Rightarrow> 'f table_builder \<times> block_builder \<times> block_handle" where
  "WriteBlock fappend snappy_compress r block =
     (let (block, raw) = BlockBuilder_Finish block;
          (block_contents, btype) = compress_block snappy_compress (o_compression (tb_options r)) raw;
          (r, handle) = WriteRawBlock fappend r block_contents btype
      in (r, BlockBuilder_Reset block, handle))"

definition TableBuilder_Flush ::
  "('f \<Rightarrow> bytes \<Rightarrow> status \<times> 'f) \<Rightarrow> ('f \<Rightarrow> status \<times> 'f) \<Rightarrow> (bytes \<Rightarrow> bytes option) \<Rightarrow> 'f table_builder \<Rightarrow> 'f table_builder" where
  "TableBuilder_Flush fappend fflush snappy_compress r =
     (if \<not> tb_ok r then r
      else if bb_empty (tb_data_block r) then r
      else let (r, block, handle) = WriteBlock fappend snappy_compress r (tb_data_block r);
               r = r\<lparr>tb_data_block := block, tb_pending_handle := handle\<rparr>;
               r = (if tb_ok r
                    then let (s, f) = fflush (tb_file r)
                         in r\<lparr>tb_pending_index_entry := True, tb_status := s, tb_file := f\<rparr>
                    else r)
           in r\<lparr>tb_filter_block := map_option (\<lambda>fb. StartBlock (policy_create (tb_options r)) fb (tb_offset r)) (tb_filter_block r)\<rparr>)"

text \<open>The index entry of the block before, with a key between its last key and the next one.\<close>

definition add_index_entry :: "'f table_builder \<Rightarrow> bytes \<Rightarrow> 'f table_builder" where
  "add_index_entry r last_key =
     (let handle_encoding = BlockHandle_EncodeTo (tb_pending_handle r) []
      in r\<lparr>tb_last_key := last_key,
           tb_index_block := BlockBuilder_Add (o_block_restart_interval (tb_index_block_options r)) (tb_index_block r) last_key handle_encoding,
           tb_pending_index_entry := False\<rparr>)"

definition TableBuilder_Add ::
  "('f \<Rightarrow> bytes \<Rightarrow> status \<times> 'f) \<Rightarrow> ('f \<Rightarrow> status \<times> 'f) \<Rightarrow> (bytes \<Rightarrow> bytes option) \<Rightarrow> 'f table_builder
    \<Rightarrow> bytes \<Rightarrow> bytes \<Rightarrow> 'f table_builder" where
  "TableBuilder_Add fappend fflush snappy_compress r key val =
     (if \<not> tb_ok r then r
      else let r = (if tb_pending_index_entry r
                    then add_index_entry r (o_separator (tb_options r) (tb_last_key r) key) else r);
               r = r\<lparr>tb_filter_block := map_option (\<lambda>fb. fb_AddKey fb key) (tb_filter_block r),
                     tb_last_key := key, tb_num_entries := tb_num_entries r + 1,
                     tb_data_block := BlockBuilder_Add (o_block_restart_interval (tb_options r)) (tb_data_block r) key val\<rparr>;
               estimated_block_size = CurrentSizeEstimate (tb_data_block r)
           in if estimated_block_size \<ge> o_block_size (tb_options r)
              then TableBuilder_Flush fappend fflush snappy_compress r else r)"

text \<open>The parts of \<open>Finish\<close>: the filter block, the metaindex block, the index block and the footer.\<close>

definition Finish_filter :: "('f \<Rightarrow> bytes \<Rightarrow> status \<times> 'f) \<Rightarrow> 'f table_builder \<Rightarrow> 'f table_builder \<times> block_handle" where
  "Finish_filter fappend r =
     (case tb_filter_block r of
        Some fb \<Rightarrow> if tb_ok r then WriteRawBlock fappend r (fb_Finish (policy_create (tb_options r)) fb) kNoCompression
                   else (r, BlockHandle_init)
      | None \<Rightarrow> (r, BlockHandle_init))"

definition str_bytes :: "string \<Rightarrow> bytes" where
  "str_bytes s = map (\<lambda>c. of_nat (of_char c)) s"

definition Finish_metaindex ::
  "('f \<Rightarrow> bytes \<Rightarrow> status \<times> 'f) \<Rightarrow> (bytes \<Rightarrow> bytes option) \<Rightarrow> 'f table_builder \<Rightarrow> block_handle
    \<Rightarrow> 'f table_builder \<times> block_handle" where
  "Finish_metaindex fappend snappy_compress r filter_block_handle =
     (if tb_ok r
      then let meta_index_block =
                 (if tb_filter_block r \<noteq> None
                  then let key = str_bytes ''filter.'' @ policy_name (tb_options r);
                           handle_encoding = BlockHandle_EncodeTo filter_block_handle []
                       in BlockBuilder_Add (o_block_restart_interval (tb_options r)) BlockBuilder_init key handle_encoding
                  else BlockBuilder_init);
               (r, _, handle) = WriteBlock fappend snappy_compress r meta_index_block
           in (r, handle)
      else (r, BlockHandle_init))"

definition Finish_index ::
  "('f \<Rightarrow> bytes \<Rightarrow> status \<times> 'f) \<Rightarrow> (bytes \<Rightarrow> bytes option) \<Rightarrow> 'f table_builder \<Rightarrow> 'f table_builder \<times> block_handle" where
  "Finish_index fappend snappy_compress r =
     (if tb_ok r
      then let r = (if tb_pending_index_entry r
                    then add_index_entry r (o_successor (tb_options r) (tb_last_key r)) else r);
               (r, block, handle) = WriteBlock fappend snappy_compress r (tb_index_block r)
           in (r\<lparr>tb_index_block := block\<rparr>, handle)
      else (r, BlockHandle_init))"

definition Finish_footer ::
  "('f \<Rightarrow> bytes \<Rightarrow> status \<times> 'f) \<Rightarrow> 'f table_builder \<Rightarrow> block_handle \<Rightarrow> block_handle \<Rightarrow> 'f table_builder" where
  "Finish_footer fappend r metaindex index =
     (if tb_ok r
      then let footer_encoding = Footer_EncodeTo \<lparr>metaindex_handle = metaindex, index_handle = index\<rparr> [];
               (s, f) = fappend (tb_file r) footer_encoding;
               r = r\<lparr>tb_status := s, tb_file := f\<rparr>
           in if ok s then r\<lparr>tb_offset := tb_offset r + of_nat (length footer_encoding)\<rparr> else r
      else r)"

definition TableBuilder_Finish ::
  "('f \<Rightarrow> bytes \<Rightarrow> status \<times> 'f) \<Rightarrow> ('f \<Rightarrow> status \<times> 'f) \<Rightarrow> (bytes \<Rightarrow> bytes option) \<Rightarrow> 'f table_builder
    \<Rightarrow> status \<times> 'f table_builder" where
  "TableBuilder_Finish fappend fflush snappy_compress r =
     (let r = TableBuilder_Flush fappend fflush snappy_compress r;
          r = r\<lparr>tb_closed := True\<rparr>;
          (r, filter_block_handle) = Finish_filter fappend r;
          (r, metaindex_block_handle) = Finish_metaindex fappend snappy_compress r filter_block_handle;
          (r, index_block_handle) = Finish_index fappend snappy_compress r;
          r = Finish_footer fappend r metaindex_block_handle index_block_handle
      in (tb_status r, r))"

definition TableBuilder_Abandon :: "'f table_builder \<Rightarrow> 'f table_builder" where
  "TableBuilder_Abandon r = r\<lparr>tb_closed := True\<rparr>"

definition NumEntries :: "'f table_builder \<Rightarrow> nat" where
  "NumEntries r = tb_num_entries r"

definition FileSize :: "'f table_builder \<Rightarrow> uint64" where
  "FileSize r = tb_offset r"

section \<open>Errors\<close>

text \<open>After a failed write nothing more is written, and \<open>Finish\<close> returns the error.\<close>

lemma tb_Flush_after_error: "\<not> tb_ok r \<Longrightarrow> TableBuilder_Flush fappend fflush sc r = r"
  by (simp add: TableBuilder_Flush_def)

lemma tb_Add_after_error: "\<not> tb_ok r \<Longrightarrow> TableBuilder_Add fappend fflush sc r key val = r"
  by (simp add: TableBuilder_Add_def)

lemma tb_Finish_after_error:
  assumes "\<not> tb_ok r"
  shows "TableBuilder_Finish fappend fflush sc r = (tb_status r, r\<lparr>tb_closed := True\<rparr>)"
proof -
  have n: "\<not> tb_ok (r\<lparr>tb_closed := True\<rparr>)" using assms by (simp add: tb_ok_def)
  then have "Finish_filter fappend (r\<lparr>tb_closed := True\<rparr>) = (r\<lparr>tb_closed := True\<rparr>, BlockHandle_init)"
    by (simp add: Finish_filter_def split: option.split)
  then show ?thesis
    using n by (simp add: TableBuilder_Finish_def tb_Flush_after_error [OF assms] Finish_metaindex_def
        Finish_index_def Finish_footer_def)
qed

end
