(* ===== verification/TableFile.thy ===== *)
theory TableFile imports TableBuilder BlockIter begin

text \<open>
  What \<open>TableBuilder\<close> leaves in the file. \<open>stored\<close> says that a handle points at a block with its
  trailer; the invariant \<open>tb_inv\<close> says which entries are in finished blocks and which in the current
  one, that the handles of the finished blocks are stored, and that the keys of the index separate
  them. The file and the compressor are parameters under the laws of their interfaces.
\<close>

section \<open>Stored blocks\<close>

text \<open>The bytes a block is stored as, and the block they stand for.\<close>

definition block_image :: "nat \<Rightarrow> (bytes \<times> bytes) list \<Rightarrow> bytes" where
  "block_image interval l = snd (BlockBuilder_Finish (build_block interval l))"

text \<open>A bound on the bytes that a list of entries needs in a table.\<close>

definition entries_size :: "(bytes \<times> bytes) list \<Rightarrow> nat" where
  "entries_size l = sum_list (map (\<lambda>(k, v). 64 + length k + length v) l)"

lemma entries_size_append: "entries_size (a @ b) = entries_size a + entries_size b"
  by (simp add: entries_size_def)

lemma entries_size_member: "e \<in> set es \<Longrightarrow> 64 + length (fst e) \<le> entries_size es"
proof -
  assume "e \<in> set es"
  then have "(case e of (k, v) \<Rightarrow> 64 + length k + length v) \<le> entries_size es"
    unfolding entries_size_def by (intro member_le_sum_list) auto
  then show ?thesis by (cases e) simp
qed

lemma entries_size_19: "sum_list (map (\<lambda>(k, v). 19 + length k + length v) es) \<le> entries_size es"
  unfolding entries_size_def by (intro sum_list_mono) auto

locale compressor =
  fixes snappy_compress :: "bytes \<Rightarrow> bytes option"
    and snappy_length :: "bytes \<Rightarrow> nat option"
    and snappy_uncompress :: "bytes \<Rightarrow> nat \<Rightarrow> bytes option"
  assumes snappy_roundtrip: "snappy_compress raw = Some c \<Longrightarrow>
      snappy_length c = Some (length raw) \<and> snappy_uncompress c (length raw) = Some raw"
begin

definition represents :: "byte \<Rightarrow> bytes \<Rightarrow> bytes \<Rightarrow> bool" where
  "represents btype payload raw \<longleftrightarrow>
     (btype = kNoCompression \<and> payload = raw) \<or>
     (btype = kSnappyCompression \<and> snappy_length payload = Some (length raw) \<and>
       snappy_uncompress payload (length raw) = Some raw)"

definition stored :: "bytes \<Rightarrow> block_handle \<Rightarrow> bytes \<Rightarrow> bool" where
  "stored C h raw \<longleftrightarrow>
     (\<exists>pre payload btype post. C = pre @ payload @ block_trailer btype payload @ post \<and>
        bh_offset h = of_nat (length pre) \<and> bh_size h = of_nat (length payload) \<and> represents btype payload raw)"

lemma stored_append: "stored C h raw \<Longrightarrow> stored (C @ x) h raw"
  unfolding stored_def by (metis append.assoc)

lemma compress_block_represents:
  assumes "t = kNoCompression \<or> t = kSnappyCompression" "compress_block snappy_compress t raw = (payload, btype)"
  shows "represents btype payload raw"
  using assms snappy_roundtrip
  by (auto simp: compress_block_def represents_def kNoCompression_def kSnappyCompression_def split: option.splits if_splits)

lemma block_crc_ok_stored: "block_crc_ok (length payload) (payload @ block_trailer btype payload)"
proof -
  have "Unmask (DecodeFixed32 (EncodeFixed32 (Mask c))) = c" for c by simp
  moreover have "crc_Value (payload @ [btype]) = Extend (crc_Value payload) [btype]"
    by (simp add: crc_Value_def Extend_Extend)
  ultimately show ?thesis by (simp add: block_crc_ok_def block_trailer_def)
qed

lemma compress_block_length:
  assumes "t = kNoCompression \<or> t = kSnappyCompression" "compress_block snappy_compress t raw = (payload, btype)"
  shows "length payload \<le> length raw"
  using assms by (auto simp: compress_block_def kNoCompression_def kSnappyCompression_def split: option.splits if_splits)

text \<open>A stored block is read back, and its checksum verifies.\<close>

lemma ReadBlock_stored:
  assumes st: "stored C h raw" and size: "length C < 2 ^ 64"
    and pread: "\<And>off n. off \<le> length C \<Longrightarrow> pread off n = (OK, take n (drop off C))"
  shows "\<exists>bc. ReadBlock snappy_length snappy_uncompress pread in_buf verify h = Inr bc \<and> bc_data bc = raw"
proof -
  obtain pre payload btype post where C: "C = pre @ payload @ block_trailer btype payload @ post"
    and off: "bh_offset h = of_nat (length pre)" and n: "bh_size h = of_nat (length payload)"
    and rep: "represents btype payload raw"
    using st by (auto simp: stored_def)
  have len: "length pre + length payload + 5 \<le> length C" by (simp add: C)
  then have u: "unat (bh_offset h) = length pre" "unat (bh_size h) = length payload"
    "unat (bh_size h + 5) = length payload + 5"
    using size unat_of_nat_64 [of "length payload + 5"] by (simp_all add: off n unat_of_nat_64)
  have data: "take (length payload + 5) (drop (length pre) C) = payload @ block_trailer btype payload"
    by (simp add: C)
  have raw: "ReadBlock_raw pread h = Inr (payload @ block_trailer btype payload)"
    using len data by (simp add: ReadBlock_raw_def Let_def kBlockTrailerSize_def u pread ok_def)
  have "(payload @ block_trailer btype payload) ! length payload = btype" by (simp add: block_trailer_def nth_append)
  then show ?thesis
    using rep block_crc_ok_stored [of payload btype]
    by (auto simp: ReadBlock_def raw u Let_def represents_def kNoCompression_def kSnappyCompression_def)
qed

end

section \<open>The invariant of the builder\<close>

locale table_writer =
  wfile: writable_file fappend fflush contents good +
  kcmp: key_comparator "o_compare opt" kvalid "o_separator opt" "o_successor opt" +
  snappy: compressor snappy_compress snappy_length snappy_uncompress
  for fappend :: "'f \<Rightarrow> bytes \<Rightarrow> status \<times> 'f" and fflush contents good
    and opt :: options and kvalid snappy_compress snappy_length snappy_uncompress +
  assumes interval: "1 \<le> o_block_restart_interval opt"
    and compression: "o_compression opt = kNoCompression \<or> o_compression opt = kSnappyCompression"
    and sep_length: "length (o_separator opt a b) \<le> length a"
    and succ_length: "length (o_successor opt a) \<le> length a"
begin

abbreviation "img \<equiv> block_image (o_block_restart_interval opt)"
abbreviation "stored \<equiv> snappy.stored"
abbreviation "cmp \<equiv> o_compare opt"

text \<open>The key of an index entry separates its block from the entries after it; it is the shortened key if there are any.\<close>

definition separates :: "bytes \<Rightarrow> (bytes \<times> bytes) list \<Rightarrow> (bytes \<times> bytes) list \<Rightarrow> bool" where
  "separates sep es later \<longleftrightarrow> kvalid sep \<and> (\<exists>e \<in> set es. length sep \<le> length (fst e)) \<and> (\<forall>e \<in> set es. cmp (fst e) sep \<le> 0) \<and> (\<forall>e \<in> set later. cmp sep (fst e) < 0)
     \<and> (later \<noteq> [] \<longrightarrow> sep = o_separator opt (fst (last es)) (fst (hd later)))"

definition after :: "((bytes \<times> bytes) list \<times> block_handle) list \<Rightarrow> (bytes \<times> bytes) list \<Rightarrow> nat \<Rightarrow> (bytes \<times> bytes) list" where
  "after bs cur j = concat (map fst (drop (Suc j) bs)) @ cur"

definition seps_ok :: "bytes list \<Rightarrow> ((bytes \<times> bytes) list \<times> block_handle) list \<Rightarrow> (bytes \<times> bytes) list \<Rightarrow> bool" where
  "seps_ok seps bs cur \<longleftrightarrow> length seps \<le> length bs \<and>
     (\<forall>j < length seps. separates (seps ! j) (fst (bs ! j)) (after bs cur j))"

definition all_entries :: "((bytes \<times> bytes) list \<times> block_handle) list \<Rightarrow> (bytes \<times> bytes) list \<Rightarrow> (bytes \<times> bytes) list" where
  "all_entries bs cur = concat (map fst bs) @ cur"

definition index_entries :: "bytes list \<Rightarrow> ((bytes \<times> bytes) list \<times> block_handle) list \<Rightarrow> (bytes \<times> bytes) list" where
  "index_entries seps bs = map (\<lambda>(sep, es, h). (sep, BlockHandle_EncodeTo h [])) (zip seps bs)"

text \<open>The offsets at which the blocks were written, as naturals.\<close>

definition offsets_ok :: "bytes \<Rightarrow> ((bytes \<times> bytes) list \<times> block_handle) list \<Rightarrow> nat list \<Rightarrow> bool" where
  "offsets_ok C bs ps \<longleftrightarrow> map (bh_offset \<circ> snd) bs = map of_nat ps \<and> sorted_wrt (<) ps \<and> (\<forall>p \<in> set ps. p < length C)"

definition tb_base :: "'f table_builder \<Rightarrow> bool" where
  "tb_base r \<longleftrightarrow>
     tb_status r = OK \<and> good (tb_file r) \<and> tb_offset r = of_nat (length (contents (tb_file r))) \<and>
     tb_options r = opt \<and> tb_index_block_options r = opt\<lparr>o_block_restart_interval := 1\<rparr>"

definition filter_calls :: "'f table_builder \<Rightarrow> ((bytes \<times> bytes) list \<times> block_handle) list \<Rightarrow> (bytes \<times> bytes) list
    \<Rightarrow> (uint64 \<times> bytes list) list" where
  "filter_calls r bs cur = map (\<lambda>(es, h). (bh_offset h, map fst es)) bs @ [(tb_offset r, map fst cur)]"

definition tb_inv ::
  "'f table_builder \<Rightarrow> bytes list \<Rightarrow> ((bytes \<times> bytes) list \<times> block_handle) list \<Rightarrow> (bytes \<times> bytes) list \<Rightarrow> bool" where
  "tb_inv r seps bs cur \<longleftrightarrow>
     tb_base r \<and>
     (\<forall>(es, h) \<in> set bs. es \<noteq> [] \<and> stored (contents (tb_file r)) h (img es)) \<and>
     (\<exists>ps. offsets_ok (contents (tb_file r)) bs ps) \<and>
     length (contents (tb_file r)) \<le> entries_size (concat (map fst bs)) \<and>
     tb_data_block r = build_block (o_block_restart_interval opt) cur \<and>
     tb_index_block r = build_block 1 (index_entries seps bs) \<and>
     seps_ok seps bs cur \<and>
     (tb_pending_index_entry r \<longrightarrow> cur = [] \<and> bs \<noteq> [] \<and> Suc (length seps) = length bs \<and> tb_pending_handle r = snd (last bs)) \<and>
     (\<not> tb_pending_index_entry r \<longrightarrow> length seps = length bs \<and> (bs \<noteq> [] \<longrightarrow> cur \<noteq> [])) \<and>
     (all_entries bs cur \<noteq> [] \<longrightarrow> tb_last_key r = fst (last (all_entries bs cur))) \<and>
     cmp_sorted cmp (all_entries bs cur) \<and> (\<forall>e \<in> set (all_entries bs cur). kvalid (fst e)) \<and>
     tb_filter_block r = (if o_filter_policy opt = None then None
       else Some (fb_build (policy_create opt) (filter_calls r bs cur)))"

lemma tb_inv_init:
  assumes "good f" "contents f = []"
  shows "tb_inv (TableBuilder_make opt f) [] [] []"
  using assms
  by (auto simp: tb_inv_def tb_base_def TableBuilder_make_def offsets_ok_def build_block_def index_entries_def
      seps_ok_def all_entries_def cmp_sorted_def filter_calls_def fb_build_def fb_block_def)

lemma append_ok: "good f \<Longrightarrow> \<exists>f'. fappend f x = (OK, f') \<and> good f' \<and> contents f' = contents f @ x"
  using wfile.append_ok [of f x] by (cases "fappend f x") auto

lemma flush_ok: "good f \<Longrightarrow> \<exists>f'. fflush f = (OK, f') \<and> good f' \<and> contents f' = contents f"
  using wfile.flush_ok [of f] by (cases "fflush f") auto

lemma WriteRawBlock_ok:
  assumes "tb_base r"
  shows "\<exists>f'. WriteRawBlock fappend r payload btype =
      (r\<lparr>tb_file := f', tb_offset := of_nat (length (contents f'))\<rparr>,
       \<lparr>bh_offset = of_nat (length (contents (tb_file r))), bh_size = of_nat (length payload)\<rparr>)
    \<and> good f' \<and> contents f' = contents (tb_file r) @ payload @ block_trailer btype payload"
proof -
  have g: "good (tb_file r)" and o: "tb_offset r = of_nat (length (contents (tb_file r)))" and s: "tb_status r = OK"
    using assms by (simp_all add: tb_base_def)
  obtain f1 where f1: "fappend (tb_file r) payload = (OK, f1)" "good f1" "contents f1 = contents (tb_file r) @ payload"
    using append_ok [OF g] by blast
  obtain f2 where f2: "fappend f1 (block_trailer btype payload) = (OK, f2)" "good f2"
    "contents f2 = contents f1 @ block_trailer btype payload"
    using append_ok [OF f1(2)] by blast
  have "WriteRawBlock fappend r payload btype =
      (r\<lparr>tb_file := f2, tb_offset := of_nat (length (contents f2))\<rparr>,
       \<lparr>bh_offset = of_nat (length (contents (tb_file r))), bh_size = of_nat (length payload)\<rparr>)"
    using f1 f2 s o
    by (simp add: WriteRawBlock_def Let_def ok_def kBlockTrailerSize_def flip: block_trailer_def)
  with f2 f1 show ?thesis by (intro exI [of _ f2]) simp
qed

lemma WriteBlock_ok:
  assumes "tb_base r"
  shows "\<exists>f' h x. WriteBlock fappend snappy_compress r (build_block n l) =
      (r\<lparr>tb_file := f', tb_offset := of_nat (length (contents f'))\<rparr>, BlockBuilder_init, h)
    \<and> good f' \<and> contents f' = contents (tb_file r) @ x \<and> x \<noteq> [] \<and> length x \<le> length (block_image n l) + 5
    \<and> stored (contents f') h (block_image n l) \<and> bh_offset h = of_nat (length (contents (tb_file r)))"
proof -
  obtain b raw where fin: "BlockBuilder_Finish (build_block n l) = (b, raw)" by (rule prod.exhaust)
  obtain payload btype where c: "compress_block snappy_compress (o_compression opt) raw = (payload, btype)" by (rule prod.exhaust)
  have o: "tb_options r = opt" using assms by (simp add: tb_base_def)
  obtain f' where f': "WriteRawBlock fappend r payload btype =
      (r\<lparr>tb_file := f', tb_offset := of_nat (length (contents f'))\<rparr>,
       \<lparr>bh_offset = of_nat (length (contents (tb_file r))), bh_size = of_nat (length payload)\<rparr>)"
    "good f'" "contents f' = contents (tb_file r) @ payload @ block_trailer btype payload"
    using WriteRawBlock_ok [OF assms] by blast
  have "snappy.represents btype payload raw" by (rule snappy.compress_block_represents [OF compression c])
  then have "stored (contents f') \<lparr>bh_offset = of_nat (length (contents (tb_file r))), bh_size = of_nat (length payload)\<rparr> (block_image n l)"
    unfolding snappy.stored_def f'(3) block_image_def fin
    by (intro exI [of _ "contents (tb_file r)"] exI [of _ payload] exI [of _ btype] exI [of _ "[]"]) simp
  moreover have "WriteBlock fappend snappy_compress r (build_block n l) =
      (r\<lparr>tb_file := f', tb_offset := of_nat (length (contents f'))\<rparr>, BlockBuilder_init,
       \<lparr>bh_offset = of_nat (length (contents (tb_file r))), bh_size = of_nat (length payload)\<rparr>)"
    using f'(1) fin c o by (simp add: WriteBlock_def BlockBuilder_Reset_init)
  ultimately show ?thesis
    using f'(2,3)
    by (intro exI [of _ f'] exI [of _ "\<lparr>bh_offset = of_nat (length (contents (tb_file r))), bh_size = of_nat (length payload)\<rparr>"]
        exI [of _ "payload @ block_trailer btype payload"])
      (use snappy.compress_block_length [OF compression c] in \<open>simp add: block_trailer_def block_image_def fin\<close>)
qed

section \<open>Adding and flushing\<close>

lemma build_block_snoc: "build_block n (l @ [(k, v)]) = BlockBuilder_Add n (build_block n l) k v"
  by (simp add: build_block_def)

lemma build_block_Nil: "build_block n [] = BlockBuilder_init"
  by (simp add: build_block_def)

lemma bb_empty_build_block: "bb_empty (build_block n l) \<longleftrightarrow> l = []"
proof (cases l rule: rev_cases)
  case Nil
  then show ?thesis by (simp add: build_block_def BlockBuilder_init_def bb_empty_def)
next
  case (snoc l' kv)
  have "bb_buffer (BlockBuilder_Add n b k v) \<noteq> []" for b k v
    by (cases "bb_counter b < n") (simp_all add: BlockBuilder_Add_def Let_def PutVarint32_def)
  with snoc show ?thesis by (cases kv) (simp add: bb_empty_def build_block_snoc)
qed

lemma fb_build_start: "fb_build create (xs @ [(off, [])]) = StartBlock create (fb_build create xs) off"
  by (simp add: fb_build_def fb_block_def)

lemma fb_build_key: "fb_build create (xs @ [(off, ks @ [k])]) = fb_AddKey (fb_build create (xs @ [(off, ks)])) k"
  by (simp add: fb_build_def fb_block_def)

lemma index_entries_append:
  "length seps \<le> length bs \<Longrightarrow> index_entries seps (bs @ [x]) = index_entries seps bs"
  by (simp add: index_entries_def zip_append2)

lemma index_entries_snoc:
  "Suc (length seps) = length bs \<Longrightarrow>
   index_entries (seps @ [sep]) bs = index_entries seps bs @ [(sep, BlockHandle_EncodeTo (snd (last bs)) [])]"
proof -
  assume len: "Suc (length seps) = length bs"
  then obtain bs' x where bs: "bs = bs' @ [x]" "length bs' = length seps" by (cases bs rule: rev_cases) auto
  show ?thesis by (cases x) (simp add: bs index_entries_def zip_append2)
qed

lemma entries_size_image: "l \<noteq> [] \<Longrightarrow> length (block_image n l) + 5 \<le> entries_size l"
proof -
  assume ne: "l \<noteq> []"
  have "sum_list (map (\<lambda>(k, v). 19 + length k + length v) l) + 45 * length l = entries_size l"
    by (induction l) (auto simp: entries_size_def)
  moreover have "1 \<le> length l" using ne by (cases l) simp_all
  ultimately show ?thesis using build_block_size [of n l] by (simp add: block_image_def)
qed

lemma after_block: "j < length bs \<Longrightarrow> after (bs @ [(cur, h)]) [] j = after bs cur j"
  by (simp add: after_def)

lemma tb_Flush_inv:
  assumes inv: "tb_inv r seps bs cur" and ne: "cur \<noteq> []"
  shows "\<exists>h. tb_inv (TableBuilder_Flush fappend fflush snappy_compress r) seps (bs @ [(cur, h)]) []"
proof -
  let ?C = "contents (tb_file r)"
  have base: "tb_base r" and np: "\<not> tb_pending_index_entry r" and len: "length seps = length bs"
    and db: "tb_data_block r = build_block (o_block_restart_interval opt) cur"
    using inv ne by (auto simp: tb_inv_def)
  obtain f1 h x where w: "WriteBlock fappend snappy_compress r (tb_data_block r) =
      (r\<lparr>tb_file := f1, tb_offset := of_nat (length (contents f1))\<rparr>, BlockBuilder_init, h)"
    "good f1" "contents f1 = ?C @ x" "x \<noteq> []" "length x \<le> length (img cur) + 5" "stored (contents f1) h (img cur)" "bh_offset h = of_nat (length ?C)"
    using WriteBlock_ok [OF base] unfolding db by blast
  obtain f2 where f2: "fflush f1 = (OK, f2)" "good f2" "contents f2 = contents f1" using flush_ok [OF w(2)] by blast
  have st: "tb_status r = OK" "tb_options r = opt" using base by (simp_all add: tb_base_def)
  define r' where "r' = r\<lparr>tb_file := f2, tb_offset := of_nat (length (contents f2)), tb_data_block := BlockBuilder_init,
      tb_pending_handle := h, tb_pending_index_entry := True, tb_status := OK,
      tb_filter_block := map_option (\<lambda>fb. StartBlock (policy_create opt) fb (of_nat (length (contents f2)))) (tb_filter_block r)\<rparr>"
  have eq: "TableBuilder_Flush fappend fflush snappy_compress r = r'"
    using st w(1) f2 ne
    by (simp add: TableBuilder_Flush_def tb_ok_def ok_def bb_empty_build_block db Let_def r'_def)
  obtain ps where ps: "offsets_ok ?C bs ps" using inv by (auto simp: tb_inv_def)
  have "offsets_ok (contents f2) (bs @ [(cur, h)]) (ps @ [length ?C])"
    using ps w(4) by (auto simp: offsets_ok_def w(3,7) f2(3) sorted_wrt_append)
  moreover have "\<forall>(es, h) \<in> set (bs @ [(cur, h)]). es \<noteq> [] \<and> stored (contents f2) h (img es)"
    using inv ne w(6) by (auto simp: tb_inv_def f2(3) w(3) intro!: snappy.stored_append)
  moreover have "seps_ok seps (bs @ [(cur, h)]) []"
    using inv len by (auto simp: tb_inv_def seps_ok_def after_block nth_append)
  moreover have "all_entries (bs @ [(cur, h)]) [] = all_entries bs cur" by (simp add: all_entries_def)
  moreover have "filter_calls r' (bs @ [(cur, h)]) [] = filter_calls r bs cur @ [(tb_offset r', [])]"
    using base by (simp add: filter_calls_def w(7) tb_base_def)
  moreover have "length (contents f2) \<le> entries_size (concat (map fst (bs @ [(cur, h)])))"
    using inv w(5) entries_size_image [OF ne, of "o_block_restart_interval opt"]
    by (simp add: tb_inv_def f2(3) w(3) entries_size_append)
  ultimately have "tb_inv r' seps (bs @ [(cur, h)]) []"
    using inv base f2(2) len
    by (auto simp: tb_inv_def tb_base_def r'_def build_block_Nil index_entries_append fb_build_start)
  then show ?thesis unfolding eq by blast
qed

lemma cmp_sorted_last:
  assumes "cmp_sorted cmp l" "e \<in> set l" "e \<noteq> last l"
  shows "cmp (fst e) (fst (last l)) < 0"
proof -
  obtain i where i: "i < length l" "e = l ! i" using assms(2) by (auto simp: in_set_conv_nth)
  have last: "last l = l ! (length l - 1)" using i(1) by (intro last_conv_nth) auto
  with i assms(3) have "i < length l - 1" by (cases "i = length l - 1") auto
  with assms(1) last i sorted_wrt_nth_less [of "\<lambda>a b. cmp (fst a) (fst b) < 0" l i "length l - 1"]
  show ?thesis by (simp add: cmp_sorted_def)
qed

lemma cmp_sorted_snoc:
  assumes "cmp_sorted cmp l" "\<forall>e \<in> set l. kvalid (fst e)" "kvalid key" "l \<noteq> [] \<Longrightarrow> cmp (fst (last l)) key < 0"
  shows "cmp_sorted cmp (l @ [(key, val)])"
proof -
  have "cmp (fst e) key < 0" if e: "e \<in> set l" for e
  proof (cases "e = last l")
    case True
    have "l \<noteq> []" using e by auto
    with assms(4) True show ?thesis by simp
  next
    case False
    have ne: "l \<noteq> []" using e by auto
    show ?thesis
      using cmp_sorted_last [OF assms(1) e False] assms(2-4) ne e
        kcmp.cmp_less_trans [of "fst e" "fst (last l)" key] by auto
  qed
  with assms(1) show ?thesis by (auto simp: cmp_sorted_def sorted_wrt_append)
qed

lemma last_after:
  assumes "tb_inv r seps bs cur" "j < length seps"
  shows "after bs cur j \<noteq> []" "last (after bs cur j) = last (all_entries bs cur)"
proof -
  show ne: "after bs cur j \<noteq> []"
  proof (cases "tb_pending_index_entry r")
    case True
    then have "Suc j < length bs" using assms by (auto simp: tb_inv_def)
    moreover from this have "last bs \<in> set (drop (Suc j) bs)"
      by (metis last_drop last_in_set drop_eq_Nil not_less)
    moreover have "fst (last bs) \<noteq> []"
      using assms(1) calculation(2) by (cases "last bs") (auto simp: tb_inv_def dest!: in_set_dropD)
    ultimately show ?thesis by (auto simp: after_def)
  next
    case False
    then have "cur \<noteq> []" using assms by (auto simp: tb_inv_def)
    then show ?thesis by (simp add: after_def)
  qed
  have "all_entries bs cur = concat (map fst (take (Suc j) bs)) @ after bs cur j"
    unfolding all_entries_def after_def by (metis append.assoc append_take_drop_id concat_append map_append)
  with ne show "last (after bs cur j) = last (all_entries bs cur)" by simp
qed

lemma separates_snoc:
  assumes "separates sep es later" "later \<noteq> []" "kvalid (fst (last later))" "kvalid key" "cmp (fst (last later)) key < 0"
  shows "separates sep es (later @ [(key, val)])"
proof -
  have "cmp sep (fst (last later)) < 0" "kvalid sep" using assms(1) last_in_set [OF assms(2)] unfolding separates_def by blast+
  then have "cmp sep key < 0" using kcmp.cmp_less_trans assms(3-5) by blast
  moreover have "hd (later @ [(key, val)]) = hd later" "set (later @ [(key, val)]) = insert (key, val) (set later)" using assms(2) by simp_all
  ultimately show ?thesis using assms(1,2) unfolding separates_def by fastforce
qed

lemma after_snoc: "after bs (cur @ [e]) j = after bs cur j @ [e]"
  by (simp add: after_def)

lemma seps_ok_snoc:
  assumes inv: "tb_inv r seps bs cur" and key: "kvalid key"
    and less: "all_entries bs cur \<noteq> [] \<Longrightarrow> cmp (fst (last (all_entries bs cur))) key < 0"
  shows "seps_ok seps bs (cur @ [(key, val)])"
proof -
  have "separates (seps ! j) (fst (bs ! j)) (after bs cur j @ [(key, val)])" if j: "j < length seps" for j
  proof (rule separates_snoc)
    show "separates (seps ! j) (fst (bs ! j)) (after bs cur j)" using inv j by (simp add: tb_inv_def seps_ok_def)
    show ne: "after bs cur j \<noteq> []" by (rule last_after [OF inv j])
    have "all_entries bs cur \<noteq> []" using last_after [OF inv j] by (auto simp: after_def all_entries_def dest: in_set_dropD)
    then show "kvalid (fst (last (after bs cur j)))" "cmp (fst (last (after bs cur j))) key < 0"
      using less last_after(2) [OF inv j] inv by (auto simp: tb_inv_def)
  qed (rule key)
  then show ?thesis using inv by (simp add: tb_inv_def seps_ok_def after_snoc)
qed

text \<open>The separator that \<open>Add\<close> gives to the block before, when one is pending.\<close>

lemma pending_separates:
  assumes inv: "tb_inv r seps bs cur" and pend: "tb_pending_index_entry r"
    and sep: "kvalid sep" "cmp (tb_last_key r) sep \<le> 0" "length sep \<le> length (tb_last_key r)" and later: "\<forall>e \<in> set l. cmp sep (fst e) < 0"
    and short: "l \<noteq> [] \<Longrightarrow> sep = o_separator opt (tb_last_key r) (fst (hd l))"
  shows "separates sep (fst (last bs)) l"
proof -
  have cur: "cur = []" and bs: "bs \<noteq> []" using inv pend by (simp_all add: tb_inv_def)
  obtain bs' es h where b: "bs = bs' @ [(es, h)]" using bs by (metis append_butlast_last_id prod.exhaust)
  have es: "es \<noteq> []" using inv by (auto simp: tb_inv_def b)
  have lk: "tb_last_key r = fst (last es)" and so: "cmp_sorted cmp (all_entries bs cur)"
    and kv: "\<forall>e \<in> set (all_entries bs cur). kvalid (fst e)"
    using inv es by (auto simp: tb_inv_def all_entries_def b cur)
  have so': "cmp_sorted cmp es" using so by (simp add: all_entries_def b cur cmp_sorted_def sorted_wrt_append)
  have "cmp (fst e) sep \<le> 0" if e: "e \<in> set es" for e
  proof -
    have v: "kvalid (fst e)" "kvalid (fst (last es))" using kv e es by (auto simp: all_entries_def b)
    have "cmp (fst e) (fst (last es)) \<le> 0"
      using cmp_sorted_last [OF so' e] kcmp.cmp_refl [OF v(1)] by (cases "e = last es") auto
    with sep lk v show ?thesis using kcmp.cmp_trans [of "fst e" "fst (last es)" sep] by simp
  qed
  moreover have "\<exists>e \<in> set es. length sep \<le> length (fst e)"
    using sep(3) lk es by (intro bexI [of _ "last es"]) simp_all
  ultimately show ?thesis using sep(1) later short lk by (simp add: separates_def b)
qed

lemma tb_Add_inv:
  assumes inv: "tb_inv r seps bs cur" and key: "kvalid key"
    and less: "all_entries bs cur \<noteq> [] \<Longrightarrow> cmp (fst (last (all_entries bs cur))) key < 0"
  shows "\<exists>seps' bs' cur'. tb_inv (TableBuilder_Add fappend fflush snappy_compress r key val) seps' bs' cur'
    \<and> all_entries bs' cur' = all_entries bs cur @ [(key, val)]"
proof -
  have base: "tb_base r" using inv by (simp add: tb_inv_def)
  then have st: "tb_status r = OK" "tb_options r = opt" "tb_index_block_options r = opt\<lparr>o_block_restart_interval := 1\<rparr>"
    by (simp_all add: tb_base_def)
  have kv: "\<forall>e \<in> set (all_entries bs cur). kvalid (fst e)" using inv by (simp add: tb_inv_def)
  have srt: "cmp_sorted cmp (all_entries bs cur @ [(key, val)])"
    using inv by (intro cmp_sorted_snoc key less) (simp_all add: tb_inv_def)
  define sep where "sep = o_separator opt (tb_last_key r) key"
  define seps' where "seps' = (if tb_pending_index_entry r then seps @ [sep] else seps)"
  define r1 where "r1 = (if tb_pending_index_entry r then add_index_entry r sep else r)"
  define r2 where "r2 = r1\<lparr>tb_filter_block := map_option (\<lambda>fb. fb_AddKey fb key) (tb_filter_block r),
     tb_last_key := key, tb_num_entries := tb_num_entries r1 + 1,
     tb_data_block := BlockBuilder_Add (o_block_restart_interval opt) (tb_data_block r) key val\<rparr>"
  have eq: "TableBuilder_Add fappend fflush snappy_compress r key val =
     (if CurrentSizeEstimate (tb_data_block r2) \<ge> o_block_size opt
      then TableBuilder_Flush fappend fflush snappy_compress r2 else r2)"
    using st by (simp add: TableBuilder_Add_def tb_ok_def ok_def Let_def r2_def r1_def sep_def add_index_entry_def)
  have so: "seps_ok seps' bs (cur @ [(key, val)])"
  proof (cases "tb_pending_index_entry r")
    case False
    with seps_ok_snoc [OF inv key less] show ?thesis by (simp add: seps'_def)
  next
    case True
    then have cur: "cur = []" and bs: "bs \<noteq> []" and len: "Suc (length seps) = length bs" using inv by (simp_all add: tb_inv_def)
    have ne: "all_entries bs cur \<noteq> []"
      using inv bs by (cases bs) (auto simp: tb_inv_def all_entries_def)
    then have lk: "kvalid (tb_last_key r)" "cmp (tb_last_key r) key < 0"
      using inv less [OF ne] kv last_in_set [OF ne] by (auto simp: tb_inv_def)
    have "separates sep (fst (last bs)) [(key, val)]"
      using kcmp.sep_valid [OF lk(1) key] kcmp.sep_ge [OF lk(1) key lk(2)] kcmp.sep_less [OF lk(1) key lk(2)]
      by (intro pending_separates [OF inv True]) (simp_all add: sep_def sep_length succ_length)
    moreover have "bs ! length seps = last bs" using bs len last_conv_nth [OF bs] by (metis diff_Suc_1)
    ultimately have sepn: "separates sep (fst (bs ! length seps)) (after bs [(key, val)] (length seps))"
      using len by (simp add: after_def)
    have old: "seps_ok seps bs (cur @ [(key, val)])" by (rule seps_ok_snoc [OF inv key less])
    show ?thesis unfolding seps_ok_def
    proof (intro conjI allI impI)
      show "length seps' \<le> length bs" using len True by (simp add: seps'_def)
      fix j
      assume "j < length seps'"
      then consider "j < length seps" | "j = length seps" using True by (force simp: seps'_def)
      then show "separates (seps' ! j) (fst (bs ! j)) (after bs (cur @ [(key, val)]) j)"
      proof cases
        case 1
        with old True show ?thesis by (simp add: seps_ok_def seps'_def nth_append)
      next
        case 2
        with sepn True cur show ?thesis by (simp add: seps'_def)
      qed
    qed
  qed
  have base2: "tb_base r2" using base by (simp add: tb_base_def r2_def r1_def add_index_entry_def)
  have flds: "tb_file r2 = tb_file r" "tb_offset r2 = tb_offset r" "\<not> tb_pending_index_entry r2"
    "tb_last_key r2 = key"
    by (simp_all add: r2_def r1_def add_index_entry_def)
  have idx: "tb_index_block r2 = build_block 1 (index_entries seps' bs)" and lens: "length seps' = length bs"
  proof -
    show "tb_index_block r2 = build_block 1 (index_entries seps' bs)"
    proof (cases "tb_pending_index_entry r")
      case True
      then have p: "Suc (length seps) = length bs" "tb_pending_handle r = snd (last bs)"
        and ib: "tb_index_block r = build_block 1 (index_entries seps bs)" using inv by (simp_all add: tb_inv_def)
      show ?thesis using True st ib
        by (simp add: r2_def r1_def add_index_entry_def seps'_def index_entries_snoc [OF p(1)] p(2) build_block_snoc)
    next
      case False
      then show ?thesis using inv by (simp add: r2_def r1_def seps'_def tb_inv_def)
    qed
    show "length seps' = length bs" using inv by (auto simp: tb_inv_def seps'_def)
  qed
  have fb: "tb_filter_block r2 = (if o_filter_policy opt = None then None
      else Some (fb_build (policy_create opt) (filter_calls r2 bs (cur @ [(key, val)]))))"
  proof -
    have "tb_filter_block r = (if o_filter_policy opt = None then None
        else Some (fb_build (policy_create opt) (filter_calls r bs cur)))" using inv by (simp add: tb_inv_def)
    moreover have "tb_filter_block r2 = map_option (\<lambda>fb. fb_AddKey fb key) (tb_filter_block r)" by (simp add: r2_def)
    ultimately show ?thesis by (simp add: filter_calls_def flds(2) fb_build_key)
  qed
  have db: "tb_data_block r2 = build_block (o_block_restart_interval opt) (cur @ [(key, val)])"
    using inv by (simp add: r2_def build_block_snoc tb_inv_def)
  have all: "all_entries bs (cur @ [(key, val)]) = all_entries bs cur @ [(key, val)]" by (simp add: all_entries_def)
  have old: "\<forall>(es, h) \<in> set bs. es \<noteq> [] \<and> stored (contents (tb_file r)) h (img es)"
    "\<exists>ps. offsets_ok (contents (tb_file r)) bs ps"
    "length (contents (tb_file r)) \<le> entries_size (concat (map fst bs))" using inv by (simp_all add: tb_inv_def)
  have inv2: "tb_inv r2 seps' bs (cur @ [(key, val)])"
    unfolding tb_inv_def flds all
    using base2 old db idx so lens fb srt kv key flds(3) by simp
  show ?thesis
  proof (cases "CurrentSizeEstimate (tb_data_block r2) \<ge> o_block_size opt")
    case True
    obtain h where "tb_inv (TableBuilder_Flush fappend fflush snappy_compress r2) seps' (bs @ [(cur @ [(key, val)], h)]) []"
      using tb_Flush_inv [OF inv2] by blast
    with True show ?thesis unfolding eq
      by (intro exI [of _ seps'] exI [of _ "bs @ [(cur @ [(key, val)], h)]"] exI [of _ "[]"]) (simp add: all_entries_def)
  next
    case False
    with inv2 show ?thesis unfolding eq
      by (intro exI [of _ seps'] exI [of _ bs] exI [of _ "cur @ [(key, val)]"]) (simp add: all_entries_def)
  qed
qed

end

text \<open>A run of the builder over a list of entries.\<close>

definition tb_add_all ::
  "('f \<Rightarrow> bytes \<Rightarrow> status \<times> 'f) \<Rightarrow> ('f \<Rightarrow> status \<times> 'f) \<Rightarrow> (bytes \<Rightarrow> bytes option) \<Rightarrow> 'f table_builder
    \<Rightarrow> (bytes \<times> bytes) list \<Rightarrow> 'f table_builder" where
  "tb_add_all fappend fflush snappy_compress r l =
     foldl (\<lambda>r (k, v). TableBuilder_Add fappend fflush snappy_compress r k v) r l"

context table_writer
begin

lemma tb_add_all_inv:
  assumes "good f" "contents f = []" "cmp_sorted cmp l" "\<forall>(k, v) \<in> set l. kvalid k"
  shows "\<exists>seps bs cur. tb_inv (tb_add_all fappend fflush snappy_compress (TableBuilder_make opt f) l) seps bs cur
    \<and> all_entries bs cur = l"
  using assms(3,4)
proof (induction l rule: rev_induct)
  case Nil
  show ?case using tb_inv_init [OF assms(1,2)]
    by (intro exI [of _ "[]"]) (simp add: tb_add_all_def all_entries_def)
next
  case (snoc kv l)
  obtain k v where kv: "kv = (k, v)" by (rule prod.exhaust)
  from snoc obtain seps bs cur where
    IH: "tb_inv (tb_add_all fappend fflush snappy_compress (TableBuilder_make opt f) l) seps bs cur" "all_entries bs cur = l"
    by (auto simp: cmp_sorted_def sorted_wrt_append)
  have "l \<noteq> [] \<Longrightarrow> cmp (fst (last l)) k < 0"
    using snoc.prems(1) by (auto simp: kv cmp_sorted_def sorted_wrt_append)
  with tb_Add_inv [OF IH(1), of k v] snoc.prems(2) show ?case
    by (auto simp: kv IH(2) tb_add_all_def)
qed

section \<open>Finishing\<close>

text \<open>
  The file of a finished table: the blocks with the entries, the filter block if there is a policy,
  the metaindex block, the index block, and the footer at its end.
\<close>

definition meta_entries :: "block_handle \<Rightarrow> (bytes \<times> bytes) list" where
  "meta_entries hf = (if o_filter_policy opt = None then []
     else [(str_bytes ''filter.'' @ policy_name opt, BlockHandle_EncodeTo hf [])])"

text \<open>The filter block is never compressed.\<close>

definition filter_stored :: "bytes \<Rightarrow> block_handle \<Rightarrow> bytes \<Rightarrow> bool" where
  "filter_stored C h raw \<longleftrightarrow> stored C h raw \<and> length raw \<le> length C"

lemma filter_stored_append: "filter_stored C h raw \<Longrightarrow> filter_stored (C @ x) h raw"
  by (simp add: filter_stored_def snappy.stored_append)

definition table_file :: "bytes \<Rightarrow> (bytes \<times> bytes) list \<Rightarrow> bool" where
  "table_file C l \<longleftrightarrow>
     (\<exists>seps bs hf hm hi pre off.
        C = pre @ Footer_EncodeTo \<lparr>metaindex_handle = hm, index_handle = hi\<rparr> [] \<and>
        all_entries bs [] = l \<and> length seps = length bs \<and> seps_ok seps bs [] \<and>
        (\<forall>(es, h) \<in> set bs. es \<noteq> [] \<and> stored C h (img es)) \<and>
        (\<exists>ps. offsets_ok C bs ps \<and> (\<forall>p \<in> set ps. p < off) \<and> off \<le> length C) \<and>
        stored C hi (block_image 1 (index_entries seps bs)) \<and> stored C hm (img (meta_entries hf)) \<and>
        (o_filter_policy opt = None \<longrightarrow>
          length C \<le> entries_size l + length (img (meta_entries hf)) + length (block_image 1 (index_entries seps bs)) + 58) \<and>
        (o_filter_policy opt \<noteq> None \<longrightarrow>
          filter_stored C hf (fb_Finish (policy_create opt)
            (fb_build (policy_create opt) (map (\<lambda>(es, h). (bh_offset h, map fst es)) bs @ [(of_nat off, [])])))))"

lemma Finish_filter_ok:
  assumes base: "tb_base r" and fb: "tb_filter_block r = (if o_filter_policy opt = None then None else Some b)"
  shows "\<exists>f' h x. Finish_filter fappend r = (r\<lparr>tb_file := f', tb_offset := of_nat (length (contents f'))\<rparr>, h)
    \<and> good f' \<and> contents f' = contents (tb_file r) @ x
    \<and> (o_filter_policy opt = None \<longrightarrow> x = [])
    \<and> (o_filter_policy opt \<noteq> None \<longrightarrow> filter_stored (contents f') h (fb_Finish (policy_create opt) b))"
proof (cases "o_filter_policy opt = None")
  case True
  have "r = r\<lparr>tb_file := tb_file r, tb_offset := of_nat (length (contents (tb_file r)))\<rparr>"
    using base by (simp add: tb_base_def)
  with True fb base show ?thesis
    by (intro exI [of _ "tb_file r"] exI [of _ BlockHandle_init] exI [of _ "[]"]) (simp add: Finish_filter_def tb_base_def)
next
  case False
  let ?p = "fb_Finish (policy_create opt) b"
  obtain f' where f': "WriteRawBlock fappend r ?p kNoCompression =
      (r\<lparr>tb_file := f', tb_offset := of_nat (length (contents f'))\<rparr>,
       \<lparr>bh_offset = of_nat (length (contents (tb_file r))), bh_size = of_nat (length ?p)\<rparr>)"
    "good f'" "contents f' = contents (tb_file r) @ ?p @ block_trailer kNoCompression ?p"
    using WriteRawBlock_ok [OF base] by blast
  have "stored (contents f') \<lparr>bh_offset = of_nat (length (contents (tb_file r))), bh_size = of_nat (length ?p)\<rparr> ?p"
    unfolding snappy.stored_def f'(3)
    by (intro exI [of _ "contents (tb_file r)"] exI [of _ ?p] exI [of _ kNoCompression] exI [of _ "[]"])
      (simp add: snappy.represents_def)
  then have "filter_stored (contents f') \<lparr>bh_offset = of_nat (length (contents (tb_file r))), bh_size = of_nat (length ?p)\<rparr> ?p"
    by (simp add: filter_stored_def f'(3))
  moreover have "Finish_filter fappend r = WriteRawBlock fappend r ?p kNoCompression"
    using base fb False by (auto simp: Finish_filter_def tb_base_def tb_ok_def ok_def)
  ultimately show ?thesis using f' False by (metis append.assoc)
qed

lemma Finish_metaindex_ok:
  assumes base: "tb_base r" and fb: "tb_filter_block r = None \<longleftrightarrow> o_filter_policy opt = None"
  shows "\<exists>f' h x. Finish_metaindex fappend snappy_compress r hf = (r\<lparr>tb_file := f', tb_offset := of_nat (length (contents f'))\<rparr>, h)
    \<and> good f' \<and> contents f' = contents (tb_file r) @ x \<and> length x \<le> length (img (meta_entries hf)) + 5
    \<and> stored (contents f') h (img (meta_entries hf))"
proof -
  have o: "tb_options r = opt" "tb_ok r" using base by (simp_all add: tb_base_def tb_ok_def ok_def)
  have "Finish_metaindex fappend snappy_compress r hf =
      (let (r, _, handle) = WriteBlock fappend snappy_compress r (build_block (o_block_restart_interval opt) (meta_entries hf)) in (r, handle))"
    using o fb by (auto simp: Finish_metaindex_def meta_entries_def build_block_def Let_def)
  moreover obtain f' h x where w: "WriteBlock fappend snappy_compress r (build_block (o_block_restart_interval opt) (meta_entries hf)) =
      (r\<lparr>tb_file := f', tb_offset := of_nat (length (contents f'))\<rparr>, BlockBuilder_init, h)"
    "good f'" "contents f' = contents (tb_file r) @ x" "length x \<le> length (img (meta_entries hf)) + 5" "stored (contents f') h (img (meta_entries hf))"
    using WriteBlock_ok [OF base] by blast
  ultimately have "Finish_metaindex fappend snappy_compress r hf = (r\<lparr>tb_file := f', tb_offset := of_nat (length (contents f'))\<rparr>, h)"
    by simp
  with w(2-) show ?thesis by blast
qed

lemma Finish_footer_ok:
  assumes base: "tb_base r"
  shows "\<exists>f'. tb_status (Finish_footer fappend r hm hi) = OK \<and> tb_file (Finish_footer fappend r hm hi) = f' \<and> good f'
    \<and> tb_offset (Finish_footer fappend r hm hi) = of_nat (length (contents f'))
    \<and> contents f' = contents (tb_file r) @ Footer_EncodeTo \<lparr>metaindex_handle = hm, index_handle = hi\<rparr> []"
proof -
  have o: "good (tb_file r)" "tb_ok r" "tb_offset r = of_nat (length (contents (tb_file r)))"
    using base by (simp_all add: tb_base_def tb_ok_def ok_def)
  from append_ok [OF o(1), of "Footer_EncodeTo \<lparr>metaindex_handle = hm, index_handle = hi\<rparr> []"] o(2,3)
  show ?thesis by (auto simp: Finish_footer_def Let_def ok_def)
qed

lemma tb_base_file: "tb_base r \<Longrightarrow> good f \<Longrightarrow> tb_base (r\<lparr>tb_file := f, tb_offset := of_nat (length (contents f))\<rparr>)"
  by (simp add: tb_base_def)

lemma Finish_index_ok:
  assumes inv: "tb_inv r seps bs []" and base: "tb_base r'"
    and same: "tb_pending_index_entry r' = tb_pending_index_entry r" "tb_pending_handle r' = tb_pending_handle r"
      "tb_last_key r' = tb_last_key r" "tb_index_block r' = tb_index_block r"
  shows "\<exists>seps' r'' h x. Finish_index fappend snappy_compress r' = (r'', h)
    \<and> tb_base r'' \<and> contents (tb_file r'') = contents (tb_file r') @ x
    \<and> length x \<le> length (block_image 1 (index_entries seps' bs)) + 5
    \<and> length seps' = length bs \<and> seps_ok seps' bs [] \<and> stored (contents (tb_file r'')) h (block_image 1 (index_entries seps' bs))"
proof -
  have ib: "tb_index_block r = build_block 1 (index_entries seps bs)" and so: "seps_ok seps bs []"
    using inv by (simp_all add: tb_inv_def)
  have o: "tb_ok r'" "tb_options r' = opt" "tb_index_block_options r' = opt\<lparr>o_block_restart_interval := 1\<rparr>"
    using base by (simp_all add: tb_base_def tb_ok_def ok_def)
  have wrt: "\<exists>f' h x. WriteBlock fappend snappy_compress r1 (build_block 1 (index_entries seps' bs)) =
      (r1\<lparr>tb_file := f', tb_offset := of_nat (length (contents f'))\<rparr>, BlockBuilder_init, h)
    \<and> good f' \<and> contents f' = contents (tb_file r1) @ x \<and> length x \<le> length (block_image 1 (index_entries seps' bs)) + 5
    \<and> stored (contents f') h (block_image 1 (index_entries seps' bs))"
    if "tb_base r1" for r1 seps' using WriteBlock_ok [OF that] by blast
  show ?thesis
  proof (cases "tb_pending_index_entry r")
    case False
    obtain f' h x where w: "WriteBlock fappend snappy_compress r' (build_block 1 (index_entries seps bs)) =
        (r'\<lparr>tb_file := f', tb_offset := of_nat (length (contents f'))\<rparr>, BlockBuilder_init, h)" "good f'"
      "contents f' = contents (tb_file r') @ x" "length x \<le> length (block_image 1 (index_entries seps bs)) + 5" "stored (contents f') h (block_image 1 (index_entries seps bs))"
      using wrt [OF base] by blast
    have "length seps = length bs" using inv False by (simp add: tb_inv_def)
    with w so base o ib same False tb_base_file [OF base w(2)] show ?thesis
      by (intro exI [of _ seps]) (auto simp: Finish_index_def tb_base_def)
  next
    case True
    then have len: "Suc (length seps) = length bs" and bs: "bs \<noteq> []" and ph: "tb_pending_handle r = snd (last bs)"
      using inv by (simp_all add: tb_inv_def)
    define sep where "sep = o_successor opt (tb_last_key r)"
    define r1 where "r1 = add_index_entry r' sep"
    have b1: "tb_base r1" using base by (simp add: r1_def add_index_entry_def tb_base_def)
    have ib1: "tb_index_block r1 = build_block 1 (index_entries (seps @ [sep]) bs)"
      using o same ib index_entries_snoc [OF len, of sep] ph
      by (simp add: r1_def add_index_entry_def build_block_snoc)
    obtain f' h x where w: "WriteBlock fappend snappy_compress r1 (build_block 1 (index_entries (seps @ [sep]) bs)) =
        (r1\<lparr>tb_file := f', tb_offset := of_nat (length (contents f'))\<rparr>, BlockBuilder_init, h)" "good f'"
      "contents f' = contents (tb_file r1) @ x" "length x \<le> length (block_image 1 (index_entries (seps @ [sep]) bs)) + 5" "stored (contents f') h (block_image 1 (index_entries (seps @ [sep]) bs))"
      using wrt [OF b1] by blast
    have ne: "all_entries bs [] \<noteq> []" using inv bs by (cases bs) (auto simp: tb_inv_def all_entries_def)
    then have "tb_last_key r = fst (last (all_entries bs []))" "kvalid (fst (last (all_entries bs [])))"
      using inv last_in_set [OF ne] by (simp_all add: tb_inv_def)
    then have lk: "kvalid (tb_last_key r)" by simp
    have sp: "separates sep (fst (last bs)) []"
      using kcmp.succ_valid [OF lk] kcmp.succ_ge [OF lk]
      by (intro pending_separates [OF inv True]) (simp_all add: sep_def sep_length succ_length)
    have last: "bs ! length seps = last bs" using bs len last_conv_nth [OF bs] by (metis diff_Suc_1)
    have "seps_ok (seps @ [sep]) bs []" unfolding seps_ok_def
    proof (intro conjI allI impI)
      show "length (seps @ [sep]) \<le> length bs" using len by simp
      fix j
      assume "j < length (seps @ [sep])"
      then consider "j < length seps" | "j = length seps" by force
      then show "separates ((seps @ [sep]) ! j) (fst (bs ! j)) (after bs [] j)"
      proof cases
        case 1
        with so show ?thesis by (simp add: seps_ok_def nth_append)
      next
        case 2
        with sp last len show ?thesis by (simp add: after_def)
      qed
    qed
    moreover have "Finish_index fappend snappy_compress r' =
        (r1\<lparr>tb_file := f', tb_offset := of_nat (length (contents f')), tb_index_block := BlockBuilder_init\<rparr>, h)"
      using o same True w(1) ib1 by (simp add: Finish_index_def r1_def [symmetric] sep_def [symmetric])
    moreover have "contents (tb_file r1) = contents (tb_file r')" by (simp add: r1_def add_index_entry_def)
    moreover have "tb_base (r1\<lparr>tb_file := f', tb_offset := of_nat (length (contents f')), tb_index_block := BlockBuilder_init\<rparr>)"
      using tb_base_file [OF b1 w(2)] by (simp add: tb_base_def)
    ultimately show ?thesis using w len
      by (intro exI [of _ "seps @ [sep]"] exI [of _ "r1\<lparr>tb_file := f', tb_offset := of_nat (length (contents f')), tb_index_block := BlockBuilder_init\<rparr>"]
          exI [of _ h] exI [of _ x]) simp
  qed
qed

lemma tb_Flush_last:
  assumes "tb_inv r seps bs cur"
  shows "\<exists>bs'. tb_inv (TableBuilder_Flush fappend fflush snappy_compress r) seps bs' [] \<and> all_entries bs' [] = all_entries bs cur"
proof (cases "cur = []")
  case True
  have "tb_data_block r = build_block (o_block_restart_interval opt) cur" using assms by (simp add: tb_inv_def)
  then have "TableBuilder_Flush fappend fflush snappy_compress r = r"
    using True by (simp add: TableBuilder_Flush_def bb_empty_build_block)
  with assms True show ?thesis by auto
next
  case False
  from tb_Flush_inv [OF assms False] show ?thesis by (auto simp: all_entries_def)
qed

lemma TableBuilder_Finish_ok:
  assumes "tb_inv r seps bs cur"
  shows "\<exists>r'. TableBuilder_Finish fappend fflush snappy_compress r = (OK, r') \<and> good (tb_file r')
    \<and> tb_offset r' = of_nat (length (contents (tb_file r'))) \<and> table_file (contents (tb_file r')) (all_entries bs cur)"
proof -
  define r1 where "r1 = TableBuilder_Flush fappend fflush snappy_compress r"
  obtain bs1 where inv: "tb_inv r1 seps bs1 []" and all: "all_entries bs1 [] = all_entries bs cur"
    using tb_Flush_last [OF assms] by (auto simp: r1_def)
  have base1: "tb_base r1" and fb: "tb_filter_block r1 = (if o_filter_policy opt = None then None
       else Some (fb_build (policy_create opt) (filter_calls r1 bs1 [])))"
    and off: "tb_offset r1 = of_nat (length (contents (tb_file r1)))"
    using inv by (simp_all add: tb_inv_def tb_base_def)
  let ?fb = "fb_build (policy_create opt) (filter_calls r1 bs1 [])"
  define r2 where "r2 = r1\<lparr>tb_closed := True\<rparr>"
  have base2: "tb_base r2" using base1 by (simp add: r2_def tb_base_def)
  have fb2: "tb_filter_block r2 = (if o_filter_policy opt = None then None else Some ?fb)" using fb by (simp add: r2_def)
  obtain f3 hf x3 where 3: "Finish_filter fappend r2 = (r2\<lparr>tb_file := f3, tb_offset := of_nat (length (contents f3))\<rparr>, hf)"
    "good f3" "contents f3 = contents (tb_file r2) @ x3" "o_filter_policy opt = None \<longrightarrow> x3 = []"
    "o_filter_policy opt \<noteq> None \<longrightarrow> filter_stored (contents f3) hf (fb_Finish (policy_create opt) ?fb)"
    using Finish_filter_ok [OF base2 fb2] by (elim exE conjE) (rule that)
  define r3 where "r3 = r2\<lparr>tb_file := f3, tb_offset := of_nat (length (contents f3))\<rparr>"
  have base3: "tb_base r3" unfolding r3_def by (rule tb_base_file [OF base2 3(2)])
  have fb3: "tb_filter_block r3 = None \<longleftrightarrow> o_filter_policy opt = None" using fb2 by (simp add: r3_def)
  obtain f4 hm x4 where 4: "Finish_metaindex fappend snappy_compress r3 hf = (r3\<lparr>tb_file := f4, tb_offset := of_nat (length (contents f4))\<rparr>, hm)"
    "good f4" "contents f4 = contents (tb_file r3) @ x4" "length x4 \<le> length (img (meta_entries hf)) + 5" "stored (contents f4) hm (img (meta_entries hf))"
    using Finish_metaindex_ok [OF base3 fb3] by blast
  define r4 where "r4 = r3\<lparr>tb_file := f4, tb_offset := of_nat (length (contents f4))\<rparr>"
  have base4: "tb_base r4" unfolding r4_def by (rule tb_base_file [OF base3 4(2)])
  obtain seps' r5 hi x5 where 5: "Finish_index fappend snappy_compress r4 = (r5, hi)"
    "tb_base r5" "contents (tb_file r5) = contents (tb_file r4) @ x5" "length x5 \<le> length (block_image 1 (index_entries seps' bs1)) + 5" "length seps' = length bs1" "seps_ok seps' bs1 []"
    "stored (contents (tb_file r5)) hi (block_image 1 (index_entries seps' bs1))"
    using Finish_index_ok [OF inv base4] by (auto simp: r4_def r3_def r2_def)
  define r6 where "r6 = Finish_footer fappend r5 hm hi"
  obtain f6 where 6: "tb_status r6 = OK" "tb_file r6 = f6" "good f6"
    "contents f6 = contents (tb_file r5) @ Footer_EncodeTo \<lparr>metaindex_handle = hm, index_handle = hi\<rparr> []"
    "tb_offset r6 = of_nat (length (contents f6))"
    using Finish_footer_ok [OF 5(2), of hm hi] by (auto simp: r6_def)
  have fin: "TableBuilder_Finish fappend fflush snappy_compress r = (OK, r6)"
    using 3(1) 4(1) 5(1) 6(1)
    by (simp add: TableBuilder_Finish_def r1_def [symmetric] r2_def [symmetric] r3_def [symmetric] r4_def [symmetric] r6_def [symmetric])
  let ?C = "contents f6"
  define C1 where "C1 = contents (tb_file r1)"
  have c5: "contents (tb_file r5) = C1 @ x3 @ x4 @ x5"
    using 3(3) 4(3) 5(3) by (simp add: r2_def r3_def r4_def C1_def)
  then obtain x where x: "?C = C1 @ x" using 6(4) by auto
  have c3: "contents f3 @ x4 @ x5 = contents (tb_file r5)" "contents f4 @ x5 = contents (tb_file r5)"
    using c5 3(3) 4(3) by (simp_all add: r2_def r3_def r4_def C1_def)
  have st: "\<forall>(es, h) \<in> set bs1. es \<noteq> [] \<and> stored ?C h (img es)"
    using inv snappy.stored_append [of C1] unfolding x by (fastforce simp: tb_inv_def C1_def)
  obtain ps where "offsets_ok C1 bs1 ps" using inv by (auto simp: tb_inv_def C1_def)
  then have ps: "offsets_ok ?C bs1 ps" "\<forall>p \<in> set ps. p < length C1" "length C1 \<le> length ?C"
    by (auto simp: offsets_ok_def x)
  have calls: "filter_calls r1 bs1 [] = map (\<lambda>(es, h). (bh_offset h, map fst es)) bs1 @ [(of_nat (length C1), [])]"
    using off by (simp add: filter_calls_def C1_def)
  have "stored (contents (tb_file r5)) hm (img (meta_entries hf))"
    using snappy.stored_append [OF 4(5), of x5] c3(2) by simp
  moreover have "filter_stored (contents (tb_file r5)) hf (fb_Finish (policy_create opt) ?fb)" if "o_filter_policy opt \<noteq> None"
    using filter_stored_append [OF mp [OF 3(5) that], of "x4 @ x5"] c3(1) by simp
  moreover have "length ?C \<le> entries_size (all_entries bs cur) + length (img (meta_entries hf))
      + length (block_image 1 (index_entries seps' bs1)) + 58" if none: "o_filter_policy opt = None"
  proof -
    have "length C1 \<le> entries_size (all_entries bs cur)" using inv all by (simp add: tb_inv_def C1_def all_entries_def)
    then show ?thesis
      using 4(4) 5(4) 3(4) none c5 6(4) length_Footer_EncodeTo [of "\<lparr>metaindex_handle = hm, index_handle = hi\<rparr>"]
      by (simp add: kEncodedLength_def kMaxEncodedLength_def)
  qed
  ultimately have "table_file ?C (all_entries bs cur)"
    unfolding table_file_def calls [symmetric]
    using 5(5-7) st ps all 6(4) snappy.stored_append filter_stored_append
    by (intro exI [of _ seps'] exI [of _ bs1] exI [of _ hf] exI [of _ hm] exI [of _ hi]
        exI [of _ "contents (tb_file r5)"] exI [of _ "length C1"]) (auto simp flip: calls)
  with fin 6 show ?thesis by auto
qed

theorem built_table_file:
  assumes "good f" "contents f = []" "cmp_sorted cmp l" "\<forall>(k, v) \<in> set l. kvalid k"
  shows "\<exists>r'. TableBuilder_Finish fappend fflush snappy_compress
      (tb_add_all fappend fflush snappy_compress (TableBuilder_make opt f) l) = (OK, r')
    \<and> good (tb_file r') \<and> table_file (contents (tb_file r')) l"
  using tb_add_all_inv [OF assms] TableBuilder_Finish_ok by metis

section \<open>The size of the file\<close>

lemma index_size:
  "length seps = length bs \<Longrightarrow> \<forall>j < length seps. \<exists>e \<in> set (fst (bs ! j)). length (seps ! j) \<le> length (fst e) \<Longrightarrow>
   sum_list (map (\<lambda>(k, v). 19 + length k + length v) (index_entries seps bs)) \<le> entries_size (concat (map fst bs))"
proof (induction seps bs rule: list_induct2)
  case Nil
  then show ?case by (simp add: index_entries_def)
next
  case (Cons sep seps b bs)
  obtain e where e: "e \<in> set (fst b)" "length sep \<le> length (fst e)" using Cons.prems by (auto dest: spec [of _ 0])
  have "\<forall>j < length seps. \<exists>e \<in> set (fst (bs ! j)). length (seps ! j) \<le> length (fst e)"
    using Cons.prems by (metis Suc_mono length_Cons nth_Cons_Suc)
  note IH = Cons.IH [OF this]
  have "length (BlockHandle_EncodeTo (snd b) []) \<le> 20"
    using length_BlockHandle_EncodeTo [of "snd b"] by (simp add: kMaxEncodedLength_def)
  then have "19 + length sep + length (BlockHandle_EncodeTo (snd b) []) \<le> entries_size (fst b)"
    using entries_size_member [OF e(1)] e(2) by linarith
  with IH show ?case by (simp add: index_entries_def entries_size_append split_beta)
qed


text \<open>Without a filter block the file is smaller than 2^34 bytes when the entries are.\<close>

lemma table_file_size:
  assumes tf: "table_file C l" and none: "o_filter_policy opt = None"
  shows "length C \<le> 2 * entries_size l + 100"
proof -
  obtain seps bs hf where
    l: "all_entries bs [] = l" "length seps = length bs" "seps_ok seps bs []"
    and C: "length C \<le> entries_size l + length (img (meta_entries hf)) + length (block_image 1 (index_entries seps bs)) + 58"
    using tf none unfolding table_file_def by auto
  have "\<forall>j < length seps. \<exists>e \<in> set (fst (bs ! j)). length (seps ! j) \<le> length (fst e)"
    using l(3) by (auto simp: seps_ok_def separates_def)
  from index_size [OF l(2) this] have "length (block_image 1 (index_entries seps bs)) \<le> 8 + entries_size l"
    using build_block_size [of 1 "index_entries seps bs"] l(1) by (simp add: block_image_def all_entries_def)
  moreover have "length (img (meta_entries hf)) \<le> 8"
    using build_block_size [of "o_block_restart_interval opt" "meta_entries hf"] none
    by (simp add: block_image_def meta_entries_def)
  ultimately show ?thesis using C by simp
qed

end

end
