(* ===== verification/TwoLevel.thy ===== *)
theory TwoLevel imports Iterator_Api begin

text \<open>
  \<^verbatim>\<open>table/two_level_iterator.cc\<close>: an iterator over the entries of the blocks an index iterator
  names. The two iterators are parameters, given by their operations; \<open>block_function\<close> makes the
  iterator of the block a handle stands for. The loops that skip blocks without entries may run
  for ever on an index iterator that never becomes invalid, so a move returns an option. The
  locale at the end states the contract: over an index whose keys separate the blocks, the
  two-level iterator is an iterator over all their entries.
\<close>

section \<open>State and operations\<close>

record ('i, 'd) two_level =
  tl_status :: status
  tl_index :: "'i wrapper"
  tl_data :: "'d wrapper"
  tl_handle :: bytes

definition TwoLevelIterator_init :: "'i iter_ops \<Rightarrow> 'd iter_ops \<Rightarrow> 'i \<Rightarrow> ('i, 'd) two_level" where
  "TwoLevelIterator_init iops dops index_iter =
     \<lparr>tl_status = OK, tl_index = w_Set iops wrapper_init (Some index_iter),
      tl_data = w_Set dops wrapper_init None, tl_handle = []\<rparr>"

definition tl_SaveError :: "status \<Rightarrow> ('i, 'd) two_level \<Rightarrow> ('i, 'd) two_level" where
  "tl_SaveError s st = (if ok (tl_status st) \<and> \<not> ok s then st\<lparr>tl_status := s\<rparr> else st)"

definition SetDataIterator :: "'d iter_ops \<Rightarrow> ('i, 'd) two_level \<Rightarrow> 'd option \<Rightarrow> ('i, 'd) two_level" where
  "SetDataIterator dops st data_iter =
     (let st = (if w_iter (tl_data st) \<noteq> None then tl_SaveError (w_status dops (tl_data st)) st else st)
      in st\<lparr>tl_data := w_Set dops (tl_data st) data_iter\<rparr>)"

definition InitDataBlock ::
  "'i iter_ops \<Rightarrow> 'd iter_ops \<Rightarrow> (bytes \<Rightarrow> 'd) \<Rightarrow> ('i, 'd) two_level \<Rightarrow> ('i, 'd) two_level" where
  "InitDataBlock iops dops block_function st =
     (if \<not> w_valid (tl_index st) then SetDataIterator dops st None
      else let handle = w_value iops (tl_index st) in
        if w_iter (tl_data st) \<noteq> None \<and> slice_compare handle (tl_handle st) = 0 then st
        else let iter = block_function handle
             in SetDataIterator dops (st\<lparr>tl_handle := handle\<rparr>) (Some iter))"

definition move_index :: "'i iter_ops \<Rightarrow> ('i \<Rightarrow> 'i option) \<Rightarrow> ('i, 'd) two_level \<Rightarrow> ('i, 'd) two_level option" where
  "move_index iops f st = do { w \<leftarrow> w_move iops f (tl_index st); Some (st\<lparr>tl_index := w\<rparr>) }"

text \<open>\<open>if (data_iter_.iter() != NULL) data_iter_. ...\<close>\<close>

definition move_data :: "'d iter_ops \<Rightarrow> ('d \<Rightarrow> 'd option) \<Rightarrow> ('i, 'd) two_level \<Rightarrow> ('i, 'd) two_level option" where
  "move_data dops f st =
     (if w_iter (tl_data st) \<noteq> None
      then do { w \<leftarrow> w_move dops f (tl_data st); Some (st\<lparr>tl_data := w\<rparr>) }
      else Some st)"

partial_function (option) SkipEmptyDataBlocksForward ::
  "'i iter_ops \<Rightarrow> 'd iter_ops \<Rightarrow> (bytes \<Rightarrow> 'd) \<Rightarrow> ('i, 'd) two_level \<Rightarrow> ('i, 'd) two_level option" where
  "SkipEmptyDataBlocksForward iops dops block_function st =
     (if w_iter (tl_data st) = None \<or> \<not> w_valid (tl_data st)
      then if \<not> w_valid (tl_index st) then Some (SetDataIterator dops st None)
           else do { st \<leftarrow> move_index iops (op_Next iops) st;
                     st \<leftarrow> move_data dops (op_SeekToFirst dops) (InitDataBlock iops dops block_function st);
                     SkipEmptyDataBlocksForward iops dops block_function st }
      else Some st)"

partial_function (option) SkipEmptyDataBlocksBackward ::
  "'i iter_ops \<Rightarrow> 'd iter_ops \<Rightarrow> (bytes \<Rightarrow> 'd) \<Rightarrow> ('i, 'd) two_level \<Rightarrow> ('i, 'd) two_level option" where
  "SkipEmptyDataBlocksBackward iops dops block_function st =
     (if w_iter (tl_data st) = None \<or> \<not> w_valid (tl_data st)
      then if \<not> w_valid (tl_index st) then Some (SetDataIterator dops st None)
           else do { st \<leftarrow> move_index iops (op_Prev iops) st;
                     st \<leftarrow> move_data dops (op_SeekToLast dops) (InitDataBlock iops dops block_function st);
                     SkipEmptyDataBlocksBackward iops dops block_function st }
      else Some st)"

definition tl_Seek ::
  "'i iter_ops \<Rightarrow> 'd iter_ops \<Rightarrow> (bytes \<Rightarrow> 'd) \<Rightarrow> ('i, 'd) two_level \<Rightarrow> bytes \<Rightarrow> ('i, 'd) two_level option" where
  "tl_Seek iops dops block_function st target =
     do { st \<leftarrow> move_index iops (\<lambda>it. op_Seek iops it target) st;
          st \<leftarrow> move_data dops (\<lambda>it. op_Seek dops it target) (InitDataBlock iops dops block_function st);
          SkipEmptyDataBlocksForward iops dops block_function st }"

definition tl_SeekToFirst ::
  "'i iter_ops \<Rightarrow> 'd iter_ops \<Rightarrow> (bytes \<Rightarrow> 'd) \<Rightarrow> ('i, 'd) two_level \<Rightarrow> ('i, 'd) two_level option" where
  "tl_SeekToFirst iops dops block_function st =
     do { st \<leftarrow> move_index iops (op_SeekToFirst iops) st;
          st \<leftarrow> move_data dops (op_SeekToFirst dops) (InitDataBlock iops dops block_function st);
          SkipEmptyDataBlocksForward iops dops block_function st }"

definition tl_SeekToLast ::
  "'i iter_ops \<Rightarrow> 'd iter_ops \<Rightarrow> (bytes \<Rightarrow> 'd) \<Rightarrow> ('i, 'd) two_level \<Rightarrow> ('i, 'd) two_level option" where
  "tl_SeekToLast iops dops block_function st =
     do { st \<leftarrow> move_index iops (op_SeekToLast iops) st;
          st \<leftarrow> move_data dops (op_SeekToLast dops) (InitDataBlock iops dops block_function st);
          SkipEmptyDataBlocksBackward iops dops block_function st }"

definition tl_Next ::
  "'i iter_ops \<Rightarrow> 'd iter_ops \<Rightarrow> (bytes \<Rightarrow> 'd) \<Rightarrow> ('i, 'd) two_level \<Rightarrow> ('i, 'd) two_level option" where
  "tl_Next iops dops block_function st =
     do { st \<leftarrow> move_data dops (op_Next dops) st; SkipEmptyDataBlocksForward iops dops block_function st }"

definition tl_Prev ::
  "'i iter_ops \<Rightarrow> 'd iter_ops \<Rightarrow> (bytes \<Rightarrow> 'd) \<Rightarrow> ('i, 'd) two_level \<Rightarrow> ('i, 'd) two_level option" where
  "tl_Prev iops dops block_function st =
     do { st \<leftarrow> move_data dops (op_Prev dops) st; SkipEmptyDataBlocksBackward iops dops block_function st }"

definition tl_status_of :: "'i iter_ops \<Rightarrow> 'd iter_ops \<Rightarrow> ('i, 'd) two_level \<Rightarrow> status" where
  "tl_status_of iops dops st =
     (if \<not> ok (w_status iops (tl_index st)) then w_status iops (tl_index st)
      else if w_iter (tl_data st) \<noteq> None \<and> \<not> ok (w_status dops (tl_data st)) then w_status dops (tl_data st)
      else tl_status st)"

definition two_level_ops ::
  "'i iter_ops \<Rightarrow> 'd iter_ops \<Rightarrow> (bytes \<Rightarrow> 'd) \<Rightarrow> ('i, 'd) two_level iter_ops" where
  "two_level_ops iops dops block_function =
     \<lparr>op_Valid = \<lambda>st. w_valid (tl_data st),
      op_SeekToFirst = tl_SeekToFirst iops dops block_function,
      op_SeekToLast = tl_SeekToLast iops dops block_function,
      op_Seek = tl_Seek iops dops block_function,
      op_Next = tl_Next iops dops block_function,
      op_Prev = tl_Prev iops dops block_function,
      op_key = \<lambda>st. w_key (tl_data st), op_value = \<lambda>st. w_value dops (tl_data st),
      op_status = tl_status_of iops dops\<rparr>"

section \<open>The contract\<close>

text \<open>
  \<open>blk\<close> gives the entries of the block a handle stands for; \<open>good\<close> are the handles whose block can
  be read.
\<close>

locale two_level_iterator =
  index: iterator irep cmp kvalid iops + data: iterator drep cmp kvalid dops
  for irep :: "'i \<Rightarrow> (bytes \<times> bytes) list \<Rightarrow> nat \<Rightarrow> bool" and cmp kvalid iops
    and drep :: "'d \<Rightarrow> (bytes \<times> bytes) list \<Rightarrow> nat \<Rightarrow> bool" and dops +
  fixes block_function :: "bytes \<Rightarrow> 'd"
    and good :: "bytes \<Rightarrow> bool"
    and blk :: "bytes \<Rightarrow> (bytes \<times> bytes) list"
  assumes block_function_rep: "good h \<Longrightarrow> \<exists>m. drep (block_function h) (blk h) m"
    and comparator_laws: "comparator cmp kvalid"
begin

definition pos :: "(bytes \<times> bytes) list \<Rightarrow> nat \<Rightarrow> nat" where
  "pos il j = length (concat (map (blk \<circ> snd) (take j il)))"

definition entries :: "(bytes \<times> bytes) list \<Rightarrow> (bytes \<times> bytes) list" where
  "entries il = concat (map (blk \<circ> snd) il)"

definition index_ok :: "(bytes \<times> bytes) list \<Rightarrow> bool" where
  "index_ok il \<longleftrightarrow>
     (\<forall>j < length il. good (snd (il ! j)) \<and> kvalid (fst (il ! j)) \<and>
        (\<forall>(k, v) \<in> set (blk (snd (il ! j))). cmp k (fst (il ! j)) \<le> 0)) \<and>
     (\<forall>i j. i < j \<longrightarrow> j < length il \<longrightarrow> (\<forall>(k, v) \<in> set (blk (snd (il ! j))). cmp (fst (il ! i)) k < 0)) \<and>
     cmp_sorted cmp (entries il)"

text \<open>The index stands at block \<open>j\<close> and the data iterator at entry \<open>m\<close> of that block, perhaps past its end.\<close>

definition tl_at :: "('i, 'd) two_level \<Rightarrow> (bytes \<times> bytes) list \<Rightarrow> nat \<Rightarrow> nat \<Rightarrow> bool" where
  "tl_at st il j m \<longleftrightarrow>
     index_ok il \<and> tl_status st = OK \<and> index.w_rep (tl_index st) il j \<and> j < length il \<and>
     data.w_rep (tl_data st) (blk (snd (il ! j))) m \<and> tl_handle st = snd (il ! j)"

definition tl_end :: "('i, 'd) two_level \<Rightarrow> (bytes \<times> bytes) list \<Rightarrow> bool" where
  "tl_end st il \<longleftrightarrow>
     index_ok il \<and> tl_status st = OK \<and> (\<exists>j. index.w_rep (tl_index st) il j) \<and> w_iter (tl_data st) = None \<and> \<not> w_valid (tl_data st)"

definition tl_rep :: "('i, 'd) two_level \<Rightarrow> (bytes \<times> bytes) list \<Rightarrow> nat \<Rightarrow> bool" where
  "tl_rep st l i \<longleftrightarrow>
     (\<exists>il. l = entries il \<and>
        ((\<exists>j m. tl_at st il j m \<and> m < length (blk (snd (il ! j))) \<and> i = pos il j + m)
          \<or> (tl_end st il \<and> i = length l)))"

lemma pos_0 [simp]: "pos il 0 = 0"
  by (simp add: pos_def)

lemma pos_Suc: "j < length il \<Longrightarrow> pos il (Suc j) = pos il j + length (blk (snd (il ! j)))"
  by (simp add: pos_def take_Suc_conv_app_nth)

lemma pos_all [simp]: "pos il (length il) = length (entries il)"
  by (simp add: pos_def entries_def)

lemma entries_split:
  "j < length il \<Longrightarrow>
   entries il = concat (map (blk \<circ> snd) (take j il)) @ blk (snd (il ! j)) @ concat (map (blk \<circ> snd) (drop (Suc j) il))"
proof -
  assume "j < length il"
  then have "il = take j il @ il ! j # drop (Suc j) il" by (rule id_take_nth_drop)
  then have "entries il = concat (map (blk \<circ> snd) (take j il @ il ! j # drop (Suc j) il))"
    by (simp add: entries_def)
  then show ?thesis by simp
qed

lemma pos_less: "j < length il \<Longrightarrow> m < length (blk (snd (il ! j))) \<Longrightarrow> pos il j + m < length (entries il)"
  by (subst entries_split [of j]) (simp_all add: pos_def)

lemma entries_nth:
  "j < length il \<Longrightarrow> m < length (blk (snd (il ! j))) \<Longrightarrow> entries il ! (pos il j + m) = blk (snd (il ! j)) ! m"
  by (subst entries_split [of j]) (simp_all add: pos_def nth_append)

lemma pos_le: "pos il j \<le> length (entries il)"
proof -
  have "entries il = concat (map (blk \<circ> snd) (take j il)) @ concat (map (blk \<circ> snd) (drop j il))"
    unfolding entries_def by (metis append_take_drop_id concat_append map_append)
  then show ?thesis by (simp add: pos_def)
qed

lemma w_data_None: "w_iter (w_Set dops w None) = None" "\<not> w_valid (w_Set dops w None)"
  by (simp_all add: w_Set_def Let_def)

lemma data_status: "data.w_rep w l m \<Longrightarrow> w_status dops w = OK"
  by (auto simp: data.w_rep_def w_status_def data.status_ok)

lemma index_status: "index.w_rep w l m \<Longrightarrow> w_status iops w = OK"
  by (auto simp: index.w_rep_def w_status_def index.status_ok)

lemma data_valid: "data.w_rep w l m \<Longrightarrow> w_valid w \<longleftrightarrow> m < length l"
  by (auto simp: data.w_rep_def data.valid_iff)

lemma index_valid: "index.w_rep w l m \<Longrightarrow> w_valid w \<longleftrightarrow> m < length l"
  by (auto simp: index.w_rep_def index.valid_iff)

lemma data_iter: "data.w_rep w l m \<Longrightarrow> \<exists>it. w_iter w = Some it \<and> drep it l m"
  by (auto simp: data.w_rep_def)

text \<open>What \<open>data_iter_\<close> is before a move of the index: none, or the iterator of the block of \<open>tl_handle\<close>.\<close>

definition data_ok :: "('i, 'd) two_level \<Rightarrow> bool" where
  "data_ok st \<longleftrightarrow> tl_status st = OK \<and>
     (w_iter (tl_data st) = None \<and> \<not> w_valid (tl_data st) \<or> (\<exists>m. data.w_rep (tl_data st) (blk (tl_handle st)) m))"

lemma InitDataBlock_end:
  assumes "index_ok il" "data_ok st" "index.w_rep (tl_index st) il (length il)"
  shows "tl_end (InitDataBlock iops dops block_function st) il"
proof -
  have "\<not> w_valid (tl_index st)" using index_valid [OF assms(3)] by simp
  with assms show ?thesis
    by (auto simp: InitDataBlock_def SetDataIterator_def Let_def tl_end_def data_ok_def w_data_None
        data_status tl_SaveError_def ok_def)
qed

lemma InitDataBlock_at:
  assumes "index_ok il" "data_ok st" "index.w_rep (tl_index st) il j" "j < length il"
  shows "\<exists>m. tl_at (InitDataBlock iops dops block_function st) il j m"
proof -
  let ?h = "snd (il ! j)"
  have v: "w_valid (tl_index st)" using index_valid [OF assms(3)] assms(4) by simp
  have h: "w_value iops (tl_index st) = ?h"
    using assms(3,4) by (auto simp: index.w_rep_def w_value_def index.value_eq)
  have good: "good ?h" using assms(1,4) by (simp add: index_ok_def)
  show ?thesis
  proof (cases "w_iter (tl_data st) \<noteq> None \<and> slice_compare ?h (tl_handle st) = 0")
    case True
    then have eq: "tl_handle st = ?h" by simp
    with True assms have "\<exists>m. data.w_rep (tl_data st) (blk ?h) m" by (auto simp: data_ok_def)
    with True v h assms eq show ?thesis by (auto simp: InitDataBlock_def Let_def tl_at_def data_ok_def)
  next
    case False
    obtain m where "drep (block_function ?h) (blk ?h) m" using block_function_rep [OF good] by blast
    then have "data.w_rep (w_Set dops w (Some (block_function ?h))) (blk ?h) m" for w by (rule data.w_Set_rep)
    with False v h assms show ?thesis
      by (auto simp: InitDataBlock_def Let_def tl_at_def data_ok_def SetDataIterator_def data_status tl_SaveError_def ok_def)
  qed
qed

section \<open>Skipping empty blocks\<close>

lemma move_index_rep:
  assumes "index.w_rep (tl_index st) il j" "\<And>it. irep it il j \<Longrightarrow> \<exists>it'. f it = Some it' \<and> irep it' il j'"
  shows "\<exists>w. move_index iops f st = Some (st\<lparr>tl_index := w\<rparr>) \<and> index.w_rep w il j'"
  using index.w_move_rep [OF assms(1), of f j'] assms(2) by (auto simp: move_index_def)

lemma move_data_at:
  assumes "tl_at st il j m"
    and "\<And>it. drep it (blk (snd (il ! j))) m \<Longrightarrow> \<exists>it'. f it = Some it' \<and> drep it' (blk (snd (il ! j))) m'"
  shows "\<exists>st'. move_data dops f st = Some st' \<and> tl_at st' il j m'"
proof -
  from assms(1) have d: "data.w_rep (tl_data st) (blk (snd (il ! j))) m" by (simp add: tl_at_def)
  then have "w_iter (tl_data st) \<noteq> None" by (auto simp: data.w_rep_def)
  moreover obtain w where "w_move dops f (tl_data st) = Some w" "data.w_rep w (blk (snd (il ! j))) m'"
    using data.w_move_rep [OF d, of f m'] assms(2) by blast
  ultimately show ?thesis using assms(1) by (auto simp: move_data_def tl_at_def)
qed

lemma move_data_end: "tl_end st il \<Longrightarrow> move_data dops f st = Some st"
  by (simp add: move_data_def tl_end_def)

lemma tl_at_data_ok: "tl_at st il j m \<Longrightarrow> data_ok (st\<lparr>tl_index := w\<rparr>)"
  by (auto simp: tl_at_def data_ok_def)

lemma tl_end_data_ok: "tl_end st il \<Longrightarrow> data_ok (st\<lparr>tl_index := w\<rparr>)"
  by (auto simp: tl_end_def data_ok_def)

lemma InitDataBlock_index [simp]: "tl_index (InitDataBlock iops dops block_function st) = tl_index st"
  by (simp add: InitDataBlock_def SetDataIterator_def tl_SaveError_def Let_def)

text \<open>
  A step of the index followed by \<open>InitDataBlock\<close> and a move of the data iterator: the iterator
  is at the end, or in the block of the new position at an entry the move leads to.
\<close>

lemma step_index:
  assumes ok: "index_ok il" and dok: "\<And>w. data_ok (st\<lparr>tl_index := w\<rparr>)"
    and ir: "index.w_rep (tl_index st) il j"
    and f: "\<And>it. irep it il j \<Longrightarrow> \<exists>it'. f it = Some it' \<and> irep it' il j'"
    and g: "\<And>it m. drep it (blk (snd (il ! j'))) m \<Longrightarrow> \<exists>it'. g it = Some it' \<and> drep it' (blk (snd (il ! j'))) m'"
  shows "\<exists>st1 st2. move_index iops f st = Some st1 \<and> move_data dops g (InitDataBlock iops dops block_function st1) = Some st2
    \<and> (if j' < length il then tl_at st2 il j' m'
       else tl_end st2 il \<and> index.w_rep (tl_index st2) il (length il))"
proof -
  obtain w where w: "move_index iops f st = Some (st\<lparr>tl_index := w\<rparr>)" "index.w_rep w il j'"
    using move_index_rep [OF ir, of f j'] f by blast
  let ?st1 = "st\<lparr>tl_index := w\<rparr>"
  have ir1: "index.w_rep (tl_index ?st1) il j'" using w(2) by simp
  show ?thesis
  proof (cases "j' < length il")
    case True
    obtain m where "tl_at (InitDataBlock iops dops block_function ?st1) il j' m"
      using InitDataBlock_at [OF ok dok ir1 True] by blast
    from move_data_at [OF this, of g m'] g w(1) True show ?thesis by auto
  next
    case False
    moreover have "j' \<le> length il" using w(2) index.rep_le by (auto simp: index.w_rep_def)
    ultimately have "tl_end (InitDataBlock iops dops block_function ?st1) il"
      using InitDataBlock_end [OF ok dok] ir1 by simp
    moreover have "index.w_rep (tl_index (InitDataBlock iops dops block_function ?st1)) il (length il)"
      using w(2) False \<open>j' \<le> length il\<close> by simp
    ultimately show ?thesis using move_data_end w(1) False by auto
  qed
qed

lemma skip_at:
  assumes "tl_at st il j m" "m < length (blk (snd (il ! j)))"
  shows "SkipEmptyDataBlocksForward iops dops block_function st = Some st"
    "SkipEmptyDataBlocksBackward iops dops block_function st = Some st" "tl_rep st (entries il) (pos il j + m)"
proof -
  from assms(1) have d: "data.w_rep (tl_data st) (blk (snd (il ! j))) m" by (simp add: tl_at_def)
  have "w_valid (tl_data st)" "w_iter (tl_data st) \<noteq> None"
    using data_valid [OF d] data_iter [OF d] assms(2) by auto
  then show "SkipEmptyDataBlocksForward iops dops block_function st = Some st"
    "SkipEmptyDataBlocksBackward iops dops block_function st = Some st"
    by (simp_all only: SkipEmptyDataBlocksForward.simps [of iops dops block_function st]
        SkipEmptyDataBlocksBackward.simps [of iops dops block_function st] simp_thms if_False)
  show "tl_rep st (entries il) (pos il j + m)" using assms by (auto simp: tl_rep_def)
qed

lemma skip_end:
  assumes "tl_end st il" "index.w_rep (tl_index st) il (length il)"
  shows "\<exists>st'. SkipEmptyDataBlocksForward iops dops block_function st = Some st' \<and> tl_rep st' (entries il) (length (entries il))"
    "\<exists>st'. SkipEmptyDataBlocksBackward iops dops block_function st = Some st' \<and> tl_rep st' (entries il) (length (entries il))"
proof -
  have v: "\<not> w_valid (tl_index st)" using index_valid [OF assms(2)] by simp
  let ?st = "SetDataIterator dops st None"
  have "tl_end ?st il" using assms(1) by (auto simp: tl_end_def SetDataIterator_def Let_def w_data_None)
  then have "tl_rep ?st (entries il) (length (entries il))" by (auto simp: tl_rep_def)
  moreover have "w_iter (tl_data st) = None" using assms(1) by (simp add: tl_end_def)
  ultimately show "\<exists>st'. SkipEmptyDataBlocksForward iops dops block_function st = Some st' \<and> tl_rep st' (entries il) (length (entries il))"
    "\<exists>st'. SkipEmptyDataBlocksBackward iops dops block_function st = Some st' \<and> tl_rep st' (entries il) (length (entries il))"
    using v by (auto simp: SkipEmptyDataBlocksForward.simps [of iops dops block_function st]
        SkipEmptyDataBlocksBackward.simps [of iops dops block_function st])
qed

lemma skip_forward_rep:
  assumes "tl_at st il j m"
  shows "\<exists>st'. SkipEmptyDataBlocksForward iops dops block_function st = Some st' \<and> tl_rep st' (entries il) (pos il j + m)"
  using assms
proof (induction "length il - j" arbitrary: st j m)
  case 0
  then show ?case by (simp add: tl_at_def)
next
  case (Suc n)
  have j: "j < length il" and ok: "index_ok il" and ir: "index.w_rep (tl_index st) il j"
    and d: "data.w_rep (tl_data st) (blk (snd (il ! j))) m"
    using Suc.prems by (simp_all add: tl_at_def)
  show ?case
  proof (cases "m < length (blk (snd (il ! j)))")
    case True
    with skip_at [OF Suc.prems] show ?thesis by blast
  next
    case False
    moreover have "m \<le> length (blk (snd (il ! j)))" using d data.rep_le by (auto simp: data.w_rep_def)
    ultimately have m: "pos il j + m = pos il (Suc j)" using pos_Suc [OF j] by simp
    have v: "\<not> w_valid (tl_data st)" "w_valid (tl_index st)" using data_valid [OF d] index_valid [OF ir] False j by simp_all
    obtain st1 st2 where st: "move_index iops (op_Next iops) st = Some st1"
      "move_data dops (op_SeekToFirst dops) (InitDataBlock iops dops block_function st1) = Some st2"
      and at: "if Suc j < length il then tl_at st2 il (Suc j) 0 else tl_end st2 il \<and> index.w_rep (tl_index st2) il (length il)"
      using step_index [OF ok tl_at_data_ok [OF Suc.prems] ir, of "op_Next iops" "Suc j" "op_SeekToFirst dops" 0]
        index.next_rep [OF _ j] data.seek_first_rep by blast
    have eq: "SkipEmptyDataBlocksForward iops dops block_function st = SkipEmptyDataBlocksForward iops dops block_function st2"
      using v st by (subst SkipEmptyDataBlocksForward.simps) simp
    show ?thesis
    proof (cases "Suc j < length il")
      case True
      from Suc.hyps(1) [of "Suc j" st2 0] Suc.hyps(2) at True show ?thesis by (simp add: eq m)
    next
      case False
      then have "pos il (Suc j) = length (entries il)" using j by (metis Suc_lessI pos_all)
      with False skip_end(1) [of st2 il] at show ?thesis by (simp add: eq m)
    qed
  qed
qed

lemma skip_backward_rep:
  assumes "tl_at st il j m"
  shows "\<exists>st'. SkipEmptyDataBlocksBackward iops dops block_function st = Some st'
    \<and> tl_rep st' (entries il) (if m < length (blk (snd (il ! j))) then pos il j + m
        else if pos il j = 0 then length (entries il) else pos il j - 1)"
  using assms
proof (induction j arbitrary: st m)
  case 0
  have j: "0 < length il" and ok: "index_ok il" and ir: "index.w_rep (tl_index st) il 0"
    and d: "data.w_rep (tl_data st) (blk (snd (il ! 0))) m"
    using 0 by (simp_all add: tl_at_def)
  show ?case
  proof (cases "m < length (blk (snd (il ! 0)))")
    case True
    with skip_at(2,3) [OF 0] show ?thesis by auto
  next
    case False
    have v: "\<not> w_valid (tl_data st)" "w_valid (tl_index st)" using data_valid [OF d] index_valid [OF ir] False j by simp_all
    have f: "\<exists>it'. op_Prev iops it = Some it' \<and> irep it' il (length il)" if "irep it il 0" for it
      using index.prev_rep [OF that j] by simp
    obtain st1 st2 where st: "move_index iops (op_Prev iops) st = Some st1"
      "move_data dops (op_SeekToLast dops) (InitDataBlock iops dops block_function st1) = Some st2"
      and at: "tl_end st2 il \<and> index.w_rep (tl_index st2) il (length il)"
      using step_index [OF ok tl_at_data_ok [OF 0] ir, of "op_Prev iops" "length il" "op_SeekToLast dops" "length (blk (snd (il ! length il))) - 1"]
        f data.seek_last_rep by auto
    have "SkipEmptyDataBlocksBackward iops dops block_function st = SkipEmptyDataBlocksBackward iops dops block_function st2"
      using v st by (subst SkipEmptyDataBlocksBackward.simps) simp
    with False skip_end(2) [of st2 il] at show ?thesis by simp
  qed
next
  case (Suc j)
  have j: "Suc j < length il" and ok: "index_ok il" and ir: "index.w_rep (tl_index st) il (Suc j)"
    and d: "data.w_rep (tl_data st) (blk (snd (il ! Suc j))) m"
    using Suc.prems by (simp_all add: tl_at_def)
  show ?case
  proof (cases "m < length (blk (snd (il ! Suc j)))")
    case True
    with skip_at(2,3) [OF Suc.prems] show ?thesis by auto
  next
    case False
    have v: "\<not> w_valid (tl_data st)" "w_valid (tl_index st)" using data_valid [OF d] index_valid [OF ir] False j by simp_all
    let ?b = "blk (snd (il ! j))"
    have f: "\<exists>it'. op_Prev iops it = Some it' \<and> irep it' il j" if "irep it il (Suc j)" for it
      using index.prev_rep [OF that j] by simp
    obtain st1 st2 where st: "move_index iops (op_Prev iops) st = Some st1"
      "move_data dops (op_SeekToLast dops) (InitDataBlock iops dops block_function st1) = Some st2"
      and at: "tl_at st2 il j (length ?b - 1)"
      using step_index [OF ok tl_at_data_ok [OF Suc.prems] ir, of "op_Prev iops" j "op_SeekToLast dops" "length ?b - 1"]
        f data.seek_last_rep j by auto
    have eq: "SkipEmptyDataBlocksBackward iops dops block_function st = SkipEmptyDataBlocksBackward iops dops block_function st2"
      using v st by (subst SkipEmptyDataBlocksBackward.simps) simp
    have p: "pos il (Suc j) = pos il j + length ?b" using pos_Suc j by simp
    have idx: "(if length ?b - 1 < length ?b then pos il j + (length ?b - 1) else if pos il j = 0 then length (entries il) else pos il j - 1)
      = (if pos il (Suc j) = 0 then length (entries il) else pos il (Suc j) - 1)"
      unfolding p by (cases "?b = []") (auto simp flip: length_greater_0_conv)
    from Suc.IH [OF at] have "\<exists>st'. SkipEmptyDataBlocksBackward iops dops block_function st2 = Some st'
      \<and> tl_rep st' (entries il) (if pos il (Suc j) = 0 then length (entries il) else pos il (Suc j) - 1)"
      unfolding idx .
    with False show ?thesis by (simp only: eq if_False)
  qed
qed

section \<open>Positions in the concatenation of the blocks\<close>

lemma pos_mono: "i \<le> j \<Longrightarrow> j \<le> length il \<Longrightarrow> pos il i \<le> pos il j"
proof (induction j)
  case (Suc j)
  then show ?case using pos_Suc [of j il] by (cases "i = Suc j") auto
qed simp

lemma entries_position:
  assumes "q < length (entries il)"
  shows "\<exists>j m. j < length il \<and> m < length (blk (snd (il ! j))) \<and> q = pos il j + m"
proof -
  have "\<exists>j m. j < n \<and> m < length (blk (snd (il ! j))) \<and> q = pos il j + m" if "q < pos il n" "n \<le> length il" for n
    using that
  proof (induction n)
    case (Suc n)
    then have n: "n < length il" by simp
    show ?case
    proof (cases "q < pos il n")
      case True
      with Suc.IH n show ?thesis by (meson less_SucI less_imp_le)
    next
      case False
      then have "q = pos il n + (q - pos il n)" "q - pos il n < length (blk (snd (il ! n)))"
        using Suc.prems(1) pos_Suc [OF n] by simp_all
      then show ?thesis by blast
    qed
  qed simp
  from this [of "length il"] assms show ?thesis by simp
qed

lemma index_ok_key:
  assumes "index_ok il" "j < length il" "m < length (blk (snd (il ! j)))"
  shows "kvalid (fst (il ! j))" "kvalid (fst (blk (snd (il ! j)) ! m))"
    "cmp (fst (blk (snd (il ! j)) ! m)) (fst (il ! j)) \<le> 0"
    "i < j \<Longrightarrow> cmp (fst (il ! i)) (fst (blk (snd (il ! j)) ! m)) < 0"
proof -
  obtain k v where e: "blk (snd (il ! j)) ! m = (k, v)" by (rule prod.exhaust)
  then have mem: "(k, v) \<in> set (blk (snd (il ! j)))" using assms(3) nth_mem by metis
  then show "kvalid (fst (il ! j))" "cmp (fst (blk (snd (il ! j)) ! m)) (fst (il ! j)) \<le> 0"
    "i < j \<Longrightarrow> cmp (fst (il ! i)) (fst (blk (snd (il ! j)) ! m)) < 0"
    using assms(1,2) by (fastforce simp: index_ok_def e)+
  obtain n where "drep (block_function (snd (il ! j))) (blk (snd (il ! j))) n"
    using block_function_rep [of "snd (il ! j)"] assms(1,2) by (auto simp: index_ok_def)
  with mem show "kvalid (fst (blk (snd (il ! j)) ! m))" using data.rep_keys e by auto
qed

lemma lower_bound_entries:
  assumes ok: "index_ok il" and t: "kvalid t"
  defines "j \<equiv> lower_bound cmp il t"
  defines "m \<equiv> (if j < length il then lower_bound cmp (blk (snd (il ! j))) t else 0)"
  shows "lower_bound cmp (entries il) t = pos il j + m"
proof -
  note trans = comparator.cmp_le_less_trans [OF comparator_laws] comparator.cmp_less_trans [OF comparator_laws]
    comparator.cmp_le_iff [OF comparator_laws]
  have jn: "j \<le> length il" by (simp add: j_def lower_bound_le)
  have mle: "j < length il \<Longrightarrow> m \<le> length (blk (snd (il ! j)))" by (simp add: m_def lower_bound_le)
  have le: "pos il j + m \<le> length (entries il)"
  proof (cases "j < length il")
    case True
    then have "pos il j + m \<le> pos il (Suc j)" using mle pos_Suc by simp
    then show ?thesis using pos_le [of il "Suc j"] by simp
  next
    case False
    then show ?thesis using pos_le [of il j] by (simp add: m_def)
  qed
  have "pos il j + m = lower_bound cmp (entries il) t"
  proof (rule lower_bound_unique [OF le])
    fix q
    assume q: "q < pos il j + m"
    with le obtain a b where ab: "a < length il" "b < length (blk (snd (il ! a)))" "q = pos il a + b"
      using entries_position [of q il] by auto
    note key = index_ok_key [OF ok ab(1,2)]
    have "\<not> j < a"
    proof
      assume "j < a"
      then have "pos il (Suc j) \<le> pos il a" using pos_mono ab(1) by simp
      then show False using q ab \<open>j < a\<close> mle pos_Suc [of j il] by simp
    qed
    then consider "a < j" | "a = j" "b < m" using q ab by force
    then show "cmp (fst (entries il ! q)) t < 0"
    proof cases
      case 1
      then have "cmp (fst (il ! a)) t < 0" unfolding j_def by (rule lower_bound_before)
      with trans(1) [OF key(2,1) t key(3)] show ?thesis using ab entries_nth by simp
    next
      case 2
      then have "cmp (fst (blk (snd (il ! j)) ! b)) t < 0"
        using ab by (intro lower_bound_before) (simp add: m_def)
      then show ?thesis using ab entries_nth 2 by simp
    qed
  next
    assume "pos il j + m < length (entries il)"
    then obtain a b where ab: "a < length il" "b < length (blk (snd (il ! a)))" "pos il j + m = pos il a + b"
      using entries_position by blast
    note key = index_ok_key [OF ok ab(1,2)]
    have "\<not> a < j"
    proof
      assume "a < j"
      then have "pos il (Suc a) \<le> pos il j" using pos_mono jn by simp
      then show False using ab pos_Suc [of a il] by simp
    qed
    then consider "a = j" "b = m" | "j < a" using ab by force
    then have "\<not> cmp (fst (blk (snd (il ! a)) ! b)) t < 0"
    proof cases
      case 1
      with ab show ?thesis
        using lower_bound_at [of cmp "blk (snd (il ! j))" t] by (simp add: m_def)
    next
      case 2
      then have j: "j < length il" using ab by simp
      then have "\<not> cmp (fst (il ! j)) t < 0" unfolding j_def by (rule lower_bound_at)
      moreover have "kvalid (fst (il ! j))" using ok j by (simp add: index_ok_def)
      ultimately show ?thesis using trans(2) [of "fst (il ! j)" "fst (blk (snd (il ! a)) ! b)" t] key(2) key(4) [OF 2] t
        by auto
    qed
    then show "\<not> cmp (fst (entries il ! (pos il j + m))) t < 0" using ab entries_nth by simp
  qed
  then show ?thesis by simp
qed

section \<open>The two-level iterator is an iterator\<close>

lemma tl_rep_state:
  assumes "tl_rep st l i"
  shows "\<exists>il j. l = entries il \<and> index_ok il \<and> index.w_rep (tl_index st) il j \<and> (\<forall>w. data_ok (st\<lparr>tl_index := w\<rparr>))"
proof -
  from assms obtain il where l: "l = entries il" and "(\<exists>j m. tl_at st il j m) \<or> tl_end st il"
    by (auto simp: tl_rep_def)
  then show ?thesis
  proof (elim disjE exE)
    fix j m
    assume at: "tl_at st il j m"
    then have "index_ok il" "index.w_rep (tl_index st) il j" by (simp_all add: tl_at_def)
    with l tl_at_data_ok [OF at] show ?thesis by blast
  next
    assume e: "tl_end st il"
    then obtain j where "index_ok il" "index.w_rep (tl_index st) il j" by (auto simp: tl_end_def)
    with l tl_end_data_ok [OF e] show ?thesis by blast
  qed
qed

lemma SkipForward_done:
  assumes "if j < length il then tl_at st il j m else tl_end st il \<and> index.w_rep (tl_index st) il (length il)"
    and "p = (if j < length il then pos il j + m else length (entries il))"
  shows "\<exists>st'. SkipEmptyDataBlocksForward iops dops block_function st = Some st' \<and> tl_rep st' (entries il) p"
  using assms skip_forward_rep [of st il j m] skip_end(1) [of st il] by (auto split: if_splits)

lemma two_level_rep_iterator: "iterator tl_rep cmp kvalid (two_level_ops iops dops block_function)"
proof
  fix st l i
  assume rep: "tl_rep st l i"
  from tl_rep_state [OF rep] obtain il j where l: "l = entries il" and ok: "index_ok il"
    and ir: "index.w_rep (tl_index st) il j" and dok: "\<And>w. data_ok (st\<lparr>tl_index := w\<rparr>)" by blast
  have ist: "w_status iops (tl_index st) = OK" by (rule index_status [OF ir])
  have cases: "(\<exists>il j m. l = entries il \<and> tl_at st il j m \<and> m < length (blk (snd (il ! j))) \<and> i = pos il j + m \<and> i < length l)
      \<or> (\<exists>il. l = entries il \<and> tl_end st il \<and> i = length l)"
    using rep by (fastforce simp: tl_rep_def tl_at_def intro: pos_less)
  show "i \<le> length l" using cases by auto
  show "op_Valid (two_level_ops iops dops block_function) st \<longleftrightarrow> i < length l"
    using cases by (auto simp: two_level_ops_def tl_at_def tl_end_def data_valid)
  show "op_status (two_level_ops iops dops block_function) st = OK"
    using cases ist by (auto simp: two_level_ops_def tl_status_of_def tl_at_def tl_end_def data_status ok_def)
  show "cmp_sorted cmp l" using ok by (simp add: l index_ok_def)
  show "kvalid k" if "(k, v) \<in> set l" for k v
  proof -
    from that obtain q where "q < length (entries il)" "entries il ! q = (k, v)" by (auto simp: l in_set_conv_nth)
    with entries_position [of q il] entries_nth index_ok_key(2) [OF ok] show ?thesis by fastforce
  qed
  show "\<exists>it'. op_SeekToFirst (two_level_ops iops dops block_function) st = Some it' \<and> tl_rep it' l 0"
  proof -
    obtain st1 st2 where "move_index iops (op_SeekToFirst iops) st = Some st1"
      "move_data dops (op_SeekToFirst dops) (InitDataBlock iops dops block_function st1) = Some st2"
      "if 0 < length il then tl_at st2 il 0 0 else tl_end st2 il \<and> index.w_rep (tl_index st2) il (length il)"
      using step_index [OF ok dok ir, of "op_SeekToFirst iops" 0 "op_SeekToFirst dops" 0]
        index.seek_first_rep data.seek_first_rep by blast
    with SkipForward_done [of 0 il st2 0 0] show ?thesis
      by (auto simp: two_level_ops_def tl_SeekToFirst_def l entries_def)
  qed
  show "\<exists>it'. op_Seek (two_level_ops iops dops block_function) st t = Some it' \<and> tl_rep it' l (lower_bound cmp l t)"
    if t: "kvalid t" for t
  proof -
    let ?j = "lower_bound cmp il t" and ?m = "lower_bound cmp (blk (snd (il ! lower_bound cmp il t))) t"
    obtain st1 st2 where st: "move_index iops (\<lambda>it. op_Seek iops it t) st = Some st1"
      "move_data dops (\<lambda>it. op_Seek dops it t) (InitDataBlock iops dops block_function st1) = Some st2"
      "if ?j < length il then tl_at st2 il ?j ?m else tl_end st2 il \<and> index.w_rep (tl_index st2) il (length il)"
      using step_index [OF ok dok ir, of "\<lambda>it. op_Seek iops it t" ?j "\<lambda>it. op_Seek dops it t" ?m]
        index.seek_rep [OF _ t] data.seek_rep [OF _ t] by blast
    have "lower_bound cmp (entries il) t = (if ?j < length il then pos il ?j + ?m else length (entries il))"
      using lower_bound_entries [OF ok t] lower_bound_le [of cmp il t] by (auto simp flip: pos_all)
    from SkipForward_done [OF st(3) this] st(1,2) show ?thesis
      by (simp add: two_level_ops_def tl_Seek_def l)
  qed
  show "\<exists>it'. op_SeekToLast (two_level_ops iops dops block_function) st = Some it' \<and> tl_rep it' l (length l - 1)"
  proof -
    let ?n = "length il" and ?b = "blk (snd (il ! (length il - 1)))"
    obtain st1 st2 where st: "move_index iops (op_SeekToLast iops) st = Some st1"
      "move_data dops (op_SeekToLast dops) (InitDataBlock iops dops block_function st1) = Some st2"
      "if ?n - 1 < ?n then tl_at st2 il (?n - 1) (length ?b - 1) else tl_end st2 il \<and> index.w_rep (tl_index st2) il ?n"
      using step_index [OF ok dok ir, of "op_SeekToLast iops" "?n - 1" "op_SeekToLast dops" "length ?b - 1"]
        index.seek_last_rep data.seek_last_rep by blast
    have "\<exists>st'. SkipEmptyDataBlocksBackward iops dops block_function st2 = Some st' \<and> tl_rep st' l (length l - 1)"
    proof (cases "il = []")
      case True
      with st(3) skip_end(2) [of st2 il] show ?thesis by (simp add: l entries_def)
    next
      case False
      then have n: "?n - 1 < ?n" by simp
      then have "length l = pos il (?n - 1) + length ?b" using pos_Suc [OF n] False by (simp add: l flip: pos_all)
      then have eq: "(if length ?b - 1 < length ?b then pos il (?n - 1) + (length ?b - 1)
          else if pos il (?n - 1) = 0 then length l else pos il (?n - 1) - 1) = length l - 1"
        by (cases "?b = []") (auto simp flip: length_greater_0_conv)
      have "tl_at st2 il (?n - 1) (length ?b - 1)" using st(3) n by (simp only: if_True)
      from skip_backward_rep [OF this] show ?thesis unfolding l [symmetric] eq .
    qed
    with st(1,2) show ?thesis by (simp add: two_level_ops_def tl_SeekToLast_def)
  qed
  assume i: "i < length l"
  then obtain il j m where l: "l = entries il" and at: "tl_at st il j m" and m: "m < length (blk (snd (il ! j)))"
    and im: "i = pos il j + m"
    using cases by auto
  have d: "data.w_rep (tl_data st) (blk (snd (il ! j))) m" and j: "j < length il" using at by (simp_all add: tl_at_def)
  show "op_key (two_level_ops iops dops block_function) st = fst (l ! i)"
    "op_value (two_level_ops iops dops block_function) st = snd (l ! i)"
    using d m entries_nth [OF j m] data_valid [OF d]
    by (auto simp: two_level_ops_def l im data.w_rep_def w_value_def data.key_eq data.value_eq)
  show "\<exists>it'. op_Next (two_level_ops iops dops block_function) st = Some it' \<and> tl_rep it' l (Suc i)"
  proof -
    obtain st' where "move_data dops (op_Next dops) st = Some st'" "tl_at st' il j (Suc m)"
      using move_data_at [OF at, of "op_Next dops" "Suc m"] data.next_rep m by blast
    with skip_forward_rep [of st' il j "Suc m"] show ?thesis by (auto simp: two_level_ops_def tl_Next_def l im)
  qed
  show "\<exists>it'. op_Prev (two_level_ops iops dops block_function) st = Some it' \<and> tl_rep it' l (if i = 0 then length l else i - 1)"
  proof -
    let ?b = "blk (snd (il ! j))"
    let ?m' = "if m = 0 then length ?b else m - 1"
    obtain st' where st': "move_data dops (op_Prev dops) st = Some st'" "tl_at st' il j ?m'"
      using move_data_at [OF at, of "op_Prev dops" ?m'] data.prev_rep m by blast
    have eq: "(if ?m' < length ?b then pos il j + ?m' else if pos il j = 0 then length l else pos il j - 1)
        = (if i = 0 then length l else i - 1)"
      using m by (auto simp: im)
    from skip_backward_rep [OF st'(2)] obtain st2 where
      "SkipEmptyDataBlocksBackward iops dops block_function st' = Some st2" "tl_rep st2 l (if i = 0 then length l else i - 1)"
      unfolding l [symmetric] eq by blast
    with st'(1) show ?thesis by (simp add: two_level_ops_def tl_Prev_def)
  qed
qed

lemma init_rep:
  assumes "irep it il j" "index_ok il"
  shows "tl_rep (TwoLevelIterator_init iops dops it) (entries il) (length (entries il))"
proof -
  have "tl_end (TwoLevelIterator_init iops dops it) il"
    using assms index.w_Set_rep [OF assms(1)] by (auto simp: tl_end_def TwoLevelIterator_init_def w_data_None)
  then show ?thesis by (auto simp: tl_rep_def)
qed

end

end
