(* ===== verification/Table.thy ===== *)
theory Table imports TableFile TwoLevel begin

text \<open>
  \<^verbatim>\<open>include/leveldb/table.h\<close> and \<^verbatim>\<open>table/table.cc\<close>: opening a table, its iterator, lookups
  and approximate offsets. \<open>read_block\<close> is \<open>ReadBlock\<close> of the table's file and of the
  compressor, as a function of the option \<open>verify_checksums\<close> and the handle. The block cache is
  the function that looks up a block, or \<open>None\<close> without a cache; \<open>BlockReader\<close> returns what it
  inserts into the cache beside the iterator.
\<close>

section \<open>Tables\<close>

record table =
  t_options :: options
  t_cache_id :: uint64
  t_filter :: "filter_reader option"
  t_metaindex_handle :: block_handle
  t_index_block :: block

type_synonym read_block = "bool \<Rightarrow> block_handle \<Rightarrow> status + block_contents"

definition ReadFilter :: "read_block \<Rightarrow> table \<Rightarrow> bytes \<Rightarrow> table" where
  "ReadFilter read_block t filter_handle_value =
     (case BlockHandle_DecodeFrom filter_handle_value of
        Inl _ \<Rightarrow> t
      | Inr (filter_handle, _) \<Rightarrow> (case read_block (o_paranoid_checks (t_options t)) filter_handle of
            Inl _ \<Rightarrow> t
          | Inr block \<Rightarrow> t\<lparr>t_filter := Some (FilterBlockReader_make (bc_data block))\<rparr>))"

definition ReadMeta :: "read_block \<Rightarrow> table \<Rightarrow> footer \<Rightarrow> table" where
  "ReadMeta read_block t footer =
     (if o_filter_policy (t_options t) = None then t
      else case read_block (o_paranoid_checks (t_options t)) (metaindex_handle footer) of
        Inl _ \<Rightarrow> t
      | Inr contents \<Rightarrow>
          let meta = Block_make (bc_data contents);
              key = str_bytes ''filter.'' @ policy_name (t_options t)
          in case op_Seek (block_ops bytewise_Compare) (Block_NewIterator meta) key of
               None \<Rightarrow> t
             | Some iter \<Rightarrow>
                 if op_Valid (block_ops bytewise_Compare) iter \<and> op_key (block_ops bytewise_Compare) iter = key
                 then ReadFilter read_block t (op_value (block_ops bytewise_Compare) iter) else t)"

definition Table_Open ::
  "(nat \<Rightarrow> nat \<Rightarrow> status \<times> bytes) \<Rightarrow> read_block \<Rightarrow> options \<Rightarrow> nat \<Rightarrow> uint64 \<Rightarrow> status + table" where
  "Table_Open pread read_block opt sz cache_id =
     (if sz < kEncodedLength then Inl (Corruption ''file is too short to be an sstable'')
      else let (s, footer_input) = pread (sz - kEncodedLength) kEncodedLength in
        if \<not> ok s then Inl s
        else case Footer_DecodeFrom footer_input of
            Inl s \<Rightarrow> Inl s
          | Inr (footer, _) \<Rightarrow> (case read_block (o_paranoid_checks opt) (index_handle footer) of
                Inl s \<Rightarrow> Inl s
              | Inr contents \<Rightarrow>
                  let t = \<lparr>t_options = opt, t_cache_id = cache_id, t_filter = None,
                           t_metaindex_handle = metaindex_handle footer, t_index_block = Block_make (bc_data contents)\<rparr>
                  in Inr (ReadMeta read_block t footer)))"

definition cache_key :: "table \<Rightarrow> block_handle \<Rightarrow> bytes" where
  "cache_key t handle = EncodeFixed64 (t_cache_id t) @ EncodeFixed64 (bh_offset handle)"

definition BlockReader ::
  "read_block \<Rightarrow> (bytes \<Rightarrow> block option) option \<Rightarrow> table \<Rightarrow> bool \<Rightarrow> bool \<Rightarrow> bytes
    \<Rightarrow> block_iterator \<times> (bytes \<times> block) option" where
  "BlockReader read_block block_cache t verify_checksums fill_cache index_value =
     (case BlockHandle_DecodeFrom index_value of
        Inl s \<Rightarrow> (NoBlock (NewErrorIterator s), None)
      | Inr (handle, _) \<Rightarrow> (case block_cache of
            Some lookup \<Rightarrow>
              let key = cache_key t handle in
              (case lookup key of
                 Some block \<Rightarrow> (Block_NewIterator block, None)
               | None \<Rightarrow> (case read_block verify_checksums handle of
                     Inl s \<Rightarrow> (NoBlock (NewErrorIterator s), None)
                   | Inr contents \<Rightarrow>
                       let block = Block_make (bc_data contents)
                       in (Block_NewIterator block,
                           if bc_cachable contents \<and> fill_cache then Some (key, block) else None)))
          | None \<Rightarrow> (case read_block verify_checksums handle of
                Inl s \<Rightarrow> (NoBlock (NewErrorIterator s), None)
              | Inr contents \<Rightarrow> (Block_NewIterator (Block_make (bc_data contents)), None))))"

definition table_ops ::
  "read_block \<Rightarrow> (bytes \<Rightarrow> block option) option \<Rightarrow> table \<Rightarrow> bool \<Rightarrow> bool
    \<Rightarrow> (block_iterator, block_iterator) two_level iter_ops" where
  "table_ops read_block block_cache t verify_checksums fill_cache =
     two_level_ops (block_ops (o_compare (t_options t))) (block_ops (o_compare (t_options t)))
       (\<lambda>h. fst (BlockReader read_block block_cache t verify_checksums fill_cache h))"

definition Table_NewIterator :: "table \<Rightarrow> (block_iterator, block_iterator) two_level" where
  "Table_NewIterator t =
     TwoLevelIterator_init (block_ops (o_compare (t_options t))) (block_ops (o_compare (t_options t)))
       (Block_NewIterator (t_index_block t))"

text \<open>\<open>InternalGet\<close> returns its status and the arguments of the call of \<open>saver\<close>, if there is one.\<close>

definition InternalGet ::
  "read_block \<Rightarrow> (bytes \<Rightarrow> block option) option \<Rightarrow> table \<Rightarrow> bool \<Rightarrow> bool \<Rightarrow> bytes
    \<Rightarrow> (status \<times> (bytes \<times> bytes) option) option" where
  "InternalGet read_block block_cache t verify_checksums fill_cache k =
     (let ops = block_ops (o_compare (t_options t)) in
      do { iiter \<leftarrow> op_Seek ops (Block_NewIterator (t_index_block t)) k;
           if op_Valid ops iiter
           then let handle_value = op_value ops iiter in
             if (case t_filter t of
                   None \<Rightarrow> False
                 | Some fr \<Rightarrow> (case BlockHandle_DecodeFrom handle_value of
                       Inl _ \<Rightarrow> False
                     | Inr (handle, _) \<Rightarrow> \<not> FilterBlock_KeyMayMatch (policy_match (t_options t)) fr (bh_offset handle) k))
             then Some (op_status ops iiter, None)
             else do { block_iter \<leftarrow> op_Seek ops (fst (BlockReader read_block block_cache t verify_checksums fill_cache handle_value)) k;
                       let saved = (if op_Valid ops block_iter then Some (op_key ops block_iter, op_value ops block_iter) else None);
                           s = op_status ops block_iter
                       in Some (if ok s then op_status ops iiter else s, saved) }
           else Some (op_status ops iiter, None) })"

definition ApproximateOffsetOf :: "table \<Rightarrow> bytes \<Rightarrow> uint64 option" where
  "ApproximateOffsetOf t key =
     (let ops = block_ops (o_compare (t_options t)) in
      do { index_iter \<leftarrow> op_Seek ops (Block_NewIterator (t_index_block t)) key;
           Some (if op_Valid ops index_iter
                 then case BlockHandle_DecodeFrom (op_value ops index_iter) of
                     Inr (handle, _) \<Rightarrow> bh_offset handle
                   | Inl _ \<Rightarrow> bh_offset (t_metaindex_handle t)
                 else bh_offset (t_metaindex_handle t)) })"

section \<open>Reading a table that was built\<close>

text \<open>
  \<open>C\<close> is the file of a finished table that holds the entries \<open>l\<close>. The bound on the sizes keeps
  every block below 2^32 bytes. A cache holds under a key only the block the handle stands for.
\<close>

locale table_reader =
  table_writer fappend fflush contents good opt kvalid snappy_compress snappy_length snappy_uncompress
  for fappend :: "'f \<Rightarrow> bytes \<Rightarrow> status \<times> 'f" and fflush contents good
    and opt :: options and kvalid snappy_compress snappy_length snappy_uncompress +
  fixes C :: bytes and l :: "(bytes \<times> bytes) list"
    and pread :: "nat \<Rightarrow> nat \<Rightarrow> status \<times> bytes" and in_buf :: bool
  assumes file_size: "length C < 2 ^ 64"
    and fits: "100 + length (policy_name opt) + entries_size l < 2 ^ 32"
    and pread_ok: "off \<le> length C \<Longrightarrow> pread off n = (OK, take n (drop off C))"
    and sorted_entries: "cmp_sorted (o_compare opt) l"
    and entry_keys: "(k, v) \<in> set l \<Longrightarrow> kvalid k"
    and C_table: "table_file C l"
begin

definition rd :: read_block where
  "rd = ReadBlock snappy_length snappy_uncompress pread in_buf"

lemma rd_stored: "stored C h raw \<Longrightarrow> \<exists>bc. rd verify h = Inr bc \<and> bc_data bc = raw"
  unfolding rd_def using snappy.ReadBlock_stored [OF _ file_size pread_ok] by blast

lemma bc: "block_comparator cmp kvalid"
  by (rule block_comparator.intro) (rule kcmp.comparator_axioms)

end

sublocale table_reader \<subseteq> blkc: block_comparator cmp kvalid
  by (rule bc)

context table_reader
begin

lemma entries_size_block_image:
  assumes "8 + sum_list (map (\<lambda>(k, v). 19 + length k + length v) es) < 2 ^ 32"
  shows "length (block_image n es) < 2 ^ 32"
  using assms build_block_size [of n es] by (simp add: block_image_def)

lemma block_rep_image:
  assumes "1 \<le> n" "cmp_sorted cmp es" "\<forall>(k, v) \<in> set es. kvalid k"
    and size: "8 + sum_list (map (\<lambda>(k, v). 19 + length k + length v) es) < 2 ^ 32"
  shows "blkc.block_rep (Block_NewIterator (Block_make (block_image n es))) es (length es)"
  unfolding block_image_def
proof (rule blkc.built_block_rep [OF assms(1-3)])
  show "length (snd (BlockBuilder_Finish (build_block n es))) < 2 ^ 32"
    using entries_size_block_image [OF size] by (simp add: block_image_def)
  show "\<forall>(k, v) \<in> set es. length k < 2 ^ 32 \<and> length v < 2 ^ 32"
  proof clarify
    fix k v
    assume "(k, v) \<in> set es"
    then have "19 + length k + length v \<le> sum_list (map (\<lambda>(k, v). 19 + length k + length v) es)"
      using member_le_sum_list [of "19 + length k + length v" "map (\<lambda>(k, v). 19 + length k + length v) es"] by force
    with size show "length k < 2 ^ 32 \<and> length v < 2 ^ 32" by simp
  qed
qed

text \<open>The pieces of the file, as \<open>table_file\<close> says they exist.\<close>

definition layout :: "bytes list \<Rightarrow> ((bytes \<times> bytes) list \<times> block_handle) list \<Rightarrow> block_handle \<Rightarrow> block_handle
    \<Rightarrow> block_handle \<Rightarrow> nat \<Rightarrow> bool" where
  "layout seps bs hf hm hi off \<longleftrightarrow>
     (\<exists>pre. C = pre @ Footer_EncodeTo \<lparr>metaindex_handle = hm, index_handle = hi\<rparr> []) \<and>
     all_entries bs [] = l \<and> length seps = length bs \<and> seps_ok seps bs [] \<and>
     (\<forall>(es, h) \<in> set bs. es \<noteq> [] \<and> stored C h (img es)) \<and>
     (\<exists>ps. offsets_ok C bs ps \<and> (\<forall>p \<in> set ps. p < off) \<and> off \<le> length C) \<and>
     stored C hi (block_image 1 (index_entries seps bs)) \<and> stored C hm (img (meta_entries hf)) \<and>
     (o_filter_policy opt \<noteq> None \<longrightarrow>
       filter_stored C hf (fb_Finish (policy_create opt)
         (fb_build (policy_create opt) (map (\<lambda>(es, h). (bh_offset h, map fst es)) bs @ [(of_nat off, [])]))))"

lemma layout_exists: "\<exists>seps bs hf hm hi off. layout seps bs hf hm hi off"
  using C_table unfolding table_file_def layout_def by blast

definition blk :: "((bytes \<times> bytes) list \<times> block_handle) list \<Rightarrow> bytes \<Rightarrow> (bytes \<times> bytes) list" where
  "blk bs h = (case map_of (map (\<lambda>(es, h). (BlockHandle_EncodeTo h [], es)) bs) h of None \<Rightarrow> [] | Some es \<Rightarrow> es)"

lemma BlockHandle_EncodeTo_inj: "BlockHandle_EncodeTo h [] = BlockHandle_EncodeTo h' [] \<Longrightarrow> h = h'"
  by (drule arg_cong [where f = BlockHandle_DecodeFrom]) simp

lemma block_offset:
  assumes "layout seps bs hf hm hi off" "j < length bs"
  shows "\<exists>ps. offsets_ok C bs ps \<and> length ps = length bs \<and> unat (bh_offset (snd (bs ! j))) = ps ! j \<and> ps ! j < off"
proof -
  obtain ps where ps: "offsets_ok C bs ps" "\<forall>p \<in> set ps. p < off" using assms(1) by (auto simp: layout_def)
  then have eq: "map (bh_offset \<circ> snd) bs = map of_nat ps" and lt: "\<forall>p \<in> set ps. p < length C"
    unfolding offsets_ok_def by blast+
  from arg_cong [OF eq, of length] have len: "length ps = length bs" by simp
  have o: "bh_offset (snd (bs ! j)) = of_nat (ps ! j)"
    using arg_cong [OF eq, of "\<lambda>xs. xs ! j"] assms(2) len by simp
  have j: "ps ! j < length C" "ps ! j < off" using lt ps(2) assms(2) len by simp_all
  have "unat (of_nat (ps ! j) :: uint64) = ps ! j"
    using j(1) file_size by (intro unat_of_nat_64) (rule less_trans)
  then have "unat (bh_offset (snd (bs ! j))) = ps ! j" unfolding o .
  with ps(1) len j(2) show ?thesis by blast
qed

lemma handles_distinct:
  assumes lay: "layout seps bs hf hm hi off"
  shows "distinct (map (\<lambda>(es, h). BlockHandle_EncodeTo h []) bs)"
proof -
  have "BlockHandle_EncodeTo (snd (bs ! i)) [] \<noteq> BlockHandle_EncodeTo (snd (bs ! j)) []" if ij: "i < j" "j < length bs" for i j
  proof
    assume "BlockHandle_EncodeTo (snd (bs ! i)) [] = BlockHandle_EncodeTo (snd (bs ! j)) []"
    then have same: "snd (bs ! i) = snd (bs ! j)" by (rule BlockHandle_EncodeTo_inj)
    obtain ps where ps: "offsets_ok C bs ps" "length ps = length bs" using block_offset [OF lay ij(2)] by blast
    then have eq: "map (bh_offset \<circ> snd) bs = map of_nat ps" and lt: "\<forall>p \<in> set ps. p < length C" and so: "sorted_wrt (<) ps"
      by (simp_all add: offsets_ok_def)
    have "bh_offset (snd (bs ! n)) = of_nat (ps ! n)" if "n < length bs" for n
      using arg_cong [OF eq, of "\<lambda>xs. xs ! n"] that ps(2) by simp
    from this [of i] this [of j] have "(of_nat (ps ! i) :: uint64) = of_nat (ps ! j)" using same ij by simp
    moreover have "ps ! i < length C" "ps ! j < length C" using lt ij ps(2) by simp_all
    ultimately have "ps ! i = ps ! j"
      using file_size unat_of_nat_64 [of "ps ! i"] unat_of_nat_64 [of "ps ! j"] by (metis less_trans)
    with sorted_wrt_nth_less [OF so ij(1)] ij ps(2) show False by simp
  qed
  then have ne: "i < length bs \<Longrightarrow> j < length bs \<Longrightarrow> i \<noteq> j \<Longrightarrow>
      BlockHandle_EncodeTo (snd (bs ! i)) [] \<noteq> BlockHandle_EncodeTo (snd (bs ! j)) []" for i j
    by (metis nat_neq_iff)
  show ?thesis unfolding distinct_conv_nth by (auto simp: split_beta ne)
qed

lemma blk_nth:
  assumes "layout seps bs hf hm hi off" "j < length bs"
  shows "blk bs (BlockHandle_EncodeTo (snd (bs ! j)) []) = fst (bs ! j)"
proof -
  have "distinct (map fst (map (\<lambda>(es, h). (BlockHandle_EncodeTo h [], es)) bs))"
    using handles_distinct [OF assms(1)] by (simp add: comp_def case_prod_unfold)
  moreover have "(BlockHandle_EncodeTo (snd (bs ! j)) [], fst (bs ! j)) \<in> set (map (\<lambda>(es, h). (BlockHandle_EncodeTo h [], es)) bs)"
    using assms(2) by (auto simp: split_beta in_set_conv_nth intro!: image_eqI [of _ _ "bs ! j"])
  ultimately have "map_of (map (\<lambda>(es, h). (BlockHandle_EncodeTo h [], es)) bs) (BlockHandle_EncodeTo (snd (bs ! j)) []) = Some (fst (bs ! j))"
    by (rule map_of_is_SomeI)
  then show ?thesis by (simp add: blk_def)
qed

lemma index_entries_nth:
  "length seps = length bs \<Longrightarrow> j < length bs \<Longrightarrow>
   index_entries seps bs ! j = (seps ! j, BlockHandle_EncodeTo (snd (bs ! j)) [])"
  by (simp add: index_entries_def split_beta)

lemma length_index_entries: "length seps = length bs \<Longrightarrow> length (index_entries seps bs) = length bs"
  by (simp add: index_entries_def)

lemma block_entries_fit:
  assumes "layout seps bs hf hm hi off" "j < length bs"
  shows "8 + sum_list (map (\<lambda>(k, v). 19 + length k + length v) (fst (bs ! j))) < 2 ^ 32"
proof -
  have l: "l = concat (map fst bs)" using assms(1) by (simp add: layout_def all_entries_def)
  have "entries_size (concat (map fst bs)) = entries_size (concat (map fst (take j bs @ bs ! j # drop (Suc j) bs)))"
    by (subst id_take_nth_drop [OF assms(2), symmetric]) (rule refl)
  then have "entries_size (fst (bs ! j)) \<le> entries_size l" unfolding l by (simp add: entries_size_append)
  with entries_size_19 [of "fst (bs ! j)"] fits show ?thesis by linarith
qed

section \<open>The index and the blocks\<close>

text \<open>A block cache is coherent when it holds, for the keys of this table, only what the handles stand for.\<close>

definition coherent :: "table \<Rightarrow> ((bytes \<times> bytes) list \<times> block_handle) list \<Rightarrow> (bytes \<Rightarrow> block option) option \<Rightarrow> bool" where
  "coherent t bs cache \<longleftrightarrow>
     (\<forall>lookup. cache = Some lookup \<longrightarrow> (\<forall>(es, h) \<in> set bs. \<forall>b. lookup (cache_key t h) = Some b \<longrightarrow> b = Block_make (img es)))"

lemma BlockReader_stored:
  assumes lay: "layout seps bs hf hm hi off" and coh: "coherent t bs cache" and mem: "(es, h) \<in> set bs"
  shows "fst (BlockReader rd cache t vc fc (BlockHandle_EncodeTo h [])) = Block_NewIterator (Block_make (img es))"
proof -
  have "stored C h (img es)" using lay mem by (auto simp: layout_def)
  from rd_stored [OF this] obtain bc where bc: "rd vc h = Inr bc" "bc_data bc = img es" by blast
  show ?thesis
  proof (cases cache)
    case None
    with bc show ?thesis by (simp add: BlockReader_def)
  next
    case (Some lookup)
    then have "lookup (cache_key t h) = Some b \<Longrightarrow> b = Block_make (img es)" for b
      using coh mem by (auto simp: coherent_def)
    with Some bc show ?thesis by (cases "lookup (cache_key t h)") (simp_all add: BlockReader_def Let_def)
  qed
qed

lemma sub_sorted: "cmp_sorted cmp (a @ b @ c) \<Longrightarrow> cmp_sorted cmp b"
  by (simp add: cmp_sorted_def sorted_wrt_append)

lemma block_entries:
  assumes "layout seps bs hf hm hi off" "(es, h) \<in> set bs"
  shows "cmp_sorted cmp es" "\<forall>(k, v) \<in> set es. kvalid k" "es \<noteq> []" "set es \<subseteq> set l"
proof -
  obtain xs ys where bs: "bs = xs @ (es, h) # ys" using assms(2) by (auto simp: in_set_conv_decomp)
  have l: "l = concat (map fst xs) @ es @ concat (map fst ys)" using assms(1) by (auto simp: layout_def all_entries_def bs)
  show "cmp_sorted cmp es" using sorted_entries sub_sorted unfolding l by blast
  show "\<forall>(k, v) \<in> set es. kvalid k" using entry_keys by (auto simp: l)
  show "es \<noteq> []" using assms by (auto simp: layout_def)
  show "set es \<subseteq> set l" by (auto simp: l)
qed

lemma block_iter_rep:
  assumes lay: "layout seps bs hf hm hi off" and coh: "coherent t bs cache" and j: "j < length bs"
  shows "blkc.block_rep (fst (BlockReader rd cache t vc fc (BlockHandle_EncodeTo (snd (bs ! j)) []))) (fst (bs ! j)) (length (fst (bs ! j)))"
proof -
  obtain es h where b: "bs ! j = (es, h)" by (rule prod.exhaust)
  then have mem: "(es, h) \<in> set bs" using j nth_mem by metis
  have "blkc.block_rep (Block_NewIterator (Block_make (img es))) es (length es)"
    using block_entries [OF lay mem] block_entries_fit [OF lay j] by (intro block_rep_image interval) (simp_all add: b)
  then show ?thesis using BlockReader_stored [OF lay coh mem] by (simp add: b)
qed

lemma sep_facts:
  assumes "layout seps bs hf hm hi off" "j < length bs"
  shows "separates (seps ! j) (fst (bs ! j)) (concat (map fst (drop (Suc j) bs)))"
  using assms by (simp add: layout_def seps_ok_def after_def)

lemma in_later: "i < j \<Longrightarrow> j < length bs \<Longrightarrow> e \<in> set (fst (bs ! j)) \<Longrightarrow> e \<in> set (concat (map fst (drop (Suc i) bs)))"
proof -
  assume ij: "i < j" "j < length bs" "e \<in> set (fst (bs ! j))"
  then have "drop (Suc i) bs ! (j - Suc i) = bs ! j" "j - Suc i < length (drop (Suc i) bs)" by simp_all
  then have "bs ! j \<in> set (drop (Suc i) bs)" by (metis nth_mem)
  with ij(3) show ?thesis by auto
qed

lemma sep_before: "layout seps bs hf hm hi off \<Longrightarrow> i < j \<Longrightarrow> j < length bs \<Longrightarrow> e \<in> set (fst (bs ! j)) \<Longrightarrow>
    cmp (seps ! i) (fst e) < 0"
  using sep_facts [of seps bs hf hm hi off i] in_later [of i j bs e] by (auto simp: separates_def)

lemma index_sorted:
  assumes lay: "layout seps bs hf hm hi off"
  shows "cmp_sorted cmp (index_entries seps bs)" "\<forall>(k, v) \<in> set (index_entries seps bs). kvalid k"
proof -
  have len: "length seps = length bs" using lay by (simp add: layout_def)
  have v: "kvalid (seps ! j)" if "j < length bs" for j using sep_facts [OF lay that] by (simp add: separates_def)
  have "cmp (seps ! i) (seps ! j) < 0" if ij: "i < j" "j < length bs" for i j
  proof -
    obtain es h where b: "bs ! j = (es, h)" by (rule prod.exhaust)
    then have mem: "(es, h) \<in> set bs" using ij nth_mem by metis
    then obtain e where e: "e \<in> set es" using block_entries(3) [OF lay mem] by (cases es) auto
    have "cmp (seps ! i) (fst e) < 0" using sep_before [OF lay ij] e by (simp add: b)
    moreover have "cmp (fst e) (seps ! j) \<le> 0" using sep_facts [OF lay ij(2)] e by (simp add: b separates_def)
    moreover have "kvalid (fst e)" using block_entries(2) [OF lay mem] e by (cases e) auto
    ultimately show ?thesis using kcmp.cmp_less_le_trans [of "seps ! i" "fst e" "seps ! j"] v ij by simp
  qed
  then show "cmp_sorted cmp (index_entries seps bs)"
    by (simp add: cmp_sorted_def sorted_wrt_iff_nth_less length_index_entries [OF len] index_entries_nth [OF len])
  show "\<forall>(k, v) \<in> set (index_entries seps bs). kvalid k"
  proof clarify
    fix k x
    assume "(k, x) \<in> set (index_entries seps bs)"
    then obtain j where j: "j < length bs" "index_entries seps bs ! j = (k, x)"
      by (auto simp: in_set_conv_nth length_index_entries [OF len])
    with v [OF j(1)] show "kvalid k" by (auto simp: index_entries_nth [OF len])
  qed
qed

lemma index_iter_rep:
  assumes lay: "layout seps bs hf hm hi off"
  shows "blkc.block_rep (Block_NewIterator (Block_make (block_image 1 (index_entries seps bs)))) (index_entries seps bs) (length (index_entries seps bs))"
proof (rule block_rep_image [OF le_refl index_sorted [OF lay]])
  have len: "length seps = length bs" and l: "l = concat (map fst bs)" using lay by (simp_all add: layout_def all_entries_def)
  have "\<forall>j < length seps. \<exists>e \<in> set (fst (bs ! j)). length (seps ! j) \<le> length (fst e)"
    using sep_facts [OF lay] len by (simp add: separates_def)
  from index_size [OF len this] show "8 + sum_list (map (\<lambda>(k, v). 19 + length k + length v) (index_entries seps bs)) < 2 ^ 32"
    using fits by (simp add: l)
qed

text \<open>The two-level iterator of the table, through the contract of its two iterators.\<close>

lemma table_two_level:
  assumes lay: "layout seps bs hf hm hi off" and coh: "coherent t bs cache"
  shows "two_level_iterator blkc.block_rep cmp kvalid (block_ops cmp) blkc.block_rep (block_ops cmp)
    (\<lambda>h. fst (BlockReader rd cache t vc fc h)) (\<lambda>h. h \<in> set (map (\<lambda>(es, h). BlockHandle_EncodeTo h []) bs)) (blk bs)"
proof (intro two_level_iterator.intro two_level_iterator_axioms.intro blkc.block_rep_iterator kcmp.comparator_axioms)
  fix x
  assume "x \<in> set (map (\<lambda>(es, h). BlockHandle_EncodeTo h []) bs)"
  then obtain j where j: "j < length bs" "x = BlockHandle_EncodeTo (snd (bs ! j)) []"
    by (auto simp: in_set_conv_nth split_beta)
  from block_iter_rep [OF lay coh j(1)] blk_nth [OF lay j(1)]
  show "\<exists>m. blkc.block_rep (fst (BlockReader rd cache t vc fc x)) (blk bs x) m" by (auto simp: j(2))
qed

lemma table_index_ok:
  assumes lay: "layout seps bs hf hm hi off" and coh: "coherent t bs cache"
  shows "two_level_iterator.index_ok cmp kvalid (\<lambda>h. h \<in> set (map (\<lambda>(es, h). BlockHandle_EncodeTo h []) bs)) (blk bs) (index_entries seps bs)"
    and "two_level_iterator.entries (blk bs) (index_entries seps bs) = l"
proof -
  note T = table_two_level [OF lay coh, where vc = False and fc = False]
  have len: "length seps = length bs" and l: "l = concat (map fst bs)" using lay by (simp_all add: layout_def all_entries_def)
  have "map (blk bs \<circ> snd) (index_entries seps bs) = map fst bs"
    by (rule nth_equalityI) (simp_all add: length_index_entries [OF len] index_entries_nth [OF len] blk_nth [OF lay])
  then show ent: "two_level_iterator.entries (blk bs) (index_entries seps bs) = l"
    unfolding two_level_iterator.entries_def [OF T] l by simp
  show "two_level_iterator.index_ok cmp kvalid (\<lambda>h. h \<in> set (map (\<lambda>(es, h). BlockHandle_EncodeTo h []) bs)) (blk bs) (index_entries seps bs)"
    unfolding two_level_iterator.index_ok_def [OF T] ent length_index_entries [OF len]
  proof (intro conjI allI impI sorted_entries)
    fix j
    assume j: "j < length bs"
    note nth = index_entries_nth [OF len j]
    show "snd (index_entries seps bs ! j) \<in> set (map (\<lambda>(es, h). BlockHandle_EncodeTo h []) bs)"
      using j by (auto simp: nth split_beta intro!: image_eqI [of _ _ "bs ! j"])
    show "kvalid (fst (index_entries seps bs ! j))" using sep_facts [OF lay j] by (simp add: nth separates_def)
    show "\<forall>(k, v) \<in> set (blk bs (snd (index_entries seps bs ! j))). cmp k (fst (index_entries seps bs ! j)) \<le> 0"
      using sep_facts [OF lay j] by (auto simp: nth separates_def blk_nth [OF lay j])
  next
    fix i j
    assume ij: "i < j" "j < length bs"
    then have "i < length bs" by simp
    then show "\<forall>(k, v) \<in> set (blk bs (snd (index_entries seps bs ! j))). cmp (fst (index_entries seps bs ! i)) k < 0"
      using sep_before [OF lay ij] by (auto simp: index_entries_nth [OF len] ij blk_nth [OF lay])
  qed
qed

section \<open>Opening\<close>

definition opened :: "table \<Rightarrow> bytes list \<Rightarrow> ((bytes \<times> bytes) list \<times> block_handle) list \<Rightarrow> nat \<Rightarrow> bool" where
  "opened t seps bs off \<longleftrightarrow>
     t_options t = opt \<and> t_index_block t = Block_make (block_image 1 (index_entries seps bs)) \<and>
     t_filter t = (if o_filter_policy opt = None then None
       else Some (FilterBlockReader_make (fb_Finish (policy_create opt)
         (fb_build (policy_create opt) (map (\<lambda>(es, h). (bh_offset h, map fst es)) bs @ [(of_nat off, [])])))))"

lemma read_meta_block:
  assumes "o_filter_policy opt \<noteq> None"
  shows "\<exists>it. op_Seek (block_ops bytewise_Compare) (Block_NewIterator (Block_make (img (meta_entries hf))))
      (str_bytes ''filter.'' @ policy_name opt) = Some it
    \<and> op_Valid (block_ops bytewise_Compare) it
    \<and> op_key (block_ops bytewise_Compare) it = str_bytes ''filter.'' @ policy_name opt
    \<and> op_value (block_ops bytewise_Compare) it = BlockHandle_EncodeTo hf []"
proof -
  let ?k = "str_bytes ''filter.'' @ policy_name opt" and ?v = "BlockHandle_EncodeTo hf []"
  have m: "meta_entries hf = [(?k, ?v)]" using assms by (simp add: meta_entries_def)
  have v: "length ?v \<le> 20" using length_BlockHandle_EncodeTo [of hf] by (simp add: kMaxEncodedLength_def)
  have k: "length ?k = 7 + length (policy_name opt)" by (simp add: str_bytes_def)
  have "8 + sum_list (map (\<lambda>(k, v). 19 + length k + length v) [(?k, ?v)]) < 2 ^ 32"
    using fits v k by simp
  then have "length (snd (BlockBuilder_Finish (build_block (o_block_restart_interval opt) [(?k, ?v)]))) < 2 ^ 32"
    by (rule entries_size_block_image [unfolded block_image_def])
  moreover have "length ?k < 2 ^ 32 \<and> length ?v < 2 ^ 32" using fits v k by simp
  ultimately have "bytewise_block.block_rep (Block_NewIterator (Block_make (img [(?k, ?v)]))) [(?k, ?v)] 1"
    using bytewise_block.built_block_rep [OF interval, of "[(?k, ?v)]"]
    by (simp add: block_image_def cmp_sorted_def)
  from bytewise_block.blk.seek_rep [OF this, of ?k] obtain it where
    it: "op_Seek (block_ops bytewise_Compare) (Block_NewIterator (Block_make (img [(?k, ?v)]))) ?k = Some it"
    "bytewise_block.block_rep it [(?k, ?v)] (lower_bound bytewise_Compare [(?k, ?v)] ?k)" by auto
  have "lower_bound bytewise_Compare [(?k, ?v)] ?k = 0"
    using bytewise.cmp_irrefl [of ?k] by (simp add: lower_bound_def)
  with it bytewise_block.blk.valid_iff [OF it(2)] bytewise_block.blk.key_eq [OF it(2)] bytewise_block.blk.value_eq [OF it(2)]
  show ?thesis by (simp add: m)
qed

lemma Table_Open_ok:
  assumes lay: "layout seps bs hf hm hi off"
  shows "\<exists>t. Table_Open pread rd opt (length C) cache_id = Inr t \<and> opened t seps bs off \<and> t_cache_id t = cache_id
    \<and> t_metaindex_handle t = hm"
proof -
  let ?f = "\<lparr>metaindex_handle = hm, index_handle = hi\<rparr>"
  obtain pre where C: "C = pre @ Footer_EncodeTo ?f []" using lay by (auto simp: layout_def)
  have len: "length C = length pre + kEncodedLength" by (simp add: C length_Footer_EncodeTo)
  have "take kEncodedLength (drop (length pre) C) = Footer_EncodeTo ?f []"
    by (simp add: C length_Footer_EncodeTo)
  then have rdf: "pread (length C - kEncodedLength) kEncodedLength = (OK, Footer_EncodeTo ?f [])"
    using pread_ok [of "length pre" kEncodedLength] len by (simp add: length_Footer_EncodeTo)
  have foot: "Footer_DecodeFrom (Footer_EncodeTo ?f []) = Inr (?f, [])" using Footer_decode_encode [of ?f "[]"] by simp
  have "stored C hi (block_image 1 (index_entries seps bs))" using lay by (simp add: layout_def)
  from rd_stored [OF this] obtain bi where bi: "rd (o_paranoid_checks opt) hi = Inr bi" "bc_data bi = block_image 1 (index_entries seps bs)" by blast
  define t where "t = \<lparr>t_options = opt, t_cache_id = cache_id, t_filter = None, t_metaindex_handle = hm,
      t_index_block = Block_make (block_image 1 (index_entries seps bs))\<rparr>"
  have op: "Table_Open pread rd opt (length C) cache_id = Inr (ReadMeta rd t ?f)"
    using rdf foot bi len by (simp add: Table_Open_def Let_def ok_def t_def)
  show ?thesis
  proof (cases "o_filter_policy opt = None")
    case True
    then have "ReadMeta rd t ?f = t" by (simp add: ReadMeta_def t_def)
    with op True show ?thesis by (simp add: opened_def t_def)
  next
    case False
    let ?fb = "fb_Finish (policy_create opt)
         (fb_build (policy_create opt) (map (\<lambda>(es, h). (bh_offset h, map fst es)) bs @ [(of_nat off, [])]))"
    have "stored C hm (img (meta_entries hf))" "stored C hf ?fb" using lay False by (simp_all add: layout_def filter_stored_def)
    then obtain bm bf where bm: "rd (o_paranoid_checks opt) hm = Inr bm" "bc_data bm = img (meta_entries hf)"
      and bf: "rd (o_paranoid_checks opt) hf = Inr bf" "bc_data bf = ?fb"
      using rd_stored by meson
    obtain it where it: "op_Seek (block_ops bytewise_Compare) (Block_NewIterator (Block_make (img (meta_entries hf))))
      (str_bytes ''filter.'' @ policy_name opt) = Some it" "op_Valid (block_ops bytewise_Compare) it"
      "op_key (block_ops bytewise_Compare) it = str_bytes ''filter.'' @ policy_name opt"
      "op_value (block_ops bytewise_Compare) it = BlockHandle_EncodeTo hf []"
      using read_meta_block [OF False] by blast
    have "ReadMeta rd t ?f = t\<lparr>t_filter := Some (FilterBlockReader_make ?fb)\<rparr>"
      using False bm bf it by (simp add: ReadMeta_def ReadFilter_def t_def Let_def)
    with op False show ?thesis by (simp add: opened_def t_def)
  qed
qed

text \<open>The iterator of an opened table ranges over its entries.\<close>

lemma Table_iterator:
  assumes lay: "layout seps bs hf hm hi off" and op: "opened t seps bs off" and coh: "coherent t bs cache"
  shows "\<exists>rep. iterator rep cmp kvalid (table_ops rd cache t vc fc) \<and> rep (Table_NewIterator t) l (length l)"
proof -
  note T = table_two_level [OF lay coh, where vc = vc and fc = fc]
  note I = two_level_iterator.two_level_rep_iterator [OF T]
  note R = two_level_iterator.init_rep [OF T index_iter_rep [OF lay] table_index_ok(1) [OF lay coh]]
  from R have "two_level_iterator.tl_rep blkc.block_rep cmp kvalid (block_ops cmp) blkc.block_rep (block_ops cmp)
      (\<lambda>h. h \<in> set (map (\<lambda>(es, h). BlockHandle_EncodeTo h []) bs)) (blk bs) (Table_NewIterator t) l (length l)"
    using op table_index_ok(2) [OF lay coh] by (simp add: Table_NewIterator_def opened_def)
  with I op show ?thesis by (auto simp: table_ops_def opened_def)
qed

end

end
