(* ===== verification/TableProps.thy ===== *)
theory TableProps imports Table MemFile begin

text \<open>
  Lookups in a table that was built, the instance of the tables for in-memory files and the
  default options, and the properties of the tables.
\<close>

section \<open>Lookups\<close>

context table_reader
begin

definition filtered :: "table \<Rightarrow> block_handle \<Rightarrow> bytes \<Rightarrow> bool" where
  "filtered t h k \<longleftrightarrow>
     (case t_filter t of None \<Rightarrow> False | Some fr \<Rightarrow> \<not> FilterBlock_KeyMayMatch (policy_match opt) fr (bh_offset h) k)"

lemma InternalGet_result:
  assumes lay: "layout seps bs hf hm hi off" and op: "opened t seps bs off" and coh: "coherent t bs cache" and k: "kvalid k"
  defines "j \<equiv> lower_bound cmp (index_entries seps bs) k"
  defines "m \<equiv> lower_bound cmp (fst (bs ! j)) k"
  shows "InternalGet rd cache t vc fc k = Some (OK,
    if j < length bs \<and> \<not> filtered t (snd (bs ! j)) k \<and> m < length (fst (bs ! j)) then Some (fst (bs ! j) ! m) else None)"
proof -
  let ?il = "index_entries seps bs"
  have len: "length seps = length bs" using lay by (simp add: layout_def)
  have o: "t_options t = opt" "t_index_block t = Block_make (block_image 1 ?il)" using op by (simp_all add: opened_def)
  obtain ii where ii: "op_Seek (block_ops cmp) (Block_NewIterator (Block_make (block_image 1 ?il))) k = Some ii"
    "blkc.block_rep ii ?il j"
    using blkc.blk.seek_rep [OF index_iter_rep [OF lay] k] by (auto simp: j_def)
  note iv = blkc.blk.valid_iff [OF ii(2)] and ist = blkc.blk.status_ok [OF ii(2)]
  show ?thesis
  proof (cases "j < length bs")
    case False
    with iv ist ii(1) show ?thesis by (simp add: InternalGet_def o Let_def length_index_entries [OF len])
  next
    case True
    then have j: "j < length ?il" by (simp add: length_index_entries [OF len])
    have val: "op_value (block_ops cmp) ii = BlockHandle_EncodeTo (snd (bs ! j)) []"
      using blkc.blk.value_eq [OF ii(2) j] index_entries_nth [OF len True] by simp
    note rep = block_iter_rep [OF lay coh True, where vc = vc and fc = fc]
    obtain bi where bi: "op_Seek (block_ops cmp) (fst (BlockReader rd cache t vc fc (BlockHandle_EncodeTo (snd (bs ! j)) []))) k = Some bi"
      "blkc.block_rep bi (fst (bs ! j)) m"
      using blkc.blk.seek_rep [OF rep k] by (auto simp: m_def)
    note bv = blkc.blk.valid_iff [OF bi(2)] and bst = blkc.blk.status_ok [OF bi(2)]
      and be = blkc.blk.entry_eq [OF bi(2)]
    show ?thesis
      using True j iv ist bv bst be bi(1) ii(1)
      by (auto simp: InternalGet_def o Let_def val filtered_def ok_def split: option.split)
  qed
qed

text \<open>A block in whose filter the key is cannot be skipped.\<close>

lemma not_filtered:
  assumes lay: "layout seps bs hf hm hi off" and op: "opened t seps bs off" and small: "length C < 2 ^ 32"
    and pol: "filter_policy (policy_create opt) (policy_match opt)"
    and j: "j < length bs" and k: "k \<in> fst ` set (fst (bs ! j))"
  shows "\<not> filtered t (snd (bs ! j)) k"
proof (cases "o_filter_policy opt = None")
  case True
  with op show ?thesis by (simp add: filtered_def opened_def)
next
  case False
  let ?calls = "map (\<lambda>(es, h). (bh_offset h, map fst es)) bs @ [(of_nat off :: uint64, [])]"
  let ?fb = "fb_Finish (policy_create opt) (fb_build (policy_create opt) ?calls)"
  obtain ps where ps: "offsets_ok C bs ps" "\<forall>p \<in> set ps. p < off" "off \<le> length C" using lay by (auto simp: layout_def)
  then have eq: "map (bh_offset \<circ> snd) bs = map of_nat ps" and so: "sorted_wrt (<) ps" unfolding offsets_ok_def by blast+
  have u: "p \<le> off \<Longrightarrow> unat (of_nat p :: uint64) = p" for p using ps(3) file_size by (intro unat_of_nat_64) simp
  have "map fst ?calls = map of_nat (ps @ [off])" using eq by (simp add: comp_def case_prod_unfold)
  moreover have "sorted (map (of_nat :: nat \<Rightarrow> uint64) (ps @ [off]))"
    unfolding sorted_map
  proof (rule sorted_wrt_mono_rel [of _ "(<)"])
    show "sorted_wrt (<) (ps @ [off])" using so ps(2) by (simp add: sorted_wrt_append)
    fix x y
    assume "x \<in> set (ps @ [off])" "y \<in> set (ps @ [off])" "x < y"
    then show "of_nat x \<le> (of_nat y :: uint64)" using ps(2) u by (auto simp: word_le_nat_alt)
  qed
  ultimately have sorted: "sorted (map fst ?calls)" by simp
  have mem: "(bh_offset (snd (bs ! j)), map fst (fst (bs ! j))) \<in> set ?calls"
    using j by (auto simp: split_beta intro!: image_eqI [of _ _ "bs ! j"])
  have "filter_stored C hf ?fb" using lay False by (simp add: layout_def)
  then have "length ?fb < 2 ^ 32" using small by (simp add: filter_stored_def)
  from filter_policy.block_key_not_missed [OF pol sorted mem _ this, of k] k
  have "FilterBlock_KeyMayMatch (policy_match opt) (FilterBlockReader_make ?fb) (bh_offset (snd (bs ! j))) k" by auto
  with op False show ?thesis by (simp add: filtered_def opened_def)
qed

lemma index_position:
  assumes lay: "layout seps bs hf hm hi off" and j: "j < length bs" and e: "e \<in> set (fst (bs ! j))"
  shows "lower_bound cmp (index_entries seps bs) (fst e) = j"
proof -
  have len: "length seps = length bs" using lay by (simp add: layout_def)
  have "kvalid (seps ! j)" "cmp (fst e) (seps ! j) \<le> 0" using sep_facts [OF lay j] e by (simp_all add: separates_def)
  moreover have "kvalid (fst e)"
    using block_entries(2) [OF lay, of "fst (bs ! j)" "snd (bs ! j)"] j e by (cases e) auto
  ultimately have "\<not> cmp (seps ! j) (fst e) < 0" using kcmp.cmp_le_iff [of "fst e" "seps ! j"] by simp
  then show ?thesis
    using j sep_before [OF lay _ j e]
    by (intro lower_bound_unique [symmetric]) (simp_all add: length_index_entries [OF len] index_entries_nth [OF len])
qed

lemma InternalGet_finds:
  assumes lay: "layout seps bs hf hm hi off" and op: "opened t seps bs off" and coh: "coherent t bs cache"
    and small: "length C < 2 ^ 32" and pol: "filter_policy (policy_create opt) (policy_match opt)" and kv: "(k, v) \<in> set l"
  shows "InternalGet rd cache t vc fc k = Some (OK, Some (k, v))"
proof -
  have "l = concat (map fst bs)" using lay by (simp add: layout_def all_entries_def)
  then obtain b where "b \<in> set bs" "(k, v) \<in> set (fst b)" using kv by auto
  then obtain j where j: "j < length bs" and e: "(k, v) \<in> set (fst (bs ! j))" by (metis in_set_conv_nth)
  let ?es = "fst (bs ! j)"
  obtain m where m: "m < length ?es" "?es ! m = (k, v)" using e by (auto simp: in_set_conv_nth)
  have k: "kvalid k" using entry_keys kv by blast
  have jj: "lower_bound cmp (index_entries seps bs) k = j" using index_position [OF lay j e] by simp
  have srt: "cmp_sorted cmp ?es" using block_entries(1) [OF lay, of ?es "snd (bs ! j)"] j by simp
  have "lower_bound cmp ?es k = m"
  proof (rule lower_bound_unique [symmetric])
    show "m \<le> length ?es" using m by simp
    show "cmp (fst (?es ! i)) k < 0" if "i < m" for i
      using srt that m sorted_wrt_nth_less [of "\<lambda>a b. cmp (fst a) (fst b) < 0" ?es i m] by (simp add: cmp_sorted_def)
    show "\<not> cmp (fst (?es ! m)) k < 0" using m kcmp.cmp_irrefl [OF k] by simp
  qed
  moreover have "\<not> filtered t (snd (bs ! j)) k" using e by (intro not_filtered [OF lay op small pol j]) force
  ultimately show ?thesis using InternalGet_result [OF lay op coh k, of vc fc] jj j m by simp
qed

lemma InternalGet_sound:
  assumes lay: "layout seps bs hf hm hi off" and op: "opened t seps bs off" and coh: "coherent t bs cache" and k: "kvalid k"
  shows "\<exists>r. InternalGet rd cache t vc fc k = Some (OK, r) \<and> (\<forall>k' v. r = Some (k', v) \<longrightarrow> (k', v) \<in> set l \<and> \<not> cmp k' k < 0)"
proof -
  let ?j = "lower_bound cmp (index_entries seps bs) k"
  let ?m = "lower_bound cmp (fst (bs ! ?j)) k"
  have "e \<in> set l \<and> \<not> cmp (fst e) k < 0" if "?j < length bs" "?m < length (fst (bs ! ?j))" "e = fst (bs ! ?j) ! ?m" for e
  proof -
    have "e \<in> set (fst (bs ! ?j))" using that nth_mem by blast
    moreover have "(fst (bs ! ?j), snd (bs ! ?j)) \<in> set bs" using that nth_mem by simp
    ultimately have "e \<in> set l" using block_entries(4) [OF lay] by blast
    with lower_bound_at [OF that(2)] that(3) show ?thesis by simp
  qed
  then show ?thesis using InternalGet_result [OF lay op coh k, of vc fc] by (auto split: if_splits)
qed

end

section \<open>The interface of a cache and of a file, without the locales\<close>

text \<open>What the blocks in a cache must be, and what reading the file returns.\<close>

definition cache_ok :: "read_block \<Rightarrow> (bytes \<Rightarrow> block option) option \<Rightarrow> table \<Rightarrow> bool" where
  "cache_ok read_block cache t \<longleftrightarrow>
     (\<forall>lookup h b. cache = Some lookup \<longrightarrow> lookup (cache_key t h) = Some b \<longrightarrow>
        (\<exists>vc contents. read_block vc h = Inr contents \<and> b = Block_make (bc_data contents)))"

definition reads_file :: "(nat \<Rightarrow> nat \<Rightarrow> status \<times> bytes) \<Rightarrow> bytes \<Rightarrow> bool" where
  "reads_file pread C \<longleftrightarrow> (\<forall>off n. off \<le> length C \<longrightarrow> pread off n = (OK, take n (drop off C)))"

context table_reader
begin

lemma coherent_cache_ok:
  assumes lay: "layout seps bs hf hm hi off" and c: "cache_ok rd cache t"
  shows "coherent t bs cache"
  unfolding coherent_def
proof clarify
  fix lookup es h b
  assume "cache = Some lookup" and mem: "(es, h) \<in> set bs" and b: "lookup (cache_key t h) = Some b"
  then obtain vc bc where bc: "rd vc h = Inr bc" "b = Block_make (bc_data bc)" using c unfolding cache_ok_def by blast
  have "stored C h (img es)" using lay mem by (auto simp: layout_def)
  with rd_stored [of h "img es" vc] bc show "b = Block_make (img es)" by auto
qed

lemma reads_back:
  "\<exists>t. Table_Open pread rd opt (length C) cache_id = Inr t \<and>
     (\<forall>cache vc fc n target. cache_ok rd cache t \<longrightarrow> kvalid target \<longrightarrow>
        read_forward (table_ops rd cache t vc fc) (length l + n) (Table_NewIterator t) = Some l \<and>
        read_backward (table_ops rd cache t vc fc) (length l + n) (Table_NewIterator t) = Some (rev l) \<and>
        read_from (table_ops rd cache t vc fc) target (length l + n) (Table_NewIterator t) =
          Some (filter (\<lambda>(k, v). cmp k target \<ge> 0) l))"
proof -
  obtain seps bs hf hm hi off where lay: "layout seps bs hf hm hi off" using layout_exists by blast
  obtain t where t: "Table_Open pread rd opt (length C) cache_id = Inr t" "opened t seps bs off"
    using Table_Open_ok [OF lay] by blast
  have keys: "\<forall>(k, v) \<in> set l. kvalid k" using entry_keys by blast
  show ?thesis
  proof (intro exI [of _ t] conjI t(1) allI impI)
    fix cache vc fc n target
    assume c: "cache_ok rd cache t" and tg: "kvalid target"
    obtain rep where rep: "iterator rep cmp kvalid (table_ops rd cache t vc fc)" "rep (Table_NewIterator t) l (length l)"
      using Table_iterator [OF lay t(2) coherent_cache_ok [OF lay c]] by blast
    show "read_forward (table_ops rd cache t vc fc) (length l + n) (Table_NewIterator t) = Some l"
      by (rule iterator.read_forward_all [OF rep])
    show "read_backward (table_ops rd cache t vc fc) (length l + n) (Table_NewIterator t) = Some (rev l)"
      by (rule iterator.read_backward_all [OF rep])
    show "read_from (table_ops rd cache t vc fc) target (length l + n) (Table_NewIterator t) =
          Some (filter (\<lambda>(k, v). cmp k target \<ge> 0) l)"
      using iterator.read_from_lower_bound [OF rep tg] kcmp.drop_lower_bound [OF sorted_entries keys tg] by simp
  qed
qed

lemma gets:
  assumes small: "length C < 2 ^ 32" and pol: "filter_policy (policy_create opt) (policy_match opt)"
  shows "\<exists>t. Table_Open pread rd opt (length C) cache_id = Inr t \<and>
     (\<forall>cache vc fc k. cache_ok rd cache t \<longrightarrow> kvalid k \<longrightarrow>
        (\<exists>r. InternalGet rd cache t vc fc k = Some (OK, r) \<and> (\<forall>v. (k, v) \<in> set l \<longrightarrow> r = Some (k, v)) \<and>
           (\<forall>k' v. r = Some (k', v) \<longrightarrow> (k', v) \<in> set l \<and> \<not> cmp k' k < 0)))"
proof -
  obtain seps bs hf hm hi off where lay: "layout seps bs hf hm hi off" using layout_exists by blast
  obtain t where t: "Table_Open pread rd opt (length C) cache_id = Inr t" "opened t seps bs off"
    using Table_Open_ok [OF lay] by blast
  show ?thesis
  proof (intro exI [of _ t] conjI t(1) allI impI)
    fix cache vc fc k
    assume c: "cache_ok rd cache t" and k: "kvalid k"
    note coh = coherent_cache_ok [OF lay c]
    obtain r where r: "InternalGet rd cache t vc fc k = Some (OK, r)"
      "\<forall>k' v. r = Some (k', v) \<longrightarrow> (k', v) \<in> set l \<and> \<not> cmp k' k < 0"
      using InternalGet_sound [OF lay t(2) coh k, of vc fc] by blast
    have "\<forall>v. (k, v) \<in> set l \<longrightarrow> r = Some (k, v)"
      using InternalGet_finds [OF lay t(2) coh small pol] r(1) by fastforce
    with r show "\<exists>r. InternalGet rd cache t vc fc k = Some (OK, r) \<and> (\<forall>v. (k, v) \<in> set l \<longrightarrow> r = Some (k, v)) \<and>
           (\<forall>k' v. r = Some (k', v) \<longrightarrow> (k', v) \<in> set l \<and> \<not> cmp k' k < 0)" by blast
  qed
qed

end

section \<open>The default options and tables in memory\<close>

definition Options_init :: options where
  "Options_init =
     \<lparr>o_comparator = 0, o_compare = bytewise_Compare, o_separator = bytewise_FindShortestSeparator,
      o_successor = bytewise_FindShortSuccessor, o_paranoid_checks = False, o_block_size = 4096,
      o_block_restart_interval = 16, o_compression = kSnappyCompression, o_filter_policy = None\<rparr>"

lemma length_short_successor_loop: "length (short_successor_loop pre key) \<le> length pre + length key"
  by (induction pre key rule: short_successor_loop.induct) auto

lemma length_bytewise_successor: "length (bytewise_FindShortSuccessor key) \<le> length key"
  using length_short_successor_loop [of "[]" key] by (simp add: bytewise_FindShortSuccessor_def)

lemma length_bytewise_separator: "length (bytewise_FindShortestSeparator start limit) \<le> length start"
  by (auto simp: bytewise_FindShortestSeparator_def Let_def)

text \<open>Without a compressor the codec's law holds, and blocks are stored as they are.\<close>

interpretation mem_table: table_writer WritableFile_Append WritableFile_Flush fs_contents fs_inv
    "Options_init\<lparr>o_filter_policy := pol\<rparr>" "\<lambda>_. True" "\<lambda>_. None" "\<lambda>_. None" "\<lambda>_ _. None" for pol
proof (intro table_writer.intro table_writer_axioms.intro compressor.intro mem_writable.writable_file_axioms)
  show "key_comparator (o_compare (Options_init\<lparr>o_filter_policy := pol\<rparr>)) (\<lambda>_. True)
      (o_separator (Options_init\<lparr>o_filter_policy := pol\<rparr>)) (o_successor (Options_init\<lparr>o_filter_policy := pol\<rparr>))"
    using bytewise.key_comparator_axioms by (simp add: Options_init_def)
qed (simp_all add: Options_init_def length_bytewise_separator length_bytewise_successor)

text \<open>The tables of the database itself hold internal keys.\<close>

definition internal_options :: options where
  "internal_options = Options_init
     \<lparr>o_comparator := 1, o_compare := InternalKey_Compare bytewise_Compare,
      o_separator := InternalKey_FindShortestSeparator bytewise_Compare bytewise_FindShortestSeparator,
      o_successor := InternalKey_FindShortSuccessor bytewise_Compare bytewise_FindShortSuccessor\<rparr>"

lemma length_internal_separator:
  "length (InternalKey_FindShortestSeparator ucmp usep start limit) \<le> length start"
  by (auto simp: InternalKey_FindShortestSeparator_def ExtractUserKey_def Let_def PutFixed64_def)

lemma length_internal_successor: "length (InternalKey_FindShortSuccessor ucmp usucc key) \<le> length key"
  by (auto simp: InternalKey_FindShortSuccessor_def ExtractUserKey_def Let_def PutFixed64_def)

interpretation mem_internal_table: table_writer WritableFile_Append WritableFile_Flush fs_contents fs_inv
    "internal_options\<lparr>o_filter_policy := pol\<rparr>" "internal_valid (\<lambda>_. True)" "\<lambda>_. None" "\<lambda>_. None" "\<lambda>_ _. None" for pol
proof (intro table_writer.intro table_writer_axioms.intro compressor.intro mem_writable.writable_file_axioms)
  show "key_comparator (o_compare (internal_options\<lparr>o_filter_policy := pol\<rparr>)) (internal_valid (\<lambda>_. True))
      (o_separator (internal_options\<lparr>o_filter_policy := pol\<rparr>)) (o_successor (internal_options\<lparr>o_filter_policy := pol\<rparr>))"
    using bytewise_internal.internal.key_comparator_axioms by (simp add: internal_options_def)
qed (simp_all add: internal_options_def Options_init_def length_internal_separator length_internal_successor)

text \<open>
  The reader on a table file in memory. \<open>table_input\<close> is the list of entries, or none when they are
  not sorted, not valid or too large.
\<close>

definition mem_table_file :: "(bytes \<times> bytes) list \<Rightarrow> file_state" where
  "mem_table_file l = tb_file (snd (TableBuilder_Finish WritableFile_Append WritableFile_Flush (\<lambda>_. None)
     (tb_add_all WritableFile_Append WritableFile_Flush (\<lambda>_. None) (TableBuilder_make internal_options FileState_init) l)))"

definition table_input :: "(bytes \<times> bytes) list \<Rightarrow> (bytes \<times> bytes) list" where
  "table_input l =
     (if cmp_sorted (InternalKey_Compare bytewise_Compare) l \<and> (\<forall>(k, v) \<in> set l. internal_valid (\<lambda>_. True) k)
         \<and> 100 + entries_size l < 2 ^ 32 then l else [])"

lemma internal_options_none: "internal_options\<lparr>o_filter_policy := None\<rparr> = internal_options"
  by (simp add: internal_options_def Options_init_def)

lemma fs_contents_init: "fs_inv FileState_init \<and> fs_contents FileState_init = []"
  by (simp add: fs_inv_def fs_contents_def FileState_init_def)

interpretation mem_reader: table_reader WritableFile_Append WritableFile_Flush fs_contents fs_inv
    internal_options "internal_valid (\<lambda>_. True)" "\<lambda>_. None" "\<lambda>_. None" "\<lambda>_ _. None"
    "fs_contents (mem_table_file (table_input l))" "table_input l"
    "RandomAccessFile_Read (mem_table_file (table_input l))" False for l
proof (intro table_reader.intro table_reader_axioms.intro)
  let ?l = "table_input l"
  show W: "table_writer WritableFile_Append WritableFile_Flush fs_contents fs_inv
    internal_options (internal_valid (\<lambda>_. True)) (\<lambda>_. None) (\<lambda>_. None) (\<lambda>_ _. None)"
    using mem_internal_table.table_writer_axioms [of None] by (simp add: internal_options_none)
  have l: "cmp_sorted (InternalKey_Compare bytewise_Compare) ?l" "\<forall>(k, v) \<in> set ?l. internal_valid (\<lambda>_. True) k"
    "100 + entries_size ?l < 2 ^ 32"
    by (auto simp: table_input_def cmp_sorted_def entries_size_def)
  have opt: "o_compare internal_options = InternalKey_Compare bytewise_Compare" "o_filter_policy internal_options = None"
    by (simp_all add: internal_options_def Options_init_def)
  obtain r where r: "TableBuilder_Finish WritableFile_Append WritableFile_Flush (\<lambda>_. None)
     (tb_add_all WritableFile_Append WritableFile_Flush (\<lambda>_. None) (TableBuilder_make internal_options FileState_init) ?l) = (OK, r)"
    "fs_inv (tb_file r)"
    "mem_internal_table.table_file None (fs_contents (tb_file r)) ?l"
    using mem_internal_table.built_table_file [where f = FileState_init and l = ?l and pol = None] fs_contents_init l(1,2)
    by (auto simp: internal_options_none opt)
  have f: "mem_table_file ?l = tb_file r" by (simp add: mem_table_file_def r(1))
  show "length (fs_contents (mem_table_file ?l)) < 2 ^ 64"
    using mem_internal_table.table_file_size [OF r(3)] l(3) by (simp add: f internal_options_none opt)
  show "100 + length (policy_name internal_options) + entries_size ?l < 2 ^ 32"
    using l(3) by (simp add: policy_name_def opt)
  show "RandomAccessFile_Read (mem_table_file ?l) off n = (OK, take n (drop off (fs_contents (mem_table_file ?l))))"
    if "off \<le> length (fs_contents (mem_table_file ?l))" for off n
  proof (cases "RandomAccessFile_Read (mem_table_file ?l) off n")
    case (Pair s data)
    with mem_random.pread_ok [of "mem_table_file ?l" off n s data] r(2) that show ?thesis by (simp add: f)
  qed
  show "cmp_sorted (o_compare internal_options) ?l" using l(1) by (simp add: opt)
  show "internal_valid (\<lambda>_. True) k" if "(k, v) \<in> set ?l" for k v using l(2) that by blast
  show "table_writer.table_file internal_options (internal_valid (\<lambda>_. True)) (\<lambda>_. None) (\<lambda>_ _. None) (fs_contents (mem_table_file ?l)) ?l"
    using r(3) by (simp add: f internal_options_none)
qed

section \<open>Properties\<close>

text \<open>From a finished build to the reader, for every file, comparator and compressor under their laws.\<close>

lemma built_reader:
  assumes W: "table_writer fappend fflush contents good opt kvalid sc sl su"
    and f: "good f" "contents f = []"
    and l: "cmp_sorted (o_compare opt) l" "\<forall>(k, v) \<in> set l. kvalid k"
    and fits: "100 + length (policy_name opt) + entries_size l < 2 ^ 32"
    and build: "TableBuilder_Finish fappend fflush sc (tb_add_all fappend fflush sc (TableBuilder_make opt f) l) = (s, r)"
    and size: "o_filter_policy opt \<noteq> None \<Longrightarrow> length (contents (tb_file r)) < 2 ^ 64"
    and rd: "reads_file pread (contents (tb_file r))"
  shows "s = OK \<and> table_reader fappend fflush contents good opt kvalid sc sl su (contents (tb_file r)) l pread"
proof -
  obtain r' where r': "TableBuilder_Finish fappend fflush sc (tb_add_all fappend fflush sc (TableBuilder_make opt f) l) = (OK, r')"
    "table_writer.table_file opt kvalid sl su (contents (tb_file r')) l"
    using table_writer.built_table_file [OF W f l] by blast
  then have eq: "s = OK" "r = r'" using build by simp_all
  have "length (contents (tb_file r)) < 2 ^ 64"
  proof (cases "o_filter_policy opt = None")
    case True
    from table_writer.table_file_size [OF W r'(2) True] fits show ?thesis by (simp add: eq)
  next
    case False
    then show ?thesis by (rule size)
  qed
  then have "table_reader fappend fflush contents good opt kvalid sc sl su (contents (tb_file r)) l pread"
    using W fits rd l r'(2)
    by (intro table_reader.intro table_reader_axioms.intro) (auto simp: reads_file_def eq)
  with eq show ?thesis by simp
qed

text \<open>A small table in memory, for the witnesses.\<close>

definition small_entries :: "(bytes \<times> bytes) list" where
  "small_entries = [([1], [2]), ([3, 4], [])]"

lemma mem_table_default:
  "table_writer WritableFile_Append WritableFile_Flush fs_contents fs_inv Options_init (\<lambda>_. True) (\<lambda>_. None) (\<lambda>_. None) (\<lambda>_ _. None)"
proof -
  have "Options_init\<lparr>o_filter_policy := None\<rparr> = Options_init" by (simp add: Options_init_def)
  then show ?thesis using mem_table.table_writer_axioms [of None] by simp
qed

lemma small_entries_ok:
  "cmp_sorted (o_compare Options_init) small_entries" "100 + length (policy_name Options_init) + entries_size small_entries < 2 ^ 32"
  "o_filter_policy Options_init = None"
  by (simp_all add: small_entries_def Options_init_def cmp_sorted_def bytewise_Compare_def policy_name_def entries_size_def)

lemma small_table:
  "\<exists>r. TableBuilder_Finish WritableFile_Append WritableFile_Flush (\<lambda>_. None)
      (tb_add_all WritableFile_Append WritableFile_Flush (\<lambda>_. None) (TableBuilder_make Options_init FileState_init) small_entries) = (OK, r)
    \<and> length (fs_contents (tb_file r)) < 2 ^ 32 \<and> reads_file (RandomAccessFile_Read (tb_file r)) (fs_contents (tb_file r))"
proof -
  note W = mem_table_default
  have init: "fs_inv FileState_init" "fs_contents FileState_init = []" using fs_contents_init by simp_all
  obtain r where r: "TableBuilder_Finish WritableFile_Append WritableFile_Flush (\<lambda>_. None)
      (tb_add_all WritableFile_Append WritableFile_Flush (\<lambda>_. None) (TableBuilder_make Options_init FileState_init) small_entries) = (OK, r)"
    "fs_inv (tb_file r)" "table_writer.table_file Options_init (\<lambda>_. True) (\<lambda>_. None) (\<lambda>_ _. None) (fs_contents (tb_file r)) small_entries"
    using table_writer.built_table_file [OF W init small_entries_ok(1)] by auto
  have "reads_file (RandomAccessFile_Read (tb_file r)) (fs_contents (tb_file r))"
    unfolding reads_file_def
  proof (intro allI impI)
    fix off n
    assume "off \<le> length (fs_contents (tb_file r))"
    with r(2) mem_random.pread_ok [of "tb_file r" off n] show "RandomAccessFile_Read (tb_file r) off n =
        (OK, take n (drop off (fs_contents (tb_file r))))"
      by (cases "RandomAccessFile_Read (tb_file r) off n") auto
  qed
  moreover have "length (fs_contents (tb_file r)) < 2 ^ 32"
    using table_writer.table_file_size [OF W r(3) small_entries_ok(3)] by (simp add: small_entries_def entries_size_def)
  ultimately show ?thesis using r(1) by blast
qed



text \<open>
  C6. A lookup in a table finds the key. On a table built as above in a file of less than 2^32
  bytes, with a filter policy that has no false negatives (the absence of a policy counts),
  \<open>InternalGet(k)\<close> returns OK for every valid key; if the table has an entry for \<open>k\<close>, the saver is
  called with that entry, filter and cache or not; and whatever the saver is called with is an
  entry of the table whose key is not less than \<open>k\<close>.
\<close>

theorem Table_InternalGet_correct:
  assumes "table_writer fappend fflush contents good opt kvalid sc sl su"
    and "good f" "contents f = []"
    and "cmp_sorted (o_compare opt) l" "\<forall>(k, v) \<in> set l. kvalid k"
    and "100 + length (policy_name opt) + entries_size l < 2 ^ 32"
    and "TableBuilder_Finish fappend fflush sc (tb_add_all fappend fflush sc (TableBuilder_make opt f) l) = (s, r)"
    and "length (contents (tb_file r)) < 2 ^ 32"
    and "reads_file pread (contents (tb_file r))"
    and "filter_policy (policy_create opt) (policy_match opt)"
  shows "\<exists>t. Table_Open pread (ReadBlock sl su pread in_buf) opt (length (contents (tb_file r))) cache_id = Inr t \<and>
     (\<forall>cache vc fc k. cache_ok (ReadBlock sl su pread in_buf) cache t \<longrightarrow> kvalid k \<longrightarrow>
        (\<exists>x. InternalGet (ReadBlock sl su pread in_buf) cache t vc fc k = Some (OK, x) \<and> (\<forall>v. (k, v) \<in> set l \<longrightarrow> x = Some (k, v)) \<and>
           (\<forall>k' v. x = Some (k', v) \<longrightarrow> (k', v) \<in> set l \<and> \<not> o_compare opt k' k < 0)))"
proof -
  have "length (contents (tb_file r)) < 2 ^ 64" using assms(8) by simp
  then have R: "table_reader fappend fflush contents good opt kvalid sc sl su (contents (tb_file r)) l pread"
    using built_reader [OF assms(1-7) _ assms(9)] by blast
  show ?thesis
    using table_reader.gets [OF R assms(8,10), where in_buf = in_buf and cache_id = cache_id]
    by (simp add: table_reader.rd_def [OF R])
qed

theorem Table_InternalGet_correct_witness:
  "\<exists>r t. TableBuilder_Finish WritableFile_Append WritableFile_Flush (\<lambda>_. None)
      (tb_add_all WritableFile_Append WritableFile_Flush (\<lambda>_. None) (TableBuilder_make Options_init FileState_init) small_entries) = (OK, r)
    \<and> Table_Open (RandomAccessFile_Read (tb_file r)) (ReadBlock (\<lambda>_. None) (\<lambda>_ _. None) (RandomAccessFile_Read (tb_file r)) False)
        Options_init (length (fs_contents (tb_file r))) 0 = Inr t
    \<and> InternalGet (ReadBlock (\<lambda>_. None) (\<lambda>_ _. None) (RandomAccessFile_Read (tb_file r)) False) None t False False [3, 4] =
        Some (OK, Some ([3, 4], []))"
proof -
  obtain r where r: "TableBuilder_Finish WritableFile_Append WritableFile_Flush (\<lambda>_. None)
      (tb_add_all WritableFile_Append WritableFile_Flush (\<lambda>_. None) (TableBuilder_make Options_init FileState_init) small_entries) = (OK, r)"
    "length (fs_contents (tb_file r)) < 2 ^ 32" "reads_file (RandomAccessFile_Read (tb_file r)) (fs_contents (tb_file r))"
    using small_table by blast
  have init: "fs_inv FileState_init" "fs_contents FileState_init = []" using fs_contents_init by simp_all
  let ?rd = "ReadBlock (\<lambda>_. None) (\<lambda>_ _. None) (RandomAccessFile_Read (tb_file r)) False"
  have pol: "filter_policy (policy_create Options_init) (policy_match Options_init)"
    by unfold_locales (simp_all add: policy_create_def policy_match_def small_entries_ok(3))
  have valid: "\<forall>(k, v) \<in> set small_entries. True" by auto
  obtain t where t: "Table_Open (RandomAccessFile_Read (tb_file r)) ?rd Options_init (length (fs_contents (tb_file r))) 0 = Inr t"
    and get: "\<forall>cache vc fc k. cache_ok ?rd cache t \<longrightarrow> True \<longrightarrow>
        (\<exists>x. InternalGet ?rd cache t vc fc k = Some (OK, x) \<and> (\<forall>v. (k, v) \<in> set small_entries \<longrightarrow> x = Some (k, v)) \<and>
          (\<forall>k' v. x = Some (k', v) \<longrightarrow> (k', v) \<in> set small_entries \<and> \<not> o_compare Options_init k' k < 0))"
    using Table_InternalGet_correct [OF mem_table_default init small_entries_ok(1) valid small_entries_ok(2) r pol, of False 0] by (elim exE conjE) (rule that)
  have "cache_ok ?rd None t" by (simp add: cache_ok_def)
  moreover have "([3, 4], []) \<in> set small_entries" by (simp add: small_entries_def)
  ultimately have "InternalGet ?rd None t False False [3, 4] = Some (OK, Some ([3, 4], []))" using get by blast
  with r(1) t show ?thesis by blast
qed

end
