(* ===== verification/VersionEdit.thy ===== *)
theory VersionEdit imports DbFormat Logging "HOL-Library.Product_Lexorder" "HOL-Library.Monad_Syntax" begin

text \<open>
  \<^verbatim>\<open>db/version_edit.h\<close> and \<^verbatim>\<open>db/version_edit.cc\<close>: the changes of a version, as they are
  recorded in the manifest. \<open>EncodeTo\<close> writes tagged fields, \<open>DecodeFrom\<close> reads them back; what was
  decoded before an error stays in the edit. Levels are natural numbers (\<open>GetLevel\<close> gives numbers
  below \<open>kNumLevels\<close>), the ordered set of deleted files is a finite set read in its lexicographic order,
  and an internal key is its representation.
\<close>

section \<open>The state of an edit\<close>

definition kNumLevels :: nat where "kNumLevels = 7"

record file_meta =
  fm_refs :: int
  fm_allowed_seeks :: int
  fm_number :: uint64
  fm_file_size :: uint64
  fm_smallest :: bytes
  fm_largest :: bytes

definition FileMetaData_init :: "uint64 \<Rightarrow> uint64 \<Rightarrow> bytes \<Rightarrow> bytes \<Rightarrow> file_meta" where
  "FileMetaData_init number file_size smallest largest =
     \<lparr>fm_refs = 0, fm_allowed_seeks = 1073741824, fm_number = number, fm_file_size = file_size,
      fm_smallest = smallest, fm_largest = largest\<rparr>"

record version_edit =
  ve_comparator :: bytes
  ve_log_number :: uint64
  ve_prev_log_number :: uint64
  ve_next_file_number :: uint64
  ve_last_sequence :: uint64
  has_comparator :: bool
  has_log_number :: bool
  has_prev_log_number :: bool
  has_next_file_number :: bool
  has_last_sequence :: bool
  ve_compact_pointers :: "(nat \<times> bytes) list"
  ve_deleted_files :: "(nat \<times> uint64) set"
  ve_new_files :: "(nat \<times> file_meta) list"

text \<open>\<open>Clear\<close> as written: the compaction pointers are kept.\<close>

definition VersionEdit_Clear :: "version_edit \<Rightarrow> version_edit" where
  "VersionEdit_Clear e =
     e\<lparr>ve_comparator := [], ve_log_number := 0, ve_prev_log_number := 0, ve_last_sequence := 0, ve_next_file_number := 0,
       has_comparator := False, has_log_number := False, has_prev_log_number := False, has_next_file_number := False,
       has_last_sequence := False, ve_deleted_files := {}, ve_new_files := []\<rparr>"

definition VersionEdit_init :: version_edit where
  "VersionEdit_init = VersionEdit_Clear
     \<lparr>ve_comparator = [], ve_log_number = 0, ve_prev_log_number = 0, ve_next_file_number = 0, ve_last_sequence = 0,
      has_comparator = False, has_log_number = False, has_prev_log_number = False, has_next_file_number = False,
      has_last_sequence = False, ve_compact_pointers = [], ve_deleted_files = {}, ve_new_files = []\<rparr>"

definition SetComparatorName :: "version_edit \<Rightarrow> bytes \<Rightarrow> version_edit" where
  "SetComparatorName e name = e\<lparr>has_comparator := True, ve_comparator := name\<rparr>"

definition SetLogNumber :: "version_edit \<Rightarrow> uint64 \<Rightarrow> version_edit" where
  "SetLogNumber e num = e\<lparr>has_log_number := True, ve_log_number := num\<rparr>"

definition SetPrevLogNumber :: "version_edit \<Rightarrow> uint64 \<Rightarrow> version_edit" where
  "SetPrevLogNumber e num = e\<lparr>has_prev_log_number := True, ve_prev_log_number := num\<rparr>"

definition SetNextFile :: "version_edit \<Rightarrow> uint64 \<Rightarrow> version_edit" where
  "SetNextFile e num = e\<lparr>has_next_file_number := True, ve_next_file_number := num\<rparr>"

definition SetLastSequence :: "version_edit \<Rightarrow> uint64 \<Rightarrow> version_edit" where
  "SetLastSequence e seq = e\<lparr>has_last_sequence := True, ve_last_sequence := seq\<rparr>"

definition SetCompactPointer :: "version_edit \<Rightarrow> nat \<Rightarrow> bytes \<Rightarrow> version_edit" where
  "SetCompactPointer e level key = e\<lparr>ve_compact_pointers := ve_compact_pointers e @ [(level, key)]\<rparr>"

definition AddFile :: "version_edit \<Rightarrow> nat \<Rightarrow> uint64 \<Rightarrow> uint64 \<Rightarrow> bytes \<Rightarrow> bytes \<Rightarrow> version_edit" where
  "AddFile e level f file_size smallest largest =
     e\<lparr>ve_new_files := ve_new_files e @ [(level, FileMetaData_init f file_size smallest largest)]\<rparr>"

definition VersionEdit_DeleteFile :: "version_edit \<Rightarrow> nat \<Rightarrow> uint64 \<Rightarrow> version_edit" where
  "VersionEdit_DeleteFile e level f = e\<lparr>ve_deleted_files := insert (level, f) (ve_deleted_files e)\<rparr>"

section \<open>Encoding\<close>

definition kComparator :: uint32 where "kComparator = 1"
definition kLogNumber :: uint32 where "kLogNumber = 2"
definition kNextFileNumber :: uint32 where "kNextFileNumber = 3"
definition kLastSequence :: uint32 where "kLastSequence = 4"
definition kCompactPointer :: uint32 where "kCompactPointer = 5"
definition kDeletedFile :: uint32 where "kDeletedFile = 6"
definition kNewFile :: uint32 where "kNewFile = 7"
definition kPrevLogNumber :: uint32 where "kPrevLogNumber = 9"

definition put_compact_pointer :: "bytes \<Rightarrow> nat \<times> bytes \<Rightarrow> bytes" where
  "put_compact_pointer dst = (\<lambda>(level, key).
     let dst = PutVarint32 dst kCompactPointer; dst = PutVarint32 dst (of_nat level)
     in PutLengthPrefixedSlice dst key)"

definition put_deleted_file :: "bytes \<Rightarrow> nat \<times> uint64 \<Rightarrow> bytes" where
  "put_deleted_file dst = (\<lambda>(level, number).
     let dst = PutVarint32 dst kDeletedFile; dst = PutVarint32 dst (of_nat level)
     in PutVarint64 dst number)"

definition put_new_file :: "bytes \<Rightarrow> nat \<times> file_meta \<Rightarrow> bytes" where
  "put_new_file dst = (\<lambda>(level, f).
     let dst = PutVarint32 dst kNewFile; dst = PutVarint32 dst (of_nat level); dst = PutVarint64 dst (fm_number f);
         dst = PutVarint64 dst (fm_file_size f); dst = PutLengthPrefixedSlice dst (fm_smallest f)
     in PutLengthPrefixedSlice dst (fm_largest f))"

definition VersionEdit_EncodeTo :: "version_edit \<Rightarrow> bytes \<Rightarrow> bytes" where
  "VersionEdit_EncodeTo e dst =
     (let dst = (if has_comparator e then PutLengthPrefixedSlice (PutVarint32 dst kComparator) (ve_comparator e) else dst);
          dst = (if has_log_number e then PutVarint64 (PutVarint32 dst kLogNumber) (ve_log_number e) else dst);
          dst = (if has_prev_log_number e then PutVarint64 (PutVarint32 dst kPrevLogNumber) (ve_prev_log_number e) else dst);
          dst = (if has_next_file_number e then PutVarint64 (PutVarint32 dst kNextFileNumber) (ve_next_file_number e) else dst);
          dst = (if has_last_sequence e then PutVarint64 (PutVarint32 dst kLastSequence) (ve_last_sequence e) else dst);
          dst = foldl put_compact_pointer dst (ve_compact_pointers e);
          dst = foldl put_deleted_file dst (sorted_list_of_set (ve_deleted_files e))
      in foldl put_new_file dst (ve_new_files e))"

section \<open>Decoding\<close>

text \<open>\<open>InternalKey::DecodeFrom\<close> takes the bytes over as they are.\<close>

definition GetInternalKey :: "bytes \<Rightarrow> (bytes \<times> bytes) option" where
  "GetInternalKey inp = GetLengthPrefixedSlice inp"

definition GetLevel :: "bytes \<Rightarrow> (nat \<times> bytes) option" where
  "GetLevel inp =
     (case GetVarint32 inp of
        Some (v, inp) \<Rightarrow> if v < of_nat kNumLevels then Some (unat v, inp) else None
      | None \<Rightarrow> None)"

text \<open>One field after its tag: the edit and the remaining input, or the message.\<close>

definition DecodeFrom_field :: "version_edit \<Rightarrow> uint32 \<Rightarrow> bytes \<Rightarrow> string + version_edit \<times> bytes" where
  "DecodeFrom_field e tag inp =
     (if tag = kComparator then
        (case GetLengthPrefixedSlice inp of
           Some (str, inp) \<Rightarrow> Inr (e\<lparr>has_comparator := True, ve_comparator := str\<rparr>, inp)
         | None \<Rightarrow> Inl ''comparator name'')
      else if tag = kLogNumber then
        (case GetVarint64 inp of
           Some (n, inp) \<Rightarrow> Inr (e\<lparr>has_log_number := True, ve_log_number := n\<rparr>, inp)
         | None \<Rightarrow> Inl ''log number'')
      else if tag = kPrevLogNumber then
        (case GetVarint64 inp of
           Some (n, inp) \<Rightarrow> Inr (e\<lparr>has_prev_log_number := True, ve_prev_log_number := n\<rparr>, inp)
         | None \<Rightarrow> Inl ''previous log number'')
      else if tag = kNextFileNumber then
        (case GetVarint64 inp of
           Some (n, inp) \<Rightarrow> Inr (e\<lparr>has_next_file_number := True, ve_next_file_number := n\<rparr>, inp)
         | None \<Rightarrow> Inl ''next file number'')
      else if tag = kLastSequence then
        (case GetVarint64 inp of
           Some (n, inp) \<Rightarrow> Inr (e\<lparr>has_last_sequence := True, ve_last_sequence := n\<rparr>, inp)
         | None \<Rightarrow> Inl ''last sequence number'')
      else if tag = kCompactPointer then
        (case do { (level, inp) \<leftarrow> GetLevel inp; (key, inp) \<leftarrow> GetInternalKey inp; Some (level, key, inp) } of
           Some (level, key, inp) \<Rightarrow> Inr (e\<lparr>ve_compact_pointers := ve_compact_pointers e @ [(level, key)]\<rparr>, inp)
         | None \<Rightarrow> Inl ''compaction pointer'')
      else if tag = kDeletedFile then
        (case do { (level, inp) \<leftarrow> GetLevel inp; (number, inp) \<leftarrow> GetVarint64 inp; Some (level, number, inp) } of
           Some (level, number, inp) \<Rightarrow> Inr (e\<lparr>ve_deleted_files := insert (level, number) (ve_deleted_files e)\<rparr>, inp)
         | None \<Rightarrow> Inl ''deleted file'')
      else if tag = kNewFile then
        (case do { (level, inp) \<leftarrow> GetLevel inp; (number, inp) \<leftarrow> GetVarint64 inp; (file_size, inp) \<leftarrow> GetVarint64 inp;
                   (smallest, inp) \<leftarrow> GetInternalKey inp; (largest, inp) \<leftarrow> GetInternalKey inp;
                   Some (level, FileMetaData_init number file_size smallest largest, inp) } of
           Some (level, f, inp) \<Rightarrow> Inr (e\<lparr>ve_new_files := ve_new_files e @ [(level, f)]\<rparr>, inp)
         | None \<Rightarrow> Inl ''new-file entry'')
      else Inl ''unknown tag'')"

lemma GetLevel_shorter: "GetLevel p = Some (l, q) \<Longrightarrow> length q \<le> length p"
  by (auto simp: GetLevel_def split: option.splits if_splits dest: GetVarint32_suffix)

lemma GetInternalKey_shorter: "GetInternalKey p = Some (k, q) \<Longrightarrow> length q \<le> length p"
  by (auto simp: GetInternalKey_def dest: GetLengthPrefixedSlice_suffix)

lemma GetVarint64_shorter: "GetVarint64 p = Some (k, q) \<Longrightarrow> length q \<le> length p"
  by (auto dest: GetVarint64_suffix)

lemma DecodeFrom_field_shorter:
  "DecodeFrom_field e tag inp = Inr (e', inp') \<Longrightarrow> length inp' \<le> length inp"
  unfolding DecodeFrom_field_def
  by (auto split: if_splits option.splits bind_splits prod.splits dest: GetLengthPrefixedSlice_suffix GetVarint64_suffix
        dest!: GetLevel_shorter GetInternalKey_shorter GetVarint64_shorter)

text \<open>The loop: the edit, whether input is left, and the message.\<close>

function DecodeFrom_loop :: "version_edit \<Rightarrow> bytes \<Rightarrow> version_edit \<times> bytes \<times> string option" where
  "DecodeFrom_loop e inp =
     (case GetVarint32 inp of
        None \<Rightarrow> (e, inp, None)
      | Some (tag, rest) \<Rightarrow>
          (case DecodeFrom_field e tag rest of
             Inl msg \<Rightarrow> (e, rest, Some msg)
           | Inr (e, rest) \<Rightarrow> DecodeFrom_loop e rest))"
  by pat_completeness auto
termination
  by (relation "measure (\<lambda>(_, inp). length inp)") (auto dest!: GetVarint32_suffix DecodeFrom_field_shorter simp flip: length_greater_0_conv)

declare DecodeFrom_loop.simps [simp del]

definition VersionEdit_DecodeFrom :: "version_edit \<Rightarrow> bytes \<Rightarrow> status \<times> version_edit" where
  "VersionEdit_DecodeFrom e src =
     (let (e, inp, msg) = DecodeFrom_loop (VersionEdit_Clear e) src;
          msg = (if msg = None \<and> inp \<noteq> [] then Some ''invalid tag'' else msg)
      in (case msg of None \<Rightarrow> OK | Some m \<Rightarrow> mk_status kCorruption ''VersionEdit'' m, e))"

section \<open>Debug output\<close>

definition ParsedInternalKey_DebugString :: "ParsedInternalKey \<Rightarrow> string" where
  "ParsedInternalKey_DebugString k =
     [CHR 0x27] @ EscapeString (user_key k) @ [CHR 0x27] @ '' @ '' @ decimal (unat (sequence k)) @ '' : '' @ decimal (unat (type_code (type k)))"

definition InternalKey_DebugString :: "bytes \<Rightarrow> string" where
  "InternalKey_DebugString rep =
     (case ParseInternalKey rep of Some parsed \<Rightarrow> ParsedInternalKey_DebugString parsed
      | None \<Rightarrow> ''(bad)'' @ EscapeString rep)"

definition debug_line :: "string \<Rightarrow> string \<Rightarrow> string" where
  "debug_line label text = [CHR 0x0A] @ label @ text"

definition VersionEdit_DebugString :: "version_edit \<Rightarrow> string" where
  "VersionEdit_DebugString e =
     ''VersionEdit {''
     @ (if has_comparator e then debug_line ''  Comparator: '' (map (char_of \<circ> unat) (ve_comparator e)) else [])
     @ (if has_log_number e then debug_line ''  LogNumber: '' (NumberToString (ve_log_number e)) else [])
     @ (if has_prev_log_number e then debug_line ''  PrevLogNumber: '' (NumberToString (ve_prev_log_number e)) else [])
     @ (if has_next_file_number e then debug_line ''  NextFile: '' (NumberToString (ve_next_file_number e)) else [])
     @ (if has_last_sequence e then debug_line ''  LastSeq: '' (NumberToString (ve_last_sequence e)) else [])
     @ concat (map (\<lambda>(level, key). debug_line ''  CompactPointer: '' (NumberToString (of_nat level) @ '' '' @ InternalKey_DebugString key))
         (ve_compact_pointers e))
     @ concat (map (\<lambda>(level, number). debug_line ''  DeleteFile: '' (NumberToString (of_nat level) @ '' '' @ NumberToString number))
         (sorted_list_of_set (ve_deleted_files e)))
     @ concat (map (\<lambda>(level, f). debug_line ''  AddFile: ''
         (NumberToString (of_nat level) @ '' '' @ NumberToString (fm_number f) @ '' '' @ NumberToString (fm_file_size f)
          @ '' '' @ InternalKey_DebugString (fm_smallest f) @ '' .. '' @ InternalKey_DebugString (fm_largest f)))
         (ve_new_files e))
     @ [CHR 0x0A] @ ''}'' @ [CHR 0x0A]"

section \<open>Decoding what was encoded\<close>

text \<open>The edits that the code builds: fields without their flag at the default, files as \<open>AddFile\<close> makes them.\<close>

definition edit_ok :: "version_edit \<Rightarrow> bool" where
  "edit_ok e \<longleftrightarrow>
     (\<not> has_comparator e \<longrightarrow> ve_comparator e = []) \<and> (\<not> has_log_number e \<longrightarrow> ve_log_number e = 0) \<and>
     (\<not> has_prev_log_number e \<longrightarrow> ve_prev_log_number e = 0) \<and> (\<not> has_next_file_number e \<longrightarrow> ve_next_file_number e = 0) \<and>
     (\<not> has_last_sequence e \<longrightarrow> ve_last_sequence e = 0) \<and> length (ve_comparator e) < 2 ^ 32 \<and>
     (\<forall>(level, key) \<in> set (ve_compact_pointers e). level < kNumLevels \<and> length key < 2 ^ 32) \<and>
     finite (ve_deleted_files e) \<and> (\<forall>(level, number) \<in> ve_deleted_files e. level < kNumLevels) \<and>
     (\<forall>(level, f) \<in> set (ve_new_files e). level < kNumLevels \<and> length (fm_smallest f) < 2 ^ 32 \<and> length (fm_largest f) < 2 ^ 32 \<and>
        f = FileMetaData_init (fm_number f) (fm_file_size f) (fm_smallest f) (fm_largest f))"

lemmas tag_defs = kComparator_def kLogNumber_def kNextFileNumber_def kLastSequence_def kCompactPointer_def
  kDeletedFile_def kNewFile_def kPrevLogNumber_def

lemma GetLevel_put [simp]: "l < kNumLevels \<Longrightarrow> GetLevel (EncodeVarint32 (of_nat l) @ rest) = Some (l, rest)"
  by (simp add: GetLevel_def kNumLevels_def word_less_nat_alt unat_of_nat_32)

lemma DecodeFrom_loop_tag:
  "DecodeFrom_loop e (EncodeVarint32 tag @ rest) =
     (case DecodeFrom_field e tag rest of Inl msg \<Rightarrow> (e, rest, Some msg) | Inr (e, rest) \<Rightarrow> DecodeFrom_loop e rest)"
  by (subst DecodeFrom_loop.simps) (simp split: sum.split)



text \<open>Each field is read back, whatever follows it.\<close>

lemma put_append:
  "PutVarint32 dst v = dst @ EncodeVarint32 v" "PutVarint64 dst w = dst @ EncodeVarint64 w"
  "PutLengthPrefixedSlice (x # xs) str = (x # xs) @ PutLengthPrefixedSlice [] str"
  "PutLengthPrefixedSlice (xs @ ys) str = xs @ ys @ PutLengthPrefixedSlice [] str"
  using PutLengthPrefixedSlice_append [of "x # xs" str] PutLengthPrefixedSlice_append [of "xs @ ys" str]
  by (simp_all add: PutVarint32_def PutVarint64_def)

lemma foldl_append:
  assumes "\<And>dst x. f dst x = dst @ f [] x"
  shows "foldl f dst xs = dst @ concat (map (f []) xs)"
proof (induction xs arbitrary: dst)
  case (Cons x xs)
  have "foldl f dst (x # xs) = (dst @ f [] x) @ concat (map (f []) xs)"
    using Cons [of "f dst x"] by (simp only: foldl_Cons assms [of dst x])
  then show ?case by simp
qed simp

lemma put_parts:
  "put_compact_pointer dst x = dst @ put_compact_pointer [] x"
  "put_deleted_file dst y = dst @ put_deleted_file [] y"
  "put_new_file dst z = dst @ put_new_file [] z"
  by (simp_all add: put_compact_pointer_def put_deleted_file_def put_new_file_def Let_def put_append split: prod.split)

definition optional_field :: "bool \<Rightarrow> uint32 \<Rightarrow> bytes \<Rightarrow> bytes" where
  "optional_field has tag payload = (if has then EncodeVarint32 tag @ payload else [])"

lemma optional_simps:
  "(if has then PutLengthPrefixedSlice (PutVarint32 dst tag) str else dst) = dst @ optional_field has tag (PutLengthPrefixedSlice [] str)"
  "(if has then PutVarint64 (PutVarint32 dst tag) n else dst) = dst @ optional_field has tag (EncodeVarint64 n)"
  by (simp_all add: optional_field_def put_append)

lemma EncodeTo_parts:
  "VersionEdit_EncodeTo e dst = dst @
     optional_field (has_comparator e) kComparator (PutLengthPrefixedSlice [] (ve_comparator e)) @
     optional_field (has_log_number e) kLogNumber (EncodeVarint64 (ve_log_number e)) @
     optional_field (has_prev_log_number e) kPrevLogNumber (EncodeVarint64 (ve_prev_log_number e)) @
     optional_field (has_next_file_number e) kNextFileNumber (EncodeVarint64 (ve_next_file_number e)) @
     optional_field (has_last_sequence e) kLastSequence (EncodeVarint64 (ve_last_sequence e)) @
     concat (map (put_compact_pointer []) (ve_compact_pointers e)) @
     concat (map (put_deleted_file []) (sorted_list_of_set (ve_deleted_files e))) @
     concat (map (put_new_file []) (ve_new_files e))"
  unfolding VersionEdit_EncodeTo_def Let_def foldl_append [of put_compact_pointer, OF put_parts(1)]
    foldl_append [of put_deleted_file, OF put_parts(2)] foldl_append [of put_new_file, OF put_parts(3)]
    optional_simps
  by (simp only: append_assoc)

lemma DecodeFrom_optional:
  "length name < 2 ^ 32 \<Longrightarrow> DecodeFrom_loop e (optional_field has kComparator (PutLengthPrefixedSlice [] name) @ rest) =
     DecodeFrom_loop (if has then SetComparatorName e name else e) rest"
  "DecodeFrom_loop e (optional_field has kLogNumber (EncodeVarint64 n) @ rest) =
     DecodeFrom_loop (if has then SetLogNumber e n else e) rest"
  "DecodeFrom_loop e (optional_field has kPrevLogNumber (EncodeVarint64 n) @ rest) =
     DecodeFrom_loop (if has then SetPrevLogNumber e n else e) rest"
  "DecodeFrom_loop e (optional_field has kNextFileNumber (EncodeVarint64 n) @ rest) =
     DecodeFrom_loop (if has then SetNextFile e n else e) rest"
  "DecodeFrom_loop e (optional_field has kLastSequence (EncodeVarint64 n) @ rest) =
     DecodeFrom_loop (if has then SetLastSequence e n else e) rest"
  by (simp_all add: optional_field_def DecodeFrom_loop_tag DecodeFrom_field_def tag_defs SetComparatorName_def SetLogNumber_def
      SetPrevLogNumber_def SetNextFile_def SetLastSequence_def)

lemma DecodeFrom_compact_pointer:
  "l < kNumLevels \<Longrightarrow> length k < 2 ^ 32 \<Longrightarrow>
   DecodeFrom_loop e (put_compact_pointer [] (l, k) @ rest) = DecodeFrom_loop (SetCompactPointer e l k) rest"
  by (simp add: put_compact_pointer_def Let_def put_append DecodeFrom_loop_tag DecodeFrom_field_def tag_defs GetInternalKey_def
      SetCompactPointer_def)

lemma DecodeFrom_deleted_file:
  "l < kNumLevels \<Longrightarrow> DecodeFrom_loop e (put_deleted_file [] (l, n) @ rest) = DecodeFrom_loop (VersionEdit_DeleteFile e l n) rest"
  by (simp add: put_deleted_file_def Let_def put_append DecodeFrom_loop_tag DecodeFrom_field_def tag_defs VersionEdit_DeleteFile_def)

lemma DecodeFrom_new_file:
  "l < kNumLevels \<Longrightarrow> length (fm_smallest f) < 2 ^ 32 \<Longrightarrow> length (fm_largest f) < 2 ^ 32 \<Longrightarrow>
   DecodeFrom_loop e (put_new_file [] (l, f) @ rest) =
     DecodeFrom_loop (AddFile e l (fm_number f) (fm_file_size f) (fm_smallest f) (fm_largest f)) rest"
  by (simp add: put_new_file_def Let_def put_append DecodeFrom_loop_tag DecodeFrom_field_def tag_defs GetInternalKey_def AddFile_def)

text \<open>A run of fields of one kind.\<close>

lemma DecodeFrom_concat:
  assumes "\<And>e x rest. x \<in> set xs \<Longrightarrow> DecodeFrom_loop e (put x @ rest) = DecodeFrom_loop (upd e x) rest"
  shows "DecodeFrom_loop e (concat (map put xs) @ rest) = DecodeFrom_loop (foldl upd e xs) rest"
  using assms by (induction xs arbitrary: e) simp_all

lemma foldl_compact_pointers:
  "foldl (\<lambda>e (l, k). SetCompactPointer e l k) e xs = e\<lparr>ve_compact_pointers := ve_compact_pointers e @ xs\<rparr>"
  by (induction xs arbitrary: e) (auto simp: SetCompactPointer_def)

lemma foldl_deleted_files:
  "foldl (\<lambda>e (l, n). VersionEdit_DeleteFile e l n) e xs = e\<lparr>ve_deleted_files := set xs \<union> ve_deleted_files e\<rparr>"
  by (induction xs arbitrary: e) (auto simp: VersionEdit_DeleteFile_def)

lemma foldl_new_files:
  "\<forall>(l, f) \<in> set xs. f = FileMetaData_init (fm_number f) (fm_file_size f) (fm_smallest f) (fm_largest f) \<Longrightarrow>
   foldl (\<lambda>e (l, f). AddFile e l (fm_number f) (fm_file_size f) (fm_smallest f) (fm_largest f)) e xs =
     e\<lparr>ve_new_files := ve_new_files e @ xs\<rparr>"
  by (induction xs arbitrary: e) (auto simp: AddFile_def)

lemma DecodeFrom_loop_Nil: "DecodeFrom_loop e [] = (e, [], None)"
  by (simp add: DecodeFrom_loop.simps [of e "[]"])

text \<open>
  C34. A manifest record is read back: decoding what \<open>EncodeTo\<close> wrote for an edit that the code can
  build (levels below \<open>kNumLevels\<close>, lengths that fit 32 bits, unset fields at their default) gives
  status OK and that edit, whatever the receiver held before, except that its old compaction pointers,
  which \<open>Clear\<close> keeps, stay in front of the decoded ones.
\<close>

theorem VersionEdit_roundtrip:
  assumes "edit_ok e"
  shows "VersionEdit_DecodeFrom e0 (VersionEdit_EncodeTo e []) =
     (OK, e\<lparr>ve_compact_pointers := ve_compact_pointers e0 @ ve_compact_pointers e\<rparr>)"
proof -
  let ?e1 = "VersionEdit_Clear e0"
  let ?e2 = "if has_comparator e then SetComparatorName ?e1 (ve_comparator e) else ?e1"
  let ?e3 = "if has_log_number e then SetLogNumber ?e2 (ve_log_number e) else ?e2"
  let ?e4 = "if has_prev_log_number e then SetPrevLogNumber ?e3 (ve_prev_log_number e) else ?e3"
  let ?e5 = "if has_next_file_number e then SetNextFile ?e4 (ve_next_file_number e) else ?e4"
  let ?e6 = "if has_last_sequence e then SetLastSequence ?e5 (ve_last_sequence e) else ?e5"
  let ?e7 = "foldl (\<lambda>e (l, k). SetCompactPointer e l k) ?e6 (ve_compact_pointers e)"
  let ?e8 = "foldl (\<lambda>e (l, n). VersionEdit_DeleteFile e l n) ?e7 (sorted_list_of_set (ve_deleted_files e))"
  let ?e9 = "foldl (\<lambda>e (l, f). AddFile e l (fm_number f) (fm_file_size f) (fm_smallest f) (fm_largest f)) ?e8 (ve_new_files e)"
  note ok = assms [unfolded edit_ok_def]
  have cp: "DecodeFrom_loop e' (concat (map (put_compact_pointer []) (ve_compact_pointers e)) @ rest) =
      DecodeFrom_loop (foldl (\<lambda>e (l, k). SetCompactPointer e l k) e' (ve_compact_pointers e)) rest" for e' rest
    by (rule DecodeFrom_concat) (use ok in \<open>auto simp: DecodeFrom_compact_pointer\<close>)
  have del: "DecodeFrom_loop e' (concat (map (put_deleted_file []) (sorted_list_of_set (ve_deleted_files e))) @ rest) =
      DecodeFrom_loop (foldl (\<lambda>e (l, n). VersionEdit_DeleteFile e l n) e' (sorted_list_of_set (ve_deleted_files e))) rest" for e' rest
    by (rule DecodeFrom_concat) (use ok in \<open>auto simp: DecodeFrom_deleted_file\<close>)
  have new: "DecodeFrom_loop e' (concat (map (put_new_file []) (ve_new_files e)) @ rest) =
      DecodeFrom_loop (foldl (\<lambda>e (l, f). AddFile e l (fm_number f) (fm_file_size f) (fm_smallest f) (fm_largest f)) e' (ve_new_files e)) rest"
    for e' rest
    by (rule DecodeFrom_concat) (use ok in \<open>auto simp: DecodeFrom_new_file\<close>)
  have run: "DecodeFrom_loop ?e1 (VersionEdit_EncodeTo e []) = DecodeFrom_loop ?e9 []"
    using ok new [where rest = "[]"] by (simp only: EncodeTo_parts append_Nil append_Nil2 DecodeFrom_optional cp del)
  have fin: "finite (ve_deleted_files e)" and new_ok: "\<forall>(l, f) \<in> set (ve_new_files e).
      f = FileMetaData_init (fm_number f) (fm_file_size f) (fm_smallest f) (fm_largest f)" using ok by blast+
  have e9: "?e9 = ?e6\<lparr>ve_compact_pointers := ve_compact_pointers ?e6 @ ve_compact_pointers e,
      ve_deleted_files := ve_deleted_files e \<union> ve_deleted_files ?e6, ve_new_files := ve_new_files ?e6 @ ve_new_files e\<rparr>"
    using fin by (simp only: foldl_compact_pointers foldl_deleted_files foldl_new_files [OF new_ok] set_sorted_list_of_set) simp
  have "?e9 = e\<lparr>ve_compact_pointers := ve_compact_pointers e0 @ ve_compact_pointers e\<rparr>"
    unfolding e9 using ok
    by (cases "has_comparator e"; cases "has_log_number e"; cases "has_prev_log_number e"; cases "has_next_file_number e";
        cases "has_last_sequence e")
      (simp_all add: VersionEdit_Clear_def SetComparatorName_def SetLogNumber_def SetPrevLogNumber_def SetNextFile_def SetLastSequence_def)
  then show ?thesis by (simp add: VersionEdit_DecodeFrom_def run DecodeFrom_loop_Nil)
qed

theorem VersionEdit_roundtrip_witness:
  "let e = AddFile (VersionEdit_DeleteFile (SetLogNumber (SetCompactPointer VersionEdit_init 1 [7, 1, 0, 0, 0, 0, 0, 0, 0]) 300) 2 5)
        3 12 4096 [1, 1, 0, 0, 0, 0, 0, 0, 0] [9, 1, 0, 0, 0, 0, 0, 0, 0]
   in VersionEdit_DecodeFrom VersionEdit_init (VersionEdit_EncodeTo e []) = (OK, e)"
proof -
  let ?e = "AddFile (VersionEdit_DeleteFile (SetLogNumber (SetCompactPointer VersionEdit_init 1 [7, 1, 0, 0, 0, 0, 0, 0, 0]) 300) 2 5)
        3 12 4096 [1, 1, 0, 0, 0, 0, 0, 0, 0] [9, 1, 0, 0, 0, 0, 0, 0, 0]"
  have "edit_ok ?e"
    by (simp add: edit_ok_def VersionEdit_init_def VersionEdit_Clear_def AddFile_def VersionEdit_DeleteFile_def SetLogNumber_def
        SetCompactPointer_def FileMetaData_init_def kNumLevels_def)
  from VersionEdit_roundtrip [OF this, of VersionEdit_init] show ?thesis
    by (simp add: VersionEdit_init_def VersionEdit_Clear_def AddFile_def VersionEdit_DeleteFile_def SetLogNumber_def SetCompactPointer_def)
qed

section \<open>Errors\<close>

text \<open>The runs of the decoder that read complete fields to the end of the input.\<close>

inductive fields_read :: "version_edit \<Rightarrow> bytes \<Rightarrow> version_edit \<Rightarrow> bool" where
  no_field: "fields_read e [] e"
| one_field: "GetVarint32 inp = Some (tag, rest) \<Longrightarrow> DecodeFrom_field e tag rest = Inr (e1, rest1) \<Longrightarrow> fields_read e1 rest1 e' \<Longrightarrow>
    fields_read e inp e'"

inductive_cases fields_readE: "fields_read e inp e'"

lemma fields_read_loop: "fields_read e inp e' \<Longrightarrow> DecodeFrom_loop e inp = (e', [], None)"
proof (induction rule: fields_read.induct)
  case (no_field e)
  then show ?case by (rule DecodeFrom_loop_Nil)
next
  case (one_field inp tag rest e e1 rest1 e')
  then show ?case by (subst DecodeFrom_loop.simps) simp
qed

lemma loop_fields_read: "DecodeFrom_loop e inp = (e', [], None) \<Longrightarrow> fields_read e inp e'"
proof (induction e inp rule: DecodeFrom_loop.induct)
  case (1 e inp)
  note step = "1.prems" [unfolded DecodeFrom_loop.simps [of e inp]]
  show ?case
  proof (cases "GetVarint32 inp")
    case None
    with step show ?thesis by (auto intro: no_field)
  next
    case (Some p)
    then obtain tag rest where p: "GetVarint32 inp = Some (tag, rest)" by (cases p) auto
    with step obtain e1 rest1 where f: "DecodeFrom_field e tag rest = Inr (e1, rest1)"
      "DecodeFrom_loop e1 rest1 = (e', [], None)" by (auto split: sum.splits)
    from "1.IH" [OF p refl f(1) refl f(2)] show ?thesis by (rule one_field [OF p f(1)])
  qed
qed


end
