(* ===== verification/Cursor.thy ===== *)
theory Cursor imports Iterator_Api begin

text \<open>
  The specification of an iterator as a cursor in a sorted list: a client makes moves, and after each
  one sees the entry it stands at, or that it is not valid. Whatever meets the contract of iterators
  shows a client exactly what the cursor shows, for every sequence of moves in which \<open>Next\<close> and
  \<open>Prev\<close> are called at valid positions (the assertions of the code), so any number of turns back and
  forth.
\<close>

datatype move = To_first | To_last | To_key bytes | Forward | Backward

definition cursor_step :: "(bytes \<Rightarrow> bytes \<Rightarrow> int) \<Rightarrow> (bytes \<times> bytes) list \<Rightarrow> nat \<Rightarrow> move \<Rightarrow> nat option" where
  "cursor_step cmp l i m =
     (case m of
        To_first \<Rightarrow> Some 0
      | To_last \<Rightarrow> Some (length l - 1)
      | To_key t \<Rightarrow> Some (lower_bound cmp l t)
      | Forward \<Rightarrow> if i < length l then Some (Suc i) else None
      | Backward \<Rightarrow> if i < length l then Some (if i = 0 then length l else i - 1) else None)"

definition iter_step :: "'s iter_ops \<Rightarrow> 's \<Rightarrow> move \<Rightarrow> 's option" where
  "iter_step ops it m =
     (case m of
        To_first \<Rightarrow> op_SeekToFirst ops it
      | To_last \<Rightarrow> op_SeekToLast ops it
      | To_key t \<Rightarrow> op_Seek ops it t
      | Forward \<Rightarrow> op_Next ops it
      | Backward \<Rightarrow> op_Prev ops it)"

text \<open>What is seen after each move; nothing at all when a move is not allowed or does not end.\<close>

fun cursor_trace :: "(bytes \<Rightarrow> bytes \<Rightarrow> int) \<Rightarrow> (bytes \<times> bytes) list \<Rightarrow> nat \<Rightarrow> move list \<Rightarrow> (bytes \<times> bytes) option list option" where
  "cursor_trace cmp l i [] = Some []"
| "cursor_trace cmp l i (m # ms) =
     do { i \<leftarrow> cursor_step cmp l i m; tr \<leftarrow> cursor_trace cmp l i ms;
          Some ((if i < length l then Some (l ! i) else None) # tr) }"

fun iter_trace :: "'s iter_ops \<Rightarrow> 's \<Rightarrow> move list \<Rightarrow> (bytes \<times> bytes) option list option" where
  "iter_trace ops it [] = Some []"
| "iter_trace ops it (m # ms) =
     do { it \<leftarrow> iter_step ops it m; tr \<leftarrow> iter_trace ops it ms;
          Some ((if op_Valid ops it then Some (op_key ops it, op_value ops it) else None) # tr) }"

definition targets_valid :: "(bytes \<Rightarrow> bool) \<Rightarrow> move list \<Rightarrow> bool" where
  "targets_valid kvalid ms \<longleftrightarrow> (\<forall>t. To_key t \<in> set ms \<longrightarrow> kvalid t)"

context iterator
begin

lemma step_refines:
  assumes "rep it l i" "cursor_step cmp l i m = Some j" "\<And>t. m = To_key t \<Longrightarrow> kvalid t"
  shows "\<exists>it'. iter_step ops it m = Some it' \<and> rep it' l j"
proof (cases m)
  case To_first
  with assms seek_first_rep [OF assms(1)] show ?thesis by (simp add: cursor_step_def iter_step_def)
next
  case To_last
  with assms(2) seek_last_rep [OF assms(1)] show ?thesis by (simp add: cursor_step_def iter_step_def)
next
  case (To_key t)
  with assms(2) seek_rep [OF assms(1) assms(3) [OF To_key]] show ?thesis by (simp add: cursor_step_def iter_step_def)
next
  case Forward
  with assms(2) next_rep [OF assms(1)] show ?thesis by (auto simp: cursor_step_def iter_step_def split: if_splits)
next
  case Backward
  with assms(2) have "i < length l" "j = (if i = 0 then length l else i - 1)"
    by (simp_all add: cursor_step_def split: if_splits)
  with Backward prev_rep [OF assms(1)] show ?thesis by (simp add: iter_step_def)
qed

lemma trace_refines:
  "rep it l i \<Longrightarrow> cursor_trace cmp l i ms = Some tr \<Longrightarrow> targets_valid kvalid ms \<Longrightarrow> iter_trace ops it ms = Some tr"
proof (induction ms arbitrary: it i tr)
  case (Cons m ms)
  obtain j tr' where j: "cursor_step cmp l i m = Some j" "cursor_trace cmp l j ms = Some tr'"
    "tr = (if j < length l then Some (l ! j) else None) # tr'"
    using Cons.prems(2) by (auto simp: bind_eq_Some_conv)
  have "kvalid t" if "m = To_key t" for t using Cons.prems(3) that by (simp add: targets_valid_def)
  from step_refines [OF Cons.prems(1) j(1) this] obtain it' where it': "iter_step ops it m = Some it'" "rep it' l j" by blast
  have "targets_valid kvalid ms" using Cons.prems(3) by (simp add: targets_valid_def)
  from Cons.IH [OF it'(2) j(2) this] show ?case
    using it' valid_iff [OF it'(2)] entry_eq [OF it'(2)] by (simp add: j(3))
qed simp

end

end
