(* ===== verification/DBIter.thy ===== *)
theory DBIter imports Cursor DbFormat Lcg_Random begin

text \<open>
  \<^verbatim>\<open>db/db_iter.cc\<close>: the iterator of the database. Over an iterator of internal keys it shows, for a
  sequence number, each user key once, with the value of its newest entry that is not newer than the
  sequence number, and hides deleted keys. The capacity of the saved value is not part of the model
  (\<open>ClearSavedValue\<close> empties the string in both of its branches); the calls of \<open>RecordReadSample\<close> are
  kept as the list of their keys.
\<close>

section \<open>The state\<close>

datatype db_direction = DB_kForward | DB_kReverse

definition kReadBytesPeriod :: uint32 where "kReadBytesPeriod = 1048576"

record 's db_iterator =
  di_iter :: 's
  di_sequence :: uint64
  di_status :: status
  di_saved_key :: bytes
  di_saved_value :: bytes
  di_direction :: db_direction
  di_valid :: bool
  di_rnd :: uint32
  di_bytes_counter :: int
  di_samples :: "bytes list"

definition RandomPeriod :: "uint32 \<Rightarrow> int \<times> uint32" where
  "RandomPeriod rnd = (let (n, rnd) = Random_Uniform rnd (2 * kReadBytesPeriod) in (int (unat n), rnd))"

definition NewDBIterator :: "'s \<Rightarrow> uint64 \<Rightarrow> uint32 \<Rightarrow> 's db_iterator" where
  "NewDBIterator internal_iter seq seed =
     (let (period, rnd) = RandomPeriod (Random_init seed) in
      \<lparr>di_iter = internal_iter, di_sequence = seq, di_status = OK, di_saved_key = [], di_saved_value = [],
       di_direction = DB_kForward, di_valid = False, di_rnd = rnd, di_bytes_counter = period, di_samples = []\<rparr>)"

definition ClearSavedValue :: "'s db_iterator \<Rightarrow> 's db_iterator" where
  "ClearSavedValue st = st\<lparr>di_saved_value := []\<rparr>"

definition SaveKey :: "bytes \<Rightarrow> 's db_iterator \<Rightarrow> 's db_iterator" where
  "SaveKey k st = st\<lparr>di_saved_key := k\<rparr>"

definition di_move :: "('s \<Rightarrow> 's option) \<Rightarrow> 's db_iterator \<Rightarrow> 's db_iterator option" where
  "di_move f st = do { it \<leftarrow> f (di_iter st); Some (st\<lparr>di_iter := it\<rparr>) }"

section \<open>Reading an entry\<close>

partial_function (option) Sample_loop :: "bytes \<Rightarrow> 's db_iterator \<Rightarrow> 's db_iterator option" where
  "Sample_loop k st =
     (if di_bytes_counter st < 0
      then (case RandomPeriod (di_rnd st) of (period, rnd) \<Rightarrow>
        Sample_loop k (st\<lparr>di_rnd := rnd, di_bytes_counter := di_bytes_counter st + period, di_samples := di_samples st @ [k]\<rparr>))
      else Some st)"

definition ParseKey :: "'s iter_ops \<Rightarrow> 's db_iterator \<Rightarrow> (ParsedInternalKey option \<times> 's db_iterator) option" where
  "ParseKey iops st =
     (let k = op_key iops (di_iter st);
          n = length k + length (op_value iops (di_iter st)) in
      do { st \<leftarrow> Sample_loop k (st\<lparr>di_bytes_counter := di_bytes_counter st - int n\<rparr>);
           case ParseInternalKey k of
             None \<Rightarrow> Some (None, st\<lparr>di_status := Corruption ''corrupted internal key in DBIter''\<rparr>)
           | Some ikey \<Rightarrow> Some (Some ikey, st) })"

section \<open>Moving forward\<close>

text \<open>
  The body of the loop up to \<open>iter_->Next()\<close>: the new value of \<open>skipping\<close>, or none where the code
  returns with an entry to yield. \<open>*skip\<close> is always \<open>saved_key_\<close>.
\<close>

definition next_entry ::
  "(bytes \<Rightarrow> bytes \<Rightarrow> int) \<Rightarrow> bool \<Rightarrow> ParsedInternalKey option \<Rightarrow> 's db_iterator \<Rightarrow> bool option \<times> 's db_iterator" where
  "next_entry ucmp skipping p st =
     (case p of
        Some ikey \<Rightarrow>
          if sequence ikey \<le> di_sequence st
          then (case type ikey of
                  kTypeDeletion \<Rightarrow> (Some True, SaveKey (user_key ikey) st)
                | kTypeValue \<Rightarrow>
                    if skipping \<and> ucmp (user_key ikey) (di_saved_key st) \<le> 0 then (Some skipping, st)
                    else (None, st\<lparr>di_valid := True, di_saved_key := []\<rparr>))
          else (Some skipping, st)
      | None \<Rightarrow> (Some skipping, st))"

partial_function (option) FindNextUserEntry ::
  "'s iter_ops \<Rightarrow> (bytes \<Rightarrow> bytes \<Rightarrow> int) \<Rightarrow> bool \<Rightarrow> 's db_iterator \<Rightarrow> 's db_iterator option" where
  "FindNextUserEntry iops ucmp skipping st =
     do { (p, st) \<leftarrow> ParseKey iops st;
          (case next_entry ucmp skipping p st of
             (None, st) \<Rightarrow> Some st
           | (Some skipping, st) \<Rightarrow>
               do { st \<leftarrow> di_move (op_Next iops) st;
                    if op_Valid iops (di_iter st) then FindNextUserEntry iops ucmp skipping st
                    else Some (st\<lparr>di_saved_key := [], di_valid := False\<rparr>) }) }"

definition db_Next :: "'s iter_ops \<Rightarrow> (bytes \<Rightarrow> bytes \<Rightarrow> int) \<Rightarrow> 's db_iterator \<Rightarrow> 's db_iterator option" where
  "db_Next iops ucmp st =
     (if di_direction st = DB_kReverse
      then do { st \<leftarrow> (let st = st\<lparr>di_direction := DB_kForward\<rparr> in
                  if \<not> op_Valid iops (di_iter st) then di_move (op_SeekToFirst iops) st else di_move (op_Next iops) st);
                if \<not> op_Valid iops (di_iter st) then Some (st\<lparr>di_valid := False, di_saved_key := []\<rparr>)
                else FindNextUserEntry iops ucmp True st }
      else FindNextUserEntry iops ucmp True (SaveKey (ExtractUserKey (op_key iops (di_iter st))) st))"

section \<open>Moving backward\<close>

text \<open>The body of the loop: the new \<open>value_type\<close>, or none where the code breaks out.\<close>

definition prev_entry ::
  "'s iter_ops \<Rightarrow> (bytes \<Rightarrow> bytes \<Rightarrow> int) \<Rightarrow> ValueType \<Rightarrow> ParsedInternalKey option \<Rightarrow> 's db_iterator
    \<Rightarrow> ValueType option \<times> 's db_iterator" where
  "prev_entry iops ucmp value_type p st =
     (case p of
        Some ikey \<Rightarrow>
          if sequence ikey \<le> di_sequence st
          then if value_type \<noteq> kTypeDeletion \<and> ucmp (user_key ikey) (di_saved_key st) < 0 then (None, st)
               else if type ikey = kTypeDeletion
                    then (Some (type ikey), ClearSavedValue (st\<lparr>di_saved_key := []\<rparr>))
                    else (Some (type ikey), (SaveKey (ExtractUserKey (op_key iops (di_iter st))) st)
                            \<lparr>di_saved_value := op_value iops (di_iter st)\<rparr>)
          else (Some value_type, st)
      | None \<Rightarrow> (Some value_type, st))"

partial_function (option) FindPrev_loop ::
  "'s iter_ops \<Rightarrow> (bytes \<Rightarrow> bytes \<Rightarrow> int) \<Rightarrow> ValueType \<Rightarrow> 's db_iterator \<Rightarrow> (ValueType \<times> 's db_iterator) option" where
  "FindPrev_loop iops ucmp value_type st =
     do { (p, st) \<leftarrow> ParseKey iops st;
          (case prev_entry iops ucmp value_type p st of
             (None, st) \<Rightarrow> Some (value_type, st)
           | (Some value_type, st) \<Rightarrow>
               do { st \<leftarrow> di_move (op_Prev iops) st;
                    if op_Valid iops (di_iter st) then FindPrev_loop iops ucmp value_type st else Some (value_type, st) }) }"

definition FindPrevUserEntry :: "'s iter_ops \<Rightarrow> (bytes \<Rightarrow> bytes \<Rightarrow> int) \<Rightarrow> 's db_iterator \<Rightarrow> 's db_iterator option" where
  "FindPrevUserEntry iops ucmp st =
     do { (value_type, st) \<leftarrow> (if op_Valid iops (di_iter st) then FindPrev_loop iops ucmp kTypeDeletion st else Some (kTypeDeletion, st));
          Some (if value_type = kTypeDeletion
                then ClearSavedValue (st\<lparr>di_valid := False, di_saved_key := []\<rparr>)\<lparr>di_direction := DB_kForward\<rparr>
                else st\<lparr>di_valid := True\<rparr>) }"

text \<open>The scan back to the entries of smaller user keys; false when there are none.\<close>

partial_function (option) Prev_scan ::
  "'s iter_ops \<Rightarrow> (bytes \<Rightarrow> bytes \<Rightarrow> int) \<Rightarrow> 's db_iterator \<Rightarrow> (bool \<times> 's db_iterator) option" where
  "Prev_scan iops ucmp st =
     do { st \<leftarrow> di_move (op_Prev iops) st;
          if \<not> op_Valid iops (di_iter st) then Some (False, ClearSavedValue (st\<lparr>di_valid := False, di_saved_key := []\<rparr>))
          else if ucmp (ExtractUserKey (op_key iops (di_iter st))) (di_saved_key st) < 0 then Some (True, st)
          else Prev_scan iops ucmp st }"

definition db_Prev :: "'s iter_ops \<Rightarrow> (bytes \<Rightarrow> bytes \<Rightarrow> int) \<Rightarrow> 's db_iterator \<Rightarrow> 's db_iterator option" where
  "db_Prev iops ucmp st =
     (if di_direction st = DB_kForward
      then do { (found, st) \<leftarrow> Prev_scan iops ucmp (SaveKey (ExtractUserKey (op_key iops (di_iter st))) st);
                if \<not> found then Some st else FindPrevUserEntry iops ucmp (st\<lparr>di_direction := DB_kReverse\<rparr>) }
      else FindPrevUserEntry iops ucmp st)"

section \<open>Seeking\<close>

definition seek_forward ::
  "'s iter_ops \<Rightarrow> (bytes \<Rightarrow> bytes \<Rightarrow> int) \<Rightarrow> ('s \<Rightarrow> 's option) \<Rightarrow> 's db_iterator \<Rightarrow> 's db_iterator option" where
  "seek_forward iops ucmp f st =
     do { st \<leftarrow> di_move f st;
          if op_Valid iops (di_iter st) then FindNextUserEntry iops ucmp False st else Some (st\<lparr>di_valid := False\<rparr>) }"

definition db_Seek :: "'s iter_ops \<Rightarrow> (bytes \<Rightarrow> bytes \<Rightarrow> int) \<Rightarrow> 's db_iterator \<Rightarrow> bytes \<Rightarrow> 's db_iterator option" where
  "db_Seek iops ucmp st target =
     (let st = ClearSavedValue (st\<lparr>di_direction := DB_kForward\<rparr>);
          st = st\<lparr>di_saved_key := AppendInternalKey []
                \<lparr>user_key = target, sequence = di_sequence st, type = kValueTypeForSeek\<rparr>\<rparr>
      in seek_forward iops ucmp (\<lambda>it. op_Seek iops it (di_saved_key st)) st)"

definition db_SeekToFirst :: "'s iter_ops \<Rightarrow> (bytes \<Rightarrow> bytes \<Rightarrow> int) \<Rightarrow> 's db_iterator \<Rightarrow> 's db_iterator option" where
  "db_SeekToFirst iops ucmp st =
     (let st = ClearSavedValue (st\<lparr>di_direction := DB_kForward\<rparr>) in seek_forward iops ucmp (op_SeekToFirst iops) st)"

definition db_SeekToLast :: "'s iter_ops \<Rightarrow> (bytes \<Rightarrow> bytes \<Rightarrow> int) \<Rightarrow> 's db_iterator \<Rightarrow> 's db_iterator option" where
  "db_SeekToLast iops ucmp st =
     (let st = ClearSavedValue (st\<lparr>di_direction := DB_kReverse\<rparr>) in
      do { st \<leftarrow> di_move (op_SeekToLast iops) st; FindPrevUserEntry iops ucmp st })"

section \<open>The operations of the interface\<close>

definition db_key :: "'s iter_ops \<Rightarrow> 's db_iterator \<Rightarrow> bytes" where
  "db_key iops st = (if di_direction st = DB_kForward then ExtractUserKey (op_key iops (di_iter st)) else di_saved_key st)"

definition db_value :: "'s iter_ops \<Rightarrow> 's db_iterator \<Rightarrow> bytes" where
  "db_value iops st = (if di_direction st = DB_kForward then op_value iops (di_iter st) else di_saved_value st)"

definition db_status :: "'s iter_ops \<Rightarrow> 's db_iterator \<Rightarrow> status" where
  "db_status iops st = (if ok (di_status st) then op_status iops (di_iter st) else di_status st)"

definition db_iter_ops :: "'s iter_ops \<Rightarrow> (bytes \<Rightarrow> bytes \<Rightarrow> int) \<Rightarrow> 's db_iterator iter_ops" where
  "db_iter_ops iops ucmp =
     \<lparr>op_Valid = di_valid, op_SeekToFirst = db_SeekToFirst iops ucmp, op_SeekToLast = db_SeekToLast iops ucmp,
      op_Seek = db_Seek iops ucmp, op_Next = db_Next iops ucmp, op_Prev = db_Prev iops ucmp,
      op_key = db_key iops, op_value = db_value iops, op_status = db_status iops\<rparr>"

section \<open>The specification: the view at a sequence number\<close>

text \<open>
  An entry is seen when its sequence number is at most that of the view. It is yielded when it is a
  value and no entry of the same user key that is seen comes before it, that is, is newer.
\<close>

definition seen :: "uint64 \<Rightarrow> bytes \<Rightarrow> bool" where
  "seen s k = (case ParseInternalKey k of None \<Rightarrow> False | Some ikey \<Rightarrow> sequence ikey \<le> s)"

definition is_value :: "bytes \<Rightarrow> bool" where
  "is_value k = (case ParseInternalKey k of None \<Rightarrow> False | Some ikey \<Rightarrow> type ikey = kTypeValue)"

definition yields :: "uint64 \<Rightarrow> (bytes \<times> bytes) list \<Rightarrow> nat \<Rightarrow> bool" where
  "yields s l i \<longleftrightarrow> seen s (fst (l ! i)) \<and> is_value (fst (l ! i)) \<and>
     (\<forall>i' < i. seen s (fst (l ! i')) \<longrightarrow> ExtractUserKey (fst (l ! i')) \<noteq> ExtractUserKey (fst (l ! i)))"

definition user_view :: "uint64 \<Rightarrow> (bytes \<times> bytes) list \<Rightarrow> (bytes \<times> bytes) list" where
  "user_view s l = map (\<lambda>i. (ExtractUserKey (fst (l ! i)), snd (l ! i))) (filter (yields s l) [0..<length l])"

section \<open>Sampling ends\<close>

text \<open>
  The loop adds random numbers until the counter is not negative. It ends because the generator, from a
  seed that its constructor allows, never gives two multiples of \<open>2\<^sup>21\<close> in a row.
\<close>

lemma period_unat: "RandomPeriod rnd = (int (unat (Random_Next rnd) mod 2097152), Random_Next rnd)"
  by (simp add: RandomPeriod_def Random_Uniform_def kReadBytesPeriod_def Let_def uint_mod zmod_int)

lemma no_two_zeros:
  assumes "seed_ok rnd" "unat (Random_Next rnd) mod 2097152 = 0"
  shows "unat (Random_Next (Random_Next rnd)) mod 2097152 \<noteq> 0"
proof -
  let ?x = "unat (Random_Next rnd)"
  have x: "0 < ?x" "?x < 2147483647" using Random_Next_ok [OF assms(1)] by (simp_all add: seed_ok_def)
  define k where "k = ?x div 2097152"
  have k: "?x = k * 2097152" using assms(2) by (simp add: k_def mod_eq_0_iff_dvd)
  then have k1: "1 \<le> k" "k < 1024" using x by auto
  define a b where "a = k * 16807 div 1024" and "b = k * 16807 mod 1024"
  have ab: "k * 16807 = a * 1024 + b" "b < 1024" by (simp_all add: a_def b_def)
  have a: "1 \<le> a" "a < 2097152" using k1 ab by linarith+
  have "?x * 16807 = (k * 16807) * 2097152" using k by simp
  also have "\<dots> = a * 2147483647 + (a + b * 2097152)" unfolding ab(1) by simp
  finally have eq: "?x * 16807 = a * 2147483647 + (a + b * 2097152)" .
  have "a + b * 2097152 < 2147483647" using a k1 ab by linarith
  then have "unat (Random_Next (Random_Next rnd)) = a + b * 2097152"
    unfolding Random_Next_unat [OF x(2)] eq by (metis mod_mult_self3 mod_less)
  then have "unat (Random_Next (Random_Next rnd)) mod 2097152 = a" using a by simp
  then show ?thesis using a by simp
qed

definition sampled :: "'s db_iterator \<Rightarrow> 's db_iterator \<Rightarrow> bool" where
  "sampled st st' \<longleftrightarrow> (\<exists>rnd c ks. st' = st\<lparr>di_rnd := rnd, di_bytes_counter := c, di_samples := ks\<rparr> \<and> seed_ok rnd)"

lemma sample_measure: "c < 0 \<Longrightarrow> 0 < p \<Longrightarrow> z \<le> 1 \<Longrightarrow> 2 * nat (- (c + int p)) + z < 2 * nat (- c) + (u :: nat)"
  by linarith

lemma Sample_loop_ends: "seed_ok (di_rnd st) \<Longrightarrow> \<exists>st'. Sample_loop k st = Some st' \<and> sampled st st' \<and> 0 \<le> di_bytes_counter st'"
proof (induction "2 * nat (- di_bytes_counter st) + (if unat (Random_Next (di_rnd st)) mod 2097152 = 0 then 1 else 0 :: nat)"
    arbitrary: st rule: less_induct)
  case (less st)
  show ?case
  proof (cases "di_bytes_counter st < 0")
    case False
    have "sampled st st" unfolding sampled_def
      using less.prems by (intro exI [of _ "di_rnd st"] exI [of _ "di_bytes_counter st"] exI [of _ "di_samples st"]) simp
    with False show ?thesis by (subst Sample_loop.simps) simp
  next
    case True
    let ?p = "unat (Random_Next (di_rnd st)) mod 2097152"
    let ?st = "st\<lparr>di_rnd := Random_Next (di_rnd st), di_bytes_counter := di_bytes_counter st + int ?p, di_samples := di_samples st @ [k]\<rparr>"
    have seed: "seed_ok (di_rnd ?st)" using Random_Next_ok [OF less.prems] by simp
    have smaller: "2 * nat (- di_bytes_counter ?st) + (if unat (Random_Next (di_rnd ?st)) mod 2097152 = 0 then 1 else 0 :: nat)
        < 2 * nat (- di_bytes_counter st) + (if ?p = 0 then 1 else 0 :: nat)"
    proof (cases "?p = 0")
      case True
      with no_two_zeros [OF less.prems] show ?thesis by simp
    next
      case False
      have eq: "di_bytes_counter ?st = di_bytes_counter st + int ?p" by simp
      from False True show ?thesis unfolding eq by (intro sample_measure) simp_all
    qed
    obtain st' where st': "Sample_loop k ?st = Some st'" "sampled ?st st'" "0 \<le> di_bytes_counter st'" using less.hyps [OF smaller seed] by blast
    have "Sample_loop k st = Sample_loop k ?st" using True by (subst Sample_loop.simps) (simp add: period_unat)
    moreover have "sampled st st'" using st'(2) unfolding sampled_def by auto
    ultimately show ?thesis using st'(1,3) by simp
  qed
qed

section \<open>Counting the yielded entries\<close>

definition cnt :: "uint64 \<Rightarrow> (bytes \<times> bytes) list \<Rightarrow> nat \<Rightarrow> nat" where
  "cnt s l p = length (filter (yields s l) [0..<p])"

lemma cnt_0 [simp]: "cnt s l 0 = 0"
  by (simp add: cnt_def)

lemma cnt_Suc: "cnt s l (Suc p) = (if yields s l p then Suc (cnt s l p) else cnt s l p)"
  by (simp add: cnt_def)

lemma cnt_gap: "a \<le> b \<Longrightarrow> (\<And>m. a \<le> m \<Longrightarrow> m < b \<Longrightarrow> \<not> yields s l m) \<Longrightarrow> cnt s l b = cnt s l a"
  by (induction b rule: dec_induct) (simp_all add: cnt_Suc)

lemma length_user_view: "length (user_view s l) = cnt s l (length l)"
  by (simp add: user_view_def cnt_def)

lemma user_view_nth:
  assumes "i < length l" "yields s l i"
  shows "cnt s l i < length (user_view s l)" "user_view s l ! cnt s l i = (ExtractUserKey (fst (l ! i)), snd (l ! i))"
proof -
  have "[0..<length l] = [0..<i] @ i # [Suc i..<length l]"
    using assms(1) upt_add_eq_append [of 0 i "length l - i"] upt_conv_Cons [of i "length l"] by simp
  then have "filter (yields s l) [0..<length l] = filter (yields s l) [0..<i] @ i # filter (yields s l) [Suc i..<length l]"
    using assms(2) by simp
  then show "cnt s l i < length (user_view s l)" "user_view s l ! cnt s l i = (ExtractUserKey (fst (l ! i)), snd (l ! i))"
    by (simp_all add: user_view_def cnt_def nth_append)
qed

section \<open>The contract\<close>

locale db_iteration = internal: iterator irep "InternalKey_Compare ucmp" "internal_valid uvalid" iops + user: total_comparator ucmp uvalid
  for irep :: "'s \<Rightarrow> (bytes \<times> bytes) list \<Rightarrow> nat \<Rightarrow> bool" and ucmp uvalid iops
begin

abbreviation uk :: "(bytes \<times> bytes) list \<Rightarrow> nat \<Rightarrow> bytes" where
  "uk l i \<equiv> ExtractUserKey (fst (l ! i))"

definition parses :: "(bytes \<times> bytes) list \<Rightarrow> bool" where
  "parses l \<longleftrightarrow> (\<forall>(k, v) \<in> set l. ParseInternalKey k \<noteq> None)"

text \<open>What every state keeps: the internal iterator at a position, no error, a good seed.\<close>

definition core :: "'s db_iterator \<Rightarrow> uint64 \<Rightarrow> (bytes \<times> bytes) list \<Rightarrow> nat \<Rightarrow> bool" where
  "core st s l p \<longleftrightarrow> irep (di_iter st) l p \<and> di_sequence st = s \<and> di_status st = OK \<and> seed_ok (di_rnd st) \<and> parses l"

lemma core_sampled: "core st s l p \<Longrightarrow> sampled st st' \<Longrightarrow> core st' s l p"
  by (auto simp: core_def sampled_def)

lemma core_update [simp]:
  "core (st\<lparr>di_saved_key := k\<rparr>) s l p \<longleftrightarrow> core st s l p" "core (st\<lparr>di_saved_value := k\<rparr>) s l p \<longleftrightarrow> core st s l p"
  "core (st\<lparr>di_valid := v\<rparr>) s l p \<longleftrightarrow> core st s l p" "core (st\<lparr>di_direction := d\<rparr>) s l p \<longleftrightarrow> core st s l p"
  by (simp_all add: core_def)

lemma core_sorted: "core st s l p \<Longrightarrow> i < j \<Longrightarrow> j < length l \<Longrightarrow> InternalKey_Compare ucmp (fst (l ! i)) (fst (l ! j)) < 0"
  using internal.rep_sorted [of "di_iter st" l p] sorted_wrt_nth_less [of _ l i j] by (simp add: core_def cmp_sorted_def)

lemma core_uvalid: "core st s l p \<Longrightarrow> i < length l \<Longrightarrow> uvalid (uk l i)"
  using internal.rep_keys [of "di_iter st" l p "fst (l ! i)" "snd (l ! i)"] nth_mem [of i l] by (simp add: core_def internal_valid_def)

lemma core_parse:
  assumes "core st s l p" "i < length l"
  obtains ikey where "ParseInternalKey (fst (l ! i)) = Some ikey" "user_key ikey = uk l i"
proof -
  have "l ! i \<in> set l" using assms(2) by simp
  then have "ParseInternalKey (fst (l ! i)) \<noteq> None" using assms(1) unfolding core_def parses_def by (metis (mono_tags, lifting) case_prod_beta)
  then obtain ikey where k: "ParseInternalKey (fst (l ! i)) = Some ikey" by blast
  then have "user_key ikey = uk l i"
    by (auto simp: ParseInternalKey_def ExtractUserKey_def Let_def split: if_splits option.splits)
  with k show thesis by (rule that)
qed

lemma uk_mono:
  assumes "core st s l p" "i \<le> j" "j < length l"
  shows "ucmp (uk l i) (uk l j) \<le> 0"
proof (cases "i = j")
  case True
  then show ?thesis using user.cmp_refl core_uvalid [OF assms(1,3)] by simp
next
  case False
  then show ?thesis using core_sorted [OF assms(1), of i j] assms by (auto simp: InternalKey_Compare_less)
qed

lemma uk_antisym:
  assumes "core st s l p" "i < length l" "j < length l" "ucmp (uk l i) (uk l j) \<le> 0" "ucmp (uk l j) (uk l i) \<le> 0"
  shows "uk l i = uk l j"
proof (rule user.cmp_eq)
  show v: "uvalid (uk l i)" "uvalid (uk l j)" using core_uvalid assms by blast+
  show "ucmp (uk l i) (uk l j) = 0" using assms(4,5) user.cmp_le_iff [OF v(2,1)] by simp
qed

text \<open>A step of the internal iterator, and reading the entry it stands at.\<close>

lemma ParseKey_core:
  assumes c: "core st s l p" and p: "p < length l" and k: "ParseInternalKey (fst (l ! p)) = Some ikey"
  shows "\<exists>st1. ParseKey iops st = Some (Some ikey, st1) \<and> sampled st st1"
proof -
  have key: "op_key iops (di_iter st) = fst (l ! p)" using internal.key_eq c p by (simp add: core_def)
  let ?st = "st\<lparr>di_bytes_counter := di_bytes_counter st - int (length (fst (l ! p)) + length (op_value iops (di_iter st)))\<rparr>"
  obtain st1 where "Sample_loop (fst (l ! p)) ?st = Some st1" "sampled ?st st1"
    using Sample_loop_ends [of ?st "fst (l ! p)"] c by (auto simp: core_def)
  moreover from this(2) have "sampled st st1" by (auto simp: sampled_def)
  ultimately show ?thesis by (auto simp: ParseKey_def key k Let_def)
qed

lemma di_move_Next:
  assumes "core st s l p" "p < length l"
  shows "\<exists>it. di_move (op_Next iops) st = Some (st\<lparr>di_iter := it\<rparr>) \<and> core (st\<lparr>di_iter := it\<rparr>) s l (Suc p)"
  using assms internal.next_rep [of "di_iter st" l p] by (auto simp: core_def di_move_def)

lemma di_move_Prev:
  assumes "core st s l p" "p < length l"
  shows "\<exists>it. di_move (op_Prev iops) st = Some (st\<lparr>di_iter := it\<rparr>) \<and> core (st\<lparr>di_iter := it\<rparr>) s l (if p = 0 then length l else p - 1)"
proof -
  have rep: "irep (di_iter st) l p" using assms(1) by (simp add: core_def)
  obtain it where "op_Prev iops (di_iter st) = Some it" "irep it l (if p = 0 then length l else p - 1)"
    using internal.prev_rep [OF rep assms(2)] by blast
  with assms(1) show ?thesis by (intro exI [of _ it]) (simp add: core_def di_move_def)
qed

lemma core_valid: "core st s l p \<Longrightarrow> op_Valid iops (di_iter st) \<longleftrightarrow> p < length l"
  using internal.valid_iff by (simp add: core_def)

lemma core_le: "core st s l p \<Longrightarrow> p \<le> length l"
  unfolding core_def using internal.rep_le by blast

section \<open>Forward\<close>

definition forward_at :: "'s db_iterator \<Rightarrow> uint64 \<Rightarrow> (bytes \<times> bytes) list \<Rightarrow> nat \<Rightarrow> bool" where
  "forward_at st s l i \<longleftrightarrow> core st s l i \<and> i < length l \<and> yields s l i \<and> di_valid st \<and> di_direction st = DB_kForward"

definition at_end :: "'s db_iterator \<Rightarrow> uint64 \<Rightarrow> (bytes \<times> bytes) list \<Rightarrow> bool" where
  "at_end st s l \<longleftrightarrow> (\<exists>p. core st s l p) \<and> \<not> di_valid st"

definition landed :: "'s db_iterator \<Rightarrow> uint64 \<Rightarrow> (bytes \<times> bytes) list \<Rightarrow> nat \<Rightarrow> bool" where
  "landed st s l j \<longleftrightarrow> (\<exists>i. forward_at st s l i \<and> cnt s l i = j) \<or> at_end st s l \<and> j = cnt s l (length l)"

text \<open>What is hidden from position \<open>p\<close> on, as the variables of the loop have it.\<close>

definition hides :: "uint64 \<Rightarrow> (bytes \<times> bytes) list \<Rightarrow> nat \<Rightarrow> bool \<Rightarrow> bytes \<Rightarrow> bool" where
  "hides s l p skipping skip \<longleftrightarrow>
     (\<forall>i. p \<le> i \<longrightarrow> i < length l \<longrightarrow> seen s (fst (l ! i)) \<longrightarrow>
        (\<exists>i' < p. seen s (fst (l ! i')) \<and> uk l i' = uk l i) = (skipping \<and> ucmp (uk l i) skip \<le> 0))"

lemma hides_skip:
  assumes c: "core st s l p" and q: "q < length l" "seen s (fst (l ! q))"
  shows "hides s l (Suc q) True (uk l q)"
  unfolding hides_def
proof (intro allI impI)
  fix i
  assume i: "Suc q \<le> i" "i < length l" "seen s (fst (l ! i))"
  show "(\<exists>i' < Suc q. seen s (fst (l ! i')) \<and> uk l i' = uk l i) = (True \<and> ucmp (uk l i) (uk l q) \<le> 0)"
  proof
    assume "\<exists>i' < Suc q. seen s (fst (l ! i')) \<and> uk l i' = uk l i"
    then obtain i' where "i' \<le> q" "uk l i' = uk l i" using less_Suc_eq_le by blast
    with uk_mono [OF c, of i' q] q(1) show "True \<and> ucmp (uk l i) (uk l q) \<le> 0" by simp
  next
    assume "True \<and> ucmp (uk l i) (uk l q) \<le> 0"
    then have "uk l q = uk l i" using uk_antisym [OF c q(1) i(2)] uk_mono [OF c, of q i] i by simp
    with q(2) show "\<exists>i' < Suc q. seen s (fst (l ! i')) \<and> uk l i' = uk l i" by blast
  qed
qed

text \<open>One round of the loop that does not yield.\<close>

lemma FindNext_continue:
  assumes c: "core st s l p" and p: "p < length l" and k: "ParseInternalKey (fst (l ! p)) = Some ikey"
    and step: "\<And>st1. sampled st st1 \<Longrightarrow> next_entry ucmp skipping (Some ikey) st1 = (Some skipping', st1\<lparr>di_saved_key := sk\<rparr>)"
  shows "\<exists>st3. core st3 s l (Suc p) \<and> di_saved_key st3 = sk \<and> di_direction st3 = di_direction st \<and>
    FindNextUserEntry iops ucmp skipping st =
      (if Suc p < length l then FindNextUserEntry iops ucmp skipping' st3 else Some (st3\<lparr>di_saved_key := [], di_valid := False\<rparr>))"
proof -
  obtain st1 where st1: "ParseKey iops st = Some (Some ikey, st1)" "sampled st st1" using ParseKey_core [OF c p k] by blast
  let ?st2 = "st1\<lparr>di_saved_key := sk\<rparr>"
  have c2: "core ?st2 s l p" using core_sampled [OF c st1(2)] by simp
  obtain it where it: "di_move (op_Next iops) ?st2 = Some (?st2\<lparr>di_iter := it\<rparr>)" "core (?st2\<lparr>di_iter := it\<rparr>) s l (Suc p)"
    using di_move_Next [OF c2 p] by blast
  have "di_direction st1 = di_direction st" using st1(2) by (auto simp: sampled_def)
  moreover have "FindNextUserEntry iops ucmp skipping st =
      (if Suc p < length l then FindNextUserEntry iops ucmp skipping' (?st2\<lparr>di_iter := it\<rparr>)
       else Some ((?st2\<lparr>di_iter := it\<rparr>)\<lparr>di_saved_key := [], di_valid := False\<rparr>))"
    using st1(1) step [OF st1(2)] it(1) core_valid [OF it(2)] by (subst FindNextUserEntry.simps) simp
  ultimately show ?thesis using it(2) by (intro exI [of _ "?st2\<lparr>di_iter := it\<rparr>"]) simp
qed

lemma FindNext_lands:
  "core st s l p \<Longrightarrow> p < length l \<Longrightarrow> di_direction st = DB_kForward \<Longrightarrow> hides s l p skipping (di_saved_key st) \<Longrightarrow>
   \<exists>st'. FindNextUserEntry iops ucmp skipping st = Some st' \<and> landed st' s l (cnt s l p)"
proof (induction "length l - p" arbitrary: st p skipping rule: less_induct)
  case less
  note c = less.prems(1) and p = less.prems(2) and hid = less.prems(4)
  obtain ikey where k: "ParseInternalKey (fst (l ! p)) = Some ikey" "user_key ikey = uk l p" using core_parse [OF c p] .
  have seen: "seen s (fst (l ! p)) \<longleftrightarrow> sequence ikey \<le> s" and val: "is_value (fst (l ! p)) \<longleftrightarrow> type ikey = kTypeValue"
    by (simp_all add: seen_def is_value_def k)
  have seq: "di_sequence st1 = s" "di_saved_key st1 = di_saved_key st" if "sampled st st1" for st1
    using that c by (auto simp: sampled_def core_def)
  have go_on: ?case
    if step: "\<And>st1. sampled st st1 \<Longrightarrow> next_entry ucmp skipping (Some ikey) st1 = (Some sk', st1\<lparr>di_saved_key := sk\<rparr>)"
      and hid': "hides s l (Suc p) sk' sk" and no: "\<not> yields s l p" for sk' sk
  proof -
    obtain st3 where st3: "core st3 s l (Suc p)" "di_saved_key st3 = sk" "di_direction st3 = di_direction st"
      "FindNextUserEntry iops ucmp skipping st =
        (if Suc p < length l then FindNextUserEntry iops ucmp sk' st3 else Some (st3\<lparr>di_saved_key := [], di_valid := False\<rparr>))"
      using FindNext_continue [OF c p k(1) step] by blast
    have cn: "cnt s l (Suc p) = cnt s l p" using no by (simp add: cnt_Suc)
    show ?thesis
    proof (cases "Suc p < length l")
      case True
      from less.hyps [OF _ st3(1) True _ hid' [folded st3(2)]] st3(3,4) less.prems(3) True p cn show ?thesis by simp
    next
      case False
      then have "Suc p = length l" using p by simp
      with cn have "landed (st3\<lparr>di_saved_key := [], di_valid := False\<rparr>) s l (cnt s l p)"
        using st3(1) by (auto simp: landed_def at_end_def)
      with st3(4) False show ?thesis by simp
    qed
  qed
  show ?case
  proof (cases "seen s (fst (l ! p))")
    case False
    show ?thesis
    proof (rule go_on)
      show "next_entry ucmp skipping (Some ikey) st1 = (Some skipping, st1\<lparr>di_saved_key := di_saved_key st\<rparr>)" if "sampled st st1" for st1
        using False seen seq [OF that] by (simp add: next_entry_def)
      show "hides s l (Suc p) skipping (di_saved_key st)" using hid False unfolding hides_def by (metis Suc_leD less_Suc_eq)
      show "\<not> yields s l p" using False by (simp add: yields_def)
    qed
  next
    case True
    show ?thesis
    proof (cases "type ikey = kTypeDeletion")
      case del: True
      show ?thesis
      proof (rule go_on)
        show "next_entry ucmp skipping (Some ikey) st1 = (Some True, st1\<lparr>di_saved_key := uk l p\<rparr>)" if "sampled st st1" for st1
          using True seen seq [OF that] del k(2) by (simp add: next_entry_def SaveKey_def)
        show "hides s l (Suc p) True (uk l p)" by (rule hides_skip [OF c p True])
        show "\<not> yields s l p" using val del by (simp add: yields_def)
      qed
    next
      case False
      then have isv: "type ikey = kTypeValue" by (cases "type ikey") auto
      let ?hidden = "skipping \<and> ucmp (uk l p) (di_saved_key st) \<le> 0"
      have earlier: "(\<exists>i' < p. seen s (fst (l ! i')) \<and> uk l i' = uk l p) = ?hidden" using hid True p unfolding hides_def by blast
      show ?thesis
      proof (cases ?hidden)
        case hidden: True
        show ?thesis
        proof (rule go_on)
          show "next_entry ucmp skipping (Some ikey) st1 = (Some skipping, st1\<lparr>di_saved_key := di_saved_key st\<rparr>)" if "sampled st st1" for st1
            using True seen seq [OF that] isv hidden k(2) by (simp add: next_entry_def)
          show "\<not> yields s l p" using earlier hidden by (auto simp: yields_def)
          obtain i0 where i0: "i0 < p" "seen s (fst (l ! i0))" "uk l i0 = uk l p" using earlier hidden by blast
          show "hides s l (Suc p) skipping (di_saved_key st)"
            unfolding hides_def
          proof (intro allI impI)
            fix i
            assume i: "Suc p \<le> i" "i < length l" "seen s (fst (l ! i))"
            have "(\<exists>i' < Suc p. seen s (fst (l ! i')) \<and> uk l i' = uk l i) \<longleftrightarrow> (\<exists>i' < p. seen s (fst (l ! i')) \<and> uk l i' = uk l i)"
              using i0 by (metis less_Suc_eq)
            with hid i show "(\<exists>i' < Suc p. seen s (fst (l ! i')) \<and> uk l i' = uk l i) = (skipping \<and> ucmp (uk l i) (di_saved_key st) \<le> 0)"
              unfolding hides_def by simp
          qed
        qed
      next
        case shown: False
        then have y: "yields s l p" using earlier True val isv unfolding yields_def by blast
        obtain st1 where st1: "ParseKey iops st = Some (Some ikey, st1)" "sampled st st1" using ParseKey_core [OF c p k(1)] by blast
        have "next_entry ucmp skipping (Some ikey) st1 = (None, st1\<lparr>di_valid := True, di_saved_key := []\<rparr>)"
          using True seen seq [OF st1(2)] isv shown k(2) by (auto simp: next_entry_def)
        then have "FindNextUserEntry iops ucmp skipping st = Some (st1\<lparr>di_valid := True, di_saved_key := []\<rparr>)"
          using st1(1) by (subst FindNextUserEntry.simps) simp
        moreover have "di_direction st1 = DB_kForward" using st1(2) less.prems(3) by (auto simp: sampled_def)
        then have "forward_at (st1\<lparr>di_valid := True, di_saved_key := []\<rparr>) s l p"
          using core_sampled [OF c st1(2)] p y by (simp add: forward_at_def)
        then have "landed (st1\<lparr>di_valid := True, di_saved_key := []\<rparr>) s l (cnt s l p)" unfolding landed_def by blast
        ultimately show ?thesis by blast
      qed
    qed
  qed
qed

text \<open>From before or at a yielded entry whose key is the one to skip.\<close>

lemma FindNext_skips:
  "core st s l p \<Longrightarrow> p \<le> q \<Longrightarrow> q < length l \<Longrightarrow> di_direction st = DB_kForward \<Longrightarrow> di_saved_key st = uk l q \<Longrightarrow> yields s l q \<Longrightarrow>
   (\<And>m. p \<le> m \<Longrightarrow> m < q \<Longrightarrow> \<not> seen s (fst (l ! m))) \<Longrightarrow>
   \<exists>st'. FindNextUserEntry iops ucmp True st = Some st' \<and> landed st' s l (Suc (cnt s l q))"
proof (induction "q - p" arbitrary: st p)
  case 0
  then have pq: "p = q" by simp
  note c = "0.prems"(1) [unfolded pq] and q = "0.prems"(3) and y = "0.prems"(6)
  obtain ikey where k: "ParseInternalKey (fst (l ! q)) = Some ikey" "user_key ikey = uk l q" using core_parse [OF c q] .
  have step: "next_entry ucmp True (Some ikey) st1 = (Some True, st1\<lparr>di_saved_key := uk l q\<rparr>)" if "sampled st st1" for st1
  proof -
    have "di_sequence st1 = s" "di_saved_key st1 = uk l q" using that c "0.prems"(5) by (auto simp: sampled_def core_def)
    moreover have "ucmp (uk l q) (uk l q) \<le> 0" using user.cmp_refl core_uvalid [OF c q] by simp
    ultimately show ?thesis using y k by (simp add: next_entry_def yields_def seen_def is_value_def)
  qed
  obtain st3 where st3: "core st3 s l (Suc q)" "di_saved_key st3 = uk l q" "di_direction st3 = DB_kForward"
    "FindNextUserEntry iops ucmp True st =
      (if Suc q < length l then FindNextUserEntry iops ucmp True st3 else Some (st3\<lparr>di_saved_key := [], di_valid := False\<rparr>))"
    using FindNext_continue [OF c q k(1) step] "0.prems"(4) by metis
  have seen: "seen s (fst (l ! q))" using y by (simp add: yields_def)
  have cn: "cnt s l (Suc q) = Suc (cnt s l q)" using y by (simp add: cnt_Suc)
  show ?case
  proof (cases "Suc q < length l")
    case True
    from FindNext_lands [OF st3(1) True st3(3), of True] hides_skip [OF c q seen] st3(2,4) True cn show ?thesis by simp
  next
    case False
    then have "Suc q = length l" using q by simp
    with cn have "landed (st3\<lparr>di_saved_key := [], di_valid := False\<rparr>) s l (Suc (cnt s l q))"
      using st3(1) by (auto simp: landed_def at_end_def)
    with st3(4) False show ?thesis by simp
  qed
next
  case (Suc d)
  note c = Suc.prems(1) and q = Suc.prems(3)
  have lt: "p < q" using Suc.hyps(2) by simp
  then have p: "p < length l" using q by simp
  obtain ikey where k: "ParseInternalKey (fst (l ! p)) = Some ikey" "user_key ikey = uk l p" using core_parse [OF c p] .
  have "\<not> sequence ikey \<le> s" using Suc.prems(7) [of p] lt k by (simp add: seen_def)
  then have step: "next_entry ucmp True (Some ikey) st1 = (Some True, st1\<lparr>di_saved_key := uk l q\<rparr>)" if "sampled st st1" for st1
    using that c Suc.prems(5) by (auto simp: sampled_def core_def next_entry_def)
  obtain st3 where st3: "core st3 s l (Suc p)" "di_saved_key st3 = uk l q" "di_direction st3 = DB_kForward"
    "FindNextUserEntry iops ucmp True st =
      (if Suc p < length l then FindNextUserEntry iops ucmp True st3 else Some (st3\<lparr>di_saved_key := [], di_valid := False\<rparr>))"
    using FindNext_continue [OF c p k(1) step] Suc.prems(4) by metis
  from Suc.hyps(1) [of "Suc p" st3] st3 Suc.hyps(2) lt q Suc.prems(6,7) show ?case by simp
qed

section \<open>Backward\<close>

text \<open>The position before the \<open>P\<close> first entries' end: the last of them, or not valid.\<close>

definition prior :: "(bytes \<times> bytes) list \<Rightarrow> nat \<Rightarrow> nat" where
  "prior l P = (if P = 0 then length l else P - 1)"

text \<open>The saved entry is \<open>i\<close>, and no entry between \<open>P\<close> and \<open>i\<close> is seen.\<close>

definition saved_at :: "'s db_iterator \<Rightarrow> uint64 \<Rightarrow> (bytes \<times> bytes) list \<Rightarrow> nat \<Rightarrow> nat \<Rightarrow> bool" where
  "saved_at st s l P i \<longleftrightarrow> P \<le> i \<and> i < length l \<and> seen s (fst (l ! i)) \<and> is_value (fst (l ! i)) \<and> di_saved_key st = uk l i \<and>
     di_saved_value st = snd (l ! i) \<and> (\<forall>m. P \<le> m \<longrightarrow> m < i \<longrightarrow> \<not> seen s (fst (l ! m)))"

definition reverse_at :: "'s db_iterator \<Rightarrow> uint64 \<Rightarrow> (bytes \<times> bytes) list \<Rightarrow> nat \<Rightarrow> bool" where
  "reverse_at st s l i \<longleftrightarrow> di_valid st \<and> di_direction st = DB_kReverse \<and> yields s l i \<and>
     (\<exists>P. core st s l (prior l P) \<and> saved_at st s l P i)"

definition landed_back :: "'s db_iterator \<Rightarrow> uint64 \<Rightarrow> (bytes \<times> bytes) list \<Rightarrow> nat \<Rightarrow> bool" where
  "landed_back st s l c \<longleftrightarrow> (c = 0 \<and> at_end st s l) \<or> (\<exists>i. reverse_at st s l i \<and> Suc (cnt s l i) = c)"

text \<open>What the loop knows of the entries from \<open>P\<close> up to where it started, \<open>P0\<close>.\<close>

definition scanned :: "'s db_iterator \<Rightarrow> uint64 \<Rightarrow> (bytes \<times> bytes) list \<Rightarrow> nat \<Rightarrow> nat \<Rightarrow> ValueType \<Rightarrow> bool" where
  "scanned st s l P P0 vt \<longleftrightarrow> P \<le> P0 \<and>
     (if vt = kTypeDeletion then \<forall>m. P \<le> m \<longrightarrow> m < P0 \<longrightarrow> \<not> yields s l m
      else \<exists>i < P0. saved_at st s l P i \<and> (\<forall>m. i < m \<longrightarrow> m < P0 \<longrightarrow> \<not> yields s l m))"

lemma scanned_update [simp]:
  "scanned (st\<lparr>di_iter := it\<rparr>) s l P P0 vt \<longleftrightarrow> scanned st s l P P0 vt"
  "scanned (st\<lparr>di_valid := v\<rparr>) s l P P0 vt \<longleftrightarrow> scanned st s l P P0 vt"
  by (simp_all add: scanned_def saved_at_def)

lemma scanned_unseen:
  assumes "scanned st s l (Suc p) P0 vt" "\<not> seen s (fst (l ! p))"
  shows "scanned st s l p P0 vt"
proof -
  have no: "\<not> yields s l p" using assms(2) by (simp add: yields_def)
  have step: "Q m" if "Q p" "\<And>m. Suc p \<le> m \<Longrightarrow> Q m" "p \<le> m" for Q and m :: nat
    using that by (cases "m = p") auto
  show ?thesis
  proof (cases "vt = kTypeDeletion")
    case True
    with assms(1) no step [of "\<lambda>m. m < P0 \<longrightarrow> \<not> yields s l m"] show ?thesis by (simp add: scanned_def)
  next
    case False
    then obtain i where i: "i < P0" "saved_at st s l (Suc p) i" "\<forall>m. i < m \<longrightarrow> m < P0 \<longrightarrow> \<not> yields s l m"
      using assms(1) by (auto simp: scanned_def)
    have "saved_at st s l p i"
      using i(2) assms(2) step [of "\<lambda>m. m < i \<longrightarrow> \<not> seen s (fst (l ! m))"] by (simp add: saved_at_def)
    with i False assms(1) show ?thesis by (auto simp: scanned_def)
  qed
qed

lemma saved_yields:
  assumes sv: "saved_at st s l P i" and first: "\<And>m. m < P \<Longrightarrow> uk l m \<noteq> uk l i"
  shows "yields s l i"
  unfolding yields_def
proof (intro conjI allI impI)
  show "seen s (fst (l ! i))" "is_value (fst (l ! i))" using sv by (simp_all add: saved_at_def)
  fix m
  assume "m < i" "seen s (fst (l ! m))"
  then show "uk l m \<noteq> uk l i" using sv first [of m] by (cases "m < P") (auto simp: saved_at_def)
qed

text \<open>A seen entry that the loop does not stop at makes the saved one obsolete.\<close>

lemma scanned_obsolete:
  assumes c: "core st s l p" and sc: "scanned st s l (Suc p) P0 vt" and p: "p < length l" "seen s (fst (l ! p))"
    and not_less: "vt = kTypeDeletion \<or> \<not> ucmp (uk l p) (di_saved_key st) < 0" and m: "p < m" "m < P0"
  shows "\<not> yields s l m"
proof (cases "vt = kTypeDeletion")
  case True
  with sc m show ?thesis by (simp add: scanned_def)
next
  case False
  then obtain i where i: "saved_at st s l (Suc p) i" "\<forall>m. i < m \<longrightarrow> m < P0 \<longrightarrow> \<not> yields s l m"
    using sc by (auto simp: scanned_def)
  have ii: "p < i" "i < length l" "di_saved_key st = uk l i" using i(1) by (simp_all add: saved_at_def)
  show ?thesis
  proof (cases "m \<le> i")
    case True
    show ?thesis
    proof (cases "m = i")
      case True
      have "ucmp (uk l i) (uk l p) \<le> 0" using not_less False ii p core_uvalid [OF c] user.cmp_le_iff by simp
      then have "uk l p = uk l i" using uk_antisym [OF c p(1) ii(2)] uk_mono [OF c, of p i] ii by simp
      with True p(2) m(1) show ?thesis by (auto simp: yields_def)
    next
      case False
      then have "\<not> seen s (fst (l ! m))" using i(1) True m(1) by (simp add: saved_at_def)
      then show ?thesis by (simp add: yields_def)
    qed
  next
    case False
    with i(2) m show ?thesis by simp
  qed
qed

text \<open>One round of the loop that does not break out.\<close>

lemma FindPrev_continue:
  assumes c: "core st s l p" and p: "p < length l" and k: "ParseInternalKey (fst (l ! p)) = Some ikey"
    and step: "\<And>st1. sampled st st1 \<Longrightarrow> \<exists>st2. prev_entry iops ucmp vt (Some ikey) st1 = (Some vt', st2) \<and> core st2 s l p \<and>
      di_direction st2 = di_direction st \<and> scanned st2 s l p P0 vt'"
  shows "\<exists>st3. core st3 s l (prior l p) \<and> di_direction st3 = di_direction st \<and> scanned st3 s l p P0 vt' \<and>
    FindPrev_loop iops ucmp vt st = (if 0 < p then FindPrev_loop iops ucmp vt' st3 else Some (vt', st3))"
proof -
  obtain st1 where st1: "ParseKey iops st = Some (Some ikey, st1)" "sampled st st1" using ParseKey_core [OF c p k] by blast
  obtain st2 where st2: "prev_entry iops ucmp vt (Some ikey) st1 = (Some vt', st2)" "core st2 s l p"
      "di_direction st2 = di_direction st" "scanned st2 s l p P0 vt'" using step [OF st1(2)] by blast
  obtain it where it: "di_move (op_Prev iops) st2 = Some (st2\<lparr>di_iter := it\<rparr>)" "core (st2\<lparr>di_iter := it\<rparr>) s l (prior l p)"
    using di_move_Prev [OF st2(2) p] unfolding prior_def by blast
  have "op_Valid iops it \<longleftrightarrow> 0 < p" using core_valid [OF it(2)] p by (auto simp: prior_def)
  then have "FindPrev_loop iops ucmp vt st =
      (if 0 < p then FindPrev_loop iops ucmp vt' (st2\<lparr>di_iter := it\<rparr>) else Some (vt', st2\<lparr>di_iter := it\<rparr>))"
    using st1(1) st2(1) it(1) by (subst FindPrev_loop.simps) simp
  with it(2) st2(3,4) show ?thesis by (intro exI [of _ "st2\<lparr>di_iter := it\<rparr>"]) simp
qed

definition prev_found :: "'s db_iterator \<Rightarrow> uint64 \<Rightarrow> (bytes \<times> bytes) list \<Rightarrow> nat \<Rightarrow> ValueType \<Rightarrow> bool" where
  "prev_found st s l P0 vt \<longleftrightarrow>
     (if vt = kTypeDeletion then (\<exists>p. core st s l p) \<and> cnt s l P0 = 0
      else \<exists>i P. core st s l (prior l P) \<and> saved_at st s l P i \<and> yields s l i \<and> Suc (cnt s l i) = cnt s l P0)"

lemma cnt_last: "i < P0 \<Longrightarrow> yields s l i \<Longrightarrow> (\<And>m. i < m \<Longrightarrow> m < P0 \<Longrightarrow> \<not> yields s l m) \<Longrightarrow> Suc (cnt s l i) = cnt s l P0"
  using cnt_gap [of "Suc i" P0 s l] by (simp add: cnt_Suc)

lemma FindPrev_finds:
  "core st s l p \<Longrightarrow> p < length l \<Longrightarrow> scanned st s l (Suc p) P0 vt \<Longrightarrow> P0 \<le> length l \<Longrightarrow>
   \<exists>vt' st'. FindPrev_loop iops ucmp vt st = Some (vt', st') \<and> di_direction st' = di_direction st \<and> prev_found st' s l P0 vt'"
proof (induction p arbitrary: st vt rule: less_induct)
  case (less p)
  note c = less.prems(1) and p = less.prems(2) and sc = less.prems(3)
  obtain ikey where k: "ParseInternalKey (fst (l ! p)) = Some ikey" "user_key ikey = uk l p" using core_parse [OF c p] .
  have seen: "seen s (fst (l ! p)) \<longleftrightarrow> sequence ikey \<le> s" and val: "is_value (fst (l ! p)) \<longleftrightarrow> type ikey = kTypeValue"
    by (simp_all add: seen_def is_value_def k)
  have same: "di_sequence st1 = s" "di_saved_key st1 = di_saved_key st" "di_saved_value st1 = di_saved_value st"
    "di_direction st1 = di_direction st" "core st1 s l p" if "sampled st st1" for st1
    using that c core_sampled [OF c that] by (auto simp: sampled_def core_def)
  have sc1: "scanned st1 s l P P0 vt \<longleftrightarrow> scanned st s l P P0 vt" if "sampled st st1" for st1 P
    using same [OF that] by (simp add: scanned_def saved_at_def)
  have entry: "op_key iops (di_iter st1) = fst (l ! p)" "op_value iops (di_iter st1) = snd (l ! p)" if "core st1 s l p" for st1
    using that p internal.key_eq internal.value_eq by (simp_all add: core_def)
  have p0: "p < P0" using sc by (simp add: scanned_def)
  have go_on: ?case
    if step: "\<And>st1. sampled st st1 \<Longrightarrow> \<exists>st2. prev_entry iops ucmp vt (Some ikey) st1 = (Some vt', st2) \<and> core st2 s l p \<and>
      di_direction st2 = di_direction st \<and> scanned st2 s l p P0 vt'" for vt'
  proof -
    obtain st3 where st3: "core st3 s l (prior l p)" "di_direction st3 = di_direction st" "scanned st3 s l p P0 vt'"
      "FindPrev_loop iops ucmp vt st = (if 0 < p then FindPrev_loop iops ucmp vt' st3 else Some (vt', st3))"
      using FindPrev_continue [OF c p k(1) step] by blast
    show ?thesis
    proof (cases "0 < p")
      case True
      then have "core st3 s l (p - 1)" "scanned st3 s l (Suc (p - 1)) P0 vt'" using st3(1,3) by (simp_all add: prior_def)
      from less.IH [OF _ this(1) _ this(2) less.prems(4)] True p st3(2,4) show ?thesis by simp
    next
      case False
      have "prev_found st3 s l P0 vt'"
      proof (cases "vt' = kTypeDeletion")
        case True
        with st3(1,3) False cnt_gap [of 0 P0 s l] show ?thesis by (auto simp: prev_found_def scanned_def)
      next
        case nd: False
        then obtain i where i: "i < P0" "saved_at st3 s l 0 i" "\<And>m. i < m \<Longrightarrow> m < P0 \<Longrightarrow> \<not> yields s l m"
          using st3(3) False by (auto simp: scanned_def)
        have y: "yields s l i" by (rule saved_yields [OF i(2)]) simp
        have "core st3 s l (prior l 0)" using st3(1) False by simp
        with nd i(2) y cnt_last [OF i(1) y i(3)] show ?thesis unfolding prev_found_def by auto
      qed
      with st3(2,4) False show ?thesis by simp
    qed
  qed
  show ?case
  proof (cases "seen s (fst (l ! p))")
    case False
    have "scanned st s l p P0 vt" by (rule scanned_unseen [OF sc False])
    then have "\<exists>st2. prev_entry iops ucmp vt (Some ikey) st1 = (Some vt, st2) \<and> core st2 s l p \<and>
        di_direction st2 = di_direction st \<and> scanned st2 s l p P0 vt" if "sampled st st1" for st1
      using False seen same [OF that] sc1 [OF that] by (simp add: prev_entry_def)
    then show ?thesis by (rule go_on)
  next
    case True
    show ?thesis
    proof (cases "vt \<noteq> kTypeDeletion \<and> ucmp (uk l p) (di_saved_key st) < 0")
      case stop: True
      obtain st1 where st1: "ParseKey iops st = Some (Some ikey, st1)" "sampled st st1" using ParseKey_core [OF c p k(1)] by blast
      have "FindPrev_loop iops ucmp vt st = Some (vt, st1)"
        using st1(1) stop True seen same [OF st1(2)] k(2) by (subst FindPrev_loop.simps) (simp add: prev_entry_def)
      moreover obtain i where i: "i < P0" "saved_at st1 s l (Suc p) i" "\<And>m. i < m \<Longrightarrow> m < P0 \<Longrightarrow> \<not> yields s l m"
        using sc stop sc1 [OF st1(2), of "Suc p"] by (auto simp: scanned_def)
      have ii: "i < length l" "di_saved_key st = uk l i" using i(2) same [OF st1(2)] by (simp_all add: saved_at_def)
      have y: "yields s l i"
      proof (rule saved_yields [OF i(2)])
        fix m
        assume "m < Suc p"
        then have m: "ucmp (uk l m) (uk l p) \<le> 0" "m < length l" using uk_mono [OF c, of m p] p by simp_all
        have "ucmp (uk l p) (uk l i) < 0" using stop ii by simp
        from user.cmp_le_less_trans [OF core_uvalid [OF c m(2)] core_uvalid [OF c p] core_uvalid [OF c ii(1)] m(1) this]
        have "ucmp (uk l m) (uk l i) < 0" .
        then show "uk l m \<noteq> uk l i" using user.cmp_irrefl core_uvalid [OF c ii(1)] by auto
      qed
      have "core st1 s l (prior l (Suc p))" using same(5) [OF st1(2)] by (simp add: prior_def)
      with i y stop cnt_last [OF i(1) y i(3)] have "prev_found st1 s l P0 vt" unfolding prev_found_def by auto
      ultimately show ?thesis using same(4) [OF st1(2)] by blast
    next
      case on: False
      have old: "\<not> yields s l m" if "p < m" "m < P0" for m using scanned_obsolete [OF c sc p True _ that] on by blast
      show ?thesis
      proof (cases "type ikey = kTypeDeletion")
        case del: True
        have "\<not> yields s l p" using val del by (simp add: yields_def)
        then have "\<forall>m. p \<le> m \<longrightarrow> m < P0 \<longrightarrow> \<not> yields s l m" using old by (metis le_eq_less_or_eq)
        then have "scanned st2 s l p P0 kTypeDeletion" for st2 :: "'s db_iterator" using p0 by (simp add: scanned_def)
        then have "\<exists>st2. prev_entry iops ucmp vt (Some ikey) st1 = (Some kTypeDeletion, st2) \<and> core st2 s l p \<and>
            di_direction st2 = di_direction st \<and> scanned st2 s l p P0 kTypeDeletion" if "sampled st st1" for st1
          using on True seen same [OF that] del k(2) by (simp add: prev_entry_def ClearSavedValue_def)
        then show ?thesis by (rule go_on)
      next
        case False
        then have isv: "type ikey = kTypeValue" by (cases "type ikey") auto
        have "\<exists>st2. prev_entry iops ucmp vt (Some ikey) st1 = (Some kTypeValue, st2) \<and> core st2 s l p \<and>
            di_direction st2 = di_direction st \<and> scanned st2 s l p P0 kTypeValue" if smp: "sampled st st1" for st1
        proof -
          let ?st2 = "st1\<lparr>di_saved_key := uk l p, di_saved_value := snd (l ! p)\<rparr>"
          have "saved_at ?st2 s l p p" using p True val isv by (simp add: saved_at_def)
          then have "scanned ?st2 s l p P0 kTypeValue" using p0 old unfolding scanned_def by auto
          moreover have "prev_entry iops ucmp vt (Some ikey) st1 = (Some kTypeValue, ?st2)"
            using on True seen same [OF smp] isv k(2) entry [OF same(5) [OF smp]] by (auto simp: prev_entry_def SaveKey_def)
          ultimately show ?thesis using same [OF smp] by simp
        qed
        then show ?thesis by (rule go_on)
      qed
    qed
  qed
qed

lemma FindPrevUserEntry_lands:
  assumes c: "core st s l (prior l P0)" and P0: "P0 \<le> length l" and dir: "di_direction st = DB_kReverse"
  shows "\<exists>st'. FindPrevUserEntry iops ucmp st = Some st' \<and> landed_back st' s l (cnt s l P0)"
proof -
  have "\<exists>vt' st'. (if op_Valid iops (di_iter st) then FindPrev_loop iops ucmp kTypeDeletion st else Some (kTypeDeletion, st)) = Some (vt', st') \<and>
      di_direction st' = di_direction st \<and> prev_found st' s l P0 vt'"
  proof (cases "P0 = 0")
    case True
    with core_valid [OF c] c show ?thesis by (auto simp: prior_def prev_found_def)
  next
    case False
    then have p: "prior l P0 < length l" "Suc (prior l P0) = P0" using P0 by (simp_all add: prior_def)
    have "scanned st s l (Suc (prior l P0)) P0 kTypeDeletion" using p by (simp add: scanned_def)
    from FindPrev_finds [OF c p(1) this P0] core_valid [OF c] p(1) show ?thesis by simp
  qed
  then obtain vt' st' where r: "(if op_Valid iops (di_iter st) then FindPrev_loop iops ucmp kTypeDeletion st else Some (kTypeDeletion, st)) = Some (vt', st')"
    "di_direction st' = DB_kReverse" "prev_found st' s l P0 vt'" using dir by auto
  show ?thesis
  proof (cases "vt' = kTypeDeletion")
    case True
    with r show ?thesis
      by (auto simp: FindPrevUserEntry_def landed_back_def at_end_def ClearSavedValue_def prev_found_def)
  next
    case False
    then obtain i P where i: "core st' s l (prior l P)" "saved_at st' s l P i" "yields s l i" "Suc (cnt s l i) = cnt s l P0"
      using r(3) by (auto simp: prev_found_def)
    have "reverse_at (st'\<lparr>di_valid := True\<rparr>) s l i" using i r(2) by (auto simp: reverse_at_def saved_at_def)
    with i(4) have "landed_back (st'\<lparr>di_valid := True\<rparr>) s l (cnt s l P0)" unfolding landed_back_def by blast
    with r(1) False show ?thesis by (auto simp: FindPrevUserEntry_def)
  qed
qed

text \<open>The scan over the entries of the current user key.\<close>

definition one_key :: "(bytes \<times> bytes) list \<Rightarrow> nat \<Rightarrow> nat \<Rightarrow> bool" where
  "one_key l p q \<longleftrightarrow> (\<forall>m. p \<le> m \<longrightarrow> m \<le> q \<longrightarrow> uk l m = uk l q)"

lemma one_key_refl: "one_key l q q"
  unfolding one_key_def using le_antisym by blast

lemma one_key_extend: "0 < p \<Longrightarrow> uk l (p - 1) = uk l q \<Longrightarrow> one_key l p q \<Longrightarrow> one_key l (p - 1) q"
  unfolding one_key_def
proof (intro allI impI)
  fix m
  assume *: "0 < p" "uk l (p - 1) = uk l q" "\<forall>m. p \<le> m \<longrightarrow> m \<le> q \<longrightarrow> uk l m = uk l q" "p - 1 \<le> m" "m \<le> q"
  consider "m = p - 1" | "p \<le> m" using *(1,4) by linarith
  then show "uk l m = uk l q" using *(2,3,5) by cases blast+
qed

lemma Prev_scan_lands:
  "core st s l p \<Longrightarrow> p \<le> q \<Longrightarrow> q < length l \<Longrightarrow> di_saved_key st = uk l q \<Longrightarrow> one_key l p q \<Longrightarrow>
   \<exists>found st' P. Prev_scan iops ucmp st = Some (found, st') \<and> P \<le> q \<and> core st' s l (prior l P) \<and> found = (0 < P) \<and>
     (\<not> found \<longrightarrow> \<not> di_valid st') \<and> one_key l P q"
proof (induction p arbitrary: st rule: less_induct)
  case (less p)
  have p: "p < length l" using less.prems(2,3) by simp
  obtain it where it: "di_move (op_Prev iops) st = Some (st\<lparr>di_iter := it\<rparr>)" "core (st\<lparr>di_iter := it\<rparr>) s l (prior l p)"
    using di_move_Prev [OF less.prems(1) p] unfolding prior_def by blast
  have valid: "op_Valid iops it \<longleftrightarrow> 0 < p" using core_valid [OF it(2)] p by (auto simp: prior_def)
  show ?case
  proof (cases "p = 0")
    case True
    let ?st = "ClearSavedValue (st\<lparr>di_iter := it, di_valid := False, di_saved_key := []\<rparr>)"
    have "Prev_scan iops ucmp st = Some (False, ?st)" using it(1) valid True by (subst Prev_scan.simps) simp
    moreover have "core ?st s l (prior l 0)" using it(2) True by (simp add: ClearSavedValue_def)
    moreover have "\<not> di_valid ?st" by (simp add: ClearSavedValue_def)
    ultimately show ?thesis using less.prems(5) True by (intro exI [of _ False] exI [of _ ?st] exI [of _ 0]) simp
  next
    case False
    then have prev: "prior l p = p - 1" "p - 1 < length l" "p - 1 < p" using p by (simp_all add: prior_def)
    have key: "op_key iops it = fst (l ! (p - 1))" using it(2) prev internal.key_eq by (simp add: core_def)
    show ?thesis
    proof (cases "ucmp (uk l (p - 1)) (uk l q) < 0")
      case True
      then have "Prev_scan iops ucmp st = Some (True, st\<lparr>di_iter := it\<rparr>)"
        using it(1) valid False key less.prems(4) by (subst Prev_scan.simps) simp
      with it(2) False less.prems(2,5) show ?thesis by (intro exI [of _ True] exI [of _ "st\<lparr>di_iter := it\<rparr>"] exI [of _ p]) simp
    next
      case same: False
      have "Prev_scan iops ucmp st = Prev_scan iops ucmp (st\<lparr>di_iter := it\<rparr>)"
        using it(1) valid False key less.prems(4) same by (subst Prev_scan.simps) simp
      moreover have "uk l (p - 1) = uk l q"
      proof (rule uk_antisym [OF less.prems(1) prev(2) less.prems(3)])
        show "ucmp (uk l (p - 1)) (uk l q) \<le> 0" using uk_mono [OF less.prems(1), of "p - 1" q] less.prems(2,3) by simp
        show "ucmp (uk l q) (uk l (p - 1)) \<le> 0"
          using same user.cmp_le_iff [OF core_uvalid [OF less.prems(1,3)] core_uvalid [OF less.prems(1) prev(2)]] by simp
      qed
      then have "one_key l (p - 1) q" using less.prems(5) False by (intro one_key_extend) simp_all
      ultimately show ?thesis
        using less.IH [OF prev(3), of "st\<lparr>di_iter := it\<rparr>"] it(2) prev(1) less.prems(2-4) by simp
    qed
  qed
qed

lemma db_Next_lands:
  assumes "forward_at st s l i \<or> reverse_at st s l i"
  shows "\<exists>st'. db_Next iops ucmp st = Some st' \<and> landed st' s l (Suc (cnt s l i))"
  using assms
proof
  assume f: "forward_at st s l i"
  then have "op_key iops (di_iter st) = fst (l ! i)" using internal.key_eq by (simp add: forward_at_def core_def)
  moreover have "\<exists>st'. FindNextUserEntry iops ucmp True (SaveKey (uk l i) st) = Some st' \<and> landed st' s l (Suc (cnt s l i))"
    using f by (intro FindNext_skips [of _ _ _ i]) (auto simp: forward_at_def SaveKey_def)
  ultimately show ?thesis using f by (simp add: db_Next_def forward_at_def)
next
  assume r: "reverse_at st s l i"
  then obtain P where P: "core st s l (prior l P)" "saved_at st s l P i" by (auto simp: reverse_at_def)
  have Pi: "P \<le> i" "i < length l" using P(2) by (simp_all add: saved_at_def)
  let ?st = "st\<lparr>di_direction := DB_kForward\<rparr>"
  have c: "core ?st s l (prior l P)" using P(1) by simp
  have "\<exists>it. (if \<not> op_Valid iops (di_iter ?st) then di_move (op_SeekToFirst iops) ?st else di_move (op_Next iops) ?st) =
      Some (?st\<lparr>di_iter := it\<rparr>) \<and> core (?st\<lparr>di_iter := it\<rparr>) s l P"
  proof (cases "P = 0")
    case True
    then have "\<not> op_Valid iops (di_iter ?st)" using core_valid [OF c] by (simp add: prior_def)
    moreover obtain it where "op_SeekToFirst iops (di_iter st) = Some it" "irep it l 0"
      using internal.seek_first_rep P(1) unfolding core_def by blast
    ultimately show ?thesis using c True by (intro exI [of _ it]) (simp add: di_move_def core_def)
  next
    case False
    then have lt: "prior l P < length l" "Suc (prior l P) = P" using Pi by (simp_all add: prior_def)
    with di_move_Next [OF c lt(1)] core_valid [OF c] show ?thesis by simp
  qed
  then obtain it where it: "(if \<not> op_Valid iops (di_iter ?st) then di_move (op_SeekToFirst iops) ?st else di_move (op_Next iops) ?st) =
      Some (?st\<lparr>di_iter := it\<rparr>)" "core (?st\<lparr>di_iter := it\<rparr>) s l P" by blast
  have "op_Valid iops it" using core_valid [OF it(2)] Pi by simp
  then have "db_Next iops ucmp st = FindNextUserEntry iops ucmp True (?st\<lparr>di_iter := it\<rparr>)"
    using r it(1) by (simp add: db_Next_def reverse_at_def Let_def split: if_splits)
  moreover have "\<exists>st'. FindNextUserEntry iops ucmp True (?st\<lparr>di_iter := it\<rparr>) = Some st' \<and> landed st' s l (Suc (cnt s l i))"
    using it(2) Pi P(2) r by (intro FindNext_skips [of _ _ _ P]) (auto simp: saved_at_def reverse_at_def)
  ultimately show ?thesis by simp
qed

lemma db_Prev_lands:
  assumes "forward_at st s l i \<or> reverse_at st s l i"
  shows "\<exists>st'. db_Prev iops ucmp st = Some st' \<and> landed_back st' s l (cnt s l i)"
  using assms
proof
  assume f: "forward_at st s l i"
  then have c: "core (SaveKey (uk l i) st) s l i" and i: "i < length l" "yields s l i" by (simp_all add: forward_at_def SaveKey_def)
  have key: "op_key iops (di_iter st) = fst (l ! i)" using f internal.key_eq by (simp add: forward_at_def core_def)
  have saved: "di_saved_key (SaveKey (uk l i) st) = uk l i" by (simp add: SaveKey_def)
  obtain found st' P where sc: "Prev_scan iops ucmp (SaveKey (uk l i) st) = Some (found, st')" "P \<le> i" "core st' s l (prior l P)"
    "found = (0 < P)" "\<not> found \<longrightarrow> \<not> di_valid st'" "one_key l P i"
    using Prev_scan_lands [OF c order_refl i(1) saved one_key_refl] by (elim exE conjE) (rule that)
  have "cnt s l i = cnt s l P"
  proof (rule cnt_gap [OF sc(2)])
    fix m
    assume "P \<le> m" "m < i"
    then have "uk l m = uk l i" using sc(6) less_imp_le unfolding one_key_def by blast
    with i(2) \<open>m < i\<close> show "\<not> yields s l m" unfolding yields_def by blast
  qed
  then have cn: "cnt s l P = cnt s l i" ..
  show ?thesis
  proof (cases found)
    case True
    have "core (st'\<lparr>di_direction := DB_kReverse\<rparr>) s l (prior l P)" using sc(3) by simp
    from FindPrevUserEntry_lands [OF this] sc(2) i(1) True sc(1) f cn key show ?thesis by (simp add: db_Prev_def forward_at_def)
  next
    case False
    then have "landed_back st' s l (cnt s l i)" using sc(3-5) cn by (auto simp: landed_back_def at_end_def)
    with False sc(1) f key show ?thesis by (simp add: db_Prev_def forward_at_def)
  qed
next
  assume r: "reverse_at st s l i"
  then obtain P where P: "core st s l (prior l P)" "saved_at st s l P i" by (auto simp: reverse_at_def)
  have Pi: "P \<le> i" "i < length l" using P(2) by (simp_all add: saved_at_def)
  have "cnt s l i = cnt s l P" by (rule cnt_gap [OF Pi(1)]) (use P(2) in \<open>auto simp: saved_at_def yields_def\<close>)
  with FindPrevUserEntry_lands [OF P(1)] Pi r show ?thesis by (simp add: db_Prev_def reverse_at_def)
qed

section \<open>Seeking\<close>

lemma seek_forward_lands:
  assumes c: "core st s l p0" and dir: "di_direction st = DB_kForward"
    and f: "\<exists>it. f (di_iter st) = Some it \<and> irep it l p" and hid: "hides s l p False (di_saved_key st)"
  shows "\<exists>st'. seek_forward iops ucmp f st = Some st' \<and> landed st' s l (cnt s l p)"
proof -
  obtain it where it: "f (di_iter st) = Some it" "irep it l p" using f by blast
  let ?st = "st\<lparr>di_iter := it\<rparr>"
  have c': "core ?st s l p" using c it(2) by (simp add: core_def)
  have run: "seek_forward iops ucmp f st = (if p < length l then FindNextUserEntry iops ucmp False ?st else Some (?st\<lparr>di_valid := False\<rparr>))"
    using it(1) core_valid [OF c'] by (simp add: seek_forward_def di_move_def)
  show ?thesis
  proof (cases "p < length l")
    case True
    from FindNext_lands [OF c' True, of False] dir hid run True show ?thesis by simp
  next
    case False
    then have "p = length l" using core_le [OF c'] by simp
    with c' have "landed (?st\<lparr>di_valid := False\<rparr>) s l (cnt s l p)" by (auto simp: landed_def at_end_def)
    with run False show ?thesis by simp
  qed
qed

lemma hides_start: "(\<And>i i'. p \<le> i \<Longrightarrow> i < length l \<Longrightarrow> seen s (fst (l ! i)) \<Longrightarrow> i' < p \<Longrightarrow> seen s (fst (l ! i')) \<Longrightarrow> uk l i' \<noteq> uk l i) \<Longrightarrow>
    hides s l p False skip"
  unfolding hides_def by blast

text \<open>The internal key that a seek looks for divides the seen entries by their user keys.\<close>

lemma seek_divides:
  assumes c: "core st s l p" and s: "s \<le> kMaxSequenceNumber" and t: "uvalid t" and i: "i < length l" "seen s (fst (l ! i))"
  shows "i < lower_bound (InternalKey_Compare ucmp) l (InternalKey_make t s kValueTypeForSeek) \<longleftrightarrow> ucmp (uk l i) t < 0"
proof
  let ?t = "InternalKey_make t s kValueTypeForSeek"
  let ?b = "lower_bound (InternalKey_Compare ucmp) l ?t"
  obtain ikey where k: "ParseInternalKey (fst (l ! i)) = Some ikey" "user_key ikey = uk l i" using core_parse [OF c i(1)] .
  have seq: "sequence ikey \<le> s" using i(2) k by (simp add: seen_def)
  have "ExtractTag (fst (l ! i)) = PackSequenceAndType (sequence ikey) (type ikey)"
    using Append_Parse(1) [OF k(1)] by (metis AppendInternalKey_eq Extract_tagged(2) append_Nil)
  then have tag: "\<not> ExtractTag (fst (l ! i)) > PackSequenceAndType s kValueTypeForSeek"
    using Pack_less_iff [OF s Append_Parse(2) [OF k(1)]] seq
    by (cases "type ikey") (auto simp: kValueTypeForSeek_def less_ValueType_def)
  {
    assume "i < ?b"
    from lower_bound_before [OF this] tag show "ucmp (uk l i) t < 0" by (auto simp: InternalKey_Compare_less)
  next
    assume less: "ucmp (uk l i) t < 0"
    show "i < ?b"
    proof (rule ccontr)
      assume "\<not> i < ?b"
      then have b: "?b \<le> i" "?b < length l" using i(1) by simp_all
      have "\<not> InternalKey_Compare ucmp (fst (l ! ?b)) ?t < 0" by (rule lower_bound_at [OF b(2)])
      then have "\<not> ucmp (uk l ?b) t < 0" by (simp add: InternalKey_Compare_less)
      moreover have "ucmp (uk l ?b) t < 0"
        by (rule user.cmp_le_less_trans [OF core_uvalid [OF c b(2)] core_uvalid [OF c i(1)] t uk_mono [OF c b(1) i(1)] less])
      ultimately show False by simp
    qed
  }
qed

lemma seek_hides:
  assumes "core st s l p" "s \<le> kMaxSequenceNumber" "uvalid t"
  shows "hides s l (lower_bound (InternalKey_Compare ucmp) l (InternalKey_make t s kValueTypeForSeek)) False skip"
proof (rule hides_start)
  let ?b = "lower_bound (InternalKey_Compare ucmp) l (InternalKey_make t s kValueTypeForSeek)"
  fix i i'
  assume *: "?b \<le> i" "i < length l" "seen s (fst (l ! i))" "i' < ?b" "seen s (fst (l ! i'))"
  then have "\<not> ucmp (uk l i) t < 0" "ucmp (uk l i') t < 0"
    using seek_divides [OF assms *(2,3)] seek_divides [OF assms _ *(5)] by simp_all
  then show "uk l i' \<noteq> uk l i" by auto
qed

lemma cnt_lower_bound:
  assumes "core st s l p" "s \<le> kMaxSequenceNumber" "uvalid t"
  defines "b \<equiv> lower_bound (InternalKey_Compare ucmp) l (InternalKey_make t s kValueTypeForSeek)"
  shows "cnt s l b = lower_bound ucmp (user_view s l) t"
proof -
  let ?f = "\<lambda>i. (uk l i, snd (l ! i))"
  let ?P = "\<lambda>(k, v). ucmp k t < 0"
  have "b \<le> length l" by (simp add: b_def lower_bound_le)
  then have "[0..<length l] = [0..<b] @ [b..<length l]" using upt_add_eq_append [of 0 b "length l - b"] by simp
  then have view: "user_view s l = map ?f (filter (yields s l) [0..<b]) @ map ?f (filter (yields s l) [b..<length l])"
    by (simp add: user_view_def)
  have div: "i < b \<longleftrightarrow> ucmp (uk l i) t < 0" if "i < length l" "yields s l i" for i
    using seek_divides [OF assms(1-3) that(1)] that(2) by (simp add: b_def yields_def)
  have "?P x" if x: "x \<in> set (map ?f (filter (yields s l) [0..<b]))" for x
  proof -
    obtain i where "i < b" "yields s l i" "x = ?f i" using x by auto
    then show ?thesis using div [of i] \<open>b \<le> length l\<close> by simp
  qed
  moreover have "takeWhile ?P (map ?f (filter (yields s l) [b..<length l])) = []"
  proof (cases "filter (yields s l) [b..<length l]")
    case (Cons i xs)
    then have "i \<in> set (filter (yields s l) [b..<length l])" by simp
    then have "b \<le> i" "i < length l" "yields s l i" by auto
    then show ?thesis using div [of i] Cons by simp
  qed simp
  moreover have "length (takeWhile ?P (A @ B)) = length A" if "\<And>x. x \<in> set A \<Longrightarrow> ?P x" "takeWhile ?P B = []" for A B
    using that by (simp add: takeWhile_append2)
  ultimately have "length (takeWhile ?P (user_view s l)) = length (map ?f (filter (yields s l) [0..<b]))"
    unfolding view by blast
  then show ?thesis by (simp add: lower_bound_def cnt_def)
qed

section \<open>The contract of the database iterator\<close>

definition db_rep :: "'s db_iterator \<Rightarrow> (bytes \<times> bytes) list \<Rightarrow> nat \<Rightarrow> bool" where
  "db_rep st L j \<longleftrightarrow> (\<exists>s l. s \<le> kMaxSequenceNumber \<and> L = user_view s l \<and>
     ((\<exists>i. (forward_at st s l i \<or> reverse_at st s l i) \<and> j = cnt s l i) \<or> at_end st s l \<and> j = length L))"

lemma landed_rep: "s \<le> kMaxSequenceNumber \<Longrightarrow> landed st s l j \<Longrightarrow> db_rep st (user_view s l) j"
  unfolding db_rep_def landed_def length_user_view by blast

lemma landed_back_rep:
  assumes "s \<le> kMaxSequenceNumber" "landed_back st s l c"
  shows "db_rep st (user_view s l) (if c = 0 then length (user_view s l) else c - 1)"
proof (cases "c = 0")
  case True
  with assms show ?thesis unfolding landed_back_def db_rep_def by auto
next
  case False
  then obtain i where "reverse_at st s l i" "Suc (cnt s l i) = c" using assms(2) unfolding landed_back_def by auto
  then have "db_rep st (user_view s l) (cnt s l i)" using assms(1) unfolding db_rep_def by blast
  moreover have "(if c = 0 then length (user_view s l) else c - 1) = cnt s l i" using \<open>Suc (cnt s l i) = c\<close> by auto
  ultimately show ?thesis by simp
qed

lemma at_entry:
  assumes "forward_at st s l i \<or> reverse_at st s l i"
  shows "i < length l" "yields s l i" "di_valid st" "\<exists>p. core st s l p" "db_key iops st = uk l i" "db_value iops st = snd (l ! i)"
proof -
  have f: "op_key iops (di_iter st) = fst (l ! i)" "op_value iops (di_iter st) = snd (l ! i)" if "forward_at st s l i"
    using that internal.key_eq internal.value_eq by (simp_all add: forward_at_def core_def)
  show "i < length l" "yields s l i" "di_valid st" "\<exists>p. core st s l p" "db_key iops st = uk l i" "db_value iops st = snd (l ! i)"
    using assms f by (auto simp: forward_at_def reverse_at_def saved_at_def db_key_def db_value_def)
qed

lemma db_repE:
  assumes "db_rep st L j"
  obtains s l p where "s \<le> kMaxSequenceNumber" "L = user_view s l" "core st s l p" "j \<le> length L"
    "di_valid st \<longleftrightarrow> j < length L"
    "j < length L \<Longrightarrow> \<exists>i. (forward_at st s l i \<or> reverse_at st s l i) \<and> j = cnt s l i"
proof -
  obtain s l where sl: "s \<le> kMaxSequenceNumber" "L = user_view s l"
    "(\<exists>i. (forward_at st s l i \<or> reverse_at st s l i) \<and> j = cnt s l i) \<or> at_end st s l \<and> j = length L"
    using assms unfolding db_rep_def by blast
  show thesis
    using sl(3)
  proof
    assume "\<exists>i. (forward_at st s l i \<or> reverse_at st s l i) \<and> j = cnt s l i"
    then obtain i where i: "forward_at st s l i \<or> reverse_at st s l i" "j = cnt s l i" by blast
    obtain p where "core st s l p" using at_entry(4) [OF i(1)] by blast
    with sl at_entry(3) [OF i(1)] user_view_nth(1) [OF at_entry(1,2) [OF i(1)]] i show thesis by (intro that [of s l p]) auto
  next
    assume "at_end st s l \<and> j = length L"
    with sl show thesis by (auto simp: at_end_def intro: that [of s l])
  qed
qed

lemma user_view_sorted:
  assumes c: "core st s l p"
  shows "cmp_sorted ucmp (user_view s l)"
proof -
  have less: "ucmp (uk l i) (uk l i') < 0" if "i < i'" "i' < length l" "yields s l i" "yields s l i'" for i i'
  proof -
    have i: "i < length l" using that(1,2) by simp
    have "uk l i \<noteq> uk l i'" using that unfolding yields_def by blast
    then have "ucmp (uk l i) (uk l i') \<noteq> 0" using user.cmp_eq [OF core_uvalid [OF c i] core_uvalid [OF c that(2)]] by blast
    moreover have "ucmp (uk l i) (uk l i') \<le> 0" using uk_mono [OF c, of i i'] that by simp
    ultimately show ?thesis by simp
  qed
  have "sorted_wrt (\<lambda>i i'. i < i') (filter (yields s l) [0..<length l])"
    by (rule sorted_wrt_filter) simp
  then have "sorted_wrt (\<lambda>i i'. ucmp (uk l i) (uk l i') < 0) (filter (yields s l) [0..<length l])"
    by (rule sorted_wrt_mono_rel [rotated]) (use less in auto)
  then show ?thesis by (simp add: cmp_sorted_def user_view_def sorted_wrt_map)
qed

lemma db_iterator: "iterator db_rep ucmp uvalid (db_iter_ops iops ucmp)"
proof
  fix st L j
  assume rep: "db_rep st L j"
  obtain s l p where sl: "s \<le> kMaxSequenceNumber" "L = user_view s l" "core st s l p" "j \<le> length L"
    "di_valid st \<longleftrightarrow> j < length L" "j < length L \<Longrightarrow> \<exists>i. (forward_at st s l i \<or> reverse_at st s l i) \<and> j = cnt s l i"
    using rep by (rule db_repE) blast
  note c = sl(3)
  show "j \<le> length L" by (rule sl(4))
  show "op_Valid (db_iter_ops iops ucmp) st \<longleftrightarrow> j < length L" using sl(5) by (simp add: db_iter_ops_def)
  show "op_status (db_iter_ops iops ucmp) st = OK"
    using c internal.status_ok [of "di_iter st" l p] by (simp add: db_iter_ops_def db_status_def core_def ok_def)
  show "cmp_sorted ucmp L" using user_view_sorted [OF c] by (simp add: sl(2))
  show "uvalid k" if "(k, v) \<in> set L" for k v using that core_uvalid [OF c] by (auto simp: sl(2) user_view_def)
  show "\<exists>st'. op_SeekToFirst (db_iter_ops iops ucmp) st = Some st' \<and> db_rep st' L 0"
  proof -
    let ?st = "ClearSavedValue (st\<lparr>di_direction := DB_kForward\<rparr>)"
    have c': "core ?st s l p" using c by (simp add: ClearSavedValue_def)
    have "\<exists>st'. seek_forward iops ucmp (op_SeekToFirst iops) ?st = Some st' \<and> landed st' s l (cnt s l 0)"
    proof (rule seek_forward_lands [OF c'])
      show "\<exists>it. op_SeekToFirst iops (di_iter ?st) = Some it \<and> irep it l 0"
        using c' internal.seek_first_rep unfolding core_def by blast
      show "hides s l 0 False (di_saved_key ?st)" by (rule hides_start) simp
    qed (simp add: ClearSavedValue_def)
    with landed_rep [OF sl(1)] show ?thesis by (auto simp: db_iter_ops_def db_SeekToFirst_def sl(2))
  qed
  show "\<exists>st'. op_SeekToLast (db_iter_ops iops ucmp) st = Some st' \<and> db_rep st' L (length L - 1)"
  proof -
    let ?st = "ClearSavedValue (st\<lparr>di_direction := DB_kReverse\<rparr>)"
    obtain it where it: "op_SeekToLast iops (di_iter ?st) = Some it" "irep it l (length l - 1)"
      using c internal.seek_last_rep [of "di_iter st" l p] by (auto simp: ClearSavedValue_def core_def)
    have "length l - 1 = prior l (length l)" by (simp add: prior_def)
    then have "core (?st\<lparr>di_iter := it\<rparr>) s l (prior l (length l))" using c it(2) by (simp add: core_def ClearSavedValue_def)
    from FindPrevUserEntry_lands [OF this] obtain st' where st': "FindPrevUserEntry iops ucmp (?st\<lparr>di_iter := it\<rparr>) = Some st'"
      "landed_back st' s l (length L)" by (auto simp: ClearSavedValue_def sl(2) length_user_view)
    have "db_rep st' L (length L - 1)" using landed_back_rep [OF sl(1) st'(2)] by (simp add: sl(2) split: if_splits)
    with st'(1) it(1) show ?thesis by (simp add: db_iter_ops_def db_SeekToLast_def di_move_def)
  qed
  show "\<exists>st'. op_Seek (db_iter_ops iops ucmp) st t = Some st' \<and> db_rep st' L (lower_bound ucmp L t)" if t: "uvalid t" for t
  proof -
    let ?k = "InternalKey_make t s kValueTypeForSeek"
    let ?st = "(ClearSavedValue (st\<lparr>di_direction := DB_kForward\<rparr>))\<lparr>di_saved_key := ?k\<rparr>"
    have c': "core ?st s l p" using c by (simp add: ClearSavedValue_def)
    have k: "internal_valid uvalid ?k" using t by (simp add: internal_valid_def)
    let ?b = "lower_bound (InternalKey_Compare ucmp) l ?k"
    have "\<exists>st'. seek_forward iops ucmp (\<lambda>it. op_Seek iops it ?k) ?st = Some st' \<and> landed st' s l (cnt s l ?b)"
    proof (rule seek_forward_lands [OF c' _ _ seek_hides [OF c sl(1) t]])
      show "\<exists>it. op_Seek iops (di_iter ?st) ?k = Some it \<and> irep it l ?b"
        using c' internal.seek_rep [OF _ k] unfolding core_def by blast
    qed (simp add: ClearSavedValue_def)
    then obtain st' where
      st': "seek_forward iops ucmp (\<lambda>it. op_Seek iops it ?k) ?st = Some st'" "landed st' s l (lower_bound ucmp L t)"
      unfolding cnt_lower_bound [OF c sl(1) t] sl(2) by blast
    have "di_sequence st = s" using c by (simp add: core_def)
    then have "op_Seek (db_iter_ops iops ucmp) st t = Some st'"
      using st'(1) by (simp add: db_iter_ops_def db_Seek_def Let_def InternalKey_make_def ClearSavedValue_def)
    with landed_rep [OF sl(1) st'(2)] show ?thesis by (simp add: sl(2))
  qed
  assume j: "j < length L"
  then obtain i where i: "forward_at st s l i \<or> reverse_at st s l i" "j = cnt s l i" using sl(6) by blast
  note e = at_entry [OF i(1)]
  show "op_key (db_iter_ops iops ucmp) st = fst (L ! j)" "op_value (db_iter_ops iops ucmp) st = snd (L ! j)"
    using user_view_nth(2) [OF e(1,2)] e(5,6) by (simp_all add: db_iter_ops_def sl(2) i(2))
  show "\<exists>st'. op_Next (db_iter_ops iops ucmp) st = Some st' \<and> db_rep st' L (Suc j)"
    using db_Next_lands [OF i(1)] landed_rep [OF sl(1)] by (auto simp: db_iter_ops_def sl(2) i(2))
  show "\<exists>st'. op_Prev (db_iter_ops iops ucmp) st = Some st' \<and> db_rep st' L (if j = 0 then length L else j - 1)"
    using db_Prev_lands [OF i(1)] landed_back_rep [OF sl(1), of _ l j] by (auto simp: db_iter_ops_def sl(2) i(2))
qed

lemma NewDBIterator_rep:
  assumes "irep it l p" "parses l" "s \<le> kMaxSequenceNumber"
  shows "db_rep (NewDBIterator it s seed) (user_view s l) (length (user_view s l))"
proof -
  have "seed_ok (di_rnd (NewDBIterator it s seed))"
    using Random_Next_ok [OF Random_init_ok] by (simp add: NewDBIterator_def period_unat)
  then have "at_end (NewDBIterator it s seed) s l"
    using assms by (auto simp: at_end_def core_def NewDBIterator_def split: prod.splits)
  with assms(3) show ?thesis unfolding db_rep_def by blast
qed

end

end
