(* ===== verification/Merger.thy ===== *)
theory Merger imports Cursor BlockIter "HOL-Library.Multiset" begin

text \<open>
  \<^verbatim>\<open>table/merger.cc\<close>: the merging iterator. It holds a wrapper for every child, the index of the
  current child (the pointer \<open>current_\<close>) and its direction. Over children whose keys differ from each
  other, as internal keys do, it meets the contract of iterators again, over the sorted list of all
  entries; it may be turned around at any position.
\<close>

section \<open>The iterator\<close>

datatype direction = kForward | kReverse

record 's merging =
  mi_children :: "'s wrapper list"
  mi_current :: "nat option"
  mi_direction :: direction

definition MergingIterator_init :: "'s iter_ops \<Rightarrow> 's list \<Rightarrow> 's merging" where
  "MergingIterator_init ops its =
     \<lparr>mi_children = map (\<lambda>it. w_Set ops wrapper_init (Some it)) its, mi_current = None, mi_direction = kForward\<rparr>"

text \<open>The searches keep the first child that is strictly better, in their order of the children.\<close>

definition FindSmallest :: "(bytes \<Rightarrow> bytes \<Rightarrow> int) \<Rightarrow> 's merging \<Rightarrow> 's merging" where
  "FindSmallest cmp st =
     st\<lparr>mi_current := foldl (\<lambda>smallest i. let child = mi_children st ! i in
          if w_valid child
          then (case smallest of None \<Rightarrow> Some i
                | Some s \<Rightarrow> if cmp (w_key child) (w_key (mi_children st ! s)) < 0 then Some i else smallest)
          else smallest) None [0..<length (mi_children st)]\<rparr>"

definition FindLargest :: "(bytes \<Rightarrow> bytes \<Rightarrow> int) \<Rightarrow> 's merging \<Rightarrow> 's merging" where
  "FindLargest cmp st =
     st\<lparr>mi_current := foldl (\<lambda>largest i. let child = mi_children st ! i in
          if w_valid child
          then (case largest of None \<Rightarrow> Some i
                | Some s \<Rightarrow> if cmp (w_key child) (w_key (mi_children st ! s)) > 0 then Some i else largest)
          else largest) None (rev [0..<length (mi_children st)])\<rparr>"

text \<open>The loops over the children; the second argument is the index of the first one.\<close>

fun move_children :: "(nat \<Rightarrow> 's wrapper \<Rightarrow> 's wrapper option) \<Rightarrow> nat \<Rightarrow> 's wrapper list \<Rightarrow> 's wrapper list option" where
  "move_children f i [] = Some []"
| "move_children f i (w # ws) = do { w' \<leftarrow> f i w; ws' \<leftarrow> move_children f (Suc i) ws; Some (w' # ws') }"

definition mi_move_all :: "(nat \<Rightarrow> 's wrapper \<Rightarrow> 's wrapper option) \<Rightarrow> 's merging \<Rightarrow> 's merging option" where
  "mi_move_all f st = do { ws \<leftarrow> move_children f 0 (mi_children st); Some (st\<lparr>mi_children := ws\<rparr>) }"

definition mi_SeekToFirst :: "(bytes \<Rightarrow> bytes \<Rightarrow> int) \<Rightarrow> 's iter_ops \<Rightarrow> 's merging \<Rightarrow> 's merging option" where
  "mi_SeekToFirst cmp ops st =
     do { st \<leftarrow> mi_move_all (\<lambda>_. w_move ops (op_SeekToFirst ops)) st;
          Some ((FindSmallest cmp st)\<lparr>mi_direction := kForward\<rparr>) }"

definition mi_SeekToLast :: "(bytes \<Rightarrow> bytes \<Rightarrow> int) \<Rightarrow> 's iter_ops \<Rightarrow> 's merging \<Rightarrow> 's merging option" where
  "mi_SeekToLast cmp ops st =
     do { st \<leftarrow> mi_move_all (\<lambda>_. w_move ops (op_SeekToLast ops)) st;
          Some ((FindLargest cmp st)\<lparr>mi_direction := kReverse\<rparr>) }"

definition mi_Seek :: "(bytes \<Rightarrow> bytes \<Rightarrow> int) \<Rightarrow> 's iter_ops \<Rightarrow> 's merging \<Rightarrow> bytes \<Rightarrow> 's merging option" where
  "mi_Seek cmp ops st target =
     do { st \<leftarrow> mi_move_all (\<lambda>_. w_move ops (\<lambda>it. op_Seek ops it target)) st;
          Some ((FindSmallest cmp st)\<lparr>mi_direction := kForward\<rparr>) }"

definition mi_key :: "'s merging \<Rightarrow> bytes" where
  "mi_key st = (case mi_current st of None \<Rightarrow> [] | Some c \<Rightarrow> w_key (mi_children st ! c))"

definition mi_value :: "'s iter_ops \<Rightarrow> 's merging \<Rightarrow> bytes" where
  "mi_value ops st = (case mi_current st of None \<Rightarrow> [] | Some c \<Rightarrow> w_value ops (mi_children st ! c))"

text \<open>Turning a child that is not the current one around, as \<open>Next\<close> and \<open>Prev\<close> do it.\<close>

definition turn_forward ::
  "(bytes \<Rightarrow> bytes \<Rightarrow> int) \<Rightarrow> 's iter_ops \<Rightarrow> bytes \<Rightarrow> 's wrapper \<Rightarrow> 's wrapper option" where
  "turn_forward cmp ops key child =
     do { child \<leftarrow> w_move ops (\<lambda>it. op_Seek ops it key) child;
          if w_valid child \<and> cmp key (w_key child) = 0 then w_move ops (op_Next ops) child else Some child }"

definition turn_backward :: "'s iter_ops \<Rightarrow> bytes \<Rightarrow> 's wrapper \<Rightarrow> 's wrapper option" where
  "turn_backward ops key child =
     do { child \<leftarrow> w_move ops (\<lambda>it. op_Seek ops it key) child;
          if w_valid child then w_move ops (op_Prev ops) child else w_move ops (op_SeekToLast ops) child }"

definition mi_move_current :: "('s wrapper \<Rightarrow> 's wrapper option) \<Rightarrow> 's merging \<Rightarrow> 's merging option" where
  "mi_move_current f st =
     (case mi_current st of None \<Rightarrow> None
      | Some c \<Rightarrow> do { w \<leftarrow> f (mi_children st ! c); Some (st\<lparr>mi_children := (mi_children st)[c := w]\<rparr>) })"

definition mi_Next :: "(bytes \<Rightarrow> bytes \<Rightarrow> int) \<Rightarrow> 's iter_ops \<Rightarrow> 's merging \<Rightarrow> 's merging option" where
  "mi_Next cmp ops st =
     do { st \<leftarrow> (if mi_direction st \<noteq> kForward
            then do { st \<leftarrow> mi_move_all (\<lambda>i w. if Some i \<noteq> mi_current st then turn_forward cmp ops (mi_key st) w else Some w) st;
                      Some (st\<lparr>mi_direction := kForward\<rparr>) }
            else Some st);
          st \<leftarrow> mi_move_current (w_move ops (op_Next ops)) st;
          Some (FindSmallest cmp st) }"

definition mi_Prev :: "(bytes \<Rightarrow> bytes \<Rightarrow> int) \<Rightarrow> 's iter_ops \<Rightarrow> 's merging \<Rightarrow> 's merging option" where
  "mi_Prev cmp ops st =
     do { st \<leftarrow> (if mi_direction st \<noteq> kReverse
            then do { st \<leftarrow> mi_move_all (\<lambda>i w. if Some i \<noteq> mi_current st then turn_backward ops (mi_key st) w else Some w) st;
                      Some (st\<lparr>mi_direction := kReverse\<rparr>) }
            else Some st);
          st \<leftarrow> mi_move_current (w_move ops (op_Prev ops)) st;
          Some (FindLargest cmp st) }"

fun first_error :: "status list \<Rightarrow> status" where
  "first_error [] = OK"
| "first_error (s # ss) = (if \<not> ok s then s else first_error ss)"

definition mi_status :: "'s iter_ops \<Rightarrow> 's merging \<Rightarrow> status" where
  "mi_status ops st = first_error (map (w_status ops) (mi_children st))"

definition merging_ops :: "(bytes \<Rightarrow> bytes \<Rightarrow> int) \<Rightarrow> 's iter_ops \<Rightarrow> 's merging iter_ops" where
  "merging_ops cmp ops =
     \<lparr>op_Valid = \<lambda>st. mi_current st \<noteq> None, op_SeekToFirst = mi_SeekToFirst cmp ops, op_SeekToLast = mi_SeekToLast cmp ops,
      op_Seek = mi_Seek cmp ops, op_Next = mi_Next cmp ops, op_Prev = mi_Prev cmp ops, op_key = mi_key, op_value = mi_value ops,
      op_status = mi_status ops\<rparr>"

section \<open>The result of \<open>NewMergingIterator\<close>\<close>

text \<open>Which of its three results it is decides the operations that a virtual call reaches.\<close>

datatype 's merged_iterator = Merged_none empty_iterator | Merged_one 's | Merged_many "'s merging"

definition NewMergingIterator :: "'s iter_ops \<Rightarrow> 's list \<Rightarrow> 's merged_iterator" where
  "NewMergingIterator ops its =
     (case its of [] \<Rightarrow> Merged_none NewEmptyIterator | [it] \<Rightarrow> Merged_one it | _ \<Rightarrow> Merged_many (MergingIterator_init ops its))"

fun merged_move :: "(empty_iterator \<Rightarrow> empty_iterator option) \<Rightarrow> ('s \<Rightarrow> 's option) \<Rightarrow> ('s merging \<Rightarrow> 's merging option)
    \<Rightarrow> 's merged_iterator \<Rightarrow> 's merged_iterator option" where
  "merged_move f g h (Merged_none it) = map_option Merged_none (f it)"
| "merged_move f g h (Merged_one it) = map_option Merged_one (g it)"
| "merged_move f g h (Merged_many it) = map_option Merged_many (h it)"

fun merged_get :: "(empty_iterator \<Rightarrow> 'a) \<Rightarrow> ('s \<Rightarrow> 'a) \<Rightarrow> ('s merging \<Rightarrow> 'a) \<Rightarrow> 's merged_iterator \<Rightarrow> 'a" where
  "merged_get f g h (Merged_none it) = f it"
| "merged_get f g h (Merged_one it) = g it"
| "merged_get f g h (Merged_many it) = h it"

definition merged_ops :: "(bytes \<Rightarrow> bytes \<Rightarrow> int) \<Rightarrow> 's iter_ops \<Rightarrow> 's merged_iterator iter_ops" where
  "merged_ops cmp ops =
     (let m = merging_ops cmp ops in
      \<lparr>op_Valid = merged_get (op_Valid empty_ops) (op_Valid ops) (op_Valid m),
       op_SeekToFirst = merged_move (op_SeekToFirst empty_ops) (op_SeekToFirst ops) (op_SeekToFirst m),
       op_SeekToLast = merged_move (op_SeekToLast empty_ops) (op_SeekToLast ops) (op_SeekToLast m),
       op_Seek = \<lambda>it t. merged_move (\<lambda>it. op_Seek empty_ops it t) (\<lambda>it. op_Seek ops it t) (\<lambda>it. op_Seek m it t) it,
       op_Next = merged_move (op_Next empty_ops) (op_Next ops) (op_Next m),
       op_Prev = merged_move (op_Prev empty_ops) (op_Prev ops) (op_Prev m),
       op_key = merged_get (op_key empty_ops) (op_key ops) (op_key m),
       op_value = merged_get (op_value empty_ops) (op_value ops) (op_value m),
       op_status = merged_get (op_status empty_ops) (op_status ops) (op_status m)\<rparr>)"

section \<open>The merged list and its splits\<close>

text \<open>
  \<open>splits L j l p\<close>: the first \<open>p\<close> entries of the child's list \<open>l\<close> are among the first \<open>j\<close> of the
  merged list, and the others are not.
\<close>

definition splits :: "'a list \<Rightarrow> nat \<Rightarrow> 'a list \<Rightarrow> nat \<Rightarrow> bool" where
  "splits L j l p \<longleftrightarrow> p \<le> length l \<and> set (take p l) \<subseteq> set (take j L) \<and> set (drop p l) \<subseteq> set (drop j L)"

definition before :: "'a list \<Rightarrow> nat \<Rightarrow> nat" where
  "before l p = (if p = 0 then length l else p - 1)"

lemma splits_first: "set l \<subseteq> set L \<Longrightarrow> splits L 0 l 0"
  by (simp add: splits_def)

lemma splits_last: "set l \<subseteq> set L \<Longrightarrow> splits L (length L) l (length l)"
  by (simp add: splits_def)


lemma splits_set: "splits L j l p \<Longrightarrow> set l \<subseteq> set L"
  using set_take_subset [of j L] set_drop_subset [of j L] append_take_drop_id [of p l]
  unfolding splits_def by (metis Un_least set_append subset_trans)

lemma in_take_or_drop: "e \<in> set l \<Longrightarrow> e \<in> set (take n l) \<or> e \<in> set (drop n l)"
  using append_take_drop_id [of n l] by (metis Un_iff set_append)

lemma splits_unique:
  assumes "splits L j l p" "splits L j l q" "distinct L"
  shows "p = q"
proof (rule ccontr)
  have no: "\<not> a < b" if "splits L j l a" "splits L j l b" for a b
  proof
    assume "a < b"
    moreover have "b \<le> length l" using that(2) by (simp add: splits_def)
    ultimately have "l ! a \<in> set (drop a l)" "l ! a \<in> set (take b l)"
      by (simp_all add: Cons_nth_drop_Suc [symmetric]) (metis in_set_conv_nth length_take min.absorb2 nth_take)
    with that have "l ! a \<in> set (take j L) \<inter> set (drop j L)" unfolding splits_def by blast
    with set_take_disj_set_drop_if_distinct [OF assms(3), of j j] show False by blast
  qed
  assume "p \<noteq> q"
  with no [OF assms(1,2)] no [OF assms(2,1)] show False by simp
qed

lemma splits_miss: "splits L j l p \<Longrightarrow> j < length L \<Longrightarrow> L ! j \<notin> set l \<Longrightarrow> splits L (Suc j) l p"
  using set_drop_subset [of p l] Cons_nth_drop_Suc [of j L, symmetric]
  by (auto simp: splits_def take_Suc_conv_app_nth)

lemma disjoint_concat:
  "distinct (concat ls) \<Longrightarrow> a < length ls \<Longrightarrow> b < length ls \<Longrightarrow> e \<in> set (ls ! a) \<Longrightarrow> e \<in> set (ls ! b) \<Longrightarrow> a = b"
proof (induction ls arbitrary: a b)
  case (Cons l ls)
  have apart: "e \<notin> set (ls ! i)" if "i < length ls" "e \<in> set l" for i
  proof -
    have "set l \<inter> \<Union> (set ` set ls) = {}" using Cons.prems(1) by simp
    then show ?thesis using that(2) nth_mem [OF that(1)] by blast
  qed
  show ?case using Cons.prems apart Cons.IH by (cases a; cases b) auto
qed simp

lemma cmp_sorted_nth: "cmp_sorted cmp l \<Longrightarrow> i < j \<Longrightarrow> j < length l \<Longrightarrow> cmp (fst (l ! i)) (fst (l ! j)) < 0"
  unfolding cmp_sorted_def by (rule sorted_wrt_nth_less)

text \<open>Picking the best of the valid children.\<close>

lemma pick_best:
  assumes "\<And>i s j. valid i \<Longrightarrow> valid s \<Longrightarrow> valid j \<Longrightarrow> i \<in> set is \<Longrightarrow> s \<in> set is \<Longrightarrow> j \<in> set is \<Longrightarrow>
      better i s \<Longrightarrow> \<not> better j s \<Longrightarrow> \<not> better j i"
    and "\<And>i. valid i \<Longrightarrow> i \<in> set is \<Longrightarrow> \<not> better i i"
  shows "case foldl (\<lambda>b i. if valid i then (case b of None \<Rightarrow> Some i | Some s \<Rightarrow> if better i s then Some i else b) else b) None is of
      None \<Rightarrow> \<forall>i \<in> set is. \<not> valid i
    | Some c \<Rightarrow> c \<in> set is \<and> valid c \<and> (\<forall>i \<in> set is. valid i \<longrightarrow> \<not> better i c)"
  using assms
proof (induction "is" rule: rev_induct)
  case (snoc i xs)
  have "case foldl (\<lambda>b i. if valid i then (case b of None \<Rightarrow> Some i | Some s \<Rightarrow> if better i s then Some i else b) else b) None xs of
      None \<Rightarrow> \<forall>i \<in> set xs. \<not> valid i
    | Some c \<Rightarrow> c \<in> set xs \<and> valid c \<and> (\<forall>i \<in> set xs. valid i \<longrightarrow> \<not> better i c)"
  proof (rule snoc.IH)
    show "\<not> better j i" if "valid i" "valid s" "valid j" "i \<in> set xs" "s \<in> set xs" "j \<in> set xs" "better i s" "\<not> better j s" for i s j
      using snoc.prems(1) [of i s j] that by simp
    show "\<not> better j j" if "valid j" "j \<in> set xs" for j using snoc.prems(2) [of j] that by simp
  qed
  note IH = this
  let ?b = "foldl (\<lambda>b i. if valid i then (case b of None \<Rightarrow> Some i | Some s \<Rightarrow> if better i s then Some i else b) else b) None xs"
  show ?case
  proof (cases ?b)
    case None
    with IH snoc.prems(2) [of i] show ?thesis by simp
  next
    case (Some c)
    with IH have c: "c \<in> set xs" "valid c" "\<And>j. j \<in> set xs \<Longrightarrow> valid j \<Longrightarrow> \<not> better j c" by simp_all
    have "\<not> better j i" if "valid i" "better i c" "j \<in> set xs" "valid j" for j
      using snoc.prems(1) [of i c j] c that by simp
    with Some c snoc.prems(2) [of i] show ?thesis by (cases "valid i"; cases "better i c") auto
  qed
qed simp

section \<open>The contract\<close>

locale merging_iterator = iterator rep cmp kvalid ops + kc: comparator cmp kvalid
  for rep :: "'s \<Rightarrow> (bytes \<times> bytes) list \<Rightarrow> nat \<Rightarrow> bool" and cmp kvalid ops
begin

definition merge_ok :: "(bytes \<times> bytes) list list \<Rightarrow> (bytes \<times> bytes) list \<Rightarrow> bool" where
  "merge_ok ls L \<longleftrightarrow> cmp_sorted cmp L \<and> mset L = mset (concat ls) \<and> (\<forall>l \<in> set ls. cmp_sorted cmp l) \<and> (\<forall>e \<in> set L. kvalid (fst e))"

lemma merged_less:
  assumes "merge_ok ls L" "a \<in> set (take j L)" "b \<in> set (drop j L)"
  shows "cmp (fst a) (fst b) < 0"
proof -
  have "sorted_wrt (\<lambda>a b. cmp (fst a) (fst b) < 0) (take j L @ drop j L)" using assms(1) by (simp add: merge_ok_def cmp_sorted_def)
  with assms(2,3) show ?thesis by (simp add: sorted_wrt_append del: append_take_drop_id)
qed

lemma merged_nth_le:
  assumes "merge_ok ls L" "j < length L" "e \<in> set (drop j L)" "e \<noteq> L ! j"
  shows "cmp (fst (L ! j)) (fst e) < 0"
proof (rule merged_less [OF assms(1), of _ "Suc j"])
  show "L ! j \<in> set (take (Suc j) L)" using assms(2) by (simp add: take_Suc_conv_app_nth)
  show "e \<in> set (drop (Suc j) L)" using assms(2-4) by (simp add: Cons_nth_drop_Suc [symmetric])
qed

lemma sorted_distinct:
  assumes "cmp_sorted cmp l" "\<forall>e \<in> set l. kvalid (fst e)"
  shows "distinct l"
proof (rule distinct_conv_nth [THEN iffD2], intro allI impI)
  fix i j
  assume ij: "i < length l" "j < length l" "i \<noteq> j"
  have less: "cmp (fst (l ! a)) (fst (l ! b)) < 0" if "a < b" "b < length l" for a b
    using cmp_sorted_nth [OF assms(1) that] .
  have "\<not> cmp (fst (l ! i)) (fst (l ! i)) < 0" using assms(2) ij by (simp add: kc.cmp_irrefl)
  then show "l ! i \<noteq> l ! j" using less [of i j] less [of j i] ij by (cases "i < j") auto
qed

lemma merged_distinct: "merge_ok ls L \<Longrightarrow> distinct L"
  by (simp add: merge_ok_def sorted_distinct)

lemma merged_set: "merge_ok ls L \<Longrightarrow> set L = (\<Union>l \<in> set ls. set l)"
  unfolding merge_ok_def by (metis set_concat set_mset_mset)

lemma merged_child: "merge_ok ls L \<Longrightarrow> c < length ls \<Longrightarrow> set (ls ! c) \<subseteq> set L"
  using merged_set by force

lemma merged_covers:
  assumes "merge_ok ls L" "j < length L"
  shows "\<exists>c < length ls. L ! j \<in> set (ls ! c)"
proof -
  have "L ! j \<in> (\<Union>l \<in> set ls. set l)" using merged_set [OF assms(1)] assms(2) nth_mem by blast
  then show ?thesis by (metis UN_E in_set_conv_nth)
qed

lemma merged_unique:
  assumes "merge_ok ls L" "a < length ls" "b < length ls" "e \<in> set (ls ! a)" "e \<in> set (ls ! b)"
  shows "a = b"
proof (rule disjoint_concat [OF _ assms(2-5)])
  show "distinct (concat ls)"
    using merged_distinct [OF assms(1)] assms(1) mset_eq_imp_distinct_iff unfolding merge_ok_def by blast
qed

lemma lower_bound_nth:
  assumes "merge_ok ls L" "j < length L"
  shows "lower_bound cmp L (fst (L ! j)) = j"
proof (rule lower_bound_unique [symmetric])
  show "j \<le> length L" using assms by simp
  show "cmp (fst (L ! i)) (fst (L ! j)) < 0" if "i < j" for i
    using assms that cmp_sorted_nth [of cmp L i j] by (simp add: merge_ok_def)
  show "\<not> cmp (fst (L ! j)) (fst (L ! j)) < 0" using assms nth_mem by (auto simp: merge_ok_def kc.cmp_irrefl)
qed

lemma splits_seek:
  assumes ok: "merge_ok ls L" and l: "c < length ls" and t: "kvalid t"
  shows "splits L (lower_bound cmp L t) (ls ! c) (lower_bound cmp (ls ! c) t)"
proof -
  let ?l = "ls ! c"
  have sub: "set ?l \<subseteq> set L" by (rule merged_child [OF ok l])
  have srt: "cmp_sorted cmp L" "cmp_sorted cmp ?l" and keys: "\<forall>(k, v) \<in> set L. kvalid k"
    using ok l by (auto simp: merge_ok_def)
  have keysl: "\<forall>(k, v) \<in> set ?l. kvalid k" using keys sub by blast
  have lo: "cmp (fst e) t < 0" if "e \<in> set (take (lower_bound cmp m t) m)" for e m
    using that lower_bound_before [of _ cmp m t] by (auto simp: in_set_conv_nth)
  have hi: "\<not> cmp (fst e) t < 0" if "e \<in> set (drop (lower_bound cmp m t) m)" "cmp_sorted cmp m" "\<forall>(k, v) \<in> set m. kvalid k" for e m
    using that(1) unfolding kc.drop_lower_bound [OF that(2,3) t] by (auto split: prod.splits)
  have part: "e \<in> set (take (lower_bound cmp L t) L) \<or> e \<in> set (drop (lower_bound cmp L t) L)" if "e \<in> set ?l" for e
    by (rule in_take_or_drop) (use that sub in blast)
  have "set (take (lower_bound cmp ?l t) ?l) \<subseteq> set (take (lower_bound cmp L t) L)"
    using part lo [of _ ?l] hi [OF _ srt(1) keys] in_set_takeD by (meson subsetI)
  moreover have "set (drop (lower_bound cmp ?l t) ?l) \<subseteq> set (drop (lower_bound cmp L t) L)"
    using part lo [of _ L] hi [OF _ srt(2) keysl] in_set_dropD by (meson subsetI)
  ultimately show ?thesis by (simp add: splits_def lower_bound_le)
qed

lemma splits_exists:
  assumes "merge_ok ls L" "c < length ls" "j < length L"
  shows "splits L j (ls ! c) (lower_bound cmp (ls ! c) (fst (L ! j)))"
  using splits_seek [OF assms(1,2), of "fst (L ! j)"] lower_bound_nth [OF assms(1,3)] assms by (simp add: merge_ok_def)

lemma splits_hit:
  assumes ok: "merge_ok ls L" and l: "c < length ls" and j: "j < length L" and s: "splits L j (ls ! c) p" and hit: "L ! j \<in> set (ls ! c)"
  shows "p < length (ls ! c)" "ls ! c ! p = L ! j" "splits L (Suc j) (ls ! c) (Suc p)"
proof -
  let ?l = "ls ! c"
  have dl: "distinct ?l" using ok l merged_child [OF ok l] unfolding merge_ok_def by (intro sorted_distinct) auto
  have "L ! j \<in> set (drop j L)" using j by (simp add: Cons_nth_drop_Suc [symmetric])
  then have "L ! j \<notin> set (take p ?l)"
    using s set_take_disj_set_drop_if_distinct [OF merged_distinct [OF ok], of j j] unfolding splits_def by blast
  then have "L ! j \<in> set (drop p ?l)" using hit by (metis append_take_drop_id Un_iff set_append)
  then obtain m where "m < length (drop p ?l)" "drop p ?l ! m = L ! j" unfolding in_set_conv_nth by blast
  then have m: "p + m < length ?l" "L ! j = ?l ! (p + m)" by simp_all
  show p: "p < length ?l" using m by simp
  have "?l ! p \<in> set (drop p ?l)" using p by (simp add: Cons_nth_drop_Suc [symmetric])
  then have ge: "?l ! p \<in> set (drop j L)" using s unfolding splits_def by blast
  show eq: "?l ! p = L ! j"
  proof (rule ccontr)
    assume ne: "?l ! p \<noteq> L ! j"
    then have "0 < m" using m by (cases m) auto
    then have "cmp (fst (?l ! p)) (fst (L ! j)) < 0"
      using ok l m cmp_sorted_nth [of cmp ?l p "p + m"] by (simp add: merge_ok_def)
    moreover have "cmp (fst (L ! j)) (fst (?l ! p)) < 0" by (rule merged_nth_le [OF ok j ge ne])
    moreover have "kvalid (fst (L ! j))" "kvalid (fst (?l ! p))"
      using ok j merged_child [OF ok l] p nth_mem unfolding merge_ok_def by blast+
    ultimately show False using kc.cmp_swap by force
  qed
  have "L ! j \<notin> set (drop (Suc p) ?l)" using dl p eq by (metis Cons_nth_drop_Suc distinct.simps(2) distinct_drop)
  with s p eq j show "splits L (Suc j) ?l (Suc p)"
    unfolding splits_def by (auto simp: take_Suc_conv_app_nth Cons_nth_drop_Suc [symmetric])
qed

lemma splits_back:
  assumes ok: "merge_ok ls L" and l: "c < length ls" and j: "j < length L" and s: "splits L (Suc j) (ls ! c) q"
  shows "if L ! j \<in> set (ls ! c) then 0 < q \<and> ls ! c ! (q - 1) = L ! j \<and> splits L j (ls ! c) (q - 1) else splits L j (ls ! c) q"
proof -
  note e = splits_exists [OF ok l j]
  show ?thesis
  proof (cases "L ! j \<in> set (ls ! c)")
    case True
    note h = splits_hit [OF ok l j e True]
    have "q = Suc (lower_bound cmp (ls ! c) (fst (L ! j)))" by (rule splits_unique [OF s h(3) merged_distinct [OF ok]])
    with True e h show ?thesis by simp
  next
    case False
    with splits_unique [OF s splits_miss [OF e j] merged_distinct [OF ok]] e show ?thesis by simp
  qed
qed

text \<open>The children: their wrappers stand at the positions that a relation allows.\<close>

definition at :: "(nat \<Rightarrow> (bytes \<times> bytes) list \<Rightarrow> nat \<Rightarrow> bool) \<Rightarrow> 's wrapper list \<Rightarrow> (bytes \<times> bytes) list list \<Rightarrow> bool" where
  "at R ws ls \<longleftrightarrow> length ws = length ls \<and> (\<forall>i < length ls. \<exists>p. R i (ls ! i) p \<and> w_rep (ws ! i) (ls ! i) p)"

text \<open>Forward, every child stands at its split; in reverse, at the entry before it.\<close>

definition ahead :: "(bytes \<times> bytes) list \<Rightarrow> nat \<Rightarrow> nat \<Rightarrow> (bytes \<times> bytes) list \<Rightarrow> nat \<Rightarrow> bool" where
  "ahead L j = (\<lambda>_. splits L j)"

definition behind :: "(bytes \<times> bytes) list \<Rightarrow> nat \<Rightarrow> nat \<Rightarrow> (bytes \<times> bytes) list \<Rightarrow> nat \<Rightarrow> bool" where
  "behind L j = (\<lambda>_ l p. \<exists>q. splits L j l q \<and> p = before l q)"

definition merge_rep :: "'s merging \<Rightarrow> (bytes \<times> bytes) list \<Rightarrow> nat \<Rightarrow> bool" where
  "merge_rep st L j \<longleftrightarrow> (\<exists>ls. merge_ok ls L \<and> j \<le> length L \<and> at (\<lambda>_ _ _. True) (mi_children st) ls \<and>
     (if j < length L
      then (\<exists>c < length ls. mi_current st = Some c \<and> L ! j \<in> set (ls ! c)) \<and>
        at (case mi_direction st of kForward \<Rightarrow> ahead L j | kReverse \<Rightarrow> behind L (Suc j)) (mi_children st) ls
      else mi_current st = None))"

lemmas w_laws = iterator.valid_iff [OF wrapped] iterator.key_eq [OF wrapped] iterator.value_eq [OF wrapped] iterator.status_ok [OF wrapped]
  iterator.seek_first_rep [OF wrapped] iterator.seek_last_rep [OF wrapped] iterator.seek_rep [OF wrapped]
  iterator.next_rep [OF wrapped] iterator.prev_rep [OF wrapped]
lemmas wl = w_laws [unfolded wrapper_ops_def, simplified]

lemma at_mono: "at R ws ls \<Longrightarrow> (\<And>i p. i < length ls \<Longrightarrow> R i (ls ! i) p \<Longrightarrow> Q i (ls ! i) p) \<Longrightarrow> at Q ws ls"
  unfolding at_def by blast

lemma at_True: "at R ws ls \<Longrightarrow> at (\<lambda>_ _ _. True) ws ls"
  by (erule at_mono) simp

lemma move_children_ex:
  assumes "\<And>i. i < length ws \<Longrightarrow> \<exists>w'. f (k + i) (ws ! i) = Some w' \<and> P i w'"
  shows "\<exists>ws'. move_children f k ws = Some ws' \<and> length ws' = length ws \<and> (\<forall>i < length ws. P i (ws' ! i))"
  using assms
proof (induction ws arbitrary: k P)
  case (Cons w ws)
  obtain w' where w': "f k w = Some w'" "P 0 w'" using Cons.prems [of 0] by auto
  have "\<exists>w'. f (Suc k + i) (ws ! i) = Some w' \<and> P (Suc i) w'" if "i < length ws" for i
    using Cons.prems [of "Suc i"] that by simp
  from Cons.IH [of "Suc k" "\<lambda>i. P (Suc i)", OF this] obtain ws' where ws': "move_children f (Suc k) ws = Some ws'"
    "length ws' = length ws" "\<forall>i < length ws. P (Suc i) (ws' ! i)" by blast
  with w' show ?case by (auto simp: less_Suc_eq_0_disj)
qed simp

lemma move_all_at:
  assumes "at R (mi_children st) ls"
    and "\<And>i p w. i < length ls \<Longrightarrow> R i (ls ! i) p \<Longrightarrow> w_rep w (ls ! i) p \<Longrightarrow> w = mi_children st ! i \<Longrightarrow>
      \<exists>w' p'. f i w = Some w' \<and> Q i (ls ! i) p' \<and> w_rep w' (ls ! i) p'"
  shows "\<exists>ws'. mi_move_all f st = Some (st\<lparr>mi_children := ws'\<rparr>) \<and> at Q ws' ls"
proof -
  let ?P = "\<lambda>i w'. \<exists>p'. Q i (ls ! i) p' \<and> w_rep w' (ls ! i) p'"
  have len: "length (mi_children st) = length ls" using assms(1) by (simp add: at_def)
  have "\<exists>w'. f (0 + i) (mi_children st ! i) = Some w' \<and> ?P i w'" if "i < length (mi_children st)" for i
  proof -
    have i: "i < length ls" using that len by simp
    then obtain p where "R i (ls ! i) p" "w_rep (mi_children st ! i) (ls ! i) p" using assms(1) unfolding at_def by blast
    from assms(2) [OF i this refl] show ?thesis by auto
  qed
  from move_children_ex [of "mi_children st" f 0 ?P, OF this] obtain ws' where
    "move_children f 0 (mi_children st) = Some ws'" "length ws' = length (mi_children st)"
    "\<forall>i < length (mi_children st). ?P i (ws' ! i)" by blast
  then show ?thesis using len by (auto simp: mi_move_all_def at_def)
qed

lemma move_current_at:
  assumes "at R (mi_children st) ls" "mi_current st = Some c" "c < length ls"
    and "\<And>p. R c (ls ! c) p \<Longrightarrow> w_rep (mi_children st ! c) (ls ! c) p \<Longrightarrow>
      \<exists>w' p'. f (mi_children st ! c) = Some w' \<and> Q c (ls ! c) p' \<and> w_rep w' (ls ! c) p'"
    and "\<And>i p. i < length ls \<Longrightarrow> i \<noteq> c \<Longrightarrow> R i (ls ! i) p \<Longrightarrow> Q i (ls ! i) p"
  shows "\<exists>ws'. mi_move_current f st = Some (st\<lparr>mi_children := ws'\<rparr>) \<and> at Q ws' ls"
proof -
  obtain p where "R c (ls ! c) p" "w_rep (mi_children st ! c) (ls ! c) p" using assms(1,3) by (auto simp: at_def)
  from assms(4) [OF this] obtain w' p' where w': "f (mi_children st ! c) = Some w'" "Q c (ls ! c) p'" "w_rep w' (ls ! c) p'" by blast
  have "at Q ((mi_children st)[c := w']) ls"
    unfolding at_def
  proof (intro conjI allI impI)
    show "length ((mi_children st)[c := w']) = length ls" using assms(1) by (simp add: at_def)
    fix i
    assume i: "i < length ls"
    show "\<exists>p. Q i (ls ! i) p \<and> w_rep ((mi_children st)[c := w'] ! i) (ls ! i) p"
    proof (cases "i = c")
      case True
      with w' assms(1,3) show ?thesis by (auto simp: at_def)
    next
      case False
      obtain p where "R i (ls ! i) p" "w_rep (mi_children st ! i) (ls ! i) p" using assms(1) i by (auto simp: at_def)
      with assms(5) [OF i False] False show ?thesis by auto
    qed
  qed
  with assms(2) w'(1) show ?thesis by (auto simp: mi_move_current_def)
qed

text \<open>The searches find the child of the merged list's next entry.\<close>

lemma picked:
  assumes "case r of None \<Rightarrow> \<forall>i \<in> S. \<not> V i | Some c \<Rightarrow> c \<in> S \<and> V c \<and> (\<forall>i \<in> S. V i \<longrightarrow> \<not> B i c)"
    and "c0 \<in> S" "V c0" "\<And>c. c \<in> S \<Longrightarrow> V c \<Longrightarrow> ent c \<noteq> e \<Longrightarrow> B c0 c"
  shows "\<exists>c \<in> S. r = Some c \<and> V c \<and> ent c = e"
  using assms by (cases r) auto

lemma merged_valid: "merge_ok ls L \<Longrightarrow> e \<in> set L \<Longrightarrow> kvalid (fst e)"
  by (simp add: merge_ok_def)

lemma FindSmallest_ahead:
  assumes ok: "merge_ok ls L" and a: "at (ahead L j) (mi_children st) ls" and j: "j \<le> length L"
  shows "if j < length L then \<exists>c < length ls. mi_current (FindSmallest cmp st) = Some c \<and> L ! j \<in> set (ls ! c)
    else mi_current (FindSmallest cmp st) = None"
proof -
  let ?ws = "mi_children st"
  let ?V = "\<lambda>i. w_valid (?ws ! i)"
  let ?B = "\<lambda>i s. cmp (w_key (?ws ! i)) (w_key (?ws ! s)) < 0"
  let ?S = "set [0..<length ?ws]"
  have len: "length ?ws = length ls" using a by (simp add: at_def)
  obtain p where p: "\<And>i. i < length ls \<Longrightarrow> splits L j (ls ! i) (p i)" "\<And>i. i < length ls \<Longrightarrow> w_rep (?ws ! i) (ls ! i) (p i)"
    using a unfolding at_def ahead_def by metis
  let ?e = "\<lambda>i. ls ! i ! p i"
  have ent: "?e i \<in> set (drop j L)" "?e i \<in> set (ls ! i)" "w_key (?ws ! i) = fst (?e i)" if "i \<in> ?S" "?V i" for i
  proof -
    have i: "i < length ls" using that len by simp
    have lt: "p i < length (ls ! i)" using wl(1) [OF p(2) [OF i]] that(2) by simp
    then have "?e i \<in> set (drop (p i) (ls ! i))" by (simp add: Cons_nth_drop_Suc [symmetric])
    then show "?e i \<in> set (drop j L)" using p(1) [OF i] unfolding splits_def by blast
    show "?e i \<in> set (ls ! i)" using lt by simp
    show "w_key (?ws ! i) = fst (?e i)" using wl(2) [OF p(2) [OF i] lt] .
  qed
  have kv: "kvalid (w_key (?ws ! i))" if "i \<in> ?S" "?V i" for i
    using ent [OF that] merged_valid [OF ok in_set_dropD] by simp
  have cur: "mi_current (FindSmallest cmp st) = foldl (\<lambda>b i. if ?V i
      then (case b of None \<Rightarrow> Some i | Some s \<Rightarrow> if ?B i s then Some i else b) else b) None [0..<length ?ws]"
    by (simp add: FindSmallest_def Let_def)
  have pick: "case mi_current (FindSmallest cmp st) of None \<Rightarrow> \<forall>i \<in> ?S. \<not> ?V i
    | Some c \<Rightarrow> c \<in> ?S \<and> ?V c \<and> (\<forall>i \<in> ?S. ?V i \<longrightarrow> \<not> ?B i c)"
    unfolding cur
  proof (rule pick_best)
    show "\<not> ?B l i" if "?V i" "?V s" "?V l" "i \<in> ?S" "s \<in> ?S" "l \<in> ?S" "?B i s" "\<not> ?B l s" for i s l
      using that kc.cmp_less_trans [OF kv kv kv, of l i s] by blast
    show "\<not> ?B i i" if "?V i" "i \<in> ?S" for i using kc.cmp_irrefl [OF kv] that by blast
  qed
  show ?thesis
  proof (cases "j < length L")
    case True
    obtain c0 where c0: "c0 < length ls" "L ! j \<in> set (ls ! c0)" using merged_covers [OF ok True] by blast
    note hit = splits_hit [OF ok c0(1) True p(1) [OF c0(1)] c0(2)]
    have v0: "?V c0" "c0 \<in> ?S" using wl(1) [OF p(2) [OF c0(1)]] hit(1) c0(1) len by simp_all
    have "\<exists>c \<in> ?S. mi_current (FindSmallest cmp st) = Some c \<and> ?V c \<and> ?e c = L ! j"
    proof (rule picked [OF pick v0(2,1)])
      fix c
      assume c: "c \<in> ?S" "?V c" "?e c \<noteq> L ! j"
      show "?B c0 c" using merged_nth_le [OF ok True ent(1) [OF c(1,2)] c(3)] ent(3) [OF c(1,2)] ent(3) [OF v0(2,1)] hit(2) by simp
    qed
    then obtain c where c: "c \<in> ?S" "mi_current (FindSmallest cmp st) = Some c" "?V c" "?e c = L ! j" by blast
    moreover have "L ! j \<in> set (ls ! c)" using ent(2) [OF c(1,3)] c(4) by simp
    ultimately show ?thesis using True len by auto
  next
    case False
    then have "\<not> ?V i" if "i \<in> ?S" for i using ent(1) [OF that] j by auto
    with pick False show ?thesis by (auto split: option.splits)
  qed
qed

lemma FindLargest_behind:
  assumes ok: "merge_ok ls L" and a: "at (behind L j) (mi_children st) ls" and j: "j \<le> length L"
  shows "if 0 < j then \<exists>c < length ls. mi_current (FindLargest cmp st) = Some c \<and> L ! (j - 1) \<in> set (ls ! c)
    else mi_current (FindLargest cmp st) = None"
proof -
  let ?ws = "mi_children st"
  let ?V = "\<lambda>i. w_valid (?ws ! i)"
  let ?B = "\<lambda>i s. cmp (w_key (?ws ! i)) (w_key (?ws ! s)) > 0"
  let ?S = "set (rev [0..<length ?ws])"
  have len: "length ?ws = length ls" using a by (simp add: at_def)
  obtain q where q: "\<And>i. i < length ls \<Longrightarrow> splits L j (ls ! i) (q i)" "\<And>i. i < length ls \<Longrightarrow> w_rep (?ws ! i) (ls ! i) (before (ls ! i) (q i))"
    using a unfolding at_def behind_def by metis
  let ?e = "\<lambda>i. ls ! i ! (q i - 1)"
  have valid: "?V i \<longleftrightarrow> 0 < q i" if "i \<in> ?S" for i
  proof -
    have i: "i < length ls" using that len by simp
    have "q i \<le> length (ls ! i)" using q(1) [OF i] by (simp add: splits_def)
    then show ?thesis using wl(1) [OF q(2) [OF i]] by (auto simp: before_def)
  qed
  have ent: "?e i \<in> set (take j L)" "?e i \<in> set (ls ! i)" "w_key (?ws ! i) = fst (?e i)" if "i \<in> ?S" "?V i" for i
  proof -
    have i: "i < length ls" using that len by simp
    have pos: "0 < q i" "q i \<le> length (ls ! i)" using valid that q(1) [OF i] by (simp_all add: splits_def)
    then have "?e i \<in> set (take (q i) (ls ! i))" by (auto simp: in_set_conv_nth intro!: exI [of _ "q i - 1"])
    then show "?e i \<in> set (take j L)" using q(1) [OF i] unfolding splits_def by blast
    show "?e i \<in> set (ls ! i)" using pos by (intro nth_mem) simp
    show "w_key (?ws ! i) = fst (?e i)" using wl(2) [OF q(2) [OF i]] pos by (simp add: before_def)
  qed
  have kv: "kvalid (w_key (?ws ! i))" if "i \<in> ?S" "?V i" for i
    using ent [OF that] merged_valid [OF ok in_set_takeD] by simp
  have cur: "mi_current (FindLargest cmp st) = foldl (\<lambda>b i. if ?V i
      then (case b of None \<Rightarrow> Some i | Some s \<Rightarrow> if ?B i s then Some i else b) else b) None (rev [0..<length ?ws])"
    by (simp add: FindLargest_def Let_def)
  have pick: "case mi_current (FindLargest cmp st) of None \<Rightarrow> \<forall>i \<in> ?S. \<not> ?V i
    | Some c \<Rightarrow> c \<in> ?S \<and> ?V c \<and> (\<forall>i \<in> ?S. ?V i \<longrightarrow> \<not> ?B i c)"
    unfolding cur
  proof (rule pick_best)
    show "\<not> ?B l i" if "?V i" "?V s" "?V l" "i \<in> ?S" "s \<in> ?S" "l \<in> ?S" "?B i s" "\<not> ?B l s" for i s l
      using that kc.cmp_less_trans [OF kv kv kv, of s i l] kc.cmp_swap [OF kv kv, of s i] kc.cmp_swap [OF kv kv, of i l]
        kc.cmp_swap [OF kv kv, of s l] by blast
    show "\<not> ?B i i" if "?V i" "i \<in> ?S" for i using kc.cmp_refl [OF kv] that by simp
  qed
  show ?thesis
  proof (cases "0 < j")
    case True
    then obtain j' where j': "j = Suc j'" "j' < length L" using j by (cases j) auto
    obtain c0 where c0: "c0 < length ls" "L ! j' \<in> set (ls ! c0)" using merged_covers [OF ok j'(2)] by blast
    have hit: "0 < q c0" "?e c0 = L ! j'" using splits_back [OF ok c0(1) j'(2) q(1) [OF c0(1), unfolded j'(1)]] c0(2) by simp_all
    have v0: "c0 \<in> ?S" "?V c0" using hit(1) valid [of c0] c0(1) len by simp_all
    have "\<exists>c \<in> ?S. mi_current (FindLargest cmp st) = Some c \<and> ?V c \<and> ?e c = L ! j'"
    proof (rule picked [OF pick v0])
      fix c
      assume c: "c \<in> ?S" "?V c" "?e c \<noteq> L ! j'"
      have "?e c \<in> set (take j' L)" using ent(1) [OF c(1,2)] c(3) j' by (auto simp: take_Suc_conv_app_nth)
      moreover have "L ! j' \<in> set (drop j' L)" using j'(2) by (simp add: Cons_nth_drop_Suc [symmetric])
      ultimately have "cmp (fst (?e c)) (fst (?e c0)) < 0" using merged_less [OF ok] hit(2) by simp
      then show "?B c0 c" using ent(3) [OF c(1,2)] ent(3) [OF v0] kc.cmp_swap [OF kv [OF c(1,2)] kv [OF v0]] by simp
    qed
    then obtain c where c: "c \<in> ?S" "mi_current (FindLargest cmp st) = Some c" "?V c" "?e c = L ! j'" by blast
    moreover have "L ! j' \<in> set (ls ! c)" using ent(2) [OF c(1,3)] c(4) by simp
    ultimately show ?thesis using True len j'(1) by auto
  next
    case False
    then have "\<not> ?V i" if "i \<in> ?S" for i using ent(1) [OF that] by auto
    with pick False show ?thesis by (auto split: option.splits)
  qed
qed

lemma settle_forward:
  assumes "merge_ok ls L" "at (ahead L j) (mi_children st) ls" "j \<le> length L" "mi_direction st = kForward"
  shows "merge_rep (FindSmallest cmp st) L j"
  unfolding merge_rep_def
  using FindSmallest_ahead [OF assms(1-3)] assms at_True [OF assms(2)]
  by (intro exI [of _ ls]) (auto simp: FindSmallest_def split: if_splits)

lemma settle_backward:
  assumes "merge_ok ls L" "at (behind L j) (mi_children st) ls" "j \<le> length L" "mi_direction st = kReverse"
  shows "merge_rep (FindLargest cmp st) L (if j = 0 then length L else j - 1)"
  unfolding merge_rep_def
  using FindLargest_behind [OF assms(1-3)] assms at_True [OF assms(2)]
  by (intro exI [of _ ls]) (cases j; auto simp: FindLargest_def split: if_splits)

lemma FindSmallest_direction: "(FindSmallest cmp st)\<lparr>mi_direction := d\<rparr> = FindSmallest cmp (st\<lparr>mi_direction := d\<rparr>)"
  and FindLargest_direction: "(FindLargest cmp st)\<lparr>mi_direction := d\<rparr> = FindLargest cmp (st\<lparr>mi_direction := d\<rparr>)"
  by (rule merging.equality; simp add: FindSmallest_def FindLargest_def cong: option.case_cong if_cong)+

lemma merge_repE:
  assumes "merge_rep st L j"
  obtains ls where "merge_ok ls L" "j \<le> length L" "at (\<lambda>_ _ _. True) (mi_children st) ls"
  using assms unfolding merge_rep_def by blast

lemma merge_seek:
  assumes rep: "merge_rep st L j" and i: "i \<le> length L"
    and f: "\<And>ls k p w. merge_ok ls L \<Longrightarrow> k < length ls \<Longrightarrow> w_rep w (ls ! k) p \<Longrightarrow>
      \<exists>w' p'. f k w = Some w' \<and> splits L i (ls ! k) p' \<and> w_rep w' (ls ! k) p'"
  shows "\<exists>st'. do { st \<leftarrow> mi_move_all f st; Some ((FindSmallest cmp st)\<lparr>mi_direction := kForward\<rparr>) } = Some st' \<and> merge_rep st' L i"
proof -
  obtain ls where ls: "merge_ok ls L" "at (\<lambda>_ _ _. True) (mi_children st) ls" using rep by (rule merge_repE)
  have "\<exists>ws'. mi_move_all f st = Some (st\<lparr>mi_children := ws'\<rparr>) \<and> at (ahead L i) ws' ls"
    unfolding ahead_def by (rule move_all_at [OF ls(2)]) (rule f [OF ls(1)])
  then obtain ws' where ws': "mi_move_all f st = Some (st\<lparr>mi_children := ws'\<rparr>)" "at (ahead L i) ws' ls" by blast
  have "merge_rep (FindSmallest cmp (st\<lparr>mi_children := ws', mi_direction := kForward\<rparr>)) L i"
    by (rule settle_forward [OF ls(1) _ i]) (use ws'(2) in simp_all)
  then show ?thesis by (simp add: ws'(1) FindSmallest_direction)
qed

lemma merge_SeekToLast:
  assumes rep: "merge_rep st L j"
  shows "\<exists>st'. mi_SeekToLast cmp ops st = Some st' \<and> merge_rep st' L (length L - 1)"
proof -
  obtain ls where ls: "merge_ok ls L" "at (\<lambda>_ _ _. True) (mi_children st) ls" using rep by (rule merge_repE)
  have "\<exists>ws'. mi_move_all (\<lambda>_. w_move ops (op_SeekToLast ops)) st = Some (st\<lparr>mi_children := ws'\<rparr>) \<and> at (behind L (length L)) ws' ls"
  proof (rule move_all_at [OF ls(2)])
    fix i p w
    assume i: "i < length ls" and w: "w_rep w (ls ! i) p"
    obtain w' where w': "w_move ops (op_SeekToLast ops) w = Some w'" "w_rep w' (ls ! i) (length (ls ! i) - 1)" using wl(6) [OF w] by auto
    have "splits L (length L) (ls ! i) (length (ls ! i))" by (rule splits_last [OF merged_child [OF ls(1) i]])
    moreover have "length (ls ! i) - 1 = before (ls ! i) (length (ls ! i))" by (simp add: before_def)
    ultimately have "behind L (length L) i (ls ! i) (length (ls ! i) - 1)" unfolding behind_def by blast
    with w' show "\<exists>w' p'. w_move ops (op_SeekToLast ops) w = Some w' \<and> behind L (length L) i (ls ! i) p' \<and> w_rep w' (ls ! i) p'" by blast
  qed
  then obtain ws' where ws': "mi_move_all (\<lambda>_. w_move ops (op_SeekToLast ops)) st = Some (st\<lparr>mi_children := ws'\<rparr>)"
    "at (behind L (length L)) ws' ls" by blast
  have "merge_rep (FindLargest cmp (st\<lparr>mi_children := ws', mi_direction := kReverse\<rparr>)) L (if length L = 0 then length L else length L - 1)"
    by (rule settle_backward [OF ls(1)]) (use ws'(2) in simp_all)
  moreover have "(if length L = 0 then length L else length L - 1) = length L - 1" by simp
  ultimately show ?thesis by (simp only: mi_SeekToLast_def ws'(1) FindLargest_direction) simp
qed

text \<open>A valid position: the current child, and the others once they face the asked direction.\<close>

lemma merge_rep_current:
  assumes rep: "merge_rep st L j" and j: "j < length L"
  obtains ls c where "merge_ok ls L" "c < length ls" "mi_current st = Some c" "L ! j \<in> set (ls ! c)"
    "at (case mi_direction st of kForward \<Rightarrow> ahead L j | kReverse \<Rightarrow> behind L (Suc j)) (mi_children st) ls"
    "\<And>i. i < length ls \<Longrightarrow> i \<noteq> c \<Longrightarrow> L ! j \<notin> set (ls ! i)"
    "\<exists>p. w_rep (mi_children st ! c) (ls ! c) p \<and> p < length (ls ! c) \<and> ls ! c ! p = L ! j"
proof -
  obtain ls c where *: "merge_ok ls L" "c < length ls" "mi_current st = Some c" "L ! j \<in> set (ls ! c)"
    "at (case mi_direction st of kForward \<Rightarrow> ahead L j | kReverse \<Rightarrow> behind L (Suc j)) (mi_children st) ls"
    using rep j by (auto simp: merge_rep_def)
  have apart: "L ! j \<notin> set (ls ! i)" if "i < length ls" "i \<noteq> c" for i using merged_unique [OF *(1) that(1) *(2) _ *(4)] that by blast
  have "\<exists>p. w_rep (mi_children st ! c) (ls ! c) p \<and> p < length (ls ! c) \<and> ls ! c ! p = L ! j"
  proof (cases "mi_direction st")
    case kForward
    then obtain p where p: "splits L j (ls ! c) p" "w_rep (mi_children st ! c) (ls ! c) p"
      using *(2,5) by (auto simp: at_def ahead_def)
    with splits_hit [OF *(1,2) j p(1) *(4)] show ?thesis by blast
  next
    case kReverse
    then obtain q where q: "splits L (Suc j) (ls ! c) q" "w_rep (mi_children st ! c) (ls ! c) (before (ls ! c) q)"
      using *(2,5) by (auto simp: at_def behind_def)
    have "0 < q \<and> ls ! c ! (q - 1) = L ! j" using splits_back [OF *(1,2) j q(1)] *(4) by simp
    moreover have "q \<le> length (ls ! c)" using q(1) by (simp add: splits_def)
    ultimately show ?thesis using q(2) by (intro exI [of _ "q - 1"]) (auto simp: before_def)
  qed
  with * apart show thesis by (intro that) blast+
qed

lemma merge_key_value:
  assumes "merge_rep st L j" "j < length L"
  shows "mi_key st = fst (L ! j)" "mi_value ops st = snd (L ! j)"
proof -
  obtain ls c p where "mi_current st = Some c" "w_rep (mi_children st ! c) (ls ! c) p" "p < length (ls ! c)" "ls ! c ! p = L ! j"
    by (rule merge_rep_current [OF assms]) blast
  with wl(2,3) [of "mi_children st ! c" "ls ! c" p] show "mi_key st = fst (L ! j)" "mi_value ops st = snd (L ! j)"
    by (simp_all add: mi_key_def mi_value_def)
qed

lemma turn_forward_at:
  assumes ok: "merge_ok ls L" and i: "i < length ls" and j: "j < length L" and apart: "L ! j \<notin> set (ls ! i)" and w: "w_rep w (ls ! i) p"
  shows "\<exists>w' p'. turn_forward cmp ops (fst (L ! j)) w = Some w' \<and> splits L j (ls ! i) p' \<and> w_rep w' (ls ! i) p'"
proof -
  let ?k = "fst (L ! j)"
  let ?p = "lower_bound cmp (ls ! i) ?k"
  have k: "kvalid ?k" using merged_valid [OF ok] j by simp
  obtain w' where w': "w_move ops (\<lambda>it. op_Seek ops it ?k) w = Some w'" "w_rep w' (ls ! i) ?p" using wl(7) [OF w k] by blast
  note s = splits_exists [OF ok i j]
  have "cmp ?k (w_key w') \<noteq> 0" if "w_valid w'"
  proof -
    have lt: "?p < length (ls ! i)" using that wl(1) [OF w'(2)] by simp
    then have "ls ! i ! ?p \<in> set (drop ?p (ls ! i))" "ls ! i ! ?p \<in> set (ls ! i)" by (simp_all add: Cons_nth_drop_Suc [symmetric])
    moreover from this have "ls ! i ! ?p \<in> set (drop j L)" using s unfolding splits_def by blast
    ultimately have "cmp ?k (fst (ls ! i ! ?p)) < 0" using merged_nth_le [OF ok j] apart by metis
    then show ?thesis using wl(2) [OF w'(2) lt] by simp
  qed
  then have "turn_forward cmp ops ?k w = Some w'" by (auto simp: turn_forward_def w'(1))
  with s w'(2) show ?thesis by blast
qed

lemma turn_backward_at:
  assumes ok: "merge_ok ls L" and i: "i < length ls" and j: "j < length L" and apart: "L ! j \<notin> set (ls ! i)" and w: "w_rep w (ls ! i) p"
  shows "\<exists>w' p'. turn_backward ops (fst (L ! j)) w = Some w' \<and> behind L (Suc j) i (ls ! i) p' \<and> w_rep w' (ls ! i) p'"
proof -
  let ?k = "fst (L ! j)"
  let ?p = "lower_bound cmp (ls ! i) ?k"
  have k: "kvalid ?k" using merged_valid [OF ok] j by simp
  obtain w1 where w1: "w_move ops (\<lambda>it. op_Seek ops it ?k) w = Some w1" "w_rep w1 (ls ! i) ?p" using wl(7) [OF w k] by blast
  have s: "splits L (Suc j) (ls ! i) ?p" by (rule splits_miss [OF splits_exists [OF ok i j] j apart])
  have "\<exists>w'. turn_backward ops ?k w = Some w' \<and> w_rep w' (ls ! i) (before (ls ! i) ?p)"
  proof (cases "?p < length (ls ! i)")
    case True
    with wl(9) [OF w1(2) True] wl(1) [OF w1(2)] show ?thesis by (auto simp: turn_backward_def w1(1) before_def)
  next
    case False
    then have "?p = length (ls ! i)" using lower_bound_le [of cmp "ls ! i" ?k] by simp
    with False wl(6) [OF w1(2)] wl(1) [OF w1(2)] show ?thesis by (auto simp: turn_backward_def w1(1) before_def)
  qed
  with s show ?thesis unfolding behind_def by blast
qed

lemma merge_Next:
  assumes rep: "merge_rep st L j" and j: "j < length L"
  shows "\<exists>st'. mi_Next cmp ops st = Some st' \<and> merge_rep st' L (Suc j)"
proof -
  obtain ls c where ls: "merge_ok ls L" "c < length ls" "mi_current st = Some c" "L ! j \<in> set (ls ! c)"
    "at (case mi_direction st of kForward \<Rightarrow> ahead L j | kReverse \<Rightarrow> behind L (Suc j)) (mi_children st) ls"
    and apart: "\<And>i. i < length ls \<Longrightarrow> i \<noteq> c \<Longrightarrow> L ! j \<notin> set (ls ! i)"
    by (rule merge_rep_current [OF rep j]) blast
  have key: "mi_key st = fst (L ! j)" by (rule merge_key_value [OF rep j])
  have turn: "\<exists>ws. (if mi_direction st \<noteq> kForward
      then do { st \<leftarrow> mi_move_all (\<lambda>i w. if Some i \<noteq> mi_current st then turn_forward cmp ops (mi_key st) w else Some w) st;
                Some (st\<lparr>mi_direction := kForward\<rparr>) }
      else Some st) = Some (st\<lparr>mi_children := ws, mi_direction := kForward\<rparr>) \<and> at (ahead L j) ws ls"
  proof (cases "mi_direction st")
    case kForward
    then show ?thesis using ls(5) by (intro exI [of _ "mi_children st"]) simp
  next
    case kReverse
    have "\<exists>ws. mi_move_all (\<lambda>i w. if Some i \<noteq> mi_current st then turn_forward cmp ops (mi_key st) w else Some w) st =
        Some (st\<lparr>mi_children := ws\<rparr>) \<and> at (ahead L j) ws ls"
    proof (rule move_all_at)
      show "at (behind L (Suc j)) (mi_children st) ls" using ls(5) kReverse by simp
      fix i p w
      assume i: "i < length ls" "behind L (Suc j) i (ls ! i) p" "w_rep w (ls ! i) p"
      show "\<exists>w' p'. (if Some i \<noteq> mi_current st then turn_forward cmp ops (mi_key st) w else Some w) = Some w' \<and>
          ahead L j i (ls ! i) p' \<and> w_rep w' (ls ! i) p'"
      proof (cases "i = c")
        case True
        obtain q where q: "splits L (Suc j) (ls ! c) q" "p = before (ls ! c) q" using i(2) True by (auto simp: behind_def)
        have "0 < q \<and> splits L j (ls ! c) (q - 1)" using splits_back [OF ls(1,2) j q(1)] ls(4) by simp
        with True q(2) i(3) ls(3) show ?thesis by (auto simp: ahead_def before_def)
      next
        case False
        from turn_forward_at [OF ls(1) i(1) j apart [OF i(1) False] i(3)] False show ?thesis by (simp add: ls(3) key ahead_def)
      qed
    qed
    with kReverse show ?thesis by auto
  qed
  then obtain ws where ws: "at (ahead L j) ws ls" and turned: "mi_Next cmp ops st =
      do { st \<leftarrow> mi_move_current (w_move ops (op_Next ops)) (st\<lparr>mi_children := ws, mi_direction := kForward\<rparr>); Some (FindSmallest cmp st) }"
    unfolding mi_Next_def by auto
  let ?st = "st\<lparr>mi_children := ws, mi_direction := kForward\<rparr>"
  have "\<exists>ws'. mi_move_current (w_move ops (op_Next ops)) ?st = Some (?st\<lparr>mi_children := ws'\<rparr>) \<and> at (ahead L (Suc j)) ws' ls"
  proof (rule move_current_at [where c = c and R = "ahead L j"])
    fix p
    assume p: "ahead L j c (ls ! c) p" "w_rep (mi_children ?st ! c) (ls ! c) p"
    note h = splits_hit [OF ls(1,2) j p(1) [unfolded ahead_def] ls(4)]
    from wl(8) [OF p(2) h(1)] h(3)
    show "\<exists>w' p'. w_move ops (op_Next ops) (mi_children ?st ! c) = Some w' \<and> ahead L (Suc j) c (ls ! c) p' \<and> w_rep w' (ls ! c) p'"
      by (auto simp: ahead_def)
  next
    fix i p
    assume "i < length ls" "i \<noteq> c" "ahead L j i (ls ! i) p"
    with apart j show "ahead L (Suc j) i (ls ! i) p" unfolding ahead_def by (blast intro: splits_miss)
  qed (use ws ls in simp_all)
  then obtain ws' where ws': "mi_move_current (w_move ops (op_Next ops)) ?st = Some (?st\<lparr>mi_children := ws'\<rparr>)"
    "at (ahead L (Suc j)) ws' ls" by blast
  have "merge_rep (FindSmallest cmp (?st\<lparr>mi_children := ws'\<rparr>)) L (Suc j)"
    by (rule settle_forward [OF ls(1)]) (use ws'(2) j in simp_all)
  then show ?thesis unfolding turned ws'(1) by simp
qed

lemma merge_Prev:
  assumes rep: "merge_rep st L j" and j: "j < length L"
  shows "\<exists>st'. mi_Prev cmp ops st = Some st' \<and> merge_rep st' L (if j = 0 then length L else j - 1)"
proof -
  obtain ls c where ls: "merge_ok ls L" "c < length ls" "mi_current st = Some c" "L ! j \<in> set (ls ! c)"
    "at (case mi_direction st of kForward \<Rightarrow> ahead L j | kReverse \<Rightarrow> behind L (Suc j)) (mi_children st) ls"
    and apart: "\<And>i. i < length ls \<Longrightarrow> i \<noteq> c \<Longrightarrow> L ! j \<notin> set (ls ! i)"
    by (rule merge_rep_current [OF rep j]) blast
  have key: "mi_key st = fst (L ! j)" by (rule merge_key_value [OF rep j])
  have turn: "\<exists>ws. (if mi_direction st \<noteq> kReverse
      then do { st \<leftarrow> mi_move_all (\<lambda>i w. if Some i \<noteq> mi_current st then turn_backward ops (mi_key st) w else Some w) st;
                Some (st\<lparr>mi_direction := kReverse\<rparr>) }
      else Some st) = Some (st\<lparr>mi_children := ws, mi_direction := kReverse\<rparr>) \<and> at (behind L (Suc j)) ws ls"
  proof (cases "mi_direction st")
    case kReverse
    then show ?thesis using ls(5) by (intro exI [of _ "mi_children st"]) simp
  next
    case kForward
    have "\<exists>ws. mi_move_all (\<lambda>i w. if Some i \<noteq> mi_current st then turn_backward ops (mi_key st) w else Some w) st =
        Some (st\<lparr>mi_children := ws\<rparr>) \<and> at (behind L (Suc j)) ws ls"
    proof (rule move_all_at)
      show "at (ahead L j) (mi_children st) ls" using ls(5) kForward by simp
      fix i p w
      assume i: "i < length ls" "ahead L j i (ls ! i) p" "w_rep w (ls ! i) p"
      show "\<exists>w' p'. (if Some i \<noteq> mi_current st then turn_backward ops (mi_key st) w else Some w) = Some w' \<and>
          behind L (Suc j) i (ls ! i) p' \<and> w_rep w' (ls ! i) p'"
      proof (cases "i = c")
        case True
        then have "splits L j (ls ! c) p" using i(2) by (simp add: ahead_def)
        from splits_hit [OF ls(1,2) j this ls(4)] have "behind L (Suc j) c (ls ! c) p"
          unfolding behind_def before_def by (intro exI [of _ "Suc p"]) simp
        with True i(3) ls(3) show ?thesis by auto
      next
        case False
        from turn_backward_at [OF ls(1) i(1) j apart [OF i(1) False] i(3)] False show ?thesis by (simp add: ls(3) key)
      qed
    qed
    with kForward show ?thesis by auto
  qed
  then obtain ws where ws: "at (behind L (Suc j)) ws ls" and turned: "mi_Prev cmp ops st =
      do { st \<leftarrow> mi_move_current (w_move ops (op_Prev ops)) (st\<lparr>mi_children := ws, mi_direction := kReverse\<rparr>); Some (FindLargest cmp st) }"
    unfolding mi_Prev_def by auto
  let ?st = "st\<lparr>mi_children := ws, mi_direction := kReverse\<rparr>"
  have "\<exists>ws'. mi_move_current (w_move ops (op_Prev ops)) ?st = Some (?st\<lparr>mi_children := ws'\<rparr>) \<and> at (behind L j) ws' ls"
  proof (rule move_current_at [where c = c and R = "behind L (Suc j)"])
    fix p
    assume p: "behind L (Suc j) c (ls ! c) p" "w_rep (mi_children ?st ! c) (ls ! c) p"
    then obtain q where q: "splits L (Suc j) (ls ! c) q" "p = before (ls ! c) q" by (auto simp: behind_def)
    have b: "0 < q" "splits L j (ls ! c) (q - 1)" using splits_back [OF ls(1,2) j q(1)] ls(4) by simp_all
    have p1: "p = q - 1" "p < length (ls ! c)" using b(1) q by (auto simp: before_def splits_def)
    have "\<exists>w'. w_move ops (op_Prev ops) (mi_children ?st ! c) = Some w' \<and> w_rep w' (ls ! c) (before (ls ! c) p)"
      using wl(9) [OF p(2) p1(2)] by (simp add: before_def)
    moreover have "behind L j c (ls ! c) (before (ls ! c) p)" using b(2) p1(1) unfolding behind_def by blast
    ultimately show "\<exists>w' p'. w_move ops (op_Prev ops) (mi_children ?st ! c) = Some w' \<and> behind L j c (ls ! c) p' \<and> w_rep w' (ls ! c) p'"
      by blast
  next
    fix i p
    assume i: "i < length ls" "i \<noteq> c" "behind L (Suc j) i (ls ! i) p"
    then obtain q where q: "splits L (Suc j) (ls ! i) q" "p = before (ls ! i) q" by (auto simp: behind_def)
    have "splits L j (ls ! i) q" using splits_back [OF ls(1) i(1) j q(1)] apart [OF i(1,2)] by simp
    with q(2) show "behind L j i (ls ! i) p" unfolding behind_def by blast
  qed (use ws ls in simp_all)
  then obtain ws' where ws': "mi_move_current (w_move ops (op_Prev ops)) ?st = Some (?st\<lparr>mi_children := ws'\<rparr>)"
    "at (behind L j) ws' ls" by blast
  have "merge_rep (FindLargest cmp (?st\<lparr>mi_children := ws'\<rparr>)) L (if j = 0 then length L else j - 1)"
    by (rule settle_backward [OF ls(1)]) (use ws'(2) j in simp_all)
  then show ?thesis unfolding turned ws'(1) by simp
qed

lemma first_error_OK: "(\<And>s. s \<in> set ss \<Longrightarrow> s = OK) \<Longrightarrow> first_error ss = OK"
  by (induction ss) (auto simp: ok_def)

lemma merge_iterator: "iterator merge_rep cmp kvalid (merging_ops cmp ops)"
proof
  fix st L j
  assume rep: "merge_rep st L j"
  obtain ls where ls: "merge_ok ls L" "j \<le> length L" "at (\<lambda>_ _ _. True) (mi_children st) ls" using rep by (rule merge_repE)
  show "j \<le> length L" by (rule ls(2))
  show "cmp_sorted cmp L" using ls(1) by (simp add: merge_ok_def)
  show "kvalid k" if "(k, v) \<in> set L" for k v using merged_valid [OF ls(1) that] by simp
  show "op_Valid (merging_ops cmp ops) st \<longleftrightarrow> j < length L" using rep by (auto simp: merging_ops_def merge_rep_def split: if_splits)
  show "op_status (merging_ops cmp ops) st = OK"
  proof -
    have "w_status ops w = OK" if "w \<in> set (mi_children st)" for w
      using that ls(3) unfolding at_def in_set_conv_nth by (metis wl(4))
    then show ?thesis by (simp add: merging_ops_def mi_status_def) (rule first_error_OK, auto)
  qed
  have "\<exists>w' p'. w_move ops (op_SeekToFirst ops) w = Some w' \<and> splits L 0 (ls ! k) p' \<and> w_rep w' (ls ! k) p'"
    if "merge_ok ls L" "k < length ls" "w_rep w (ls ! k) p" for ls k p w
    using wl(5) [OF that(3)] splits_first [OF merged_child [OF that(1,2)]] by blast
  from merge_seek [OF rep _ this] show "\<exists>st'. op_SeekToFirst (merging_ops cmp ops) st = Some st' \<and> merge_rep st' L 0"
    by (simp add: merging_ops_def mi_SeekToFirst_def)
  show "\<exists>st'. op_SeekToLast (merging_ops cmp ops) st = Some st' \<and> merge_rep st' L (length L - 1)"
    using merge_SeekToLast [OF rep] by (simp add: merging_ops_def)
  show "\<exists>st'. op_Seek (merging_ops cmp ops) st t = Some st' \<and> merge_rep st' L (lower_bound cmp L t)" if t: "kvalid t" for t
  proof -
    have "\<exists>w' p'. w_move ops (\<lambda>it. op_Seek ops it t) w = Some w' \<and> splits L (lower_bound cmp L t) (ls ! k) p' \<and> w_rep w' (ls ! k) p'"
      if "merge_ok ls L" "k < length ls" "w_rep w (ls ! k) p" for ls k p w
      using wl(7) [OF that(3) t] splits_seek [OF that(1,2) t] by blast
    from merge_seek [OF rep lower_bound_le this] show ?thesis by (simp add: merging_ops_def mi_Seek_def)
  qed
  assume j: "j < length L"
  show "op_key (merging_ops cmp ops) st = fst (L ! j)" "op_value (merging_ops cmp ops) st = snd (L ! j)"
    using merge_key_value [OF rep j] by (simp_all add: merging_ops_def)
  show "\<exists>st'. op_Next (merging_ops cmp ops) st = Some st' \<and> merge_rep st' L (Suc j)"
    using merge_Next [OF rep j] by (simp add: merging_ops_def)
  show "\<exists>st'. op_Prev (merging_ops cmp ops) st = Some st' \<and> merge_rep st' L (if j = 0 then length L else j - 1)"
    using merge_Prev [OF rep j] by (simp add: merging_ops_def)
qed

lemma splits_single:
  assumes "merge_ok [l] L" "j \<le> length L"
  shows "splits L j l j"
  using assms(2)
proof (induction j)
  case 0
  show ?case using merged_child [OF assms(1), of 0] by (simp add: splits_first)
next
  case (Suc j)
  then have "L ! j \<in> set l" using merged_covers [OF assms(1), of j] by auto
  with Suc splits_hit(3) [OF assms(1), of 0 j j] show ?case by simp
qed

lemma merge_single:
  assumes "merge_ok [l] L"
  shows "l = L"
proof (rule nth_equalityI)
  show len: "length l = length L" using assms by (simp add: merge_ok_def) (metis size_mset)
  fix j
  assume "j < length l"
  then have j: "j < length L" using len by simp
  then have "L ! j \<in> set l" using merged_covers [OF assms j] by auto
  with splits_hit(2) [OF assms _ j, of 0 j] splits_single [OF assms, of j] j show "l ! j = L ! j" by simp
qed

text \<open>The three results of \<open>NewMergingIterator\<close>.\<close>

fun merged_rep :: "'s merged_iterator \<Rightarrow> (bytes \<times> bytes) list \<Rightarrow> nat \<Rightarrow> bool" where
  "merged_rep (Merged_none it) = empty_rep it"
| "merged_rep (Merged_one it) = rep it"
| "merged_rep (Merged_many it) = merge_rep it"

lemma merged_move_rep:
  assumes "merged_rep it L i"
    and "\<And>e. empty_rep e L i \<Longrightarrow> \<exists>e'. f e = Some e' \<and> empty_rep e' L j"
    and "\<And>c. rep c L i \<Longrightarrow> \<exists>c'. g c = Some c' \<and> rep c' L j"
    and "\<And>m. merge_rep m L i \<Longrightarrow> \<exists>m'. h m = Some m' \<and> merge_rep m' L j"
  shows "\<exists>it'. merged_move f g h it = Some it' \<and> merged_rep it' L j"
proof (cases it)
  case (Merged_none e)
  with assms(1) have "empty_rep e L i" by simp
  from assms(2) [OF this] Merged_none show ?thesis by (metis merged_move.simps(1) merged_rep.simps(1) option.simps(9))
next
  case (Merged_one c)
  with assms(1) have "rep c L i" by simp
  from assms(3) [OF this] Merged_one show ?thesis by (metis merged_move.simps(2) merged_rep.simps(2) option.simps(9))
next
  case (Merged_many m)
  with assms(1) have "merge_rep m L i" by simp
  from assms(4) [OF this] Merged_many show ?thesis by (metis merged_move.simps(3) merged_rep.simps(3) option.simps(9))
qed

lemma merged_iterator: "iterator merged_rep cmp kvalid (merged_ops cmp ops)"
proof
  let ?m = "merging_ops cmp ops"
  note E = empty_it.iterator_axioms [where cmp = cmp and kvalid = kvalid]
  note O = iterator_axioms
  note M = merge_iterator
  fix it L i
  assume r: "merged_rep it L i"
  show "i \<le> length L" using r by (cases it) (auto dest: iterator.rep_le [OF E] iterator.rep_le [OF O] iterator.rep_le [OF M])
  show "op_Valid (merged_ops cmp ops) it \<longleftrightarrow> i < length L"
    using r by (cases it) (auto simp: merged_ops_def Let_def
        dest: iterator.valid_iff [OF E] iterator.valid_iff [OF O] iterator.valid_iff [OF M])
  show "op_status (merged_ops cmp ops) it = OK"
    using r by (cases it) (auto simp: merged_ops_def Let_def
        dest: iterator.status_ok [OF E] iterator.status_ok [OF O] iterator.status_ok [OF M])
  show "cmp_sorted cmp L"
    using r by (cases it) (auto dest: iterator.rep_sorted [OF E] iterator.rep_sorted [OF O] iterator.rep_sorted [OF M])
  show "kvalid k" if "(k, v) \<in> set L" for k v
    using r that by (cases it) (auto dest: iterator.rep_keys [OF E] iterator.rep_keys [OF O] iterator.rep_keys [OF M])
  show "\<exists>it'. op_SeekToFirst (merged_ops cmp ops) it = Some it' \<and> merged_rep it' L 0"
    using merged_move_rep [OF r iterator.seek_first_rep [OF E] iterator.seek_first_rep [OF O] iterator.seek_first_rep [OF M]]
    by (simp add: merged_ops_def Let_def)
  show "\<exists>it'. op_SeekToLast (merged_ops cmp ops) it = Some it' \<and> merged_rep it' L (length L - 1)"
    using merged_move_rep [OF r iterator.seek_last_rep [OF E] iterator.seek_last_rep [OF O] iterator.seek_last_rep [OF M]]
    by (simp add: merged_ops_def Let_def)
  show "\<exists>it'. op_Seek (merged_ops cmp ops) it t = Some it' \<and> merged_rep it' L (lower_bound cmp L t)" if t: "kvalid t" for t
    using merged_move_rep [OF r iterator.seek_rep [OF E _ t] iterator.seek_rep [OF O _ t] iterator.seek_rep [OF M _ t]]
    by (simp add: merged_ops_def Let_def)
  assume i: "i < length L"
  show "op_key (merged_ops cmp ops) it = fst (L ! i)"
    using r i by (cases it) (auto simp: merged_ops_def Let_def
        dest: iterator.key_eq [OF E] iterator.key_eq [OF O] iterator.key_eq [OF M])
  show "op_value (merged_ops cmp ops) it = snd (L ! i)"
    using r i by (cases it) (auto simp: merged_ops_def Let_def
        dest: iterator.value_eq [OF E] iterator.value_eq [OF O] iterator.value_eq [OF M])
  show "\<exists>it'. op_Next (merged_ops cmp ops) it = Some it' \<and> merged_rep it' L (Suc i)"
    using merged_move_rep [OF r iterator.next_rep [OF E _ i] iterator.next_rep [OF O _ i] iterator.next_rep [OF M _ i]]
    by (simp add: merged_ops_def Let_def)
  show "\<exists>it'. op_Prev (merged_ops cmp ops) it = Some it' \<and> merged_rep it' L (if i = 0 then length L else i - 1)"
    using merged_move_rep [OF r iterator.prev_rep [OF E _ i] iterator.prev_rep [OF O _ i] iterator.prev_rep [OF M _ i]]
    by (simp only: merged_ops_def Let_def iter_ops.simps)
qed

lemma NewMergingIterator_rep:
  assumes ch: "list_all2 (\<lambda>it l. rep it l (length l)) its ls" and L: "cmp_sorted cmp L" "mset L = mset (concat ls)"
  shows "merged_rep (NewMergingIterator ops its) L (length L)"
proof -
  have len: "length its = length ls" using ch by (rule list_all2_lengthD)
  have reps: "rep (its ! i) (ls ! i) (length (ls ! i))" if "i < length ls" for i using list_all2_nthD2 [OF ch] that .
  have srt: "cmp_sorted cmp l" "\<forall>e \<in> set l. kvalid (fst e)" if l: "l \<in> set ls" for l
  proof -
    obtain i where i: "i < length ls" "l = ls ! i" using l by (auto simp: in_set_conv_nth)
    show "cmp_sorted cmp l" using rep_sorted [OF reps [OF i(1)]] i(2) by simp
    show "\<forall>e \<in> set l. kvalid (fst e)"
    proof
      fix e
      assume "e \<in> set l"
      then have "(fst e, snd e) \<in> set (ls ! i)" by (simp add: i(2))
      then show "kvalid (fst e)" by (rule rep_keys [OF reps [OF i(1)]])
    qed
  qed
  have "set L = (\<Union>l \<in> set ls. set l)" using L(2) by (metis set_concat set_mset_mset)
  then have ok: "merge_ok ls L" using L srt by (auto simp: merge_ok_def)
  have many: "merge_rep (MergingIterator_init ops its) L (length L)"
    unfolding merge_rep_def
  proof (intro exI [of _ ls] conjI ok)
    show "at (\<lambda>_ _ _. True) (mi_children (MergingIterator_init ops its)) ls"
      using reps len by (auto simp: at_def MergingIterator_init_def intro: w_Set_rep)
  qed (simp_all add: MergingIterator_init_def)
  consider "its = []" | it where "its = [it]" | a b cs where "its = a # b # cs" by (metis list.exhaust)
  then show ?thesis
  proof cases
    case 1
    with len L(2) show ?thesis by (simp add: NewMergingIterator_def empty_rep_def)
  next
    case 2
    then obtain l where l: "ls = [l]" using len by (cases ls) auto
    from reps [of 0] merge_single [OF ok [unfolded l]] 2 show ?thesis by (simp add: NewMergingIterator_def l)
  next
    case 3
    with many show ?thesis by (simp add: NewMergingIterator_def)
  qed
qed

end

interpretation block_merge: merging_iterator bytewise_block.block_rep bytewise_Compare "\<lambda>_. True" "block_ops bytewise_Compare"
  by (intro merging_iterator.intro bytewise_block.block_rep_iterator bytewise.comparator_axioms)

interpretation internal_block_merge: merging_iterator internal_block.block_rep "InternalKey_Compare bytewise_Compare"
    "internal_valid (\<lambda>_. True)" "block_ops (InternalKey_Compare bytewise_Compare)"
  by (intro merging_iterator.intro internal_block.block_rep_iterator bytewise_internal.internal.comparator_axioms)

section \<open>Properties\<close>

text \<open>
  C7. The merging iterator is a cursor in the merged list. Let each child be an iterator, not yet
  positioned, over a sorted list, of an implementation that meets the iterator contract, and let
  \<open>L\<close> be strictly sorted and have exactly the entries of the children (so no key is in two children).
  Then for every sequence of SeekToFirst, SeekToLast, Seek, Next and Prev in which Next and Prev are
  called at valid positions, every call on the result of \<open>NewMergingIterator\<close> returns, and validity,
  key and value after each call are those of a cursor in \<open>L\<close>: for any number of children, and however
  often the direction changes.
\<close>

theorem MergingIterator_is_cursor:
  assumes "iterator rep cmp kvalid ops" "comparator cmp kvalid"
    and "list_all2 (\<lambda>it l. rep it l (length l)) its ls" "cmp_sorted cmp L" "mset L = mset (concat ls)"
    and "targets_valid kvalid ms" "cursor_trace cmp L (length L) ms = Some tr"
  shows "iter_trace (merged_ops cmp ops) (NewMergingIterator ops its) ms = Some tr"
proof -
  note M = merging_iterator.intro [OF assms(1,2)]
  show ?thesis
    using iterator.trace_refines [OF merging_iterator.merged_iterator [OF M]
        merging_iterator.NewMergingIterator_rep [OF M assms(3-5)] assms(7,6)] .
qed

definition small_block :: "(bytes \<times> bytes) list \<Rightarrow> block_iterator" where
  "small_block l = Block_NewIterator (Block_make (snd (BlockBuilder_Finish (build_block 16 l))))"

theorem MergingIterator_is_cursor_witness:
  "iter_trace (merged_ops bytewise_Compare (block_ops bytewise_Compare))
     (NewMergingIterator (block_ops bytewise_Compare) [small_block [([1], [10]), ([3], [30])], small_block [([2], [20])]])
     [To_first, Forward, Backward, Forward, Forward, To_key [1, 5], Backward, Backward] =
   Some [Some ([1], [10]), Some ([2], [20]), Some ([1], [10]), Some ([2], [20]), Some ([3], [30]), Some ([2], [20]), Some ([1], [10]), None]"
proof -
  have rep: "bytewise_block.block_rep (small_block l) l (length l)"
    if "cmp_sorted bytewise_Compare l" "length (snd (BlockBuilder_Finish (build_block 16 l))) < 2 ^ 32"
      "\<forall>(k, v) \<in> set l. length k < 2 ^ 32 \<and> length v < 2 ^ 32" for l
    unfolding small_block_def using that by (intro bytewise_block.built_block_rep) auto
  show ?thesis
  proof (rule MergingIterator_is_cursor [OF bytewise_block.block_rep_iterator bytewise.comparator_axioms,
        where ls = "[[([1], [10]), ([3], [30])], [([2], [20])]]" and L = "[([1], [10]), ([2], [20]), ([3], [30])]"])
    show "list_all2 (\<lambda>it l. bytewise_block.block_rep it l (length l))
        [small_block [([1], [10]), ([3], [30])], small_block [([2], [20])]] [[([1], [10]), ([3], [30])], [([2], [20])]]"
      using rep [of "[([1], [10]), ([3], [30])]"] rep [of "[([2], [20])]"]
      by (simp add: cmp_sorted_def bytewise_Compare_def le_less_trans [OF build_block_size])
  qed (simp_all add: cmp_sorted_def bytewise_Compare_def targets_valid_def cursor_step_def lower_bound_def)
qed

end
