(* ===== verification/Reading.thy ===== *)
theory Reading imports DBIter Merger begin

text \<open>
  Reading the database: the database iterator over any iterator of internal keys, and over the merging
  iterator, as \<^verbatim>\<open>db/db_impl.cc\<close> and \<^verbatim>\<open>db/db_iter.cc\<close> compose them. Both are interpreted on the
  iterators of blocks of internal keys.
\<close>

interpretation block_db: db_iteration internal_block.block_rep bytewise_Compare "\<lambda>_. True"
    "block_ops (InternalKey_Compare bytewise_Compare)"
  by (intro db_iteration.intro internal_block.block_rep_iterator bytewise.total_comparator_axioms)

interpretation merged_block_db: db_iteration internal_block_merge.merged_rep bytewise_Compare "\<lambda>_. True"
    "merged_ops (InternalKey_Compare bytewise_Compare) (block_ops (InternalKey_Compare bytewise_Compare))"
  by (intro db_iteration.intro internal_block_merge.merged_iterator bytewise.total_comparator_axioms)

section \<open>The view, computed along the list\<close>

text \<open>\<open>ks\<close> are the user keys of the seen entries so far.\<close>

fun view_from :: "uint64 \<Rightarrow> bytes list \<Rightarrow> (bytes \<times> bytes) list \<Rightarrow> (bytes \<times> bytes) list" where
  "view_from s ks [] = []"
| "view_from s ks ((k, v) # l) =
     (if seen s k
      then (if is_value k \<and> ExtractUserKey k \<notin> set ks then [(ExtractUserKey k, v)] else []) @ view_from s (ExtractUserKey k # ks) l
      else view_from s ks l)"

lemma yields_Cons:
  "yields s (e # l) 0 \<longleftrightarrow> seen s (fst e) \<and> is_value (fst e)"
  "yields s (e # l) (Suc i) \<longleftrightarrow> yields s l i \<and> \<not> (seen s (fst e) \<and> ExtractUserKey (fst e) = ExtractUserKey (fst (l ! i)))"
  by (auto simp: yields_def less_Suc_eq_0_disj)

lemma view_from_filter:
  "view_from s ks l = map (\<lambda>i. (ExtractUserKey (fst (l ! i)), snd (l ! i)))
     (filter (\<lambda>i. yields s l i \<and> ExtractUserKey (fst (l ! i)) \<notin> set ks) [0..<length l])"
proof (induction s ks l rule: view_from.induct)
  case (2 s ks k v l)
  have upt: "[0..<Suc (length l)] = 0 # map Suc [0..<length l]" by (simp add: map_Suc_upt upt_conv_Cons del: upt_Suc)
  show ?case
  proof (cases "seen s k")
    case True
    have "filter (\<lambda>i. yields s ((k, v) # l) (Suc i) \<and> ExtractUserKey (fst (l ! i)) \<notin> set ks) [0..<length l] =
        filter (\<lambda>i. yields s l i \<and> ExtractUserKey (fst (l ! i)) \<notin> set (ExtractUserKey k # ks)) [0..<length l]"
      by (rule filter_cong) (auto simp: yields_Cons True)
    with 2(1) True show ?thesis by (simp add: upt filter_map comp_def yields_Cons(1) del: upt_Suc)
  next
    case False
    then have "yields s ((k, v) # l) (Suc i) \<longleftrightarrow> yields s l i" for i by (simp add: yields_Cons)
    with 2(2) False show ?thesis by (simp add: upt filter_map comp_def yields_Cons(1) del: upt_Suc)
  qed
qed simp

lemma user_view_code [code]: "user_view s l = view_from s [] l"
  by (simp add: view_from_filter user_view_def)

section \<open>Small blocks of internal keys\<close>

definition older_entries :: "(bytes \<times> bytes) list" where
  "older_entries = [(InternalKey_make [1] 3 kTypeValue, [13]), (InternalKey_make [2] 2 kTypeValue, [22]), (InternalKey_make [4] 1 kTypeValue, [41])]"

definition newer_entries :: "(bytes \<times> bytes) list" where
  "newer_entries = [(InternalKey_make [1] 9 kTypeValue, [19]), (InternalKey_make [1] 5 kTypeValue, [15]), (InternalKey_make [2] 4 kTypeDeletion, [])]"

definition all_versions :: "(bytes \<times> bytes) list" where
  "all_versions = [(InternalKey_make [1] 9 kTypeValue, [19]), (InternalKey_make [1] 5 kTypeValue, [15]), (InternalKey_make [1] 3 kTypeValue, [13]),
     (InternalKey_make [2] 4 kTypeDeletion, []), (InternalKey_make [2] 2 kTypeValue, [22]), (InternalKey_make [4] 1 kTypeValue, [41])]"

lemmas small_versions = older_entries_def newer_entries_def all_versions_def

lemma Parse_make: "s \<le> kMaxSequenceNumber \<Longrightarrow>
    ParseInternalKey (InternalKey_make u s t) = Some \<lparr>user_key = u, sequence = s, type = t\<rparr>"
  using Parse_Append [of "\<lparr>user_key = u, sequence = s, type = t\<rparr>"] by (simp add: InternalKey_make_def)

lemma Compare_make: "s \<le> kMaxSequenceNumber \<Longrightarrow> s' \<le> kMaxSequenceNumber \<Longrightarrow>
    InternalKey_Compare ucmp (InternalKey_make u s t) (InternalKey_make u' s' t') < 0 \<longleftrightarrow>
      ucmp u u' < 0 \<or> ucmp u u' = 0 \<and> (s' < s \<or> s' = s \<and> t' < t)"
  by (simp add: InternalKey_Compare_less Pack_less_iff)

lemma small_versions_ok:
  "cmp_sorted (InternalKey_Compare bytewise_Compare) older_entries" "cmp_sorted (InternalKey_Compare bytewise_Compare) newer_entries"
  "cmp_sorted (InternalKey_Compare bytewise_Compare) all_versions" "mset all_versions = mset (concat [newer_entries, older_entries])"
  "\<forall>(k, v) \<in> set all_versions. ParseInternalKey k \<noteq> None"
  by (simp_all add: small_versions cmp_sorted_def Compare_make Parse_make bytewise_Compare_def kMaxSequenceNumber_value)

lemma small_versions_view: "user_view 5 all_versions = [([1], [15]), ([4], [41])]"
  by (simp add: user_view_code all_versions_def seen_def is_value_def Parse_make kMaxSequenceNumber_value)

lemma small_blocks:
  "list_all2 (\<lambda>it l. internal_block.block_rep it l (length l)) [small_block newer_entries, small_block older_entries]
     [newer_entries, older_entries]"
  "internal_block.block_rep (small_block all_versions) all_versions (length all_versions)"
proof -
  have rep: "internal_block.block_rep (small_block l) l (length l)"
    if "cmp_sorted (InternalKey_Compare bytewise_Compare) l" "length (snd (BlockBuilder_Finish (build_block 16 l))) < 2 ^ 32"
      "\<forall>(k, v) \<in> set l. internal_valid (\<lambda>_. True) k \<and> length k < 2 ^ 32 \<and> length v < 2 ^ 32" for l
    unfolding small_block_def using that by (intro internal_block.built_block_rep) auto
  have size: "length (snd (BlockBuilder_Finish (build_block 16 l))) < 2 ^ 32"
      "\<forall>(k, v) \<in> set l. internal_valid (\<lambda>_. True) k \<and> length k < 2 ^ 32 \<and> length v < 2 ^ 32"
    if "l = newer_entries \<or> l = older_entries \<or> l = all_versions" for l
    using that by (auto simp: small_versions internal_valid_def intro: le_less_trans [OF build_block_size])
  show "list_all2 (\<lambda>it l. internal_block.block_rep it l (length l)) [small_block newer_entries, small_block older_entries]
     [newer_entries, older_entries]"
    "internal_block.block_rep (small_block all_versions) all_versions (length all_versions)"
    using rep [OF small_versions_ok(1) size] rep [OF small_versions_ok(2) size] rep [OF small_versions_ok(3) size] by simp_all
qed

section \<open>Properties\<close>

text \<open>
  C2. The database iterator is a cursor in the view at its sequence number. Over any internal iterator
  that meets the contract, on entries whose keys parse, \<open>DBIter\<close> for sequence number \<open>s\<close> shows a client
  exactly what a cursor in \<open>user_view s l\<close> shows: each user key once and in order, with the value of
  its newest entry that is not newer than \<open>s\<close>, and no key whose newest such entry is a deletion. This
  is so for every sequence of moves with Next and Prev at valid positions, in both directions and
  however often the direction changes, for every seed of the sampling, and every call returns.
\<close>

theorem DBIter_is_cursor:
  assumes "iterator irep (InternalKey_Compare ucmp) (internal_valid uvalid) iops" "total_comparator ucmp uvalid"
    and "irep it l p" "\<forall>(k, v) \<in> set l. ParseInternalKey k \<noteq> None" "s \<le> kMaxSequenceNumber"
    and "targets_valid uvalid ms" "cursor_trace ucmp (user_view s l) (length (user_view s l)) ms = Some tr"
  shows "iter_trace (db_iter_ops iops ucmp) (NewDBIterator it s seed) ms = Some tr"
proof -
  note D = db_iteration.intro [OF assms(1,2)]
  have "db_iteration.parses l" using assms(4) by (simp add: db_iteration.parses_def [OF D])
  from iterator.trace_refines [OF db_iteration.db_iterator [OF D] db_iteration.NewDBIterator_rep [OF D assms(3) this assms(5)]
      assms(7,6)]
  show ?thesis .
qed

theorem DBIter_is_cursor_witness:
  "iter_trace (db_iter_ops (block_ops (InternalKey_Compare bytewise_Compare)) bytewise_Compare)
     (NewDBIterator (small_block all_versions) 5 0) [To_first, Forward, Backward, To_key [2], Forward, To_last, Backward, Backward]
   = Some [Some ([1], [15]), Some ([4], [41]), Some ([1], [15]), Some ([4], [41]), None, Some ([4], [41]), Some ([1], [15]), None]"
proof (rule DBIter_is_cursor [OF internal_block.block_rep_iterator bytewise.total_comparator_axioms small_blocks(2)
      small_versions_ok(5)])
  show "cursor_trace bytewise_Compare (user_view 5 all_versions) (length (user_view 5 all_versions))
      [To_first, Forward, Backward, To_key [2], Forward, To_last, Backward, Backward]
     = Some [Some ([1], [15]), Some ([4], [41]), Some ([1], [15]), Some ([4], [41]), None, Some ([4], [41]), Some ([1], [15]), None]"
    unfolding small_versions_view by (simp add: cursor_step_def lower_bound_def bytewise_Compare_def)
qed (simp_all add: kMaxSequenceNumber_value targets_valid_def)

text \<open>
  C3. Reading across sources. With the internal iterator that merges any number of sources (memtables,
  tables, levels), each meeting the iterator contract, the database iterator shows exactly the view at
  \<open>s\<close> of all their entries together: a newer entry in one source hides the older ones, values and
  deletions, in every other.
\<close>

theorem DBIter_over_merged_sources:
  assumes "iterator rep (InternalKey_Compare ucmp) (internal_valid uvalid) ops" "total_comparator ucmp uvalid"
    and "comparator (InternalKey_Compare ucmp) (internal_valid uvalid)"
    and "list_all2 (\<lambda>it l. rep it l (length l)) its ls" "cmp_sorted (InternalKey_Compare ucmp) L" "mset L = mset (concat ls)"
    and "\<forall>(k, v) \<in> set L. ParseInternalKey k \<noteq> None" "s \<le> kMaxSequenceNumber"
    and "targets_valid uvalid ms" "cursor_trace ucmp (user_view s L) (length (user_view s L)) ms = Some tr"
  shows "iter_trace (db_iter_ops (merged_ops (InternalKey_Compare ucmp) ops) ucmp)
     (NewDBIterator (NewMergingIterator ops its) s seed) ms = Some tr"
proof -
  note M = merging_iterator.intro [OF assms(1,3)]
  note D = db_iteration.intro [OF merging_iterator.merged_iterator [OF M] assms(2)]
  have "db_iteration.parses L" using assms(7) by (simp add: db_iteration.parses_def [OF D])
  from iterator.trace_refines [OF db_iteration.db_iterator [OF D] db_iteration.NewDBIterator_rep [OF D
        merging_iterator.NewMergingIterator_rep [OF M assms(4-6)] this assms(8)] assms(10,9)]
  show ?thesis .
qed

theorem DBIter_over_merged_sources_witness:
  "iter_trace (db_iter_ops (merged_ops (InternalKey_Compare bytewise_Compare) (block_ops (InternalKey_Compare bytewise_Compare)))
       bytewise_Compare)
     (NewDBIterator (NewMergingIterator (block_ops (InternalKey_Compare bytewise_Compare))
        [small_block newer_entries, small_block older_entries]) 5 0) [To_last, Backward, Forward, To_key [2]]
   = Some [Some ([4], [41]), Some ([1], [15]), Some ([4], [41]), Some ([4], [41])]"
proof (rule DBIter_over_merged_sources [OF internal_block.block_rep_iterator bytewise.total_comparator_axioms
      bytewise_internal.internal.comparator_axioms small_blocks(1) small_versions_ok(3,4,5)])
  show "cursor_trace bytewise_Compare (user_view 5 all_versions) (length (user_view 5 all_versions)) [To_last, Backward, Forward, To_key [2]]
     = Some [Some ([4], [41]), Some ([1], [15]), Some ([4], [41]), Some ([4], [41])]"
    unfolding small_versions_view by (simp add: cursor_step_def lower_bound_def bytewise_Compare_def)
qed (simp_all add: kMaxSequenceNumber_value targets_valid_def)

text \<open>
  C36. Sampling always ends. \<open>ParseKey\<close> adds random gaps to its byte counter until it is not negative;
  a gap may be 0, but the generator never gives two such gaps in a row, so from every seed that its
  constructor allows the loop ends, with a counter that is not negative, whatever the entry.
\<close>

theorem DBIter_sampling_ends:
  assumes "seed_ok (di_rnd st)"
  shows "\<exists>ikey st'. ParseKey iops st = Some (ikey, st') \<and> 0 \<le> di_bytes_counter st'"
proof -
  let ?k = "op_key iops (di_iter st)"
  let ?st = "st\<lparr>di_bytes_counter := di_bytes_counter st - int (length ?k + length (op_value iops (di_iter st)))\<rparr>"
  obtain st1 where "Sample_loop ?k ?st = Some st1" "0 \<le> di_bytes_counter st1"
    using Sample_loop_ends [of ?st ?k] assms by auto
  then show ?thesis by (auto simp: ParseKey_def Let_def split: option.split)
qed

theorem DBIter_sampling_ends_witness:
  "\<exists>ikey st'. ParseKey (block_ops (InternalKey_Compare bytewise_Compare)) (NewDBIterator (small_block all_versions) 5 77) =
     Some (ikey, st') \<and> 0 \<le> di_bytes_counter st'"
proof -
  have "seed_ok (di_rnd (NewDBIterator (small_block all_versions) 5 77))"
    using Random_Next_ok [OF Random_init_ok] by (simp add: NewDBIterator_def period_unat)
  then show ?thesis by (rule DBIter_sampling_ends)
qed

end
