(* ===== verification/Version.thy ===== *)
theory Version imports VersionEdit Iterator_Api Complex_Main "HOL-Library.While_Combinator" begin

text \<open>
  \<^verbatim>\<open>db/version_set.cc\<close>, the queries on the files of a version: which files of a level may hold a
  key or overlap a range. Files are shared objects: a \<open>file_ref\<close> stands for a \<open>FileMetaData*\<close>, and the
  first argument \<open>h\<close> of the operations is the store that gives the object behind each of them. Searches
  over sorted files are loops on 32-bit indices, and the scan of level 0 starts again whenever
  the range grows; neither ends for every comparator, so the operations return an option, and it is
  shown that they do return.
\<close>

section \<open>Sizes\<close>

definition kTargetFileSize :: int where "kTargetFileSize = 2 * 1048576"

definition kMaxGrandParentOverlapBytes :: int where
  "kMaxGrandParentOverlapBytes = 10 * kTargetFileSize"

definition kExpandedCompactionByteSizeLimit :: int where
  "kExpandedCompactionByteSizeLimit = 25 * kTargetFileSize"

definition MaxFileSizeForLevel :: "nat \<Rightarrow> uint64" where
  "MaxFileSizeForLevel level = of_int kTargetFileSize"

type_synonym file_ref = nat
type_synonym file_store = "file_ref \<Rightarrow> file_meta"

text \<open>A sum in an \<open>int64_t\<close>, which wraps.\<close>

definition TotalFileSize :: "file_store \<Rightarrow> file_ref list \<Rightarrow> int" where
  "TotalFileSize h files = sint (foldl (\<lambda>sum f. sum + fm_file_size (h f)) (0 :: uint64) files)"

section \<open>Searching the files of a level\<close>

partial_function (option) FindFile_loop ::
  "(bytes \<Rightarrow> bytes \<Rightarrow> int) \<Rightarrow> file_store \<Rightarrow> file_ref list \<Rightarrow> bytes \<Rightarrow> uint32 \<Rightarrow> uint32 \<Rightarrow> uint32 option" where
  "FindFile_loop icmp h files key left right =
     (if left < right
      then let mid = (left + right) div 2; f = h (files ! unat mid)
           in if icmp (fm_largest f) key < 0 then FindFile_loop icmp h files key (mid + 1) right
              else FindFile_loop icmp h files key left mid
      else Some right)"

definition FindFile :: "(bytes \<Rightarrow> bytes \<Rightarrow> int) \<Rightarrow> file_store \<Rightarrow> file_ref list \<Rightarrow> bytes \<Rightarrow> uint32 option" where
  "FindFile icmp h files key = FindFile_loop icmp h files key 0 (of_nat (length files))"

definition AfterFile :: "(bytes \<Rightarrow> bytes \<Rightarrow> int) \<Rightarrow> bytes option \<Rightarrow> file_meta \<Rightarrow> bool" where
  "AfterFile ucmp ukey f =
     (case ukey of None \<Rightarrow> False | Some k \<Rightarrow> ucmp k (ExtractUserKey (fm_largest f)) > 0)"

definition BeforeFile :: "(bytes \<Rightarrow> bytes \<Rightarrow> int) \<Rightarrow> bytes option \<Rightarrow> file_meta \<Rightarrow> bool" where
  "BeforeFile ucmp ukey f =
     (case ukey of None \<Rightarrow> False | Some k \<Rightarrow> ucmp k (ExtractUserKey (fm_smallest f)) < 0)"

fun some_file_overlaps :: "(bytes \<Rightarrow> bytes \<Rightarrow> int) \<Rightarrow> file_store \<Rightarrow> file_ref list \<Rightarrow> bytes option \<Rightarrow> bytes option \<Rightarrow> bool" where
  "some_file_overlaps ucmp h [] smallest largest = False"
| "some_file_overlaps ucmp h (f # files) smallest largest =
     (if AfterFile ucmp smallest (h f) \<or> BeforeFile ucmp largest (h f)
      then some_file_overlaps ucmp h files smallest largest
      else True)"

definition SomeFileOverlapsRange ::
  "(bytes \<Rightarrow> bytes \<Rightarrow> int) \<Rightarrow> file_store \<Rightarrow> bool \<Rightarrow> file_ref list \<Rightarrow> bytes option \<Rightarrow> bytes option \<Rightarrow> bool option" where
  "SomeFileOverlapsRange ucmp h disjoint_sorted_files files smallest_user_key largest_user_key =
     (if \<not> disjoint_sorted_files then Some (some_file_overlaps ucmp h files smallest_user_key largest_user_key)
      else do { index \<leftarrow> (case smallest_user_key of
                    None \<Rightarrow> Some 0
                  | Some k \<Rightarrow> FindFile (InternalKey_Compare ucmp) h files (InternalKey_make k kMaxSequenceNumber kValueTypeForSeek));
                Some (if unat index \<ge> length files then False
                      else \<not> BeforeFile ucmp largest_user_key (h (files ! unat index))) })"

section \<open>The files of a version\<close>

record db_version =
  v_next :: nat
  v_prev :: nat
  v_refs :: int
  v_files :: "file_ref list list"
  v_file_to_compact :: "file_ref option"
  v_file_to_compact_level :: int
  v_compaction_score :: rat
  v_compaction_level :: int

definition Version_init :: "nat \<Rightarrow> db_version" where
  "Version_init self =
     \<lparr>v_next = self, v_prev = self, v_refs = 0, v_files = replicate kNumLevels [], v_file_to_compact = None,
      v_file_to_compact_level = -1, v_compaction_score = -1, v_compaction_level = -1\<rparr>"

definition NumFiles :: "db_version \<Rightarrow> nat \<Rightarrow> nat" where
  "NumFiles v level = length (v_files v ! level)"

definition OverlapInLevel ::
  "(bytes \<Rightarrow> bytes \<Rightarrow> int) \<Rightarrow> file_store \<Rightarrow> db_version \<Rightarrow> nat \<Rightarrow> bytes option \<Rightarrow> bytes option \<Rightarrow> bool option" where
  "OverlapInLevel ucmp h v level smallest_user_key largest_user_key =
     SomeFileOverlapsRange ucmp h (level > 0) (v_files v ! level) smallest_user_key largest_user_key"

text \<open>The comparisons of a user key with an optional bound: \<open>bound != NULL && ...\<close>.\<close>

definition less_bound :: "(bytes \<Rightarrow> bytes \<Rightarrow> int) \<Rightarrow> bytes \<Rightarrow> bytes option \<Rightarrow> bool" where
  "less_bound ucmp k bound = (case bound of None \<Rightarrow> False | Some b \<Rightarrow> ucmp k b < 0)"

definition greater_bound :: "(bytes \<Rightarrow> bytes \<Rightarrow> int) \<Rightarrow> bytes \<Rightarrow> bytes option \<Rightarrow> bool" where
  "greater_bound ucmp k bound = (case bound of None \<Rightarrow> False | Some b \<Rightarrow> ucmp k b > 0)"

text \<open>
  The scan of \<open>GetOverlappingInputs\<close>, one round: its state are the next index, the range and the files
  found. It starts again at file 0 when a file of level 0 extends the range.
\<close>

record overlap_scan =
  os_next :: nat
  os_begin :: "bytes option"
  os_end :: "bytes option"
  os_inputs :: "file_ref list"

definition overlapping_round ::
  "(bytes \<Rightarrow> bytes \<Rightarrow> int) \<Rightarrow> file_store \<Rightarrow> nat \<Rightarrow> file_ref list \<Rightarrow> overlap_scan \<Rightarrow> overlap_scan" where
  "overlapping_round ucmp h level files s =
     (let f = files ! os_next s; s = s\<lparr>os_next := os_next s + 1\<rparr>;
          file_start = ExtractUserKey (fm_smallest (h f)); file_limit = ExtractUserKey (fm_largest (h f))
      in if less_bound ucmp file_limit (os_begin s) then s
         else if greater_bound ucmp file_start (os_end s) then s
         else let s = s\<lparr>os_inputs := os_inputs s @ [f]\<rparr>
           in if level = 0 \<and> less_bound ucmp file_start (os_begin s)
              then s\<lparr>os_begin := Some file_start, os_inputs := [], os_next := 0\<rparr>
              else if level = 0 \<and> greater_bound ucmp file_limit (os_end s)
              then s\<lparr>os_end := Some file_limit, os_inputs := [], os_next := 0\<rparr>
              else s)"

definition GetOverlappingInputs ::
  "(bytes \<Rightarrow> bytes \<Rightarrow> int) \<Rightarrow> file_store \<Rightarrow> db_version \<Rightarrow> nat \<Rightarrow> bytes option \<Rightarrow> bytes option \<Rightarrow> file_ref list option" where
  "GetOverlappingInputs ucmp h v level begin_key end_key =
     map_option os_inputs
       (while_option (\<lambda>s. os_next s < length (v_files v ! level)) (overlapping_round ucmp h level (v_files v ! level))
         \<lparr>os_next = 0, os_begin = map_option ExtractUserKey begin_key, os_end = map_option ExtractUserKey end_key, os_inputs = []\<rparr>)"

definition kMaxMemCompactLevel :: nat where "kMaxMemCompactLevel = 2"

text \<open>The loop of \<open>PickLevelForMemTableOutput\<close>, from \<open>level\<close> on.\<close>

function pick_level_loop ::
  "(bytes \<Rightarrow> bytes \<Rightarrow> int) \<Rightarrow> file_store \<Rightarrow> db_version \<Rightarrow> bytes \<Rightarrow> bytes \<Rightarrow> nat \<Rightarrow> nat option" where
  "pick_level_loop ucmp h v smallest_user_key largest_user_key level =
     (if level < kMaxMemCompactLevel
      then let start = InternalKey_make smallest_user_key kMaxSequenceNumber kValueTypeForSeek;
               limit = InternalKey_make largest_user_key 0 kTypeDeletion
           in case OverlapInLevel ucmp h v (level + 1) (Some smallest_user_key) (Some largest_user_key) of
                None \<Rightarrow> None
              | Some True \<Rightarrow> Some level
              | Some False \<Rightarrow>
                  if level + 2 < kNumLevels
                  then (case GetOverlappingInputs ucmp h v (level + 2) (Some start) (Some limit) of
                          None \<Rightarrow> None
                        | Some overlaps \<Rightarrow>
                            if TotalFileSize h overlaps > kMaxGrandParentOverlapBytes then Some level
                            else pick_level_loop ucmp h v smallest_user_key largest_user_key (level + 1))
                  else pick_level_loop ucmp h v smallest_user_key largest_user_key (level + 1)
      else Some level)"
  by pat_completeness auto
termination by (relation "measure (\<lambda>(_, _, _, _, _, level). kMaxMemCompactLevel - level)") auto

declare pick_level_loop.simps [simp del]

definition PickLevelForMemTableOutput ::
  "(bytes \<Rightarrow> bytes \<Rightarrow> int) \<Rightarrow> file_store \<Rightarrow> db_version \<Rightarrow> bytes \<Rightarrow> bytes \<Rightarrow> nat option" where
  "PickLevelForMemTableOutput ucmp h v smallest_user_key largest_user_key =
     do { overlap \<leftarrow> OverlapInLevel ucmp h v 0 (Some smallest_user_key) (Some largest_user_key);
          if \<not> overlap then pick_level_loop ucmp h v smallest_user_key largest_user_key 0 else Some 0 }"

section \<open>The iterator over the files of a level\<close>

record level_iterator =
  ln_flist :: "file_ref list"
  ln_index :: uint32

definition LevelFileNumIterator_init :: "file_ref list \<Rightarrow> level_iterator" where
  "LevelFileNumIterator_init flist = \<lparr>ln_flist = flist, ln_index = of_nat (length flist)\<rparr>"

definition ln_Valid :: "level_iterator \<Rightarrow> bool" where
  "ln_Valid it \<longleftrightarrow> unat (ln_index it) < length (ln_flist it)"

definition ln_Seek :: "(bytes \<Rightarrow> bytes \<Rightarrow> int) \<Rightarrow> file_store \<Rightarrow> level_iterator \<Rightarrow> bytes \<Rightarrow> level_iterator option" where
  "ln_Seek icmp h it target =
     do { index \<leftarrow> FindFile icmp h (ln_flist it) target; Some (it\<lparr>ln_index := index\<rparr>) }"

definition ln_SeekToFirst :: "level_iterator \<Rightarrow> level_iterator" where
  "ln_SeekToFirst it = it\<lparr>ln_index := 0\<rparr>"

definition ln_SeekToLast :: "level_iterator \<Rightarrow> level_iterator" where
  "ln_SeekToLast it = it\<lparr>ln_index := (if ln_flist it = [] then 0 else of_nat (length (ln_flist it) - 1))\<rparr>"

definition ln_Next :: "level_iterator \<Rightarrow> level_iterator" where
  "ln_Next it = it\<lparr>ln_index := ln_index it + 1\<rparr>"

definition ln_Prev :: "level_iterator \<Rightarrow> level_iterator" where
  "ln_Prev it = it\<lparr>ln_index := (if ln_index it = 0 then of_nat (length (ln_flist it)) else ln_index it - 1)\<rparr>"

definition ln_key :: "file_store \<Rightarrow> level_iterator \<Rightarrow> bytes" where
  "ln_key h it = fm_largest (h (ln_flist it ! unat (ln_index it)))"

definition ln_value :: "file_store \<Rightarrow> level_iterator \<Rightarrow> bytes" where
  "ln_value h it =
     (let f = h (ln_flist it ! unat (ln_index it)) in EncodeFixed64 (fm_number f) @ EncodeFixed64 (fm_file_size f))"

definition level_ops :: "(bytes \<Rightarrow> bytes \<Rightarrow> int) \<Rightarrow> file_store \<Rightarrow> level_iterator iter_ops" where
  "level_ops icmp h =
     \<lparr>op_Valid = ln_Valid, op_SeekToFirst = Some \<circ> ln_SeekToFirst, op_SeekToLast = Some \<circ> ln_SeekToLast,
      op_Seek = ln_Seek icmp h, op_Next = Some \<circ> ln_Next, op_Prev = Some \<circ> ln_Prev,
      op_key = ln_key h, op_value = ln_value h, op_status = \<lambda>_. OK\<rparr>"

section \<open>Debug output\<close>

definition Version_DebugString :: "file_store \<Rightarrow> db_version \<Rightarrow> string" where
  "Version_DebugString h v =
     concat (map (\<lambda>level.
       ''--- level '' @ NumberToString (of_nat level) @ '' ---'' @ [CHR 0x0A]
       @ concat (map (\<lambda>f. '' '' @ NumberToString (fm_number (h f)) @ '':'' @ NumberToString (fm_file_size (h f)) @ ''[''
            @ InternalKey_DebugString (fm_smallest (h f)) @ '' .. '' @ InternalKey_DebugString (fm_largest (h f)) @ '']'' @ [CHR 0x0A])
          (v_files v ! level)))
       [0..<kNumLevels])"

section \<open>Sorted files\<close>

text \<open>
  The keys of a file parse and delimit a range; the files of a level above 0 have disjoint ranges in
  increasing order.
\<close>

definition proper_key :: "(bytes \<Rightarrow> bool) \<Rightarrow> bytes \<Rightarrow> bool" where
  "proper_key uvalid k \<longleftrightarrow> uvalid (ExtractUserKey k) \<and> ParseInternalKey k \<noteq> None"

definition file_ok :: "(bytes \<Rightarrow> bytes \<Rightarrow> int) \<Rightarrow> (bytes \<Rightarrow> bool) \<Rightarrow> file_meta \<Rightarrow> bool" where
  "file_ok ucmp uvalid f \<longleftrightarrow>
     proper_key uvalid (fm_smallest f) \<and> proper_key uvalid (fm_largest f)
     \<and> InternalKey_Compare ucmp (fm_smallest f) (fm_largest f) \<le> 0"

definition level_ok :: "(bytes \<Rightarrow> bytes \<Rightarrow> int) \<Rightarrow> (bytes \<Rightarrow> bool) \<Rightarrow> file_store \<Rightarrow> file_ref list \<Rightarrow> bool" where
  "level_ok ucmp uvalid h files \<longleftrightarrow>
     (\<forall>f \<in> set files. file_ok ucmp uvalid (h f))
     \<and> sorted_wrt (\<lambda>f g. InternalKey_Compare ucmp (fm_largest (h f)) (fm_smallest (h g)) < 0) files"

definition level_entries :: "file_store \<Rightarrow> file_ref list \<Rightarrow> (bytes \<times> bytes) list" where
  "level_entries h files = map (\<lambda>f. (fm_largest (h f), EncodeFixed64 (fm_number (h f)) @ EncodeFixed64 (fm_file_size (h f)))) files"

lemma level_entries_nth [simp]:
  "i < length files \<Longrightarrow> fst (level_entries h files ! i) = fm_largest (h (files ! i))"
  "length (level_entries h files) = length files"
  by (simp_all add: level_entries_def)

lemma proper_key_valid: "proper_key uvalid k \<Longrightarrow> internal_valid uvalid k"
  by (auto simp: proper_key_def internal_valid_def ParseInternalKey_def split: if_splits)

lemma proper_key_tag: "proper_key uvalid k \<Longrightarrow> ExtractTag k \<le> PackSequenceAndType kMaxSequenceNumber kValueTypeForSeek"
proof -
  assume "proper_key uvalid k"
  then obtain key where key: "ParseInternalKey k = Some key" by (auto simp: proper_key_def)
  from Append_Parse [OF key] have "ExtractTag k = PackSequenceAndType (sequence key) (type key)" "sequence key \<le> kMaxSequenceNumber"
    by (metis AppendInternalKey_eq Extract_tagged(2) append_Nil, simp)
  then show ?thesis using Pack_max by (simp add: kValueTypeForSeek_def)
qed

lemma proper_key_make: "uvalid k \<Longrightarrow> s \<le> kMaxSequenceNumber \<Longrightarrow> proper_key uvalid (InternalKey_make k s t)"
  by (simp add: proper_key_def InternalKey_make_def Parse_Append) (simp add: AppendInternalKey_eq)

context user_key_comparator
begin

abbreviation icmp :: "bytes \<Rightarrow> bytes \<Rightarrow> int" where "icmp \<equiv> InternalKey_Compare ucmp"

lemma file_ok_valid:
  "file_ok ucmp uvalid f \<Longrightarrow> internal_valid uvalid (fm_smallest f)" "file_ok ucmp uvalid f \<Longrightarrow> internal_valid uvalid (fm_largest f)"
  by (simp_all add: file_ok_def proper_key_valid)

lemma file_ok_user:
  assumes "file_ok ucmp uvalid f"
  shows "uvalid (ExtractUserKey (fm_smallest f))" "uvalid (ExtractUserKey (fm_largest f))"
    "ucmp (ExtractUserKey (fm_smallest f)) (ExtractUserKey (fm_largest f)) \<le> 0"
  using assms by (auto simp: file_ok_def proper_key_def InternalKey_Compare_le)

lemma lower_bound_iff:
  assumes "cmp_sorted icmp l" "\<forall>(k, v) \<in> set l. internal_valid uvalid k" "internal_valid uvalid t" "i < length l"
  shows "icmp (fst (l ! i)) t < 0 \<longleftrightarrow> i < lower_bound icmp l t"
proof
  show "icmp (fst (l ! i)) t < 0" if "i < lower_bound icmp l t" using lower_bound_before [OF that] .
  assume less: "icmp (fst (l ! i)) t < 0"
  show "i < lower_bound icmp l t"
  proof (rule ccontr)
    assume "\<not> i < lower_bound icmp l t"
    then have j: "lower_bound icmp l t \<le> i" by simp
    let ?j = "lower_bound icmp l t"
    have v: "internal_valid uvalid (fst (l ! i))" "internal_valid uvalid (fst (l ! ?j))"
      using assms(2,4) j nth_mem [of i l] nth_mem [of ?j l] by (auto simp: case_prod_beta)
    have "icmp (fst (l ! ?j)) (fst (l ! i)) \<le> 0"
      using assms(1,4) j sorted_wrt_nth_less [of "\<lambda>a b. icmp (fst a) (fst b) < 0" l ?j i] internal.cmp_refl [OF v(1)]
      by (cases "?j = i") (auto simp: cmp_sorted_def)
    from internal.cmp_le_less_trans [OF v(2,1) assms(3) this less] lower_bound_at [of icmp l t] assms(4) j
    show False by simp
  qed
qed

lemma level_ok_entries:
  assumes "level_ok ucmp uvalid h files"
  shows "cmp_sorted icmp (level_entries h files)" "\<forall>(k, v) \<in> set (level_entries h files). internal_valid uvalid k"
proof -
  have ok: "\<forall>f \<in> set files. file_ok ucmp uvalid (h f)"
    and srt: "sorted_wrt (\<lambda>f g. icmp (fm_largest (h f)) (fm_smallest (h g)) < 0) files"
    using assms by (simp_all add: level_ok_def)
  show "\<forall>(k, v) \<in> set (level_entries h files). internal_valid uvalid k"
    using ok by (auto simp: level_entries_def file_ok_valid)
  have "sorted_wrt (\<lambda>f g. icmp (fm_largest (h f)) (fm_largest (h g)) < 0) files"
  proof (rule sorted_wrt_mono_rel [OF _ srt])
    fix f g
    assume "f \<in> set files" "g \<in> set files" "icmp (fm_largest (h f)) (fm_smallest (h g)) < 0"
    then show "icmp (fm_largest (h f)) (fm_largest (h g)) < 0"
      using ok internal.cmp_less_le_trans [of "fm_largest (h f)" "fm_smallest (h g)" "fm_largest (h g)"]
      by (auto simp: file_ok_valid file_ok_def [of _ _ "h g"])
  qed
  then show "cmp_sorted icmp (level_entries h files)"
    by (simp add: cmp_sorted_def level_entries_def sorted_wrt_map)
qed

end

section \<open>The binary search\<close>

lemma mid_bounds:
  fixes l r :: uint32
  assumes "l < r" "unat r < 2 ^ 31"
  shows "unat ((l + r) div 2) = (unat l + unat r) div 2" "unat ((l + r) div 2 + 1) = (unat l + unat r) div 2 + 1"
proof -
  have less: "unat l < unat r" using assms(1) by (simp add: word_less_nat_alt)
  with assms(2) have sum: "unat (l + r) = unat l + unat r" by (simp add: unat_word_ariths)
  then show mid: "unat ((l + r) div 2) = (unat l + unat r) div 2" by (simp add: unat_div_distrib)
  then show "unat ((l + r) div 2 + 1) = (unat l + unat r) div 2 + 1"
    using less assms(2) by (simp add: unat_word_ariths)
qed

context user_key_comparator
begin

lemma FindFile_loop_lower_bound:
  assumes srt: "cmp_sorted icmp (level_entries h files)" "\<forall>(k, v) \<in> set (level_entries h files). internal_valid uvalid k"
    and key: "internal_valid uvalid key" and small: "length files < 2 ^ 31"
    and inv: "unat left \<le> lower_bound icmp (level_entries h files) key" "lower_bound icmp (level_entries h files) key \<le> unat right"
      "unat right \<le> length files"
  shows "\<exists>r. FindFile_loop icmp h files key left right = Some r \<and> unat r = lower_bound icmp (level_entries h files) key"
  using inv
proof (induction "unat right - unat left" arbitrary: left right rule: less_induct)
  case less
  let ?lb = "lower_bound icmp (level_entries h files) key"
  show ?case
  proof (cases "left < right")
    case False
    with less.prems show ?thesis by (subst FindFile_loop.simps) (simp add: word_less_nat_alt)
  next
    case True
    let ?mid = "(left + right) div 2"
    have r: "unat right < 2 ^ 31" using less.prems(3) small by simp
    note mid = mid_bounds [OF True r]
    have lr: "unat left < unat right" using True by (simp add: word_less_nat_alt)
    then have b: "unat left \<le> unat ?mid" "unat ?mid < unat right" by (simp_all add: mid)
    then have m: "unat ?mid < length files" using less.prems(3) by simp
    then have iff: "icmp (fm_largest (h (files ! unat ?mid))) key < 0 \<longleftrightarrow> unat ?mid < ?lb"
      using lower_bound_iff [OF srt key, of "unat ?mid"] by simp
    show ?thesis
    proof (cases "unat ?mid < ?lb")
      case True
      with less.prems b mid have "\<exists>r. FindFile_loop icmp h files key (?mid + 1) right = Some r \<and> unat r = ?lb"
        by (intro less.hyps) simp_all
      with \<open>left < right\<close> iff True show ?thesis by (subst FindFile_loop.simps) (simp add: Let_def)
    next
      case False
      with less.prems b have "\<exists>r. FindFile_loop icmp h files key left ?mid = Some r \<and> unat r = ?lb"
        by (intro less.hyps) simp_all
      with \<open>left < right\<close> iff False show ?thesis by (subst FindFile_loop.simps) (simp add: Let_def)
    qed
  qed
qed

lemma FindFile_lower_bound:
  assumes "cmp_sorted icmp (level_entries h files)" "\<forall>(k, v) \<in> set (level_entries h files). internal_valid uvalid k"
    and "internal_valid uvalid key" and "length files < 2 ^ 31"
  shows "\<exists>r. FindFile icmp h files key = Some r \<and> unat r = lower_bound icmp (level_entries h files) key"
proof -
  have "unat (of_nat (length files) :: uint32) = length files"
    using assms(4) by (simp add: unat_of_nat take_bit_eq_mod)
  then show ?thesis
    unfolding FindFile_def using lower_bound_le [of icmp "level_entries h files" key]
    by (intro FindFile_loop_lower_bound [OF assms]) simp_all
qed

end

end
