(* ===== verification/Ranges.thy ===== *)
theory Ranges imports Version begin

text \<open>
  What the range queries of a version return: the search over disjoint sorted files agrees with the
  scan over all files, and \<open>GetOverlappingInputs\<close> gives at level 0 the files connected with the range
  by a chain of overlapping files. The iterator over the files of a level meets the iterator contract.
\<close>

section \<open>Files that overlap a range\<close>

lemma length_filter_strict:
  assumes "x \<in> set xs" "Q x" "\<not> P x" "\<And>y. y \<in> set xs \<Longrightarrow> P y \<Longrightarrow> Q y"
  shows "length (filter P xs) < length (filter Q xs)"
proof -
  have "filter P xs = filter P (filter Q xs)" using assms(4) by (auto intro: filter_cong)
  moreover have "length (filter P (filter Q xs)) < length (filter Q xs)"
    using assms(1-3) by (intro length_filter_less [of x]) simp_all
  ultimately show ?thesis by simp
qed

lemma restart_decreases:
  "a < (c :: nat) \<Longrightarrow> (a + b) * (n + 1) + n < (c + b) * (n + 1) + m"
  "a < (c :: nat) \<Longrightarrow> (b + a) * (n + 1) + n < (b + c) * (n + 1) + m"
proof -
  assume "a < c"
  then have "(a + b + 1) * (n + 1) \<le> (c + b) * (n + 1)" by (intro mult_le_mono1) simp
  then show "(a + b) * (n + 1) + n < (c + b) * (n + 1) + m" by (simp add: algebra_simps)
  then show "(b + a) * (n + 1) + n < (b + c) * (n + 1) + m" by (simp add: add.commute)
qed

definition overlaps :: "(bytes \<Rightarrow> bytes \<Rightarrow> int) \<Rightarrow> bytes option \<Rightarrow> bytes option \<Rightarrow> file_meta \<Rightarrow> bool" where
  "overlaps ucmp b e f \<longleftrightarrow>
     \<not> less_bound ucmp (ExtractUserKey (fm_largest f)) b \<and> \<not> greater_bound ucmp (ExtractUserKey (fm_smallest f)) e"

text \<open>The files that a chain of overlapping files of the level connects with the range \<open>b .. e\<close>.\<close>

inductive connected ::
  "(bytes \<Rightarrow> bytes \<Rightarrow> int) \<Rightarrow> file_store \<Rightarrow> file_ref list \<Rightarrow> bytes option \<Rightarrow> bytes option \<Rightarrow> file_ref \<Rightarrow> bool"
  for ucmp h files b e where
  connected_range: "f \<in> set files \<Longrightarrow> overlaps ucmp b e (h f) \<Longrightarrow> connected ucmp h files b e f"
| connected_file: "connected ucmp h files b e g \<Longrightarrow> f \<in> set files \<Longrightarrow>
     overlaps ucmp (Some (ExtractUserKey (fm_smallest (h g)))) (Some (ExtractUserKey (fm_largest (h g)))) (h f) \<Longrightarrow>
     connected ucmp h files b e f"

section \<open>The iterator over the files of a level\<close>

definition level_rep ::
  "(bytes \<Rightarrow> bytes \<Rightarrow> int) \<Rightarrow> (bytes \<Rightarrow> bool) \<Rightarrow> file_store \<Rightarrow> level_iterator \<Rightarrow> (bytes \<times> bytes) list \<Rightarrow> nat \<Rightarrow> bool" where
  "level_rep ucmp uvalid h it l i \<longleftrightarrow>
     l = level_entries h (ln_flist it) \<and> level_ok ucmp uvalid h (ln_flist it) \<and> length (ln_flist it) < 2 ^ 31
     \<and> i = unat (ln_index it) \<and> i \<le> length l"

lemma level_entries_value:
  "i < length files \<Longrightarrow> snd (level_entries h files ! i) =
     EncodeFixed64 (fm_number (h (files ! i))) @ EncodeFixed64 (fm_file_size (h (files ! i)))"
  by (simp add: level_entries_def)

lemma unat_of_nat_small: "n < 2 ^ 31 \<Longrightarrow> unat (of_nat n :: uint32) = n"
  by (simp add: unat_of_nat take_bit_eq_mod)

lemma unat_minus_1_32: "x \<noteq> 0 \<Longrightarrow> unat ((x :: uint32) - 1) = unat x - 1"
  by (simp add: unat_minus_one)

sublocale user_key_comparator \<subseteq> level: iterator "level_rep ucmp uvalid h" "InternalKey_Compare ucmp" "internal_valid uvalid"
    "level_ops (InternalKey_Compare ucmp) h" for h
proof unfold_locales
  fix it l i
  let ?ops = "level_ops (InternalKey_Compare ucmp) h"
  assume r: "level_rep ucmp uvalid h it l i"
  then have l: "l = level_entries h (ln_flist it)" and ok: "level_ok ucmp uvalid h (ln_flist it)"
    and small: "length (ln_flist it) < 2 ^ 31" and i: "i = unat (ln_index it)" "i \<le> length l"
    unfolding level_rep_def by blast+
  note e = level_ok_entries [OF ok]
  show "i \<le> length l" "cmp_sorted (InternalKey_Compare ucmp) l" "op_status ?ops it = OK"
    using i e(1) by (simp_all add: l level_ops_def)
  show "op_Valid ?ops it \<longleftrightarrow> i < length l" by (simp add: level_ops_def ln_Valid_def l i)
  show "internal_valid uvalid k" if "(k, v) \<in> set l" for k v using e(2) that by (auto simp: l)
  show "\<exists>it'. op_SeekToFirst ?ops it = Some it' \<and> level_rep ucmp uvalid h it' l 0"
    using ok small by (simp add: level_ops_def ln_SeekToFirst_def level_rep_def l)
  show "\<exists>it'. op_SeekToLast ?ops it = Some it' \<and> level_rep ucmp uvalid h it' l (length l - 1)"
    using ok small unat_of_nat_small [of "length (ln_flist it) - 1"] by (simp add: level_ops_def ln_SeekToLast_def level_rep_def l)
  show "\<exists>it'. op_Seek ?ops it t = Some it' \<and> level_rep ucmp uvalid h it' l (lower_bound (InternalKey_Compare ucmp) l t)"
    if t: "internal_valid uvalid t" for t
    using FindFile_lower_bound [OF e t small] ok small lower_bound_le [of "InternalKey_Compare ucmp" l t]
    by (auto simp: level_ops_def ln_Seek_def level_rep_def l)
  assume less: "i < length l"
  then show "op_key ?ops it = fst (l ! i)" "op_value ?ops it = snd (l ! i)"
    by (simp_all add: level_ops_def ln_key_def ln_value_def l i level_entries_value Let_def)
  have "unat (ln_index it + 1) = Suc i" using less small i by (simp add: unat_word_ariths l)
  then show "\<exists>it'. op_Next ?ops it = Some it' \<and> level_rep ucmp uvalid h it' l (Suc i)"
    using ok small less by (simp add: level_ops_def ln_Next_def level_rep_def l)
  show "\<exists>it'. op_Prev ?ops it = Some it' \<and> level_rep ucmp uvalid h it' l (if i = 0 then length l else i - 1)"
    using ok small less i unat_of_nat_small [OF small] unat_minus_1_32 [of "ln_index it"]
    by (auto simp: level_ops_def ln_Prev_def level_rep_def l unat_eq_zero)
qed

context user_key_comparator
begin

lemma level_iterator_rep:
  "level_ok ucmp uvalid h files \<Longrightarrow> length files < 2 ^ 31 \<Longrightarrow>
     level_rep ucmp uvalid h (LevelFileNumIterator_init files) (level_entries h files) (length files)"
  by (simp add: level_rep_def LevelFileNumIterator_init_def unat_of_nat_small)

section \<open>Overlap with a range\<close>


lemma file_limits_mono:
  assumes ok: "level_ok ucmp uvalid h files" and ij: "i < j" "j < length files"
  shows "ucmp (ExtractUserKey (fm_largest (h (files ! i)))) (ExtractUserKey (fm_smallest (h (files ! j)))) \<le> 0"
    "ucmp (ExtractUserKey (fm_smallest (h (files ! i)))) (ExtractUserKey (fm_smallest (h (files ! j)))) \<le> 0"
proof -
  let ?u = "\<lambda>f. ExtractUserKey (f :: bytes)"
  have fi: "file_ok ucmp uvalid (h (files ! i))" and fj: "file_ok ucmp uvalid (h (files ! j))"
    using ok ij by (simp_all add: level_ok_def)
  show less: "ucmp (?u (fm_largest (h (files ! i)))) (?u (fm_smallest (h (files ! j)))) \<le> 0"
    using ok ij sorted_wrt_nth_less [of "\<lambda>f g. icmp (fm_largest (h f)) (fm_smallest (h g)) < 0" files i j]
    by (auto simp: level_ok_def InternalKey_Compare_less)
  show "ucmp (?u (fm_smallest (h (files ! i)))) (?u (fm_smallest (h (files ! j)))) \<le> 0"
    using user.cmp_trans [OF file_ok_user(1) [OF fi] file_ok_user(2) [OF fi] file_ok_user(1) [OF fj] file_ok_user(3) [OF fi] less] .
qed

lemma before_small_key:
  assumes "file_ok ucmp uvalid f" "uvalid k"
  shows "icmp (fm_largest f) (InternalKey_make k kMaxSequenceNumber kValueTypeForSeek) < 0 \<longleftrightarrow> AfterFile ucmp (Some k) f"
proof -
  have "ExtractTag (fm_largest f) \<le> PackSequenceAndType kMaxSequenceNumber kValueTypeForSeek"
    using assms(1) by (simp add: file_ok_def proper_key_tag [of uvalid])
  then have "icmp (fm_largest f) (InternalKey_make k kMaxSequenceNumber kValueTypeForSeek) < 0
      \<longleftrightarrow> ucmp (ExtractUserKey (fm_largest f)) k < 0"
    by (auto simp: InternalKey_Compare_less)
  also have "\<dots> \<longleftrightarrow> AfterFile ucmp (Some k) f"
    using user.cmp_swap [OF file_ok_user(2) [OF assms(1)] assms(2)] by (simp add: AfterFile_def)
  finally show ?thesis .
qed

lemma some_file_overlaps_iff:
  "some_file_overlaps ucmp h files smallest largest \<longleftrightarrow>
     (\<exists>f \<in> set files. \<not> AfterFile ucmp smallest (h f) \<and> \<not> BeforeFile ucmp largest (h f))"
  by (induction files) auto

lemma BeforeFile_mono:
  assumes ok: "level_ok ucmp uvalid h files" and ij: "i \<le> j" "j < length files"
    and k: "\<forall>k. largest = Some k \<longrightarrow> uvalid k" and b: "BeforeFile ucmp largest (h (files ! i))"
  shows "BeforeFile ucmp largest (h (files ! j))"
proof (cases "i = j")
  case False
  obtain k where k': "largest = Some k" "ucmp k (ExtractUserKey (fm_smallest (h (files ! i)))) < 0" "uvalid k"
    using b k by (auto simp: BeforeFile_def split: option.splits)
  have "uvalid (ExtractUserKey (fm_smallest (h (files ! i))))" "uvalid (ExtractUserKey (fm_smallest (h (files ! j))))"
    using ok ij by (auto simp: level_ok_def intro!: file_ok_user)
  with k' file_limits_mono(2) [OF ok, of i j] ij False
    user.cmp_less_le_trans [of k "ExtractUserKey (fm_smallest (h (files ! i)))" "ExtractUserKey (fm_smallest (h (files ! j)))"]
  show ?thesis by (simp add: BeforeFile_def)
qed (use b in simp)

lemma SomeFileOverlapsRange_exact:
  assumes ok: "disjoint \<Longrightarrow> level_ok ucmp uvalid h files \<and> length files < 2 ^ 31"
    and s: "\<forall>k. smallest = Some k \<longrightarrow> uvalid k" and l: "\<forall>k. largest = Some k \<longrightarrow> uvalid k"
  shows "SomeFileOverlapsRange ucmp h disjoint files smallest largest =
     Some (\<exists>f \<in> set files. \<not> AfterFile ucmp smallest (h f) \<and> \<not> BeforeFile ucmp largest (h f))"
proof (cases disjoint)
  case False
  then show ?thesis by (simp add: SomeFileOverlapsRange_def some_file_overlaps_iff)
next
  case True
  then have lok: "level_ok ucmp uvalid h files" and small: "length files < 2 ^ 31" using ok by simp_all
  have fok: "i < length files \<Longrightarrow> file_ok ucmp uvalid (h (files ! i))" for i using lok by (simp add: level_ok_def)
  have "\<exists>r. (case smallest of None \<Rightarrow> Some 0
        | Some k \<Rightarrow> FindFile icmp h files (InternalKey_make k kMaxSequenceNumber kValueTypeForSeek)) = Some r
      \<and> unat r \<le> length files \<and> (\<forall>i < length files. AfterFile ucmp smallest (h (files ! i)) \<longleftrightarrow> i < unat r)"
  proof (cases smallest)
    case None
    then show ?thesis by (simp add: AfterFile_def)
  next
    case (Some k)
    let ?key = "InternalKey_make k kMaxSequenceNumber kValueTypeForSeek"
    have k: "uvalid k" using s Some by simp
    then have key: "internal_valid uvalid ?key" by (intro proper_key_valid proper_key_make) simp_all
    note e = level_ok_entries [OF lok]
    obtain r where r: "FindFile icmp h files ?key = Some r" "unat r = lower_bound icmp (level_entries h files) ?key"
      using FindFile_lower_bound [OF e key small] by blast
    have "AfterFile ucmp smallest (h (files ! i)) \<longleftrightarrow> i < unat r" if "i < length files" for i
      using lower_bound_iff [OF e key, of i] before_small_key [OF fok [OF that] k] that r(2) Some by simp
    with r lower_bound_le [of icmp "level_entries h files" ?key] Some show ?thesis by auto
  qed
  then obtain r where r: "(case smallest of None \<Rightarrow> Some 0
        | Some k \<Rightarrow> FindFile icmp h files (InternalKey_make k kMaxSequenceNumber kValueTypeForSeek)) = Some r"
    "unat r \<le> length files" "\<forall>i < length files. AfterFile ucmp smallest (h (files ! i)) \<longleftrightarrow> i < unat r"
    by blast
  let ?ov = "\<lambda>f. \<not> AfterFile ucmp smallest (h f) \<and> \<not> BeforeFile ucmp largest (h f)"
  have "(\<exists>f \<in> set files. ?ov f) \<longleftrightarrow> unat r < length files \<and> \<not> BeforeFile ucmp largest (h (files ! unat r))"
  proof
    assume "\<exists>f \<in> set files. ?ov f"
    then obtain i where i: "i < length files" "?ov (files ! i)" by (auto simp: in_set_conv_nth)
    then have "unat r \<le> i" using r(3) by simp
    with i BeforeFile_mono [OF lok _ i(1) l, of "unat r"] show "unat r < length files \<and> \<not> BeforeFile ucmp largest (h (files ! unat r))"
      by auto
  next
    assume *: "unat r < length files \<and> \<not> BeforeFile ucmp largest (h (files ! unat r))"
    with r(3) have "?ov (files ! unat r)" by blast
    with * show "\<exists>f \<in> set files. ?ov f" by (intro bexI [of _ "files ! unat r"]) simp_all
  qed
  with True r(1) show ?thesis by (auto simp: SomeFileOverlapsRange_def)
qed

section \<open>The files connected with a range\<close>

abbreviation lo :: "file_store \<Rightarrow> file_ref \<Rightarrow> bytes" where "lo h f \<equiv> ExtractUserKey (fm_smallest (h f))"
abbreviation hi :: "file_store \<Rightarrow> file_ref \<Rightarrow> bytes" where "hi h f \<equiv> ExtractUserKey (fm_largest (h f))"

text \<open>The invariant of the scan at level 0: the files found so far lie inside the range reached so far.\<close>

definition scan_inv :: "file_store \<Rightarrow> file_ref list \<Rightarrow> bytes option \<Rightarrow> bytes option \<Rightarrow> overlap_scan \<Rightarrow> bool" where
  "scan_inv h files b e s \<longleftrightarrow>
     (\<forall>k. os_begin s = Some k \<longrightarrow> uvalid k) \<and> (\<forall>k. os_end s = Some k \<longrightarrow> uvalid k) \<and>
     (\<forall>f \<in> set files. overlaps ucmp b e (h f) \<longrightarrow> overlaps ucmp (os_begin s) (os_end s) (h f)) \<and>
     (\<forall>f \<in> set files. overlaps ucmp (os_begin s) (os_end s) (h f) \<longrightarrow> connected ucmp h files b e f) \<and>
     os_next s \<le> length files \<and>
     os_inputs s = filter (\<lambda>f. overlaps ucmp (os_begin s) (os_end s) (h f)) (take (os_next s) files) \<and>
     (\<forall>f \<in> set (os_inputs s). \<not> less_bound ucmp (lo h f) (os_begin s) \<and> \<not> greater_bound ucmp (hi h f) (os_end s))"

definition scan_measure :: "file_store \<Rightarrow> file_ref list \<Rightarrow> overlap_scan \<Rightarrow> nat" where
  "scan_measure h files s =
     (length (filter (\<lambda>f. less_bound ucmp (lo h f) (os_begin s)) files)
        + length (filter (\<lambda>f. greater_bound ucmp (hi h f) (os_end s)) files)) * (length files + 1) + (length files - os_next s)"

lemma overlapping_scan_sorted:
  assumes level: "level \<noteq> 0"
  shows "while_option (\<lambda>s. os_next s < length files) (overlapping_round ucmp h level files) s =
     Some (s\<lparr>os_next := max (os_next s) (length files), os_inputs := os_inputs s @ filter (\<lambda>f. overlaps ucmp (os_begin s) (os_end s) (h f)) (drop (os_next s) files)\<rparr>)"
proof (induction "length files - os_next s" arbitrary: s)
  case 0
  then show ?case by (subst while_option_unfold) simp
next
  case (Suc n)
  then have less: "os_next s < length files" by simp
  let ?s = "overlapping_round ucmp h level files s"
  have rnd: "?s = s\<lparr>os_next := Suc (os_next s), os_inputs := os_inputs s @ (if overlaps ucmp (os_begin s) (os_end s) (h (files ! os_next s)) then [files ! os_next s] else [])\<rparr>"
    using level by (simp add: overlapping_round_def overlaps_def Let_def)
  have "n = length files - os_next ?s" using Suc.hyps(2) by (simp add: rnd)
  from Suc.hyps(1) [OF this] less show ?case
    by (subst while_option_unfold) (simp add: rnd Cons_nth_drop_Suc [symmetric])
qed

lemma less_bound_trans:
  assumes "uvalid a" "uvalid b" "\<forall>k. bound = Some k \<longrightarrow> uvalid k" "ucmp a b \<le> 0" "less_bound ucmp b bound"
  shows "less_bound ucmp a bound"
  using assms user.cmp_le_less_trans [of a b "the bound"] by (auto simp: less_bound_def split: option.splits)

lemma greater_bound_trans:
  assumes "uvalid a" "uvalid b" "\<forall>k. bound = Some k \<longrightarrow> uvalid k" "ucmp a b \<le> 0" "greater_bound ucmp a bound"
  shows "greater_bound ucmp b bound"
  using assms user.cmp_less_le_trans [of "the bound" a b] user.cmp_swap [of "the bound" a] user.cmp_swap [of "the bound" b]
  by (auto simp: greater_bound_def split: option.splits)

lemma below_bound:
  assumes "uvalid a" "uvalid b" "\<forall>k. bound = Some k \<longrightarrow> uvalid k" "less_bound ucmp a bound" "\<not> less_bound ucmp b bound"
  shows "ucmp a b < 0"
proof -
  obtain k where k: "bound = Some k" "ucmp a k < 0" "\<not> ucmp b k < 0"
    using assms(4,5) by (auto simp: less_bound_def split: option.splits)
  with assms have "ucmp k b \<le> 0" using user.cmp_le_iff [of k b] by simp
  with k assms show ?thesis using user.cmp_less_le_trans [of a k b] by simp
qed

lemma above_bound:
  assumes "uvalid a" "uvalid b" "\<forall>k. bound = Some k \<longrightarrow> uvalid k" "greater_bound ucmp b bound" "\<not> greater_bound ucmp a bound"
  shows "ucmp a b < 0"
proof -
  obtain k where k: "bound = Some k" "ucmp b k > 0" "\<not> ucmp a k > 0"
    using assms(4,5) by (auto simp: greater_bound_def split: option.splits)
  with assms have "ucmp k b < 0" using user.cmp_swap [of k b] by simp
  with k assms show ?thesis using user.cmp_le_less_trans [of a k b] by simp
qed

text \<open>A round that finds a file that begins before the range (or ends after it) takes its bound over and starts again.\<close>

lemma extend_begin:
  assumes ok: "\<forall>f \<in> set files. file_ok ucmp uvalid (h f)" and inv: "scan_inv h files b e s"
    and f: "f \<in> set files" "overlaps ucmp (os_begin s) (os_end s) (h f)" "less_bound ucmp (lo h f) (os_begin s)"
  defines "s' \<equiv> s\<lparr>os_begin := Some (lo h f), os_inputs := [], os_next := 0\<rparr>"
  shows "scan_inv h files b e s'" "scan_measure h files s' < scan_measure h files s"
proof -
  have v: "uvalid (lo h g) \<and> uvalid (hi h g) \<and> ucmp (lo h g) (hi h g) \<le> 0" if "g \<in> set files" for g
    using file_ok_user ok that by blast
  have bound: "\<forall>k. os_begin s = Some k \<longrightarrow> uvalid k" and bound': "\<forall>k. os_end s = Some k \<longrightarrow> uvalid k"
    and conn: "\<forall>f \<in> set files. overlaps ucmp (os_begin s) (os_end s) (h f) \<longrightarrow> connected ucmp h files b e f"
    and wide: "\<forall>f \<in> set files. overlaps ucmp b e (h f) \<longrightarrow> overlaps ucmp (os_begin s) (os_end s) (h f)"
    using inv by (simp_all add: scan_inv_def)
  have wider: "overlaps ucmp (Some (lo h f)) (os_end s) (h g)" if "g \<in> set files" "overlaps ucmp (os_begin s) (os_end s) (h g)" for g
    using below_bound [of "lo h f" "hi h g", OF _ _ bound f(3)] v [OF that(1)] v [OF f(1)] that(2) user.cmp_swap [of "hi h g" "lo h f"]
    by (auto simp: overlaps_def less_bound_def [of _ _ "Some _"])
  have "connected ucmp h files b e g" if g: "g \<in> set files" "overlaps ucmp (Some (lo h f)) (os_end s) (h g)" for g
  proof (cases "overlaps ucmp (os_begin s) (os_end s) (h g)")
    case True
    with g conn show ?thesis by blast
  next
    case False
    with g(2) have less: "less_bound ucmp (hi h g) (os_begin s)" by (auto simp: overlaps_def)
    have "ucmp (hi h g) (hi h f) < 0"
      using v [OF g(1)] v [OF f(1)] f(2) less by (intro below_bound [OF _ _ bound]) (simp_all add: overlaps_def)
    then have "\<not> greater_bound ucmp (lo h g) (Some (hi h f))"
      using v [OF g(1)] v [OF f(1)] user.cmp_le_less_trans [of "lo h g" "hi h g" "hi h f"] by (simp add: greater_bound_def)
    with g have "overlaps ucmp (Some (lo h f)) (Some (hi h f)) (h g)" by (simp add: overlaps_def)
    moreover have "connected ucmp h files b e f" using conn f by blast
    ultimately show ?thesis using g(1) by (rule connected_file [rotated -1])
  qed
  moreover have "overlaps ucmp (os_begin s') (os_end s') (h g)" if "g \<in> set files" "overlaps ucmp b e (h g)" for g
    using wider [OF that(1)] wide that by (simp add: s'_def)
  ultimately show "scan_inv h files b e s'"
    using bound' v [OF f(1)] unfolding scan_inv_def s'_def by simp
  have "length (filter (\<lambda>g. less_bound ucmp (lo h g) (Some (lo h f))) files) < length (filter (\<lambda>g. less_bound ucmp (lo h g) (os_begin s)) files)"
  proof (rule length_filter_strict)
    show "f \<in> set files" "less_bound ucmp (lo h f) (os_begin s)" by (fact f)+
    show "\<not> less_bound ucmp (lo h f) (Some (lo h f))" using v [OF f(1)] user.cmp_irrefl by (simp add: less_bound_def)
    show "less_bound ucmp (lo h g) (os_begin s)" if "g \<in> set files" "less_bound ucmp (lo h g) (Some (lo h f))" for g
      using v [OF that(1)] v [OF f(1)] that(2) by (intro less_bound_trans [OF _ _ bound _ f(3)]) (simp_all add: less_bound_def)
  qed
  then show "scan_measure h files s' < scan_measure h files s"
    using restart_decreases(1) by (simp add: scan_measure_def s'_def)
qed

lemma extend_end:
  assumes ok: "\<forall>f \<in> set files. file_ok ucmp uvalid (h f)" and inv: "scan_inv h files b e s"
    and f: "f \<in> set files" "overlaps ucmp (os_begin s) (os_end s) (h f)" "greater_bound ucmp (hi h f) (os_end s)"
  defines "s' \<equiv> s\<lparr>os_end := Some (hi h f), os_inputs := [], os_next := 0\<rparr>"
  shows "scan_inv h files b e s'" "scan_measure h files s' < scan_measure h files s"
proof -
  have v: "uvalid (lo h g) \<and> uvalid (hi h g) \<and> ucmp (lo h g) (hi h g) \<le> 0" if "g \<in> set files" for g
    using file_ok_user ok that by blast
  have bound: "\<forall>k. os_begin s = Some k \<longrightarrow> uvalid k" and bound': "\<forall>k. os_end s = Some k \<longrightarrow> uvalid k"
    and conn: "\<forall>f \<in> set files. overlaps ucmp (os_begin s) (os_end s) (h f) \<longrightarrow> connected ucmp h files b e f"
    and wide: "\<forall>f \<in> set files. overlaps ucmp b e (h f) \<longrightarrow> overlaps ucmp (os_begin s) (os_end s) (h f)"
    using inv by (simp_all add: scan_inv_def)
  have wider: "overlaps ucmp (os_begin s) (Some (hi h f)) (h g)" if "g \<in> set files" "overlaps ucmp (os_begin s) (os_end s) (h g)" for g
    using above_bound [of "lo h g" "hi h f", OF _ _ bound' f(3)] v [OF that(1)] v [OF f(1)] that(2)
    by (auto simp: overlaps_def greater_bound_def [of _ _ "Some _"])
  have "connected ucmp h files b e g" if g: "g \<in> set files" "overlaps ucmp (os_begin s) (Some (hi h f)) (h g)" for g
  proof (cases "overlaps ucmp (os_begin s) (os_end s) (h g)")
    case True
    with g conn show ?thesis by blast
  next
    case False
    with g(2) have more: "greater_bound ucmp (lo h g) (os_end s)" by (auto simp: overlaps_def)
    have "ucmp (lo h f) (lo h g) < 0"
      using v [OF g(1)] v [OF f(1)] f(2) more by (intro above_bound [OF _ _ bound']) (simp_all add: overlaps_def)
    then have "\<not> less_bound ucmp (hi h g) (Some (lo h f))"
      using v [OF g(1)] v [OF f(1)] user.cmp_less_le_trans [of "lo h f" "lo h g" "hi h g"] user.cmp_swap [of "lo h f" "hi h g"]
      by (simp add: less_bound_def)
    with g have "overlaps ucmp (Some (lo h f)) (Some (hi h f)) (h g)" by (simp add: overlaps_def)
    moreover have "connected ucmp h files b e f" using conn f by blast
    ultimately show ?thesis using g(1) by (rule connected_file [rotated -1])
  qed
  moreover have "overlaps ucmp (os_begin s') (os_end s') (h g)" if "g \<in> set files" "overlaps ucmp b e (h g)" for g
    using wider [OF that(1)] wide that by (simp add: s'_def)
  ultimately show "scan_inv h files b e s'"
    using bound v [OF f(1)] unfolding scan_inv_def s'_def by simp
  have "length (filter (\<lambda>g. greater_bound ucmp (hi h g) (Some (hi h f))) files) < length (filter (\<lambda>g. greater_bound ucmp (hi h g) (os_end s)) files)"
  proof (rule length_filter_strict)
    show "f \<in> set files" "greater_bound ucmp (hi h f) (os_end s)" by (fact f)+
    show "\<not> greater_bound ucmp (hi h f) (Some (hi h f))" using v [OF f(1)] user.cmp_refl by (simp add: greater_bound_def)
    show "greater_bound ucmp (hi h g) (os_end s)" if "g \<in> set files" "greater_bound ucmp (hi h g) (Some (hi h f))" for g
      using v [OF that(1)] v [OF f(1)] that(2) user.cmp_swap [of "hi h f" "hi h g"]
      by (intro greater_bound_trans [OF _ _ bound' _ f(3)]) (simp_all add: greater_bound_def)
  qed
  then show "scan_measure h files s' < scan_measure h files s"
    using restart_decreases(2) by (simp add: scan_measure_def s'_def)
qed

lemma round_keeps:
  assumes ok: "\<forall>f \<in> set files. file_ok ucmp uvalid (h f)" and inv: "scan_inv h files b e s" and less: "os_next s < length files"
  shows "scan_inv h files b e (overlapping_round ucmp h 0 files s)
    \<and> scan_measure h files (overlapping_round ucmp h 0 files s) < scan_measure h files s"
proof -
  let ?f = "files ! os_next s" and ?s = "s\<lparr>os_next := Suc (os_next s)\<rparr>"
  let ?r = "overlapping_round ucmp h 0 files s"
  have f: "?f \<in> set files" using less by simp
  have step: "take (Suc (os_next s)) files = take (os_next s) files @ [?f]" using less by (simp add: take_Suc_conv_app_nth)
  have dec: "scan_measure h files (s\<lparr>os_next := Suc (os_next s), os_inputs := ys\<rparr>) < scan_measure h files s" for ys
    using less by (simp add: scan_measure_def)
  consider (skip) "\<not> overlaps ucmp (os_begin s) (os_end s) (h ?f)"
    | (lower) "overlaps ucmp (os_begin s) (os_end s) (h ?f)" "less_bound ucmp (lo h ?f) (os_begin s)"
    | (upper) "overlaps ucmp (os_begin s) (os_end s) (h ?f)" "\<not> less_bound ucmp (lo h ?f) (os_begin s)"
        "greater_bound ucmp (hi h ?f) (os_end s)"
    | (inside) "overlaps ucmp (os_begin s) (os_end s) (h ?f)" "\<not> less_bound ucmp (lo h ?f) (os_begin s)"
        "\<not> greater_bound ucmp (hi h ?f) (os_end s)"
    by blast
  then show ?thesis
  proof cases
    case skip
    then have r: "?r = s\<lparr>os_next := Suc (os_next s), os_inputs := os_inputs s\<rparr>"
      by (auto simp: overlapping_round_def overlaps_def Let_def)
    show ?thesis unfolding r using inv skip less dec [of "os_inputs s"] by (simp add: scan_inv_def step)
  next
    case lower
    then have r: "?r = s\<lparr>os_begin := Some (lo h ?f), os_inputs := [], os_next := 0\<rparr>"
      by (auto simp: overlapping_round_def overlaps_def Let_def)
    show ?thesis unfolding r using extend_begin [OF ok inv f lower] by blast
  next
    case upper
    then have r: "?r = s\<lparr>os_end := Some (hi h ?f), os_inputs := [], os_next := 0\<rparr>"
      by (auto simp: overlapping_round_def overlaps_def Let_def)
    show ?thesis unfolding r using extend_end [OF ok inv f upper(1,3)] by blast
  next
    case inside
    then have r: "?r = s\<lparr>os_next := Suc (os_next s), os_inputs := os_inputs s @ [?f]\<rparr>"
      by (auto simp: overlapping_round_def overlaps_def Let_def)
    show ?thesis unfolding r using inv inside less dec [of "os_inputs s @ [?f]"] by (auto simp: scan_inv_def step)
  qed
qed

lemma scan_result:
  assumes ok: "\<forall>f \<in> set files. file_ok ucmp uvalid (h f)" and inv: "scan_inv h files b e s" and fin: "\<not> os_next s < length files"
  shows "os_inputs s = filter (connected ucmp h files b e) files"
proof -
  have len: "os_next s = length files" using inv fin by (simp add: scan_inv_def)
  have inputs: "os_inputs s = filter (\<lambda>f. overlaps ucmp (os_begin s) (os_end s) (h f)) files"
    using inv unfolding scan_inv_def len by simp
  have bound: "\<forall>k. os_begin s = Some k \<longrightarrow> uvalid k" and bound': "\<forall>k. os_end s = Some k \<longrightarrow> uvalid k"
    and conn: "\<forall>f \<in> set files. overlaps ucmp (os_begin s) (os_end s) (h f) \<longrightarrow> connected ucmp h files b e f"
    and wide: "\<forall>f \<in> set files. overlaps ucmp b e (h f) \<longrightarrow> overlaps ucmp (os_begin s) (os_end s) (h f)"
    and inside: "\<forall>f \<in> set (os_inputs s). \<not> less_bound ucmp (lo h f) (os_begin s) \<and> \<not> greater_bound ucmp (hi h f) (os_end s)"
    using inv by (simp_all add: scan_inv_def)
  have v: "uvalid (lo h g) \<and> uvalid (hi h g)" if "g \<in> set files" for g using file_ok_user ok that by blast
  have "f \<in> set files \<and> overlaps ucmp (os_begin s) (os_end s) (h f)" if "connected ucmp h files b e f" for f
    using that
  proof (induction rule: connected.induct)
    case (connected_range f)
    with wide show ?case by blast
  next
    case (connected_file g f)
    then have g: "g \<in> set files" "\<not> less_bound ucmp (lo h g) (os_begin s)" "\<not> greater_bound ucmp (hi h g) (os_end s)"
      using inside by (auto simp: inputs)
    have "ucmp (lo h g) (hi h f) \<le> 0"
      using connected_file.hyps(3) v [OF g(1)] v [OF connected_file.hyps(2)] user.cmp_le_iff [of "lo h g" "hi h f"]
      by (simp add: overlaps_def less_bound_def)
    moreover have "ucmp (lo h f) (hi h g) \<le> 0"
      using connected_file.hyps(3) by (simp add: overlaps_def greater_bound_def)
    ultimately have "ucmp (lo h g) (hi h f) \<le> 0" "ucmp (lo h f) (hi h g) \<le> 0" by blast+
    with g v [OF g(1)] v [OF connected_file.hyps(2)] connected_file.hyps(2) show ?case
      using less_bound_trans [OF _ _ bound, of "lo h g" "hi h f"] greater_bound_trans [OF _ _ bound', of "lo h f" "hi h g"]
      by (auto simp: overlaps_def)
  qed
  with conn show ?thesis unfolding inputs by (intro filter_cong) blast+
qed

lemma overlapping_scan:
  assumes ok: "\<forall>f \<in> set files. file_ok ucmp uvalid (h f)" and inv: "scan_inv h files b e s"
  shows "\<exists>t. while_option (\<lambda>s. os_next s < length files) (overlapping_round ucmp h 0 files) s = Some t
    \<and> os_inputs t = filter (connected ucmp h files b e) files"
proof -
  have "\<exists>t. while_option (\<lambda>s. os_next s < length files) (overlapping_round ucmp h 0 files) s = Some t"
    using inv round_keeps [OF ok]
    by (intro measure_while_option_Some [of "scan_inv h files b e" _ _ "scan_measure h files"]) blast+
  then obtain t where t: "while_option (\<lambda>s. os_next s < length files) (overlapping_round ucmp h 0 files) s = Some t" by blast
  have "scan_inv h files b e t"
    using while_option_rule [OF _ t, of "scan_inv h files b e"] round_keeps [OF ok] inv by blast
  with scan_result [OF ok this] while_option_stop [OF t] t show ?thesis by blast
qed

lemma GetOverlappingInputs_eq:
  assumes files: "\<forall>f \<in> set (v_files v ! level). file_ok ucmp uvalid (h f)"
    and b: "\<forall>k. b = Some k \<longrightarrow> internal_valid uvalid k" and e: "\<forall>k. e = Some k \<longrightarrow> internal_valid uvalid k"
  defines "ub \<equiv> map_option ExtractUserKey b" and "ue \<equiv> map_option ExtractUserKey e"
  shows "GetOverlappingInputs ucmp h v level b e =
    Some (filter (if level = 0 then connected ucmp h (v_files v ! 0) ub ue else overlaps ucmp ub ue \<circ> h) (v_files v ! level))"
proof (cases "level = 0")
  case False
  then show ?thesis
    by (simp add: GetOverlappingInputs_def overlapping_scan_sorted ub_def ue_def comp_def)
next
  case True
  let ?s = "\<lparr>os_next = 0, os_begin = ub, os_end = ue, os_inputs = []\<rparr>"
  have "scan_inv h (v_files v ! 0) ub ue ?s"
    using b e by (auto simp: scan_inv_def ub_def ue_def internal_valid_def intro: connected_range)
  from overlapping_scan [OF _ this] files True show ?thesis
    by (auto simp: GetOverlappingInputs_def ub_def ue_def)
qed

end

section \<open>Properties\<close>

text \<open>Files for the witnesses: file \<open>n\<close> holds the user keys from \<open>n\<close> to \<open>n + 2\<close>.\<close>

definition small_files :: file_store where
  "small_files f = FileMetaData_init (of_nat f) 1
     (InternalKey_make [of_nat f] 5 kTypeValue) (InternalKey_make [of_nat (f + 2)] 5 kTypeValue)"

lemma small_files_ok: "f < 250 \<Longrightarrow> file_ok bytewise_Compare (\<lambda>_. True) (small_files f)"
proof -
  assume f: "f < 250"
  have five: "(5 :: uint64) \<le> kMaxSequenceNumber" by (simp add: kMaxSequenceNumber_value)
  have "unat (of_nat n :: byte) = n" if "n < 256" for n using that by (simp add: unat_of_nat take_bit_eq_mod)
  from this [of f] this [of "f + 2"] have "(of_nat f :: byte) < of_nat (f + 2)"
    using f by (simp add: word_less_nat_alt del: of_nat_add)
  then have "bytewise_Compare [of_nat f] [of_nat (f + 2)] < 0"
    by (simp add: bytewise_Compare_def slice_compare_def del: of_nat_add)
  then show ?thesis
    by (simp add: file_ok_def small_files_def FileMetaData_init_def proper_key_make five InternalKey_Compare_le del: of_nat_add)
qed

text \<open>
  C37. \<open>GetOverlappingInputs\<close> ends and finds what a compaction needs. At levels above 0 it returns the
  files that overlap the range; at level 0, where its scan starts again each time a file extends
  the range, it returns exactly the files that are connected with the range by a chain of
  overlapping files of the level, in their order: no file left out overlaps one of them.
\<close>

theorem GetOverlappingInputs_connected:
  assumes "user_key_comparator ucmp uvalid usep usucc" and "\<forall>f \<in> set (v_files v ! level). file_ok ucmp uvalid (h f)"
    and "\<forall>k. b = Some k \<longrightarrow> internal_valid uvalid k" and "\<forall>k. e = Some k \<longrightarrow> internal_valid uvalid k"
  shows "\<exists>inputs. GetOverlappingInputs ucmp h v level b e = Some inputs
    \<and> (level \<noteq> 0 \<longrightarrow> inputs = filter (\<lambda>f. overlaps ucmp (map_option ExtractUserKey b) (map_option ExtractUserKey e) (h f)) (v_files v ! level))
    \<and> (level = 0 \<longrightarrow> inputs = filter (connected ucmp h (v_files v ! 0) (map_option ExtractUserKey b) (map_option ExtractUserKey e)) (v_files v ! 0)
        \<and> (\<forall>f \<in> set inputs. \<forall>g \<in> set (v_files v ! 0).
             overlaps ucmp (Some (ExtractUserKey (fm_smallest (h f)))) (Some (ExtractUserKey (fm_largest (h f)))) (h g) \<longrightarrow> g \<in> set inputs))"
  using user_key_comparator.GetOverlappingInputs_eq [OF assms]
  by (auto simp: comp_def intro: connected_file)

theorem GetOverlappingInputs_connected_witness:
  "\<exists>inputs. GetOverlappingInputs bytewise_Compare small_files ((Version_init 0)\<lparr>v_files := [[9, 2, 0, 1], [], [], [], [], [], []]\<rparr>)
     0 (Some (InternalKey_make [0] 5 kTypeValue)) (Some (InternalKey_make [1] 5 kTypeValue)) = Some inputs"
  using GetOverlappingInputs_connected [OF bytewise_internal.user_key_comparator_axioms,
      where v = "(Version_init 0)\<lparr>v_files := [[9, 2, 0, 1], [], [], [], [], [], []]\<rparr>" and level = 0 and h = small_files
        and b = "Some (InternalKey_make [0] 5 kTypeValue)" and e = "Some (InternalKey_make [1] 5 kTypeValue)"]
    small_files_ok
  by (auto simp: internal_valid_def)

text \<open>
  C38. The binary search of \<open>SomeFileOverlapsRange\<close> over disjoint sorted files, on 32-bit indices, ends and
  gives the same answer as its scan over all files: whether some file is neither before nor after
  the range. Absent bounds are infinite.
\<close>

theorem SomeFileOverlapsRange_searches_agree:
  assumes "user_key_comparator ucmp uvalid usep usucc" and "level_ok ucmp uvalid h files" and "length files < 2 ^ 31"
    and "\<forall>k. smallest = Some k \<longrightarrow> uvalid k" and "\<forall>k. largest = Some k \<longrightarrow> uvalid k"
  shows "SomeFileOverlapsRange ucmp h True files smallest largest = SomeFileOverlapsRange ucmp h False files smallest largest
    \<and> SomeFileOverlapsRange ucmp h True files smallest largest =
        Some (\<exists>f \<in> set files. \<not> AfterFile ucmp smallest (h f) \<and> \<not> BeforeFile ucmp largest (h f))"
  using user_key_comparator.SomeFileOverlapsRange_exact [OF assms(1) _ assms(4,5), of True h files]
    user_key_comparator.SomeFileOverlapsRange_exact [OF assms(1) _ assms(4,5), of False h files] assms(2,3)
  by simp

theorem SomeFileOverlapsRange_searches_agree_witness:
  "SomeFileOverlapsRange bytewise_Compare small_files True [0, 3, 6] (Some [3]) (Some [4]) =
     SomeFileOverlapsRange bytewise_Compare small_files False [0, 3, 6] (Some [3]) (Some [4])"
proof -
  have "level_ok bytewise_Compare (\<lambda>_. True) small_files [0, 3, 6]"
    using small_files_ok by (simp add: level_ok_def) (simp add: small_files_def FileMetaData_init_def InternalKey_Compare_less bytewise_Compare_def slice_compare_def)
  from SomeFileOverlapsRange_searches_agree [OF bytewise_internal.user_key_comparator_axioms this, of "Some [3]" "Some [4]"]
  show ?thesis by simp
qed

end
