(* ===== verification/VersionGet.thy ===== *)
theory VersionGet imports Ranges DBIter begin

text \<open>
  \<^verbatim>\<open>db/version_set.cc\<close>, reading a version: \<open>Version::Get\<close>, \<open>ForEachOverlapping\<close> and the seek
  statistics. \<open>tget\<close> is \<open>TableCache::Get\<close>: from the state of the table cache, the number and size of a
  file and an internal key it gives the status and the entry it hands to \<open>SaveValue\<close>, if there is one.
  The locale \<open>file_source\<close> states what it promises, and with it a lookup is shown to find the newest
  entry of all files.
\<close>

section \<open>The callback of a lookup\<close>

datatype SaverState = kNotFound | kFound | kDeleted | kCorrupt

record saver =
  sv_state :: SaverState
  sv_user_key :: bytes
  sv_value :: bytes

definition SaveValue :: "(bytes \<Rightarrow> bytes \<Rightarrow> int) \<Rightarrow> saver \<Rightarrow> bytes \<Rightarrow> bytes \<Rightarrow> saver" where
  "SaveValue ucmp s ikey v =
     (case ParseInternalKey ikey of
        None \<Rightarrow> s\<lparr>sv_state := kCorrupt\<rparr>
      | Some parsed_key \<Rightarrow>
          if ucmp (user_key parsed_key) (sv_user_key s) = 0
          then let s = s\<lparr>sv_state := (if type parsed_key = kTypeValue then kFound else kDeleted)\<rparr>
               in if sv_state s = kFound then s\<lparr>sv_value := v\<rparr> else s
          else s)"

definition NewestFirst :: "file_store \<Rightarrow> file_ref \<Rightarrow> file_ref \<Rightarrow> bool" where
  "NewestFirst h a b \<longleftrightarrow> fm_number (h a) > fm_number (h b)"

text \<open>\<open>std::sort\<close> with \<open>NewestFirst\<close>, as insertion; the numbers of files differ.\<close>

fun insert_newest_first :: "file_store \<Rightarrow> file_ref \<Rightarrow> file_ref list \<Rightarrow> file_ref list" where
  "insert_newest_first h f [] = [f]"
| "insert_newest_first h f (g # fs) = (if NewestFirst h g f then g # insert_newest_first h f fs else f # g # fs)"

definition sort_newest_first :: "file_store \<Rightarrow> file_ref list \<Rightarrow> file_ref list" where
  "sort_newest_first h fs = foldr (insert_newest_first h) fs []"

section \<open>Lookups\<close>

record get_stats =
  gt_seek_file :: "file_ref option"
  gt_seek_file_level :: int

record 'c get_state =
  gs_cache :: 'c
  gs_value :: bytes
  gs_stats :: get_stats
  gs_last_file :: "file_ref option"
  gs_last_level :: int

text \<open>The files of a level that may hold the key, in the order in which they are searched.\<close>

definition files_to_search ::
  "(bytes \<Rightarrow> bytes \<Rightarrow> int) \<Rightarrow> file_store \<Rightarrow> db_version \<Rightarrow> nat \<Rightarrow> bytes \<Rightarrow> bytes \<Rightarrow> file_ref list option" where
  "files_to_search ucmp h v level ukey ikey =
     (let files = v_files v ! level in
      if length files = 0 then Some []
      else if level = 0
      then Some (sort_newest_first h (filter (\<lambda>f. ucmp ukey (ExtractUserKey (fm_smallest (h f))) \<ge> 0
                                             \<and> ucmp ukey (ExtractUserKey (fm_largest (h f))) \<le> 0) files))
      else do { index \<leftarrow> FindFile (InternalKey_Compare ucmp) h files ikey;
                Some (if unat index \<ge> length files then []
                      else let tmp2 = files ! unat index
                        in if ucmp ukey (ExtractUserKey (fm_smallest (h tmp2))) < 0 then [] else [tmp2]) })"

definition charge_seek :: "'c get_state \<Rightarrow> nat \<Rightarrow> file_ref \<Rightarrow> 'c get_state" where
  "charge_seek gs level f =
     (let gs = (if gs_last_file gs \<noteq> None \<and> gt_seek_file (gs_stats gs) = None
                then gs\<lparr>gs_stats := \<lparr>gt_seek_file = gs_last_file gs, gt_seek_file_level = gs_last_level gs\<rparr>\<rparr>
                else gs)
      in gs\<lparr>gs_last_file := Some f, gs_last_level := int level\<rparr>)"

text \<open>The loop over the files of a level; it returns the status of \<open>Get\<close> if it is known.\<close>

fun search_files ::
  "(bytes \<Rightarrow> bytes \<Rightarrow> int) \<Rightarrow> file_store \<Rightarrow> ('c \<Rightarrow> uint64 \<Rightarrow> uint64 \<Rightarrow> bytes \<Rightarrow> ((status \<times> (bytes \<times> bytes) option) \<times> 'c) option)
    \<Rightarrow> bytes \<Rightarrow> bytes \<Rightarrow> nat \<Rightarrow> file_ref list \<Rightarrow> 'c get_state \<Rightarrow> (status option \<times> 'c get_state) option" where
  "search_files ucmp h tget ukey ikey level [] gs = Some (None, gs)"
| "search_files ucmp h tget ukey ikey level (f # fs) gs =
     (let gs = charge_seek gs level f;
          saver = \<lparr>sv_state = kNotFound, sv_user_key = ukey, sv_value = gs_value gs\<rparr>
      in case tget (gs_cache gs) (fm_number (h f)) (fm_file_size (h f)) ikey of
           None \<Rightarrow> None
         | Some ((s, saved), cache) \<Rightarrow>
             let saver = (case saved of None \<Rightarrow> saver | Some (k, v) \<Rightarrow> SaveValue ucmp saver k v);
                 gs = gs\<lparr>gs_cache := cache, gs_value := sv_value saver\<rparr>
             in if \<not> ok s then Some (Some s, gs)
                else case sv_state saver of
                       kNotFound \<Rightarrow> search_files ucmp h tget ukey ikey level fs gs
                     | kFound \<Rightarrow> Some (Some s, gs)
                     | kDeleted \<Rightarrow> Some (Some (NotFound []), gs)
                     | kCorrupt \<Rightarrow> Some (Some (mk_status kCorruption ''corrupted key for '' (map (char_of \<circ> unat) ukey)), gs))"

fun search_levels ::
  "(bytes \<Rightarrow> bytes \<Rightarrow> int) \<Rightarrow> file_store \<Rightarrow> db_version \<Rightarrow> ('c \<Rightarrow> uint64 \<Rightarrow> uint64 \<Rightarrow> bytes \<Rightarrow> ((status \<times> (bytes \<times> bytes) option) \<times> 'c) option)
    \<Rightarrow> bytes \<Rightarrow> bytes \<Rightarrow> nat list \<Rightarrow> 'c get_state \<Rightarrow> (status \<times> 'c get_state) option" where
  "search_levels ucmp h v tget ukey ikey [] gs = Some (NotFound [], gs)"
| "search_levels ucmp h v tget ukey ikey (level # levels) gs =
     do { files \<leftarrow> files_to_search ucmp h v level ukey ikey;
          (r, gs) \<leftarrow> search_files ucmp h tget ukey ikey level files gs;
          case r of Some s \<Rightarrow> Some (s, gs) | None \<Rightarrow> search_levels ucmp h v tget ukey ikey levels gs }"

definition Version_Get ::
  "(bytes \<Rightarrow> bytes \<Rightarrow> int) \<Rightarrow> file_store \<Rightarrow> db_version \<Rightarrow> ('c \<Rightarrow> uint64 \<Rightarrow> uint64 \<Rightarrow> bytes \<Rightarrow> ((status \<times> (bytes \<times> bytes) option) \<times> 'c) option)
    \<Rightarrow> 'c \<Rightarrow> LookupKey \<Rightarrow> bytes \<Rightarrow> (status \<times> bytes \<times> get_stats \<times> 'c) option" where
  "Version_Get ucmp h v tget cache k val =
     (let ikey = LookupKey_internal_key k; ukey = LookupKey_user_key k;
          gs = \<lparr>gs_cache = cache, gs_value = val, gs_stats = \<lparr>gt_seek_file = None, gt_seek_file_level = -1\<rparr>,
                gs_last_file = None, gs_last_level = -1\<rparr>
      in do { (s, gs) \<leftarrow> search_levels ucmp h v tget ukey ikey [0..<kNumLevels] gs;
              Some (s, gs_value gs, gs_stats gs, gs_cache gs) })"

section \<open>Seek statistics\<close>

fun each_file :: "('a \<Rightarrow> nat \<Rightarrow> file_ref \<Rightarrow> bool \<times> 'a) \<Rightarrow> nat \<Rightarrow> file_ref list \<Rightarrow> 'a \<Rightarrow> bool \<times> 'a" where
  "each_file func level [] arg = (True, arg)"
| "each_file func level (f # fs) arg =
     (case func arg level f of (continue, arg) \<Rightarrow> if continue then each_file func level fs arg else (False, arg))"

fun each_level :: "(bytes \<Rightarrow> bytes \<Rightarrow> int) \<Rightarrow> file_store \<Rightarrow> db_version \<Rightarrow> bytes \<Rightarrow> bytes \<Rightarrow> ('a \<Rightarrow> nat \<Rightarrow> file_ref \<Rightarrow> bool \<times> 'a)
    \<Rightarrow> nat list \<Rightarrow> 'a \<Rightarrow> 'a option" where
  "each_level ucmp h v ukey ikey func [] arg = Some arg"
| "each_level ucmp h v ukey ikey func (level # levels) arg =
     do { files \<leftarrow> files_to_search ucmp h v level ukey ikey;
          let (continue, arg) = each_file func level files arg;
          if continue then each_level ucmp h v ukey ikey func levels arg else Some arg }"

definition ForEachOverlapping ::
  "(bytes \<Rightarrow> bytes \<Rightarrow> int) \<Rightarrow> file_store \<Rightarrow> db_version \<Rightarrow> bytes \<Rightarrow> bytes \<Rightarrow> ('a \<Rightarrow> nat \<Rightarrow> file_ref \<Rightarrow> bool \<times> 'a) \<Rightarrow> 'a \<Rightarrow> 'a option" where
  "ForEachOverlapping ucmp h v ukey ikey func arg = each_level ucmp h v ukey ikey func [0..<kNumLevels] arg"

definition UpdateStats :: "file_store \<Rightarrow> db_version \<Rightarrow> get_stats \<Rightarrow> bool \<times> file_store \<times> db_version" where
  "UpdateStats h v stats =
     (case gt_seek_file stats of
        None \<Rightarrow> (False, h, v)
      | Some f \<Rightarrow>
          let h = h(f := (h f)\<lparr>fm_allowed_seeks := fm_allowed_seeks (h f) - 1\<rparr>)
          in if fm_allowed_seeks (h f) \<le> 0 \<and> v_file_to_compact v = None
             then (True, h, v\<lparr>v_file_to_compact := Some f, v_file_to_compact_level := gt_seek_file_level stats\<rparr>)
             else (False, h, v))"

record sample_state =
  ss_stats :: get_stats
  ss_matches :: nat

definition Match :: "sample_state \<Rightarrow> nat \<Rightarrow> file_ref \<Rightarrow> bool \<times> sample_state" where
  "Match state level f =
     (let state = state\<lparr>ss_matches := ss_matches state + 1\<rparr>;
          state = (if ss_matches state = 1 then state\<lparr>ss_stats := \<lparr>gt_seek_file = Some f, gt_seek_file_level = int level\<rparr>\<rparr> else state)
      in (ss_matches state < 2, state))"

definition RecordReadSample ::
  "(bytes \<Rightarrow> bytes \<Rightarrow> int) \<Rightarrow> file_store \<Rightarrow> db_version \<Rightarrow> bytes \<Rightarrow> (bool \<times> file_store \<times> db_version) option" where
  "RecordReadSample ucmp h v internal_key =
     (case ParseInternalKey internal_key of
        None \<Rightarrow> Some (False, h, v)
      | Some ikey \<Rightarrow>
          do { state \<leftarrow> ForEachOverlapping ucmp h v (user_key ikey) internal_key Match
                 \<lparr>ss_stats = \<lparr>gt_seek_file = None, gt_seek_file_level = 0\<rparr>, ss_matches = 0\<rparr>;
               Some (if ss_matches state \<ge> 2 then UpdateStats h v (ss_stats state) else (False, h, v)) })"

section \<open>What a version holds\<close>

text \<open>
  \<open>contents\<close> gives the entries of the file with a number and a size. An entry is visible to a lookup when it
  has its user key and does not come before it, that is, is not newer.
\<close>

type_synonym file_contents = "uint64 \<Rightarrow> uint64 \<Rightarrow> (bytes \<times> bytes) list option"

definition file_entries :: "file_contents \<Rightarrow> file_meta \<Rightarrow> (bytes \<times> bytes) set" where
  "file_entries contents f = (case contents (fm_number f) (fm_file_size f) of None \<Rightarrow> {} | Some es \<Rightarrow> set es)"

definition visible_entry :: "(bytes \<Rightarrow> bytes \<Rightarrow> int) \<Rightarrow> bytes \<Rightarrow> bytes \<Rightarrow> bool" where
  "visible_entry ucmp lk k \<longleftrightarrow> ucmp (ExtractUserKey k) (ExtractUserKey lk) = 0 \<and> InternalKey_Compare ucmp lk k \<le> 0"

definition is_newest :: "(bytes \<Rightarrow> bytes \<Rightarrow> int) \<Rightarrow> bytes \<Rightarrow> (bytes \<times> bytes) set \<Rightarrow> bytes \<Rightarrow> bytes \<Rightarrow> bool" where
  "is_newest ucmp lk es k x \<longleftrightarrow> (k, x) \<in> es \<and> visible_entry ucmp lk k
     \<and> (\<forall>(k', x') \<in> es. visible_entry ucmp lk k' \<longrightarrow> InternalKey_Compare ucmp k k' \<le> 0)"

definition version_entries :: "file_contents \<Rightarrow> file_store \<Rightarrow> db_version \<Rightarrow> (bytes \<times> bytes) set" where
  "version_entries contents h v = (\<Union>level < kNumLevels. \<Union>f \<in> set (v_files v ! level). file_entries contents (h f))"

text \<open>Every entry of \<open>f\<close> is newer than the entries of \<open>g\<close> with its user key.\<close>

definition newer_file :: "(bytes \<Rightarrow> bytes \<Rightarrow> int) \<Rightarrow> file_contents \<Rightarrow> file_meta \<Rightarrow> file_meta \<Rightarrow> bool" where
  "newer_file ucmp contents f g \<longleftrightarrow>
     (\<forall>(k, x) \<in> file_entries contents f. \<forall>(k', x') \<in> file_entries contents g.
        ucmp (ExtractUserKey k) (ExtractUserKey k') = 0 \<longrightarrow> InternalKey_Compare ucmp k k' < 0)"

text \<open>A file whose keys parse and lie between its limits; the greater limit is one of its keys.\<close>

definition stored_file :: "(bytes \<Rightarrow> bytes \<Rightarrow> int) \<Rightarrow> (bytes \<Rightarrow> bool) \<Rightarrow> file_contents \<Rightarrow> file_meta \<Rightarrow> bool" where
  "stored_file ucmp uvalid contents f \<longleftrightarrow>
     file_ok ucmp uvalid f \<and> contents (fm_number f) (fm_file_size f) \<noteq> None
     \<and> (\<forall>(k, x) \<in> file_entries contents f. proper_key uvalid k
          \<and> InternalKey_Compare ucmp (fm_smallest f) k \<le> 0 \<and> InternalKey_Compare ucmp k (fm_largest f) \<le> 0)
     \<and> fm_largest f \<in> fst ` file_entries contents f"

text \<open>
  The files of a version: entries never move above older ones of their key, in level 0 by the number of the file, and
  from a level to the next.
\<close>

definition version_sound :: "(bytes \<Rightarrow> bytes \<Rightarrow> int) \<Rightarrow> (bytes \<Rightarrow> bool) \<Rightarrow> file_contents \<Rightarrow> file_store \<Rightarrow> db_version \<Rightarrow> bool" where
  "version_sound ucmp uvalid contents h v \<longleftrightarrow>
     (\<forall>level < kNumLevels. \<forall>f \<in> set (v_files v ! level). stored_file ucmp uvalid contents (h f))
     \<and> (\<forall>level < kNumLevels. level > 0 \<longrightarrow> level_ok ucmp uvalid h (v_files v ! level) \<and> length (v_files v ! level) < 2 ^ 31)
     \<and> (\<forall>f \<in> set (v_files v ! 0). \<forall>g \<in> set (v_files v ! 0). fm_number (h f) > fm_number (h g) \<longrightarrow> newer_file ucmp contents (h f) (h g))
     \<and> distinct (map (fm_number \<circ> h) (v_files v ! 0))
     \<and> (\<forall>i j. i < j \<longrightarrow> j < kNumLevels \<longrightarrow> (\<forall>f \<in> set (v_files v ! i). \<forall>g \<in> set (v_files v ! j). newer_file ucmp contents (h f) (h g)))"

definition unseen :: "(bytes \<Rightarrow> bytes \<Rightarrow> int) \<Rightarrow> file_contents \<Rightarrow> bytes \<Rightarrow> file_meta \<Rightarrow> bool" where
  "unseen ucmp contents lk f \<longleftrightarrow> (\<forall>(k, x) \<in> file_entries contents f. \<not> visible_entry ucmp lk k)"

text \<open>The newest visible entry of the first of the files that has one.\<close>

definition first_hit :: "(bytes \<Rightarrow> bytes \<Rightarrow> int) \<Rightarrow> file_contents \<Rightarrow> file_store \<Rightarrow> bytes \<Rightarrow> file_ref list \<Rightarrow> bytes \<Rightarrow> bytes \<Rightarrow> bool" where
  "first_hit ucmp contents h lk fs k x \<longleftrightarrow>
     (\<exists>as f bs. fs = as @ f # bs \<and> (\<forall>g \<in> set as. unseen ucmp contents lk (h g))
        \<and> is_newest ucmp lk (file_entries contents (h f)) k x)"

lemma first_hit_Cons:
  "first_hit ucmp contents h lk (f # fs) k x \<longleftrightarrow>
     is_newest ucmp lk (file_entries contents (h f)) k x \<or> unseen ucmp contents lk (h f) \<and> first_hit ucmp contents h lk fs k x"
proof
  assume "first_hit ucmp contents h lk (f # fs) k x"
  then obtain as g bs where g: "f # fs = as @ g # bs" "\<forall>g \<in> set as. unseen ucmp contents lk (h g)"
    "is_newest ucmp lk (file_entries contents (h g)) k x" unfolding first_hit_def by blast
  then show "is_newest ucmp lk (file_entries contents (h f)) k x \<or> unseen ucmp contents lk (h f) \<and> first_hit ucmp contents h lk fs k x"
    by (cases as) (auto simp: first_hit_def)
next
  assume "is_newest ucmp lk (file_entries contents (h f)) k x \<or> unseen ucmp contents lk (h f) \<and> first_hit ucmp contents h lk fs k x"
  then show "first_hit ucmp contents h lk (f # fs) k x"
  proof (elim disjE conjE)
    assume "is_newest ucmp lk (file_entries contents (h f)) k x"
    then show ?thesis unfolding first_hit_def by (intro exI [of _ "[]"] exI [of _ f] exI [of _ fs]) simp
  next
    assume f: "unseen ucmp contents lk (h f)" and "first_hit ucmp contents h lk fs k x"
    then obtain as g bs where "fs = as @ g # bs" "\<forall>g \<in> set as. unseen ucmp contents lk (h g)"
      "is_newest ucmp lk (file_entries contents (h g)) k x" unfolding first_hit_def by blast
    with f show ?thesis unfolding first_hit_def by (intro exI [of _ "f # as"] exI [of _ g] exI [of _ bs]) simp
  qed
qed

section \<open>The contract of the table cache\<close>

locale file_source = user_key_comparator ucmp uvalid usep usucc
  for ucmp :: "bytes \<Rightarrow> bytes \<Rightarrow> int" and uvalid usep usucc +
  fixes tget :: "'c \<Rightarrow> uint64 \<Rightarrow> uint64 \<Rightarrow> bytes \<Rightarrow> ((status \<times> (bytes \<times> bytes) option) \<times> 'c) option"
    and cache_ok :: "'c \<Rightarrow> bool"
    and contents :: file_contents
  assumes tget_finds: "cache_ok c \<Longrightarrow> contents n sz = Some es \<Longrightarrow> proper_key uvalid lk \<Longrightarrow>
      \<exists>saved c'. tget c n sz lk = Some ((OK, saved), c') \<and> cache_ok c'
        \<and> (\<forall>k x. saved = Some (k, x) \<longrightarrow> (k, x) \<in> set es \<and> icmp lk k \<le> 0)
        \<and> (\<forall>(k, x) \<in> set es. visible_entry ucmp lk k \<longrightarrow> (\<exists>k0 x0. saved = Some (k0, x0) \<and> icmp k0 k \<le> 0))"
begin

lemma between_same_user:
  assumes lk: "proper_key uvalid lk" and k0: "proper_key uvalid k0" and k: "proper_key uvalid k"
    and "icmp lk k0 \<le> 0" "icmp k0 k \<le> 0" "ucmp (ExtractUserKey k) (ExtractUserKey lk) = 0"
  shows "ucmp (ExtractUserKey k0) (ExtractUserKey lk) = 0"
proof -
  let ?u = "ExtractUserKey lk" and ?w = "ExtractUserKey k0"
  have v: "uvalid ?u" "uvalid ?w" "uvalid (ExtractUserKey k)" using lk k0 k by (simp_all add: proper_key_def)
  have eq: "ExtractUserKey k = ?u" by (rule user.cmp_eq [OF v(3) v(1) assms(6)])
  have "ucmp ?u ?w \<le> 0" using assms(4) unfolding InternalKey_Compare_le by linarith
  moreover have "ucmp ?w ?u \<le> 0" using assms(5) unfolding InternalKey_Compare_le eq by linarith
  ultimately have "ucmp ?u ?w \<le> 0" "ucmp ?w ?u \<le> 0" by blast+
  then show ?thesis using user.cmp_le_iff [OF v(1,2)] by simp
qed

text \<open>The search of one file: nothing visible and the search goes on, or its newest visible entry.\<close>

definition found :: "bytes \<Rightarrow> bytes \<Rightarrow> bytes \<Rightarrow> status \<times> bytes" where
  "found val k x = (if is_value k then (OK, x) else (NotFound [], val))"

lemma charge_seek_keeps [simp]: "gs_cache (charge_seek gs level f) = gs_cache gs" "gs_value (charge_seek gs level f) = gs_value gs"
  by (simp_all add: charge_seek_def Let_def)

lemma SaveValue_hit:
  assumes "ParseInternalKey k = Some key" "ucmp (ExtractUserKey k) u = 0"
  shows "SaveValue ucmp \<lparr>sv_state = kNotFound, sv_user_key = u, sv_value = val\<rparr> k x =
    \<lparr>sv_state = (if is_value k then kFound else kDeleted), sv_user_key = u, sv_value = (if is_value k then x else val)\<rparr>"
proof -
  have "user_key key = ExtractUserKey k"
    using assms(1) by (auto simp: ParseInternalKey_def ExtractUserKey_def Let_def split: if_splits option.splits)
  with assms show ?thesis by (cases "type key") (simp_all add: SaveValue_def is_value_def Let_def)
qed

lemma SaveValue_miss:
  assumes "ParseInternalKey k = Some key" "ucmp (ExtractUserKey k) u \<noteq> 0"
  shows "SaveValue ucmp \<lparr>sv_state = kNotFound, sv_user_key = u, sv_value = val\<rparr> k x =
    \<lparr>sv_state = kNotFound, sv_user_key = u, sv_value = val\<rparr>"
proof -
  have "user_key key = ExtractUserKey k"
    using assms(1) by (auto simp: ParseInternalKey_def ExtractUserKey_def Let_def split: if_splits option.splits)
  with assms show ?thesis by (simp add: SaveValue_def)
qed

lemma search_one:
  assumes f: "stored_file ucmp uvalid contents (h f)" and lk: "proper_key uvalid lk" and c: "cache_ok (gs_cache gs)"
  defines "vis \<equiv> \<lambda>k. visible_entry ucmp lk k" and "u \<equiv> ExtractUserKey lk"
  shows "\<exists>gs'. cache_ok (gs_cache gs') \<and>
    ((unseen ucmp contents lk (h f) \<and> gs_value gs' = gs_value gs
       \<and> search_files ucmp h tget u lk level (f # fs) gs = search_files ucmp h tget u lk level fs gs')
     \<or> (\<exists>k x s. is_newest ucmp lk (file_entries contents (h f)) k x \<and> (s, gs_value gs') = found (gs_value gs) k x
          \<and> search_files ucmp h tget u lk level (f # fs) gs = Some (Some s, gs')))"
proof -
  obtain es where es: "contents (fm_number (h f)) (fm_file_size (h f)) = Some es" "file_entries contents (h f) = set es"
    using f by (auto simp: stored_file_def file_entries_def)
  have keys: "\<forall>(k, x) \<in> set es. proper_key uvalid k" using f es(2) by (auto simp: stored_file_def)
  let ?gs = "charge_seek gs level f"
  obtain saved c' where sv: "tget (gs_cache gs) (fm_number (h f)) (fm_file_size (h f)) lk = Some ((OK, saved), c')" "cache_ok c'"
    "\<forall>k x. saved = Some (k, x) \<longrightarrow> (k, x) \<in> set es \<and> icmp lk k \<le> 0"
    "\<forall>(k, x) \<in> set es. visible_entry ucmp lk k \<longrightarrow> (\<exists>k0 x0. saved = Some (k0, x0) \<and> icmp k0 k \<le> 0)"
    using tget_finds [OF c es(1) lk] by (elim exE conjE) (rule that)
  show ?thesis
  proof (cases "\<exists>k x. saved = Some (k, x) \<and> ucmp (ExtractUserKey k) u = 0")
    case True
    then obtain k x where kx: "saved = Some (k, x)" "ucmp (ExtractUserKey k) u = 0" by blast
    then have k: "(k, x) \<in> set es" "icmp lk k \<le> 0" using sv(3) by blast+
    then obtain key where key: "ParseInternalKey k = Some key" using keys by (auto simp: proper_key_def)
    have le: "icmp k k' \<le> 0" if "(k', x') \<in> set es" "visible_entry ucmp lk k'" for k' x'
      using sv(4) that kx(1) by (auto dest!: bspec [OF _ that(1)])
    have new: "is_newest ucmp lk (file_entries contents (h f)) k x"
      using k kx(2) le unfolding is_newest_def es(2) visible_entry_def [of _ _ k] u_def by blast
    let ?gs' = "?gs\<lparr>gs_cache := c', gs_value := (if is_value k then x else gs_value gs)\<rparr>"
    have "search_files ucmp h tget u lk level (f # fs) gs = Some (Some (if is_value k then OK else NotFound []), ?gs')"
      by (simp add: Let_def ok_def sv(1) kx(1) SaveValue_hit [OF key kx(2)])
    moreover have "(if is_value k then OK else NotFound [], gs_value ?gs') = found (gs_value gs) k x"
      by (simp add: found_def)
    moreover have "cache_ok (gs_cache ?gs')" using sv(2) by simp
    ultimately show ?thesis using new by blast
  next
    case False
    have none: "\<not> vis k" if kx: "(k, x) \<in> set es" for k x
    proof
      assume vis: "vis k"
      then obtain k0 x0 where k0: "saved = Some (k0, x0)" "icmp k0 k \<le> 0" using bspec [OF sv(4) kx] vis by (auto simp: vis_def)
      then have "(k0, x0) \<in> set es" "icmp lk k0 \<le> 0" using sv(3) by blast+
      then have "ucmp (ExtractUserKey k0) u = 0"
        unfolding u_def using keys kx vis k0(2)
        by (intro between_same_user [OF lk, of k0 k]) (auto simp: visible_entry_def vis_def)
      with k0(1) False show False by blast
    qed
    let ?gs' = "?gs\<lparr>gs_cache := c', gs_value := gs_value gs\<rparr>"
    have "search_files ucmp h tget u lk level (f # fs) gs = search_files ucmp h tget u lk level fs ?gs'"
    proof (cases saved)
      case None
      then show ?thesis by (simp add: Let_def ok_def sv(1))
    next
      case (Some kx)
      obtain k x where kx: "kx = (k, x)" by (rule prod.exhaust)
      with Some sv(3) have "(k, x) \<in> set es" by blast
      then obtain key where key: "ParseInternalKey k = Some key" using keys by (auto simp: proper_key_def)
      have "ucmp (ExtractUserKey k) u \<noteq> 0" using False Some kx by blast
      from SaveValue_miss [OF key this] show ?thesis by (simp add: Let_def ok_def sv(1) Some kx)
    qed
    then show ?thesis using none sv(2) by (intro exI [of _ ?gs']) (auto simp: es(2) unseen_def vis_def)
  qed
qed

lemma search_files_spec:
  assumes "\<forall>f \<in> set fs. stored_file ucmp uvalid contents (h f)" and lk: "proper_key uvalid lk" and "cache_ok (gs_cache gs)"
  shows "\<exists>gs' r. search_files ucmp h tget (ExtractUserKey lk) lk level fs gs = Some (r, gs') \<and> cache_ok (gs_cache gs') \<and>
    (case r of
       None \<Rightarrow> (\<forall>f \<in> set fs. unseen ucmp contents lk (h f)) \<and> gs_value gs' = gs_value gs
     | Some s \<Rightarrow> \<exists>k x. first_hit ucmp contents h lk fs k x \<and> (s, gs_value gs') = found (gs_value gs) k x)"
  using assms(1,3)
proof (induction fs arbitrary: gs)
  case Nil
  then show ?case by simp
next
  case (Cons f fs)
  have f: "stored_file ucmp uvalid contents (h f)" using Cons.prems(1) by simp
  obtain gs1 where gs1: "cache_ok (gs_cache gs1)" and
    or: "(unseen ucmp contents lk (h f) \<and> gs_value gs1 = gs_value gs
       \<and> search_files ucmp h tget (ExtractUserKey lk) lk level (f # fs) gs = search_files ucmp h tget (ExtractUserKey lk) lk level fs gs1)
     \<or> (\<exists>k x s. is_newest ucmp lk (file_entries contents (h f)) k x \<and> (s, gs_value gs1) = found (gs_value gs) k x
          \<and> search_files ucmp h tget (ExtractUserKey lk) lk level (f # fs) gs = Some (Some s, gs1))"
    using search_one [of h f lk gs level fs, OF f lk Cons.prems(2)] by (elim exE conjE) (rule that)
  from or show ?case
  proof (elim disjE conjE exE)
    assume none: "unseen ucmp contents lk (h f)" and val: "gs_value gs1 = gs_value gs"
      and eq: "search_files ucmp h tget (ExtractUserKey lk) lk level (f # fs) gs = search_files ucmp h tget (ExtractUserKey lk) lk level fs gs1"
    have fs: "\<forall>f \<in> set fs. stored_file ucmp uvalid contents (h f)" using Cons.prems(1) by simp
    obtain gs' r where IH: "search_files ucmp h tget (ExtractUserKey lk) lk level fs gs1 = Some (r, gs')" "cache_ok (gs_cache gs')"
      "case r of
       None \<Rightarrow> (\<forall>f \<in> set fs. unseen ucmp contents lk (h f)) \<and> gs_value gs' = gs_value gs1
     | Some s \<Rightarrow> \<exists>k x. first_hit ucmp contents h lk fs k x \<and> (s, gs_value gs') = found (gs_value gs1) k x"
      using Cons.IH [OF fs gs1] by (elim exE conjE) (rule that)
    show ?thesis unfolding eq using IH none val
      by (intro exI [of _ gs'] exI [of _ r]) (cases r; auto simp: first_hit_Cons)
  next
    fix k x s
    assume k: "is_newest ucmp lk (file_entries contents (h f)) k x" "(s, gs_value gs1) = found (gs_value gs) k x"
      and eq: "search_files ucmp h tget (ExtractUserKey lk) lk level (f # fs) gs = Some (Some s, gs1)"
    have "first_hit ucmp contents h lk (f # fs) k x" using k(1) by (simp add: first_hit_Cons)
    with k(2) have "\<exists>k x. first_hit ucmp contents h lk (f # fs) k x \<and> (s, gs_value gs1) = found (gs_value gs) k x" by blast
    with gs1 show ?thesis unfolding eq by (intro exI [of _ gs1] exI [of _ "Some s"]) simp
  qed
qed

section \<open>The files that are searched suffice\<close>

lemma least_key:
  assumes "finite S" "S \<noteq> {}" "\<forall>(k, x) \<in> S. internal_valid uvalid k"
  shows "\<exists>(k, x) \<in> S. \<forall>(k', x') \<in> S. icmp k k' \<le> 0"
  using assms
proof (induction rule: finite_ne_induct)
  case (singleton e)
  then show ?case using internal.cmp_refl by auto
next
  case (insert e S)
  obtain k x where e: "e = (k, x)" by (rule prod.exhaust)
  obtain k1 x1 where m: "(k1, x1) \<in> S" "\<forall>(k', x') \<in> S. icmp k1 k' \<le> 0" using insert by auto
  have v: "internal_valid uvalid k" "internal_valid uvalid k1" "\<And>k' x'. (k', x') \<in> S \<Longrightarrow> internal_valid uvalid k'"
    using insert.prems m(1) e by auto
  show ?case
  proof (cases "icmp k k1 \<le> 0")
    case True
    have "icmp k k' \<le> 0" if "(k', x') \<in> S" for k' x'
      using internal.cmp_trans [OF v(1,2) v(3) [OF that] True] m(2) that by blast
    then show ?thesis using e internal.cmp_refl [OF v(1)] by auto
  next
    case False
    then have "icmp k1 k \<le> 0" using internal.cmp_le_iff [OF v(1,2)] by auto
    then show ?thesis using e m by auto
  qed
qed

lemma newest_exists:
  assumes f: "stored_file ucmp uvalid contents f" and seen: "\<not> unseen ucmp contents lk f"
  shows "\<exists>k x. is_newest ucmp lk (file_entries contents f) k x"
proof -
  let ?S = "{(k, x) \<in> file_entries contents f. visible_entry ucmp lk k}"
  have "finite ?S" by (rule finite_subset [of _ "file_entries contents f"]) (auto simp: file_entries_def split: option.split)
  moreover have "?S \<noteq> {}" using seen by (auto simp: unseen_def)
  moreover have "\<forall>(k, x) \<in> ?S. internal_valid uvalid k" using f by (auto simp: stored_file_def proper_key_valid)
  ultimately have "\<exists>(k, x) \<in> ?S. \<forall>(k', x') \<in> ?S. icmp k k' \<le> 0" by (rule least_key)
  then show ?thesis by (auto simp: is_newest_def)
qed

lemma first_hit_unique: "first_hit ucmp contents h lk fs k x \<Longrightarrow> first_hit ucmp contents h lk fs k' x' \<Longrightarrow> icmp k k' \<le> 0"
proof (induction fs)
  case Nil
  then show ?case by (simp add: first_hit_def)
next
  case (Cons f fs)
  have "\<not> unseen ucmp contents lk (h f)" if "is_newest ucmp lk (file_entries contents (h f)) k x" for k x
    using that by (auto simp: is_newest_def unseen_def)
  with Cons show ?case by (auto simp: first_hit_Cons is_newest_def)
qed

lemma first_hit_covers:
  assumes "sorted_wrt (\<lambda>f g. newer_file ucmp contents (h f) (h g)) fs" "\<forall>f \<in> set fs. stored_file ucmp uvalid contents (h f)"
    and "g \<in> set fs" "(k, x) \<in> file_entries contents (h g)" "visible_entry ucmp lk k" and lk: "proper_key uvalid lk"
  shows "\<exists>k' x'. first_hit ucmp contents h lk fs k' x' \<and> icmp k' k \<le> 0"
  using assms(1-3)
proof (induction fs)
  case Nil
  then show ?case by simp
next
  case (Cons f fs)
  show ?case
  proof (cases "unseen ucmp contents lk (h f)")
    case True
    with assms(4,5) have "g \<noteq> f" by (auto simp: unseen_def)
    with Cons True show ?thesis by (auto simp: first_hit_Cons)
  next
    case False
    have f: "stored_file ucmp uvalid contents (h f)" using Cons.prems(2) by simp
    obtain k' x' where new: "is_newest ucmp lk (file_entries contents (h f)) k' x'" using newest_exists [OF f False] by blast
    have "icmp k' k \<le> 0"
    proof (cases "g = f")
      case True
      with new assms(4,5) show ?thesis by (auto simp: is_newest_def)
    next
      case False
      then have g: "g \<in> set fs" using Cons.prems(3) by simp
      then have nf: "newer_file ucmp contents (h f) (h g)" using Cons.prems(1) by simp
      have "stored_file ucmp uvalid contents (h g)" using Cons.prems(2) g by simp
      then have v: "uvalid (ExtractUserKey k)" "uvalid (ExtractUserKey k')" "uvalid (ExtractUserKey lk)"
        using f new assms(4) lk by (auto simp: stored_file_def is_newest_def proper_key_def)
      have "ExtractUserKey k = ExtractUserKey lk" "ExtractUserKey k' = ExtractUserKey lk"
        using new assms(5) user.cmp_eq [OF v(1,3)] user.cmp_eq [OF v(2,3)] by (simp_all add: is_newest_def visible_entry_def)
      then have "ucmp (ExtractUserKey k') (ExtractUserKey k) = 0" using user.cmp_refl [OF v(3)] by simp
      moreover have "(k', x') \<in> file_entries contents (h f)" using new by (simp add: is_newest_def)
      ultimately have "icmp k' k < 0" using nf assms(4) unfolding newer_file_def by blast
      then show ?thesis by simp
    qed
    with new show ?thesis by (auto simp: first_hit_Cons)
  qed
qed

lemma in_user_range:
  assumes f: "stored_file ucmp uvalid contents f" and k: "(k, x) \<in> file_entries contents f" "visible_entry ucmp lk k"
    and lk: "proper_key uvalid lk"
  shows "ucmp (ExtractUserKey lk) (ExtractUserKey (fm_smallest f)) \<ge> 0" "ucmp (ExtractUserKey lk) (ExtractUserKey (fm_largest f)) \<le> 0"
proof -
  have p: "proper_key uvalid k" and le: "icmp (fm_smallest f) k \<le> 0" "icmp k (fm_largest f) \<le> 0" and ok: "file_ok ucmp uvalid f"
    using f k(1) by (auto simp: stored_file_def)
  have eq: "ExtractUserKey k = ExtractUserKey lk"
    using user.cmp_eq [of "ExtractUserKey k" "ExtractUserKey lk"] k(2) p lk by (simp add: visible_entry_def proper_key_def)
  have vs: "uvalid (ExtractUserKey (fm_smallest f))" and vl: "uvalid (ExtractUserKey lk)"
    using file_ok_user(1) [OF ok] lk by (simp_all add: proper_key_def)
  have "ucmp (ExtractUserKey (fm_smallest f)) (ExtractUserKey lk) \<le> 0" using le(1) eq by (auto simp: InternalKey_Compare_le)
  then show "ucmp (ExtractUserKey lk) (ExtractUserKey (fm_smallest f)) \<ge> 0"
    using user.cmp_le_iff [OF vs vl] by auto
  show "ucmp (ExtractUserKey lk) (ExtractUserKey (fm_largest f)) \<le> 0" using le(2) eq by (auto simp: InternalKey_Compare_le)
qed

lemma insert_newest_first_set: "set (insert_newest_first h f fs) = insert f (set fs)"
  by (induction fs) auto

lemma sort_newest_first_set: "set (sort_newest_first h fs) = set fs"
  by (induction fs) (simp_all add: sort_newest_first_def insert_newest_first_set)

lemma insert_newest_first_sorted:
  "sorted_wrt (\<lambda>f g. fm_number (h f) > fm_number (h g)) fs \<Longrightarrow> fm_number (h f) \<notin> (fm_number \<circ> h) ` set fs \<Longrightarrow>
   sorted_wrt (\<lambda>f g. fm_number (h f) > fm_number (h g)) (insert_newest_first h f fs)"
proof (induction fs)
  case Nil
  then show ?case by simp
next
  case (Cons g fs)
  then show ?case by (auto simp: NewestFirst_def insert_newest_first_set not_less le_less intro: less_trans)
qed

lemma sort_newest_first_sorted:
  "distinct (map (fm_number \<circ> h) fs) \<Longrightarrow> sorted_wrt (\<lambda>f g. fm_number (h f) > fm_number (h g)) (sort_newest_first h fs)"
proof (induction fs)
  case Nil
  then show ?case by (simp add: sort_newest_first_def)
next
  case (Cons f fs)
  then show ?case using insert_newest_first_sorted [of h "sort_newest_first h fs" f] sort_newest_first_set [of h fs]
    by (simp add: sort_newest_first_def)
qed

definition covers :: "file_store \<Rightarrow> bytes \<Rightarrow> file_ref list \<Rightarrow> file_ref list \<Rightarrow> bool" where
  "covers h lk files fs \<longleftrightarrow> set fs \<subseteq> set files \<and>
     (\<forall>g \<in> set files. \<forall>(k, x) \<in> file_entries contents (h g). visible_entry ucmp lk k \<longrightarrow>
        (\<exists>k' x'. first_hit ucmp contents h lk fs k' x' \<and> icmp k' k \<le> 0))"

lemma version_sound_stored: "version_sound ucmp uvalid contents h v \<Longrightarrow> level < kNumLevels \<Longrightarrow> f \<in> set (v_files v ! level)
    \<Longrightarrow> stored_file ucmp uvalid contents (h f)"
  by (simp add: version_sound_def)

lemma version_sound_level: "version_sound ucmp uvalid contents h v \<Longrightarrow> level < kNumLevels \<Longrightarrow> 0 < level
    \<Longrightarrow> level_ok ucmp uvalid h (v_files v ! level) \<and> length (v_files v ! level) < 2 ^ 31"
  by (simp add: version_sound_def)

lemma version_sound_newer: "version_sound ucmp uvalid contents h v \<Longrightarrow> i < j \<Longrightarrow> j < kNumLevels
    \<Longrightarrow> f \<in> set (v_files v ! i) \<Longrightarrow> g \<in> set (v_files v ! j) \<Longrightarrow> newer_file ucmp contents (h f) (h g)"
  by (simp add: version_sound_def)

lemma search_level_0:
  assumes v: "version_sound ucmp uvalid contents h v" and lk: "proper_key uvalid lk"
  shows "\<exists>fs. files_to_search ucmp h v 0 (ExtractUserKey lk) lk = Some fs \<and> covers h lk (v_files v ! 0) fs"
proof (cases "v_files v ! 0 = []")
  case True
  then show ?thesis by (simp add: files_to_search_def covers_def)
next
  case False
  let ?files = "v_files v ! 0"
  let ?P = "\<lambda>f. ucmp (ExtractUserKey lk) (ExtractUserKey (fm_smallest (h f))) \<ge> 0 \<and> ucmp (ExtractUserKey lk) (ExtractUserKey (fm_largest (h f))) \<le> 0"
  let ?fs = "sort_newest_first h (filter ?P ?files)"
  have st: "\<forall>f \<in> set ?files. stored_file ucmp uvalid contents (h f)" using version_sound_stored [OF v, of 0] by (simp add: kNumLevels_def)
  have set: "set ?fs = set (filter ?P ?files)" by (rule sort_newest_first_set)
  have newer: "\<forall>f \<in> set ?files. \<forall>g \<in> set ?files. fm_number (h f) > fm_number (h g) \<longrightarrow> newer_file ucmp contents (h f) (h g)"
    using v by (simp add: version_sound_def)
  have "distinct (map (fm_number \<circ> h) (filter ?P ?files))" using v by (simp add: version_sound_def distinct_map_filter)
  then have "sorted_wrt (\<lambda>f g. fm_number (h f) > fm_number (h g)) ?fs" by (rule sort_newest_first_sorted)
  then have srt: "sorted_wrt (\<lambda>f g. newer_file ucmp contents (h f) (h g)) ?fs"
    by (rule sorted_wrt_mono_rel [rotated]) (use newer set in auto)
  have "\<exists>k' x'. first_hit ucmp contents h lk ?fs k' x' \<and> icmp k' k \<le> 0"
    if g: "g \<in> set ?files" "(k, x) \<in> file_entries contents (h g)" "visible_entry ucmp lk k" for g k x
  proof (rule first_hit_covers [OF srt _ _ g(2,3) lk])
    show "\<forall>f \<in> set ?fs. stored_file ucmp uvalid contents (h f)" using st set by simp
    show "g \<in> set ?fs" using in_user_range [OF _ g(2,3) lk] st g(1) set by simp
  qed
  then have "covers h lk ?files ?fs" unfolding covers_def using set by auto
  then show ?thesis using False by (simp add: files_to_search_def Let_def)
qed

lemma search_sorted_level:
  assumes lok: "level_ok ucmp uvalid h files" and small: "length files < 2 ^ 31" and lk: "proper_key uvalid lk"
    and st: "\<forall>f \<in> set files. stored_file ucmp uvalid contents (h f)" and level: "level > 0" "v_files v ! level = files"
  shows "\<exists>fs. files_to_search ucmp h v level (ExtractUserKey lk) lk = Some fs \<and> covers h lk files fs"
proof (cases "files = []")
  case True
  then show ?thesis using level by (simp add: files_to_search_def covers_def)
next
  case False
  note e = level_ok_entries [OF lok] and vlk = proper_key_valid [OF lk]
  obtain r where r: "FindFile icmp h files lk = Some r" "unat r = lower_bound icmp (level_entries h files) lk"
    using FindFile_lower_bound [OF e vlk small] by blast
  have before: "icmp (fm_largest (h (files ! i))) lk < 0 \<longleftrightarrow> i < unat r" if "i < length files" for i
    using lower_bound_iff [OF e vlk, of i] that r(2) by simp
  have sf: "stored_file ucmp uvalid contents (h (files ! i))" if "i < length files" for i using st that by simp
  have vl: "internal_valid uvalid (fm_largest (h (files ! i)))" if "i < length files" for i
    using sf [OF that] by (simp add: stored_file_def file_ok_valid)
  let ?fs = "if unat r \<ge> length files then [] else if ucmp (ExtractUserKey lk) (ExtractUserKey (fm_smallest (h (files ! unat r)))) < 0
    then [] else [files ! unat r]"
  have eq: "files_to_search ucmp h v level (ExtractUserKey lk) lk = Some ?fs"
    using False level r(1) by (simp add: files_to_search_def Let_def)
  have "\<exists>k' x'. first_hit ucmp contents h lk ?fs k' x' \<and> icmp k' k \<le> 0"
    if g: "j < length files" "(k, x) \<in> file_entries contents (h (files ! j))" "visible_entry ucmp lk k" for j k x
  proof -
    let ?f = "h (files ! unat r)"
    have pk: "proper_key uvalid k" "icmp k (fm_largest (h (files ! j))) \<le> 0" "icmp (fm_smallest (h (files ! j))) k \<le> 0"
      using sf [OF g(1)] g(2) by (auto simp: stored_file_def)
    have vk: "internal_valid uvalid k" using pk(1) by (rule proper_key_valid)
    have lkk: "icmp lk k \<le> 0" using g(3) by (simp add: visible_entry_def)
    have "\<not> icmp (fm_largest (h (files ! j))) lk < 0"
      using internal.cmp_trans [OF vlk vk vl [OF g(1)] lkk pk(2)] internal.cmp_le_iff [OF vlk vl [OF g(1)]] by simp
    with before [OF g(1)] have rj: "unat r \<le> j" by simp
    then have rl: "unat r < length files" using g(1) by simp
    have fr: "stored_file ucmp uvalid contents ?f" using sf [OF rl] .
    have "\<exists>k1 x1. (k1, x1) \<in> file_entries contents ?f \<and> visible_entry ucmp lk k1 \<and> icmp k1 k \<le> 0"
    proof (cases "unat r = j")
      case True
      with g internal.cmp_refl [OF vk] show ?thesis by auto
    next
      case False
      let ?k1 = "fm_largest ?f"
      have "?k1 \<in> fst ` file_entries contents ?f" "proper_key uvalid ?k1"
        using fr by (simp_all add: stored_file_def file_ok_def)
      then obtain x1 where k1: "(?k1, x1) \<in> file_entries contents ?f" by auto
      have "icmp ?k1 (fm_smallest (h (files ! j))) < 0"
        using lok False rj g(1) sorted_wrt_nth_less [of "\<lambda>f g. icmp (fm_largest (h f)) (fm_smallest (h g)) < 0" files "unat r" j]
        by (simp add: level_ok_def)
      moreover have vs: "internal_valid uvalid (fm_smallest (h (files ! j)))"
        using sf [OF g(1)] by (simp add: stored_file_def file_ok_valid)
      ultimately have "icmp ?k1 k < 0" using internal.cmp_less_le_trans [OF vl [OF rl] vs vk] pk(3) by simp
      then have le: "icmp ?k1 k \<le> 0" by simp
      have "icmp lk ?k1 \<le> 0" using before [OF rl] internal.cmp_le_iff [OF vlk vl [OF rl]] by simp
      moreover from this have "ucmp (ExtractUserKey ?k1) (ExtractUserKey lk) = 0"
        using between_same_user [OF lk \<open>proper_key uvalid ?k1\<close> pk(1) _ le] g(3) by (simp add: visible_entry_def)
      ultimately have "visible_entry ucmp lk ?k1" by (simp add: visible_entry_def)
      with k1 le show ?thesis by blast
    qed
    then obtain k1 x1 where k1: "(k1, x1) \<in> file_entries contents ?f" "visible_entry ucmp lk k1" "icmp k1 k \<le> 0" by blast
    have fs: "?fs = [files ! unat r]" using in_user_range(1) [OF fr k1(1,2) lk] rl by simp
    obtain k' x' where k': "first_hit ucmp contents h lk ?fs k' x'" "icmp k' k1 \<le> 0"
      using first_hit_covers [of h ?fs "files ! unat r", OF _ _ _ k1(1,2) lk] fr unfolding fs by auto
    have "\<exists>f \<in> set ?fs. (k', x') \<in> file_entries contents (h f)" using k'(1) unfolding first_hit_def is_newest_def by fastforce
    then have "proper_key uvalid k'" using fr unfolding fs by (auto simp: stored_file_def)
    then have "icmp k' k \<le> 0"
      using internal.cmp_trans [of k' k1 k] k'(2) k1 fr vk by (auto simp: proper_key_valid stored_file_def)
    with k'(1) show ?thesis by blast
  qed
  then have "\<forall>g \<in> set files. \<forall>(k, x) \<in> file_entries contents (h g). visible_entry ucmp lk k \<longrightarrow>
      (\<exists>k' x'. first_hit ucmp contents h lk ?fs k' x' \<and> icmp k' k \<le> 0)"
    by (metis (no_types, lifting) case_prodI2 in_set_conv_nth)
  moreover have "set ?fs \<subseteq> set files" by simp
  ultimately have "covers h lk files ?fs" unfolding covers_def by blast
  with eq show ?thesis by blast
qed

lemma search_level:
  assumes v: "version_sound ucmp uvalid contents h v" and lk: "proper_key uvalid lk" and level: "level < kNumLevels"
  shows "\<exists>fs. files_to_search ucmp h v level (ExtractUserKey lk) lk = Some fs \<and> covers h lk (v_files v ! level) fs"
proof (cases "level = 0")
  case True
  with search_level_0 [OF v lk] show ?thesis by simp
next
  case False
  with search_sorted_level [of h "v_files v ! level" lk level v] version_sound_level [OF v level] version_sound_stored [OF v level] lk
  show ?thesis by simp
qed

text \<open>No entry of the levels is visible, or the search returns the newest one.\<close>

lemma search_levels_spec:
  assumes v: "version_sound ucmp uvalid contents h v" and lk: "proper_key uvalid lk"
    and "cache_ok (gs_cache gs)" and "a \<le> kNumLevels"
  shows "\<exists>gs' s. search_levels ucmp h v tget (ExtractUserKey lk) lk [a..<kNumLevels] gs = Some (s, gs') \<and> cache_ok (gs_cache gs') \<and>
    ((\<forall>level \<in> {a..<kNumLevels}. \<forall>f \<in> set (v_files v ! level). unseen ucmp contents lk (h f)) \<and> s = NotFound [] \<and> gs_value gs' = gs_value gs
     \<or> (\<exists>k x. is_newest ucmp lk (\<Union>level \<in> {a..<kNumLevels}. \<Union>f \<in> set (v_files v ! level). file_entries contents (h f)) k x
          \<and> (s, gs_value gs') = found (gs_value gs) k x))"
  using assms(3,4)
proof (induction "kNumLevels - a" arbitrary: a gs)
  case 0
  then show ?case by simp
next
  case (Suc n)
  then have a: "a < kNumLevels" by simp
  then have upt: "[a..<kNumLevels] = a # [Suc a..<kNumLevels]" by (rule upt_conv_Cons)
  have set: "{a..<kNumLevels} = insert a {Suc a..<kNumLevels}" using a by auto
  obtain fs where fs: "files_to_search ucmp h v a (ExtractUserKey lk) lk = Some fs" "covers h lk (v_files v ! a) fs"
    using search_level [OF v lk a] by blast
  have sub: "set fs \<subseteq> set (v_files v ! a)" using fs(2) by (simp add: covers_def)
  have st: "\<forall>f \<in> set fs. stored_file ucmp uvalid contents (h f)" using version_sound_stored [OF v a] sub by blast
  obtain gs1 r where r: "search_files ucmp h tget (ExtractUserKey lk) lk a fs gs = Some (r, gs1)" "cache_ok (gs_cache gs1)"
    "case r of
       None \<Rightarrow> (\<forall>f \<in> set fs. unseen ucmp contents lk (h f)) \<and> gs_value gs1 = gs_value gs
     | Some s \<Rightarrow> \<exists>k x. first_hit ucmp contents h lk fs k x \<and> (s, gs_value gs1) = found (gs_value gs) k x"
    using search_files_spec [of fs h lk gs a, OF st lk Suc.prems(1)] by (elim exE conjE) (rule that)
  show ?case
  proof (cases r)
    case None
    then have un: "\<forall>f \<in> set fs. unseen ucmp contents lk (h f)" and val: "gs_value gs1 = gs_value gs" using r(3) by simp_all
    have no_hit: "\<not> first_hit ucmp contents h lk fs k x" for k x
      using un unfolding first_hit_def is_newest_def unseen_def by fastforce
    have all: "\<forall>f \<in> set (v_files v ! a). unseen ucmp contents lk (h f)"
      using fs(2) no_hit unfolding covers_def unseen_def by blast
    have newest: "is_newest ucmp lk (\<Union>level \<in> {a..<kNumLevels}. \<Union>f \<in> set (v_files v ! level). file_entries contents (h f)) k x"
      if "is_newest ucmp lk (\<Union>level \<in> {Suc a..<kNumLevels}. \<Union>f \<in> set (v_files v ! level). file_entries contents (h f)) k x" for k x
      using that all unfolding is_newest_def set unseen_def by fastforce
    have "n = kNumLevels - Suc a" "Suc a \<le> kNumLevels" using Suc.hyps(2) a by simp_all
    from Suc.hyps(1) [OF this(1) r(2) this(2)] obtain gs' s where IH:
      "search_levels ucmp h v tget (ExtractUserKey lk) lk [Suc a..<kNumLevels] gs1 = Some (s, gs')" "cache_ok (gs_cache gs')"
      "(\<forall>level \<in> {Suc a..<kNumLevels}. \<forall>f \<in> set (v_files v ! level). unseen ucmp contents lk (h f)) \<and> s = NotFound [] \<and> gs_value gs' = gs_value gs1
     \<or> (\<exists>k x. is_newest ucmp lk (\<Union>level \<in> {Suc a..<kNumLevels}. \<Union>f \<in> set (v_files v ! level). file_entries contents (h f)) k x
          \<and> (s, gs_value gs') = found (gs_value gs1) k x)" by (elim exE conjE) (rule that)
    have "search_levels ucmp h v tget (ExtractUserKey lk) lk [a..<kNumLevels] gs = Some (s, gs')"
      using fs(1) r(1) None IH(1) by (simp add: upt)
    moreover from IH(3) have "(\<forall>level \<in> {a..<kNumLevels}. \<forall>f \<in> set (v_files v ! level). unseen ucmp contents lk (h f)) \<and> s = NotFound [] \<and> gs_value gs' = gs_value gs
     \<or> (\<exists>k x. is_newest ucmp lk (\<Union>level \<in> {a..<kNumLevels}. \<Union>f \<in> set (v_files v ! level). file_entries contents (h f)) k x
          \<and> (s, gs_value gs') = found (gs_value gs) k x)"
    proof (elim disjE exE conjE)
      assume "\<forall>level \<in> {Suc a..<kNumLevels}. \<forall>f \<in> set (v_files v ! level). unseen ucmp contents lk (h f)"
        "s = NotFound []" "gs_value gs' = gs_value gs1"
      with all val show ?thesis unfolding set by (intro disjI1) simp
    next
      fix k x
      assume "is_newest ucmp lk (\<Union>level \<in> {Suc a..<kNumLevels}. \<Union>f \<in> set (v_files v ! level). file_entries contents (h f)) k x"
        "(s, gs_value gs') = found (gs_value gs1) k x"
      with newest val show ?thesis by (intro disjI2) metis
    qed
    ultimately show ?thesis using IH(2) by blast
  next
    case (Some s)
    then obtain k x where kx: "first_hit ucmp contents h lk fs k x" "(s, gs_value gs1) = found (gs_value gs) k x" using r(3) by auto
    then obtain f where f: "f \<in> set fs" "(k, x) \<in> file_entries contents (h f)" "visible_entry ucmp lk k"
      unfolding first_hit_def is_newest_def by fastforce
    have pk: "proper_key uvalid k" using st f by (auto simp: stored_file_def)
    have le: "icmp k k' \<le> 0"
      if lvl: "level \<in> {a..<kNumLevels}" and g: "g \<in> set (v_files v ! level)" "(k', x') \<in> file_entries contents (h g)"
        and vis: "visible_entry ucmp lk k'" for level g k' x'
    proof -
      have pk': "proper_key uvalid k'" using version_sound_stored [OF v _ g(1)] lvl g(2) by (auto simp: stored_file_def)
      show ?thesis
      proof (cases "level = a")
        case True
        then obtain k1 x1 where k1: "first_hit ucmp contents h lk fs k1 x1" "icmp k1 k' \<le> 0"
          using fs(2) g vis unfolding covers_def by blast
        then have "proper_key uvalid k1" using st unfolding first_hit_def is_newest_def stored_file_def by fastforce
        then show ?thesis
          using internal.cmp_trans [of k k1 k'] first_hit_unique [OF kx(1) k1(1)] k1(2) pk pk' by (simp add: proper_key_valid)
      next
        case False
        then have "newer_file ucmp contents (h f) (h g)" using version_sound_newer [OF v _ _ _ g(1), of a f] lvl f(1) sub by auto
        moreover have "ucmp (ExtractUserKey k) (ExtractUserKey k') = 0"
          using f(3) vis user.cmp_eq [of "ExtractUserKey k" "ExtractUserKey lk"] user.cmp_zero_sym [of "ExtractUserKey k'" "ExtractUserKey lk"]
            pk pk' lk by (simp add: visible_entry_def proper_key_def)
        ultimately have "icmp k k' < 0" using f(2) g(2) unfolding newer_file_def by blast
        then show ?thesis by simp
      qed
    qed
    have "a \<in> {a..<kNumLevels}" using a by simp
    with f sub have "(k, x) \<in> (\<Union>level \<in> {a..<kNumLevels}. \<Union>f \<in> set (v_files v ! level). file_entries contents (h f))" by blast
    with le f(3) have "is_newest ucmp lk (\<Union>level \<in> {a..<kNumLevels}. \<Union>f \<in> set (v_files v ! level). file_entries contents (h f)) k x"
      unfolding is_newest_def by blast
    moreover have "search_levels ucmp h v tget (ExtractUserKey lk) lk [a..<kNumLevels] gs = Some (s, gs1)"
      using fs(1) r(1) Some by (simp add: upt)
    ultimately show ?thesis using r(2) kx(2) by blast
  qed
qed

lemma lookup_key_proper:
  assumes "uvalid u" "s \<le> kMaxSequenceNumber"
  shows "proper_key uvalid (LookupKey_internal_key (LookupKey_make u s))"
    "ExtractUserKey (LookupKey_internal_key (LookupKey_make u s)) = LookupKey_user_key (LookupKey_make u s)"
proof -
  have "LookupKey_internal_key (LookupKey_make u s) = InternalKey_make u s kValueTypeForSeek"
    by (simp add: LookupKey_internal_key_def LookupKey_make_def InternalKey_make_def AppendInternalKey_eq)
  then show "proper_key uvalid (LookupKey_internal_key (LookupKey_make u s))" using proper_key_make assms by simp
  show "ExtractUserKey (LookupKey_internal_key (LookupKey_make u s)) = LookupKey_user_key (LookupKey_make u s)"
    by (simp add: LookupKey_internal_key_def LookupKey_user_key_def ExtractUserKey_def)
qed

lemma Get_newest:
  assumes v: "version_sound ucmp uvalid contents h v" and u: "uvalid u" "s \<le> kMaxSequenceNumber" and c: "cache_ok c"
  defines "lk \<equiv> LookupKey_internal_key (LookupKey_make u s)"
  shows "\<exists>st val' stats c'. Version_Get ucmp h v tget c (LookupKey_make u s) val = Some (st, val', stats, c') \<and> cache_ok c' \<and>
    ((\<forall>(k, x) \<in> version_entries contents h v. \<not> visible_entry ucmp lk k) \<and> st = NotFound [] \<and> val' = val
     \<or> (\<exists>k x. is_newest ucmp lk (version_entries contents h v) k x \<and> (st, val') = found val k x))"
proof -
  let ?gs = "\<lparr>gs_cache = c, gs_value = val, gs_stats = \<lparr>gt_seek_file = None, gt_seek_file_level = -1\<rparr>, gs_last_file = None, gs_last_level = -1\<rparr>"
  note lk = lookup_key_proper [OF u, folded lk_def]
  have ents: "(\<Union>level \<in> {0..<kNumLevels}. \<Union>f \<in> set (v_files v ! level). file_entries contents (h f)) = version_entries contents h v"
    by (simp add: version_entries_def atLeast0LessThan)
  have "cache_ok (gs_cache ?gs)" "0 \<le> kNumLevels" using c by simp_all
  from search_levels_spec [OF v lk(1) this] obtain gs' st where r:
    "search_levels ucmp h v tget (ExtractUserKey lk) lk [0..<kNumLevels] ?gs = Some (st, gs')" "cache_ok (gs_cache gs')"
    "(\<forall>level \<in> {0..<kNumLevels}. \<forall>f \<in> set (v_files v ! level). unseen ucmp contents lk (h f)) \<and> st = NotFound [] \<and> gs_value gs' = gs_value ?gs
     \<or> (\<exists>k x. is_newest ucmp lk (version_entries contents h v) k x \<and> (st, gs_value gs') = found (gs_value ?gs) k x)"
    unfolding ents by (elim exE conjE) (rule that)
  have "Version_Get ucmp h v tget c (LookupKey_make u s) val = Some (st, gs_value gs', gs_stats gs', gs_cache gs')"
    using r(1) by (simp add: Version_Get_def lk(2) [symmetric] Let_def flip: lk_def)
  moreover have "(\<forall>(k, x) \<in> version_entries contents h v. \<not> visible_entry ucmp lk k) \<and> st = NotFound [] \<and> gs_value gs' = val
     \<or> (\<exists>k x. is_newest ucmp lk (version_entries contents h v) k x \<and> (st, gs_value gs') = found val k x)"
    using r(3) unfolding ents [symmetric] unseen_def by auto
  ultimately show ?thesis using r(2) by blast
qed

end

section \<open>Properties\<close>

text \<open>
  C1. A lookup in a version ends and finds the newest entry of the key that the snapshot sees, over
  all files of all levels: its value, or \<open>NotFound\<close> when that entry is a deletion; and \<open>NotFound\<close> with
  the value left as it was exactly when no file has such an entry. The search stops at the first file that has an
  entry of the key; it is enough that the files of the levels above 0 are sorted and disjoint and that entries of a key
  are newer in files with greater numbers at level 0 and in lower levels. The law on the table cache is that it finds, in the file with
  a number, the first entry not before the key, or nothing of the key if there is none.
\<close>

theorem Version_Get_finds_newest:
  assumes "file_source ucmp uvalid usep usucc tget cache_ok contents" and "version_sound ucmp uvalid contents h v"
    and "uvalid u" and "s \<le> kMaxSequenceNumber" and "cache_ok c"
  shows "\<exists>st val' stats c'. Version_Get ucmp h v tget c (LookupKey_make u s) val = Some (st, val', stats, c') \<and> cache_ok c' \<and>
    (let lk = LookupKey_internal_key (LookupKey_make u s); entries = version_entries contents h v in
      (\<forall>(k, x) \<in> entries. \<not> visible_entry ucmp lk k) \<and> st = NotFound [] \<and> val' = val
     \<or> (\<exists>k x. is_newest ucmp lk entries k x \<and>
          (if is_value k then st = OK \<and> val' = x else st = NotFound [] \<and> val' = val)))"
  using file_source.Get_newest [OF assms, of val] by (auto simp: Let_def file_source.found_def [OF assms(1)] split: if_splits)

text \<open>A source of one file, for the witness.\<close>

definition one_entry :: file_contents where
  "one_entry n sz = (if n = 3 then Some [(InternalKey_make [3] 5 kTypeValue, [9])] else None)"

definition one_entry_get :: "unit \<Rightarrow> uint64 \<Rightarrow> uint64 \<Rightarrow> bytes \<Rightarrow> ((status \<times> (bytes \<times> bytes) option) \<times> unit) option" where
  "one_entry_get c n sz lk = (case one_entry n sz of None \<Rightarrow> Some ((NotFound [], None), c)
     | Some es \<Rightarrow> Some ((OK, find (\<lambda>(k, x). InternalKey_Compare bytewise_Compare lk k \<le> 0) es), c))"

definition one_file :: file_store where
  "one_file f = FileMetaData_init 3 1 (InternalKey_make [3] 5 kTypeValue) (InternalKey_make [3] 5 kTypeValue)"

lemma one_entry_source: "file_source bytewise_Compare (\<lambda>_. True) bytewise_FindShortestSeparator bytewise_FindShortSuccessor
    one_entry_get (\<lambda>_. True) one_entry"
proof (intro file_source.intro file_source_axioms.intro bytewise_internal.user_key_comparator_axioms)
  fix c n sz es lk
  assume "one_entry n sz = Some es"
  moreover from this have "es = [(InternalKey_make [3] 5 kTypeValue, [9])]" by (auto simp: one_entry_def split: if_splits)
  moreover have "InternalKey_Compare bytewise_Compare (InternalKey_make [3] 5 kTypeValue) (InternalKey_make [3] 5 kTypeValue) = 0"
    by (simp add: InternalKey_Compare_zero bytewise_Compare_def)
  ultimately show "\<exists>saved c'. one_entry_get c n sz lk = Some ((OK, saved), c') \<and> True
        \<and> (\<forall>k x. saved = Some (k, x) \<longrightarrow> (k, x) \<in> set es \<and> InternalKey_Compare bytewise_Compare lk k \<le> 0)
        \<and> (\<forall>(k, x) \<in> set es. visible_entry bytewise_Compare lk k \<longrightarrow>
             (\<exists>k0 x0. saved = Some (k0, x0) \<and> InternalKey_Compare bytewise_Compare k0 k \<le> 0))"
    by (auto simp: one_entry_get_def visible_entry_def)
qed

lemma one_file_sound:
  "version_sound bytewise_Compare (\<lambda>_. True) one_entry one_file ((Version_init 0)\<lparr>v_files := map (\<lambda>level. if level = 2 then [0] else []) [0..<kNumLevels]\<rparr>)"
proof -
  have five: "(5 :: uint64) \<le> kMaxSequenceNumber" by (simp add: kMaxSequenceNumber_value)
  have z: "InternalKey_Compare bytewise_Compare (InternalKey_make [3] 5 kTypeValue) (InternalKey_make [3] 5 kTypeValue) = 0"
    by (simp add: InternalKey_Compare_zero bytewise_Compare_def)
  have ok: "file_ok bytewise_Compare (\<lambda>_. True) (one_file f)" for f
    by (simp add: file_ok_def one_file_def FileMetaData_init_def proper_key_make five z)
  have ents: "file_entries one_entry (one_file f) = {(InternalKey_make [3] 5 kTypeValue, [9])}" for f
    by (simp add: file_entries_def one_file_def FileMetaData_init_def one_entry_def)
  have st: "stored_file bytewise_Compare (\<lambda>_. True) one_entry (one_file f)" for f
    unfolding stored_file_def ents using ok proper_key_make [of "\<lambda>_. True" "[3]" 5 kTypeValue] five z
    by (simp add: one_file_def FileMetaData_init_def one_entry_def)
  show ?thesis
    unfolding version_sound_def kNumLevels_def using st ok by (auto simp: level_ok_def)
qed

theorem Version_Get_finds_newest_witness:
  "\<exists>st val' stats c'. Version_Get bytewise_Compare one_file ((Version_init 0)\<lparr>v_files := map (\<lambda>level. if level = 2 then [0] else []) [0..<kNumLevels]\<rparr>)
     one_entry_get () (LookupKey_make [3] 6) [7] = Some (st, val', stats, c')"
proof -
  have "(6 :: uint64) \<le> kMaxSequenceNumber" by (simp add: kMaxSequenceNumber_value)
  from Version_Get_finds_newest [OF one_entry_source one_file_sound TrueI this TrueI, where val = "[7]"] show ?thesis by blast
qed

end
