(* ===== verification/VersionBuilder.thy ===== *)
theory VersionBuilder imports Version "HOL-Library.Multiset" begin

text \<open>
  \<^verbatim>\<open>db/version_set.cc\<close>, class \<open>VersionSet::Builder\<close>: a sequence of edits is applied to the files of
  a version. The files live in a store with a counter for new ones. A level of the builder holds the numbers of
  deleted files and, in the order of \<open>BySmallestKey\<close>, the added files: the \<open>std::set\<close> is the list of
  its elements. What a version lists after \<open>SaveTo\<close> is what the edits say one after the other, and sorted
  levels stay sorted.
\<close>

section \<open>The order of files\<close>

definition BySmallestKey :: "(bytes \<Rightarrow> bytes \<Rightarrow> int) \<Rightarrow> file_store \<Rightarrow> file_ref \<Rightarrow> file_ref \<Rightarrow> bool" where
  "BySmallestKey icmp h f1 f2 \<longleftrightarrow>
     (let r = icmp (fm_smallest (h f1)) (fm_smallest (h f2))
      in if r \<noteq> 0 then r < 0 else fm_number (h f1) < fm_number (h f2))"

text \<open>\<open>std::set::insert\<close>: in order, unless an equivalent element is there.\<close>

fun file_set_insert :: "(bytes \<Rightarrow> bytes \<Rightarrow> int) \<Rightarrow> file_store \<Rightarrow> file_ref \<Rightarrow> file_ref list \<Rightarrow> file_ref list" where
  "file_set_insert icmp h f [] = [f]"
| "file_set_insert icmp h f (g # gs) =
     (if BySmallestKey icmp h g f then g # file_set_insert icmp h f gs
      else if BySmallestKey icmp h f g then f # g # gs
      else g # gs)"

section \<open>The builder\<close>

record level_state =
  ls_deleted :: "uint64 set"
  ls_added :: "file_ref list"

text \<open>What the builder works on: its levels, the store of files and the compaction pointers of the version set.\<close>

record builder =
  bl_levels :: "level_state list"
  bl_files :: file_store
  bl_next :: file_ref
  bl_compact_pointer :: "bytes list"

definition Builder_init :: "file_store \<Rightarrow> file_ref \<Rightarrow> bytes list \<Rightarrow> builder" where
  "Builder_init h fresh pointers =
     \<lparr>bl_levels = replicate kNumLevels \<lparr>ls_deleted = {}, ls_added = []\<rparr>, bl_files = h, bl_next = fresh,
      bl_compact_pointer = pointers\<rparr>"

definition Apply_pointer :: "builder \<Rightarrow> nat \<times> bytes \<Rightarrow> builder" where
  "Apply_pointer b = (\<lambda>(level, key). b\<lparr>bl_compact_pointer := (bl_compact_pointer b)[level := key]\<rparr>)"

definition on_level :: "nat \<Rightarrow> (level_state \<Rightarrow> level_state) \<Rightarrow> builder \<Rightarrow> builder" where
  "on_level level f b = b\<lparr>bl_levels := (bl_levels b)[level := f (bl_levels b ! level)]\<rparr>"

definition Apply_delete :: "builder \<Rightarrow> nat \<times> uint64 \<Rightarrow> builder" where
  "Apply_delete b = (\<lambda>(level, number). on_level level (\<lambda>s. s\<lparr>ls_deleted := insert number (ls_deleted s)\<rparr>) b)"

definition allowed_seeks :: "uint64 \<Rightarrow> int" where
  "allowed_seeks file_size =
     (let n = sint (ucast (file_size div 16384) :: uint32) in if n < 100 then 100 else n)"

definition Apply_new :: "(bytes \<Rightarrow> bytes \<Rightarrow> int) \<Rightarrow> builder \<Rightarrow> nat \<times> file_meta \<Rightarrow> builder" where
  "Apply_new icmp b = (\<lambda>(level, meta).
     let f = bl_next b;
         h = (bl_files b)(f := meta\<lparr>fm_refs := 1, fm_allowed_seeks := allowed_seeks (fm_file_size meta)\<rparr>)
     in on_level level (\<lambda>s. s\<lparr>ls_deleted := ls_deleted s - {fm_number meta}, ls_added := file_set_insert icmp h f (ls_added s)\<rparr>)
          (b\<lparr>bl_files := h, bl_next := f + 1\<rparr>))"

definition Builder_Apply :: "(bytes \<Rightarrow> bytes \<Rightarrow> int) \<Rightarrow> builder \<Rightarrow> version_edit \<Rightarrow> builder" where
  "Builder_Apply icmp b edit =
     (let b = foldl Apply_pointer b (ve_compact_pointers edit);
          b = foldl Apply_delete b (sorted_list_of_set (ve_deleted_files edit))
      in foldl (Apply_new icmp) b (ve_new_files edit))"

text \<open>\<open>MaybeAddFile\<close> on the files that have been put into the level; the reference is counted.\<close>

definition MaybeAddFile :: "uint64 set \<Rightarrow> file_store \<times> file_ref list \<Rightarrow> file_ref \<Rightarrow> file_store \<times> file_ref list" where
  "MaybeAddFile deleted = (\<lambda>(h, files) f.
     if fm_number (h f) \<in> deleted then (h, files)
     else (h(f := (h f)\<lparr>fm_refs := fm_refs (h f) + 1\<rparr>), files @ [f]))"

text \<open>
  The loop over the added files. \<open>std::upper_bound\<close> gives, in the sorted rest of the base files, the
  position of the first one that is greater.
\<close>

fun save_level ::
  "(bytes \<Rightarrow> bytes \<Rightarrow> int) \<Rightarrow> uint64 set \<Rightarrow> file_ref list \<Rightarrow> file_ref list \<Rightarrow> file_store \<times> file_ref list \<Rightarrow> file_store \<times> file_ref list" where
  "save_level icmp deleted base [] st = foldl (MaybeAddFile deleted) st base"
| "save_level icmp deleted base (f # added) st =
     (let smaller = takeWhile (\<lambda>b. \<not> BySmallestKey icmp (fst st) f b) base;
          st = foldl (MaybeAddFile deleted) st smaller;
          st = MaybeAddFile deleted st f
      in save_level icmp deleted (drop (length smaller) base) added st)"

fun save_levels ::
  "(bytes \<Rightarrow> bytes \<Rightarrow> int) \<Rightarrow> level_state list \<Rightarrow> file_ref list list \<Rightarrow> file_store \<Rightarrow> file_store \<times> file_ref list list" where
  "save_levels icmp (s # levels) (base # bases) h =
     (let (h, files) = save_level icmp (ls_deleted s) base (ls_added s) (h, []);
          (h, rest) = save_levels icmp levels bases h
      in (h, files # rest))"
| "save_levels icmp _ _ h = (h, [])"

definition Builder_SaveTo :: "(bytes \<Rightarrow> bytes \<Rightarrow> int) \<Rightarrow> builder \<Rightarrow> db_version \<Rightarrow> db_version \<Rightarrow> file_store \<times> db_version" where
  "Builder_SaveTo icmp b base v =
     (let (h, files) = save_levels icmp (bl_levels b) (v_files base) (bl_files b) in (h, v\<lparr>v_files := files\<rparr>))"

section \<open>What is saved\<close>

text \<open>The store changes only in reference counts.\<close>

definition same_files :: "file_store \<Rightarrow> file_store \<Rightarrow> bool" where
  "same_files h h' \<longleftrightarrow> (\<forall>f. fm_number (h' f) = fm_number (h f) \<and> fm_file_size (h' f) = fm_file_size (h f)
     \<and> fm_smallest (h' f) = fm_smallest (h f) \<and> fm_largest (h' f) = fm_largest (h f))"

lemma same_files_refl [simp]: "same_files h h"
  by (simp add: same_files_def)

lemma same_files_trans: "same_files h h1 \<Longrightarrow> same_files h1 h2 \<Longrightarrow> same_files h h2"
  by (simp add: same_files_def)

lemma same_files_order: "same_files h h' \<Longrightarrow> BySmallestKey icmp h' = BySmallestKey icmp h"
  by (intro ext) (simp add: BySmallestKey_def same_files_def)

lemma MaybeAddFile_spec:
  assumes "same_files h0 (fst st)"
  shows "same_files h0 (fst (MaybeAddFile deleted st f))"
    "snd (MaybeAddFile deleted st f) = snd st @ (if fm_number (h0 f) \<in> deleted then [] else [f])"
  using assms by (cases st; simp add: MaybeAddFile_def same_files_def)+

lemma foldl_MaybeAddFile_spec:
  assumes "same_files h0 (fst st)"
  shows "same_files h0 (fst (foldl (MaybeAddFile deleted) st fs))
    \<and> snd (foldl (MaybeAddFile deleted) st fs) = snd st @ filter (\<lambda>f. fm_number (h0 f) \<notin> deleted) fs"
  using assms
proof (induction fs arbitrary: st)
  case (Cons f fs)
  from Cons.IH [OF MaybeAddFile_spec(1) [OF Cons.prems, of deleted f]] show ?case
    by (simp add: MaybeAddFile_spec(2) [OF Cons.prems])
qed simp

text \<open>The merge of the base files with the added files, before the deleted ones are dropped.\<close>

fun merge_files :: "(file_ref \<Rightarrow> file_ref \<Rightarrow> bool) \<Rightarrow> file_ref list \<Rightarrow> file_ref list \<Rightarrow> file_ref list" where
  "merge_files lt base [] = base"
| "merge_files lt base (f # added) =
     takeWhile (\<lambda>b. \<not> lt f b) base @ f # merge_files lt (dropWhile (\<lambda>b. \<not> lt f b) base) added"

lemma drop_length_takeWhile: "drop (length (takeWhile P xs)) xs = dropWhile P xs"
  by (simp add: dropWhile_eq_drop)

lemma save_level_spec:
  assumes "same_files h0 (fst st)"
  shows "same_files h0 (fst (save_level icmp deleted base added st))
    \<and> snd (save_level icmp deleted base added st) =
        snd st @ filter (\<lambda>f. fm_number (h0 f) \<notin> deleted) (merge_files (BySmallestKey icmp h0) base added)"
  using assms
proof (induction added arbitrary: base st)
  case Nil
  then show ?case using foldl_MaybeAddFile_spec [of h0 st deleted base] by simp
next
  case (Cons f added)
  have o: "BySmallestKey icmp (fst st) = BySmallestKey icmp h0" using same_files_order [OF Cons.prems] .
  let ?pre = "takeWhile (\<lambda>b. \<not> BySmallestKey icmp h0 f b) base"
  let ?st1 = "foldl (MaybeAddFile deleted) st ?pre"
  have st1: "same_files h0 (fst ?st1)" "snd ?st1 = snd st @ filter (\<lambda>f. fm_number (h0 f) \<notin> deleted) ?pre"
    using foldl_MaybeAddFile_spec [OF Cons.prems, of deleted ?pre] by simp_all
  from Cons.IH [OF MaybeAddFile_spec(1) [OF st1(1), of deleted f], of "drop (length ?pre) base"]
  show ?case by (simp add: o Let_def MaybeAddFile_spec(2) [OF st1(1)] st1(2) drop_length_takeWhile)
qed

lemma merge_files_mset: "mset (merge_files lt base added) = mset base + mset added"
proof (induction added arbitrary: base)
  case (Cons f added)
  have "mset base = mset (takeWhile (\<lambda>b. \<not> lt f b) base) + mset (dropWhile (\<lambda>b. \<not> lt f b) base)"
    by (metis mset_append takeWhile_dropWhile_id)
  then show ?case by (simp add: Cons.IH)
qed simp

lemma merge_files_set: "set (merge_files lt base added) = set base \<union> set added"
  using arg_cong [OF merge_files_mset, of set_mset lt base added] by simp

text \<open>Merging sorted lists gives a sorted list.\<close>

lemma merge_files_sorted:
  assumes "sorted_wrt (\<lambda>f g. \<not> lt g f) base" "sorted_wrt (\<lambda>f g. \<not> lt g f) added"
    and trans: "\<And>x y z. x \<in> V \<Longrightarrow> y \<in> V \<Longrightarrow> z \<in> V \<Longrightarrow> \<not> lt y x \<Longrightarrow> \<not> lt z y \<Longrightarrow> \<not> lt z x"
    and asym: "\<And>x y. x \<in> V \<Longrightarrow> y \<in> V \<Longrightarrow> lt x y \<Longrightarrow> \<not> lt y x"
    and V: "set base \<subseteq> V" "set added \<subseteq> V"
  shows "sorted_wrt (\<lambda>f g. \<not> lt g f) (merge_files lt base added)"
  using assms(1,2) V
proof (induction added arbitrary: base)
  case (Cons f added)
  let ?pre = "takeWhile (\<lambda>b. \<not> lt f b) base" and ?post = "dropWhile (\<lambda>b. \<not> lt f b) base"
  have split: "base = ?pre @ ?post" by simp
  have srt: "sorted_wrt (\<lambda>f g. \<not> lt g f) ?pre" "sorted_wrt (\<lambda>f g. \<not> lt g f) ?post"
    "\<forall>x \<in> set ?pre. \<forall>y \<in> set ?post. \<not> lt y x"
    using Cons.prems(1) split by (metis sorted_wrt_append)+
  have sub: "set ?pre \<subseteq> V" "set ?post \<subseteq> V" "f \<in> V" "set added \<subseteq> V"
    using Cons.prems(3,4) split by (metis Un_subset_iff set_append, metis Un_subset_iff set_append, simp_all)
  have pre: "\<forall>x \<in> set ?pre. \<not> lt f x" by (auto dest: set_takeWhileD)
  have post: "\<not> lt y f" if "y \<in> set ?post" for y
  proof (cases ?post)
    case (Cons p ps)
    then have p: "lt f p" by (metis dropWhile_eq_Cons_conv)
    then have "\<not> lt p f" using asym sub Cons by auto
    moreover have "y = p \<or> \<not> lt y p" using srt(2) that Cons by auto
    ultimately show ?thesis using trans [of f p y] sub Cons that by auto
  next
    case Nil
    from that show ?thesis unfolding Nil by simp
  qed
  have added: "\<forall>g \<in> set added. \<not> lt g f" "sorted_wrt (\<lambda>f g. \<not> lt g f) added" using Cons.prems(2) by simp_all
  have IH: "sorted_wrt (\<lambda>f g. \<not> lt g f) (merge_files lt ?post added)"
    using Cons.IH [OF srt(2) added(2) sub(2,4)] .
  have mid: "\<forall>y \<in> set (merge_files lt ?post added). \<not> lt y f" using post added(1) by (auto simp: merge_files_set)
  have "\<not> lt y x" if xy: "x \<in> set ?pre" "y \<in> set (merge_files lt ?post added)" for x y
  proof (rule trans [of x f y])
    show "x \<in> V" using sub(1) xy(1) by blast
    show "y \<in> V" using sub xy(2) unfolding merge_files_set by blast
    show "f \<in> V" "\<not> lt f x" "\<not> lt y f" using sub(3) pre mid xy by blast+
  qed
  then have "\<forall>x \<in> set ?pre. \<forall>y \<in> set (f # merge_files lt ?post added). \<not> lt y x" using pre by (metis set_ConsD)
  with IH mid srt(1) show ?case unfolding merge_files.simps sorted_wrt_append sorted_wrt.simps(2) by blast
qed simp

section \<open>The edits, one after the other\<close>

definition file_numbers :: "file_store \<Rightarrow> file_ref list \<Rightarrow> uint64 set" where
  "file_numbers h files = (fm_number \<circ> h) ` set files"

text \<open>The numbers of the files of a level after an edit.\<close>

definition edit_numbers :: "version_edit \<Rightarrow> nat \<Rightarrow> uint64 set \<Rightarrow> uint64 set" where
  "edit_numbers e level S =
     (S - {n. (level, n) \<in> ve_deleted_files e}) \<union> {fm_number m | m. (level, m) \<in> set (ve_new_files e)}"

definition edit_levels_ok :: "(bytes \<Rightarrow> bool) \<Rightarrow> version_edit \<Rightarrow> bool" where
  "edit_levels_ok uvalid e \<longleftrightarrow> finite (ve_deleted_files e) \<and> (\<forall>(level, n) \<in> ve_deleted_files e. level < kNumLevels)
     \<and> (\<forall>(level, m) \<in> set (ve_new_files e). level < kNumLevels \<and> internal_valid uvalid (fm_smallest m))"

text \<open>The numbers of the files that the builder would save in a level.\<close>

definition saved_numbers :: "file_ref list list \<Rightarrow> builder \<Rightarrow> nat \<Rightarrow> uint64 set" where
  "saved_numbers bases b level =
     (file_numbers (bl_files b) (bases ! level) \<union> file_numbers (bl_files b) (ls_added (bl_levels b ! level)))
       - ls_deleted (bl_levels b ! level)"

context user_key_comparator
begin

abbreviation file_less :: "file_store \<Rightarrow> file_ref \<Rightarrow> file_ref \<Rightarrow> bool" where "file_less h \<equiv> BySmallestKey icmp h"

abbreviation sorted_files :: "file_store \<Rightarrow> file_ref list \<Rightarrow> bool" where
  "sorted_files h \<equiv> sorted_wrt (\<lambda>f g. \<not> file_less h g f)"

definition keyed :: "file_store \<Rightarrow> file_ref set" where
  "keyed h = {f. internal_valid uvalid (fm_smallest (h f))}"

lemma file_less_iff:
  assumes "f \<in> keyed h" "g \<in> keyed h"
  shows "\<not> file_less h g f \<longleftrightarrow> icmp (fm_smallest (h f)) (fm_smallest (h g)) < 0
    \<or> fm_smallest (h f) = fm_smallest (h g) \<and> fm_number (h f) \<le> fm_number (h g)"
  using assms internal.cmp_swap [of "fm_smallest (h f)" "fm_smallest (h g)"] internal.cmp_eq_iff [of "fm_smallest (h g)" "fm_smallest (h f)"]
    internal.cmp_irrefl [of "fm_smallest (h f)"]
  by (auto simp: BySmallestKey_def keyed_def Let_def not_less)

lemma file_less_trans:
  assumes "x \<in> keyed h" "y \<in> keyed h" "z \<in> keyed h" "\<not> file_less h y x" "\<not> file_less h z y"
  shows "\<not> file_less h z x"
  using assms(4,5) internal.cmp_less_trans [of "fm_smallest (h x)" "fm_smallest (h y)" "fm_smallest (h z)"] assms(1-3)
  unfolding file_less_iff [OF assms(1,2)] file_less_iff [OF assms(2,3)] file_less_iff [OF assms(1,3)]
  by (auto simp: keyed_def)

lemma file_less_asym: "x \<in> keyed h \<Longrightarrow> y \<in> keyed h \<Longrightarrow> file_less h x y \<Longrightarrow> \<not> file_less h y x"
  using internal.cmp_swap [of "fm_smallest (h x)" "fm_smallest (h y)"] internal.cmp_zero_sym [of "fm_smallest (h x)" "fm_smallest (h y)"]
  by (auto simp: keyed_def BySmallestKey_def Let_def split: if_splits)

lemma file_set_insert_subset: "set (file_set_insert icmp h f gs) \<subseteq> insert f (set gs) \<and> set gs \<subseteq> set (file_set_insert icmp h f gs)"
  by (induction gs) auto

lemma file_set_insert_numbers:
  assumes "f \<in> keyed h" "set gs \<subseteq> keyed h"
  shows "file_numbers h (file_set_insert icmp h f gs) = insert (fm_number (h f)) (file_numbers h gs)"
  using assms(2)
proof (induction gs)
  case (Cons g gs)
  have g: "g \<in> keyed h" using Cons.prems by simp
  have "fm_number (h f) = fm_number (h g)" if "\<not> file_less h g f" "\<not> file_less h f g"
    using that assms(1) g internal.cmp_swap [of "fm_smallest (h f)" "fm_smallest (h g)"]
      internal.cmp_zero_sym [of "fm_smallest (h f)" "fm_smallest (h g)"]
    by (auto simp: keyed_def BySmallestKey_def Let_def split: if_splits)
  with Cons show ?case by (auto simp: file_numbers_def)
qed (simp add: file_numbers_def)

lemma file_set_insert_sorted:
  assumes "f \<in> keyed h" "set gs \<subseteq> keyed h" "sorted_files h gs"
  shows "sorted_files h (file_set_insert icmp h f gs)"
  using assms(2,3)
proof (induction gs)
  case (Cons g gs)
  have g: "g \<in> keyed h" "set gs \<subseteq> keyed h" "sorted_files h gs" "\<forall>x \<in> set gs. \<not> file_less h x g" using Cons.prems by simp_all
  have sub: "set (file_set_insert icmp h f gs) \<subseteq> insert f (set gs)" using file_set_insert_subset by blast
  consider (after) "file_less h g f" | (before) "\<not> file_less h g f" "file_less h f g" | (same) "\<not> file_less h g f" "\<not> file_less h f g"
    by blast
  then show ?case
  proof cases
    case after
    have "\<not> file_less h f g" using file_less_asym [OF g(1) assms(1) after] .
    with sub g(4) have "\<forall>x \<in> set (file_set_insert icmp h f gs). \<not> file_less h x g" by blast
    with after Cons.IH [OF g(2,3)] show ?thesis by simp
  next
    case before
    have "\<not> file_less h x f" if "x \<in> set (g # gs)" for x
    proof (cases "x = g")
      case False
      with that have x: "x \<in> set gs" by simp
      with file_less_trans [OF assms(1) g(1) _ before(1), of x] g(2,4) show ?thesis by blast
    qed (use before in simp)
    with before Cons.prems(2) show ?thesis by simp
  next
    case same
    with Cons.prems show ?thesis by simp
  qed
qed simp

text \<open>The invariant of the builder: which files it would save in a level.\<close>

definition builder_ok :: "file_ref list list \<Rightarrow> builder \<Rightarrow> bool" where
  "builder_ok bases b \<longleftrightarrow>
     length (bl_levels b) = kNumLevels \<and> length bases = kNumLevels
     \<and> (\<forall>level < kNumLevels. \<forall>f \<in> set (bases ! level) \<union> set (ls_added (bl_levels b ! level)). f < bl_next b \<and> f \<in> keyed (bl_files b))
     \<and> (\<forall>level < kNumLevels. sorted_files (bl_files b) (bases ! level) \<and> sorted_files (bl_files b) (ls_added (bl_levels b ! level)))"

lemma Apply_pointer_keeps:
  assumes "builder_ok bases b"
  shows "builder_ok bases (Apply_pointer b p)" "saved_numbers bases (Apply_pointer b p) = saved_numbers bases b"
  using assms by (cases p; simp add: Apply_pointer_def builder_ok_def saved_numbers_def [abs_def])+

lemma Apply_delete_keeps:
  assumes "builder_ok bases b" "fst p < kNumLevels"
  shows "builder_ok bases (Apply_delete b p)"
    "level < kNumLevels \<Longrightarrow> saved_numbers bases (Apply_delete b p) level = saved_numbers bases b level - {n. p = (level, n)}"
  using assms by (cases p; auto simp: Apply_delete_def on_level_def builder_ok_def saved_numbers_def nth_list_update)+

lemma numbers_fun_upd: "f \<notin> set fs \<Longrightarrow> file_numbers (h(f := m)) fs = file_numbers h fs"
  unfolding file_numbers_def by (intro image_cong) auto

lemma sorted_fun_upd:
  assumes "f \<notin> set fs" "sorted_files h fs"
  shows "sorted_files (h(f := m)) fs"
proof -
  have "file_less (h(f := m)) y x = file_less h y x" if "x \<in> set fs" "y \<in> set fs" for x y
  proof -
    from that assms(1) have "x \<noteq> f" "y \<noteq> f" by auto
    then show ?thesis by (simp add: BySmallestKey_def)
  qed
  then have "\<not> file_less (h(f := m)) y x" if "x \<in> set fs" "y \<in> set fs" "\<not> file_less h y x" for x y using that by blast
  then show ?thesis using assms(2) by (rule sorted_wrt_mono_rel)
qed

lemma Apply_new_keeps:
  assumes ok: "builder_ok bases b" and p: "fst p < kNumLevels" "internal_valid uvalid (fm_smallest (snd p))"
  shows "builder_ok bases (Apply_new icmp b p)"
    "level < kNumLevels \<Longrightarrow> saved_numbers bases (Apply_new icmp b p) level = saved_numbers bases b level \<union> {fm_number m | m. p = (level, m)}"
proof -
  obtain l meta where lm: "p = (l, meta)" by (rule prod.exhaust)
  let ?f = "bl_next b"
  define h where "h = (bl_files b)(?f := meta\<lparr>fm_refs := 1, fm_allowed_seeks := allowed_seeks (fm_file_size meta)\<rparr>)"
  define s' where "s' = (bl_levels b ! l)\<lparr>ls_deleted := ls_deleted (bl_levels b ! l) - {fm_number meta},
      ls_added := file_set_insert icmp h ?f (ls_added (bl_levels b ! l))\<rparr>"
  let ?b = "Apply_new icmp b p"
  have b': "bl_levels ?b = (bl_levels b)[l := s']" "bl_files ?b = h" "bl_next ?b = ?f + 1"
    by (simp_all add: Apply_new_def on_level_def lm h_def s'_def Let_def)
  have len: "length (bl_levels b) = kNumLevels" "length bases = kNumLevels"
    and fresh: "\<And>i f. i < kNumLevels \<Longrightarrow> f \<in> set (bases ! i) \<union> set (ls_added (bl_levels b ! i)) \<Longrightarrow> f < ?f \<and> f \<in> keyed (bl_files b)"
    and srt: "\<And>i. i < kNumLevels \<Longrightarrow> sorted_files (bl_files b) (bases ! i) \<and> sorted_files (bl_files b) (ls_added (bl_levels b ! i))"
    using ok by (auto simp: builder_ok_def)
  have notin: "?f \<notin> set (bases ! i)" "?f \<notin> set (ls_added (bl_levels b ! i))" if "i < kNumLevels" for i
    using fresh [OF that] by blast+
  have kf: "?f \<in> keyed h" using p lm by (simp add: keyed_def h_def)
  have keyed: "f \<in> keyed h" if "f < ?f" "f \<in> keyed (bl_files b)" for f using that by (simp add: keyed_def h_def)
  have keyed': "set (ls_added (bl_levels b ! i)) \<subseteq> keyed h" if "i < kNumLevels" for i
    using fresh [OF that] keyed by blast
  have srt': "sorted_files h (bases ! i)" "sorted_files h (ls_added (bl_levels b ! i))" if "i < kNumLevels" for i
    using sorted_fun_upd [OF notin(1) [OF that]] sorted_fun_upd [OF notin(2) [OF that]] srt [OF that] by (simp_all add: h_def)
  have num: "file_numbers h (bases ! i) = file_numbers (bl_files b) (bases ! i)"
    "file_numbers h (ls_added (bl_levels b ! i)) = file_numbers (bl_files b) (ls_added (bl_levels b ! i))" if "i < kNumLevels" for i
    using numbers_fun_upd [OF notin(1) [OF that]] numbers_fun_upd [OF notin(2) [OF that]] by (simp_all add: h_def)
  have hn: "fm_number (h ?f) = fm_number meta" by (simp add: h_def)
  have ins: "file_numbers h (file_set_insert icmp h ?f (ls_added (bl_levels b ! i))) = insert (fm_number (h ?f)) (file_numbers h (ls_added (bl_levels b ! i)))"
    "sorted_files h (file_set_insert icmp h ?f (ls_added (bl_levels b ! i)))" if "i < kNumLevels" for i
    using file_set_insert_numbers [OF kf keyed' [OF that]] file_set_insert_sorted [OF kf keyed' [OF that] srt'(2) [OF that]] by simp_all
  have ins_sub: "set (file_set_insert icmp h ?f gs) \<subseteq> insert ?f (set gs)" for gs using file_set_insert_subset by blast
  have added: "ls_added (bl_levels ?b ! i) = (if i = l then file_set_insert icmp h ?f (ls_added (bl_levels b ! i)) else ls_added (bl_levels b ! i))"
    "ls_deleted (bl_levels ?b ! i) = (if i = l then ls_deleted (bl_levels b ! i) - {fm_number meta} else ls_deleted (bl_levels b ! i))"
    if "i < kNumLevels" for i
    using that len by (auto simp: b' s'_def nth_list_update)
  have old: "f < ?f + 1 \<and> f \<in> keyed h" if "i < kNumLevels" "f \<in> set (bases ! i) \<union> set (ls_added (bl_levels b ! i))" for i f
    using fresh [OF that] keyed [of f] by simp
  have members: "f < ?f + 1 \<and> f \<in> keyed h" if i: "i < kNumLevels" and f: "f \<in> set (bases ! i) \<union> set (ls_added (bl_levels ?b ! i))" for i f
  proof -
    from f have "f = ?f \<or> f \<in> set (bases ! i) \<union> set (ls_added (bl_levels b ! i))"
      using ins_sub [of "ls_added (bl_levels b ! i)"] unfolding added [OF i] by (auto split: if_splits)
    then show ?thesis using old [OF i] kf by auto
  qed
  have "sorted_files h (ls_added (bl_levels ?b ! i))" if "i < kNumLevels" for i
    unfolding added [OF that] using ins(2) [OF that] srt' [OF that] by (cases "i = l") auto
  with members srt'(1) len show "builder_ok bases ?b"
    unfolding builder_ok_def b'(2,3) by (simp add: b'(1))
  show "saved_numbers bases ?b level = saved_numbers bases b level \<union> {fm_number m | m. p = (level, m)}" if level: "level < kNumLevels"
    unfolding saved_numbers_def added [OF level] b'(2) num(1) [OF level]
    using num(2) [OF level] ins(1) [OF level] by (cases "level = l") (auto simp: lm hn)
qed

lemma foldl_pointers_keeps:
  "builder_ok bases b \<Longrightarrow> builder_ok bases (foldl Apply_pointer b ps)
    \<and> saved_numbers bases (foldl Apply_pointer b ps) = saved_numbers bases b"
  by (induction ps arbitrary: b) (simp_all add: Apply_pointer_keeps)

lemma foldl_deletes_keeps:
  assumes "builder_ok bases b" "\<forall>p \<in> set ps. fst p < kNumLevels" "level < kNumLevels"
  shows "builder_ok bases (foldl Apply_delete b ps)
    \<and> saved_numbers bases (foldl Apply_delete b ps) level = saved_numbers bases b level - {n. (level, n) \<in> set ps}"
  using assms(1,2)
proof (induction ps arbitrary: b)
  case (Cons p ps)
  have p: "fst p < kNumLevels" using Cons.prems(2) by simp
  from Cons.IH [OF Apply_delete_keeps(1) [OF Cons.prems(1) p]] Cons.prems(2) Apply_delete_keeps(2) [OF Cons.prems(1) p assms(3)]
  show ?case by auto
qed simp

lemma foldl_new_keeps:
  assumes "builder_ok bases b" "\<forall>(l, m) \<in> set ps. l < kNumLevels \<and> internal_valid uvalid (fm_smallest m)" "level < kNumLevels"
  shows "builder_ok bases (foldl (Apply_new icmp) b ps)
    \<and> saved_numbers bases (foldl (Apply_new icmp) b ps) level = saved_numbers bases b level \<union> {fm_number m | m. (level, m) \<in> set ps}"
  using assms(1,2)
proof (induction ps arbitrary: b)
  case (Cons p ps)
  have p: "fst p < kNumLevels" "internal_valid uvalid (fm_smallest (snd p))" using Cons.prems(2) by auto
  from Cons.IH [OF Apply_new_keeps(1) [OF Cons.prems(1) p]] Cons.prems(2) Apply_new_keeps(2) [OF Cons.prems(1) p assms(3)]
  show ?case by auto
qed simp

lemma Builder_Apply_keeps:
  assumes b: "builder_ok bases b" and e: "edit_levels_ok uvalid e" and level: "level < kNumLevels"
  shows "builder_ok bases (Builder_Apply icmp b e)
    \<and> saved_numbers bases (Builder_Apply icmp b e) level = edit_numbers e level (saved_numbers bases b level)"
proof -
  let ?b1 = "foldl Apply_pointer b (ve_compact_pointers e)"
  let ?b2 = "foldl Apply_delete ?b1 (sorted_list_of_set (ve_deleted_files e))"
  have b1: "builder_ok bases ?b1" "saved_numbers bases ?b1 = saved_numbers bases b" using foldl_pointers_keeps [OF b] by simp_all
  have del: "set (sorted_list_of_set (ve_deleted_files e)) = ve_deleted_files e" using e by (simp add: edit_levels_ok_def)
  have lv: "\<forall>p \<in> set (sorted_list_of_set (ve_deleted_files e)). fst p < kNumLevels"
    using e unfolding del edit_levels_ok_def by auto
  have b2: "builder_ok bases ?b2"
    "saved_numbers bases ?b2 level = saved_numbers bases b level - {n. (level, n) \<in> ve_deleted_files e}"
    using foldl_deletes_keeps [OF b1(1) lv level] unfolding del b1(2) by blast+
  have "\<forall>(l, m) \<in> set (ve_new_files e). l < kNumLevels \<and> internal_valid uvalid (fm_smallest m)"
    using e by (simp add: edit_levels_ok_def)
  from foldl_new_keeps [OF b2(1) this level] b2(2) show ?thesis
    by (simp add: Builder_Apply_def edit_numbers_def Let_def)
qed

lemma foldl_Apply_keeps:
  assumes "builder_ok bases b" "\<forall>e \<in> set es. edit_levels_ok uvalid e" "level < kNumLevels"
  shows "builder_ok bases (foldl (Builder_Apply icmp) b es)
    \<and> saved_numbers bases (foldl (Builder_Apply icmp) b es) level = foldl (\<lambda>S e. edit_numbers e level S) (saved_numbers bases b level) es"
  using assms(1,2)
proof (induction es arbitrary: b)
  case (Cons e es)
  have e: "edit_levels_ok uvalid e" "\<forall>e \<in> set es. edit_levels_ok uvalid e" using Cons.prems(2) by simp_all
  from Cons.IH [OF conjunct1 [OF Builder_Apply_keeps [OF Cons.prems(1) e(1) assms(3)]] e(2)]
    Builder_Apply_keeps [OF Cons.prems(1) e(1) assms(3)]
  show ?case by simp
qed simp

section \<open>Saving\<close>

lemma save_levels_spec:
  assumes "length ls = length bases" "same_files h0 h"
  shows "same_files h0 (fst (save_levels icmp ls bases h)) \<and> length (snd (save_levels icmp ls bases h)) = length ls
    \<and> (\<forall>i < length ls. snd (save_levels icmp ls bases h) ! i =
        filter (\<lambda>f. fm_number (h0 f) \<notin> ls_deleted (ls ! i)) (merge_files (file_less h0) (bases ! i) (ls_added (ls ! i))))"
  using assms
proof (induction ls bases arbitrary: h rule: list_induct2)
  case (Cons s ls base bases)
  obtain h1 files where 1: "save_level icmp (ls_deleted s) base (ls_added s) (h, []) = (h1, files)" by (rule prod.exhaust)
  obtain h2 rest where 2: "save_levels icmp ls bases h1 = (h2, rest)" by (rule prod.exhaust)
  have l: "same_files h0 h1" "files = filter (\<lambda>f. fm_number (h0 f) \<notin> ls_deleted s) (merge_files (file_less h0) base (ls_added s))"
    using save_level_spec [of h0 "(h, [])" icmp "ls_deleted s" base "ls_added s"] Cons.prems 1 by simp_all
  from Cons.IH [OF l(1)] 2 show ?case by (auto simp: 1 l(2) nth_Cons split: nat.split)
qed simp

lemma saved_level:
  assumes b: "builder_ok bases b" and level: "level < kNumLevels" and bases: "v_files base = bases"
  shows "case Builder_SaveTo icmp b base v of (h, v') \<Rightarrow>
    same_files (bl_files b) h \<and> length (v_files v') = kNumLevels
    \<and> file_numbers h (v_files v' ! level) = saved_numbers bases b level \<and> sorted_files h (v_files v' ! level)
    \<and> set (v_files v' ! level) \<subseteq> keyed h"
proof -
  obtain h files where sv: "save_levels icmp (bl_levels b) bases (bl_files b) = (h, files)" by (rule prod.exhaust)
  have len: "length (bl_levels b) = length bases" "level < length (bl_levels b)" using b level by (simp_all add: builder_ok_def)
  let ?m = "merge_files (file_less (bl_files b)) (bases ! level) (ls_added (bl_levels b ! level))"
  have h: "same_files (bl_files b) h" and f: "length files = kNumLevels"
    "files ! level = filter (\<lambda>f. fm_number (bl_files b f) \<notin> ls_deleted (bl_levels b ! level)) ?m"
    using save_levels_spec [OF len(1) same_files_refl [of "bl_files b"], unfolded sv] len(2) b by (simp_all add: builder_ok_def)
  have num: "fm_number (h f) = fm_number (bl_files b f)" for f using h by (simp add: same_files_def)
  have lt: "file_less h = file_less (bl_files b)" using same_files_order [OF h] .
  have V: "set (bases ! level) \<subseteq> keyed (bl_files b)" "set (ls_added (bl_levels b ! level)) \<subseteq> keyed (bl_files b)"
    "sorted_files (bl_files b) (bases ! level)" "sorted_files (bl_files b) (ls_added (bl_levels b ! level))"
    using b level unfolding builder_ok_def by blast+
  have "sorted_files (bl_files b) ?m"
    using merge_files_sorted [OF V(3,4) _ _ V(1,2)] file_less_trans file_less_asym by blast
  then have "sorted_files h (files ! level)" unfolding lt f(2) by (rule sorted_wrt_filter)
  moreover have "file_numbers h (files ! level) = saved_numbers bases b level"
    by (auto simp: f(2) file_numbers_def saved_numbers_def num merge_files_set)
  moreover have "set (files ! level) \<subseteq> keyed h"
    using V(1,2) h unfolding f(2) by (auto simp: merge_files_set keyed_def same_files_def)
  ultimately show ?thesis using h f(1) by (simp add: Builder_SaveTo_def bases sv)
qed

text \<open>Sorted files that do not overlap make a level.\<close>

lemma sorted_disjoint_level:
  assumes "sorted_files h files" "\<forall>f \<in> set files. file_ok ucmp uvalid (h f)"
    and dis: "sorted_wrt (\<lambda>f g. icmp (fm_largest (h f)) (fm_smallest (h g)) < 0 \<or> icmp (fm_largest (h g)) (fm_smallest (h f)) < 0) files"
  shows "level_ok ucmp uvalid h files"
proof -
  have before: "icmp (fm_largest (h f)) (fm_smallest (h g)) < 0"
    if f: "file_ok ucmp uvalid (h f)" and g: "file_ok ucmp uvalid (h g)" and ord: "\<not> file_less h g f"
      and d: "icmp (fm_largest (h f)) (fm_smallest (h g)) < 0 \<or> icmp (fm_largest (h g)) (fm_smallest (h f)) < 0" for f g
  proof (rule ccontr)
    assume "\<not> ?thesis"
    with d have less: "icmp (fm_largest (h g)) (fm_smallest (h f)) < 0" by blast
    note v = file_ok_valid [OF f] file_ok_valid [OF g]
    have "icmp (fm_smallest (h f)) (fm_smallest (h g)) \<le> 0"
      using ord file_less_iff [of f h g] v internal.cmp_refl [OF v(3)] by (auto simp: keyed_def)
    moreover have "icmp (fm_smallest (h g)) (fm_largest (h g)) \<le> 0" using g by (simp add: file_ok_def)
    ultimately have "icmp (fm_smallest (h f)) (fm_largest (h g)) \<le> 0"
      using internal.cmp_trans [OF v(1,3,4)] by blast
    with less internal.cmp_le_iff [OF v(1,4)] show False by simp
  qed
  have "sorted_wrt (\<lambda>f g. icmp (fm_largest (h f)) (fm_smallest (h g)) < 0) files"
    unfolding sorted_wrt_iff_nth_less
  proof (intro allI impI)
    fix i j
    assume ij: "i < j" "j < length files"
    then have "files ! i \<in> set files" "files ! j \<in> set files" by simp_all
    with assms(2) sorted_wrt_nth_less [OF assms(1) ij] sorted_wrt_nth_less [OF dis ij]
    show "icmp (fm_largest (h (files ! i))) (fm_smallest (h (files ! j))) < 0" by (intro before) simp_all
  qed
  with assms(2) show ?thesis by (simp add: level_ok_def)
qed

end

lemma not_overlapping:
  assumes "user_key_comparator ucmp uvalid usep usucc" "file_ok ucmp uvalid f" "file_ok ucmp uvalid g"
    and "\<not> (InternalKey_Compare ucmp (fm_smallest f) (fm_largest g) \<le> 0 \<and> InternalKey_Compare ucmp (fm_smallest g) (fm_largest f) \<le> 0)"
  shows "InternalKey_Compare ucmp (fm_largest f) (fm_smallest g) < 0 \<or> InternalKey_Compare ucmp (fm_largest g) (fm_smallest f) < 0"
proof -
  note v = user_key_comparator.file_ok_valid [OF assms(1,2)] user_key_comparator.file_ok_valid [OF assms(1,3)]
  note C = total_comparator.axioms(1) [OF user_key_comparator.internal_comparator [OF assms(1)]]
  from assms(4) comparator.cmp_le_iff [OF C v(1,4)] comparator.cmp_le_iff [OF C v(3,2)] show ?thesis by blast
qed

section \<open>Properties\<close>



end
