(* ===== verification/Compaction.thy ===== *)
theory Compaction imports Ranges begin

text \<open>
  \<^verbatim>\<open>db/version_set.cc\<close>: choosing the inputs of a compaction and the questions a running compaction asks.
  The parts of the version set they use are arguments: the store of files, the version and the
  compaction pointers. A compaction keeps a position in each deeper level and in its grandparents, since it is asked about
  keys in increasing order.
\<close>

section \<open>Ranges of files\<close>

text \<open>\<open>InternalKey\<close>s start empty; \<open>GetRange\<close> requires files.\<close>

fun range_loop :: "(bytes \<Rightarrow> bytes \<Rightarrow> int) \<Rightarrow> file_store \<Rightarrow> nat \<Rightarrow> file_ref list \<Rightarrow> bytes \<times> bytes \<Rightarrow> bytes \<times> bytes" where
  "range_loop icmp h i [] r = r"
| "range_loop icmp h i (f # inputs) (smallest, largest) =
     range_loop icmp h (i + 1) inputs
       (if i = 0 then (fm_smallest (h f), fm_largest (h f))
        else (if icmp (fm_smallest (h f)) smallest < 0 then fm_smallest (h f) else smallest,
              if icmp (fm_largest (h f)) largest > 0 then fm_largest (h f) else largest))"

definition GetRange :: "(bytes \<Rightarrow> bytes \<Rightarrow> int) \<Rightarrow> file_store \<Rightarrow> file_ref list \<Rightarrow> bytes \<times> bytes" where
  "GetRange icmp h inputs = range_loop icmp h 0 inputs ([], [])"

definition GetRange2 :: "(bytes \<Rightarrow> bytes \<Rightarrow> int) \<Rightarrow> file_store \<Rightarrow> file_ref list \<Rightarrow> file_ref list \<Rightarrow> bytes \<times> bytes" where
  "GetRange2 icmp h inputs1 inputs2 = GetRange icmp h (inputs1 @ inputs2)"

section \<open>Compactions\<close>

record compaction =
  cp_level :: nat
  cp_max_output_file_size :: uint64
  cp_input_version :: "nat option"
  cp_edit :: version_edit
  cp_inputs :: "file_ref list list"
  cp_grandparents :: "file_ref list"
  cp_grandparent_index :: nat
  cp_seen_key :: bool
  cp_overlapped_bytes :: uint64
  cp_level_ptrs :: "nat list"

definition Compaction_init :: "nat \<Rightarrow> compaction" where
  "Compaction_init level =
     \<lparr>cp_level = level, cp_max_output_file_size = MaxFileSizeForLevel level, cp_input_version = None, cp_edit = VersionEdit_init,
      cp_inputs = [[], []], cp_grandparents = [], cp_grandparent_index = 0, cp_seen_key = False, cp_overlapped_bytes = 0,
      cp_level_ptrs = replicate kNumLevels 0\<rparr>"

definition num_input_files :: "compaction \<Rightarrow> nat \<Rightarrow> nat" where
  "num_input_files c which = length (cp_inputs c ! which)"

definition IsTrivialMove :: "file_store \<Rightarrow> compaction \<Rightarrow> bool" where
  "IsTrivialMove h c \<longleftrightarrow> num_input_files c 0 = 1 \<and> num_input_files c 1 = 0
     \<and> TotalFileSize h (cp_grandparents c) \<le> kMaxGrandParentOverlapBytes"

definition AddInputDeletions :: "file_store \<Rightarrow> compaction \<Rightarrow> version_edit \<Rightarrow> version_edit" where
  "AddInputDeletions h c edit =
     foldl (\<lambda>edit which. foldl (\<lambda>edit f. VersionEdit_DeleteFile edit (cp_level c + which) (fm_number (h f))) edit (cp_inputs c ! which))
       edit [0, 1]"

text \<open>
  The loop over the files of one level in \<open>IsBaseLevelForKey\<close>: the new position, and whether the key falls
  into the range of the file there.
\<close>

function key_in_level :: "(bytes \<Rightarrow> bytes \<Rightarrow> int) \<Rightarrow> file_store \<Rightarrow> file_ref list \<Rightarrow> bytes \<Rightarrow> nat \<Rightarrow> nat \<times> bool" where
  "key_in_level ucmp h files ukey ptr =
     (if ptr < length files
      then let f = files ! ptr
        in if ucmp ukey (ExtractUserKey (fm_largest (h f))) \<le> 0
           then (ptr, ucmp ukey (ExtractUserKey (fm_smallest (h f))) \<ge> 0)
           else key_in_level ucmp h files ukey (ptr + 1)
      else (ptr, False))"
  by pat_completeness auto
termination by (relation "measure (\<lambda>(_, _, files, _, ptr). length files - ptr)") auto

declare key_in_level.simps [simp del]

fun base_level_loop :: "(bytes \<Rightarrow> bytes \<Rightarrow> int) \<Rightarrow> file_store \<Rightarrow> db_version \<Rightarrow> bytes \<Rightarrow> nat list \<Rightarrow> nat list \<Rightarrow> bool \<times> nat list" where
  "base_level_loop ucmp h v ukey [] ptrs = (True, ptrs)"
| "base_level_loop ucmp h v ukey (lvl # lvls) ptrs =
     (case key_in_level ucmp h (v_files v ! lvl) ukey (ptrs ! lvl) of (ptr, found) \<Rightarrow>
        if found then (False, ptrs[lvl := ptr]) else base_level_loop ucmp h v ukey lvls (ptrs[lvl := ptr]))"

definition IsBaseLevelForKey :: "(bytes \<Rightarrow> bytes \<Rightarrow> int) \<Rightarrow> file_store \<Rightarrow> db_version \<Rightarrow> compaction \<Rightarrow> bytes \<Rightarrow> bool \<times> compaction" where
  "IsBaseLevelForKey ucmp h v c ukey =
     (let (r, ptrs) = base_level_loop ucmp h v ukey [cp_level c + 2..<kNumLevels] (cp_level_ptrs c)
      in (r, c\<lparr>cp_level_ptrs := ptrs\<rparr>))"

function grandparent_loop :: "(bytes \<Rightarrow> bytes \<Rightarrow> int) \<Rightarrow> file_store \<Rightarrow> bytes \<Rightarrow> compaction \<Rightarrow> compaction" where
  "grandparent_loop icmp h internal_key c =
     (if cp_grandparent_index c < length (cp_grandparents c)
         \<and> icmp internal_key (fm_largest (h (cp_grandparents c ! cp_grandparent_index c))) > 0
      then grandparent_loop icmp h internal_key
        (c\<lparr>cp_overlapped_bytes := (if cp_seen_key c
              then cp_overlapped_bytes c + fm_file_size (h (cp_grandparents c ! cp_grandparent_index c)) else cp_overlapped_bytes c),
           cp_grandparent_index := cp_grandparent_index c + 1\<rparr>)
      else c)"
  by pat_completeness auto
termination by (relation "measure (\<lambda>(_, _, _, c). length (cp_grandparents c) - cp_grandparent_index c)") auto

declare grandparent_loop.simps [simp del]

definition ShouldStopBefore :: "(bytes \<Rightarrow> bytes \<Rightarrow> int) \<Rightarrow> file_store \<Rightarrow> compaction \<Rightarrow> bytes \<Rightarrow> bool \<times> compaction" where
  "ShouldStopBefore icmp h c internal_key =
     (let c = (grandparent_loop icmp h internal_key c)\<lparr>cp_seen_key := True\<rparr>
      in if sint (cp_overlapped_bytes c) > kMaxGrandParentOverlapBytes
         then (True, c\<lparr>cp_overlapped_bytes := 0\<rparr>) else (False, c))"

section \<open>Choosing the inputs\<close>

text \<open>The inputs of both levels after the attempt to grow those of the first: also the range of the first and of all inputs.\<close>

definition expand_inputs ::
  "(bytes \<Rightarrow> bytes \<Rightarrow> int) \<Rightarrow> file_store \<Rightarrow> db_version \<Rightarrow> nat \<Rightarrow> file_ref list \<Rightarrow> file_ref list \<Rightarrow> bytes \<times> bytes \<Rightarrow> bytes \<times> bytes
    \<Rightarrow> (file_ref list \<times> file_ref list \<times> (bytes \<times> bytes) \<times> (bytes \<times> bytes)) option" where
  "expand_inputs ucmp h v level inputs0 inputs1 rng all_range =
     (let icmp = InternalKey_Compare ucmp; unchanged = Some (inputs0, inputs1, rng, all_range) in
      if inputs1 \<noteq> []
      then case GetOverlappingInputs ucmp h v level (Some (fst all_range)) (Some (snd all_range)) of
          None \<Rightarrow> None
        | Some expanded0 \<Rightarrow>
            if length expanded0 > length inputs0
               \<and> TotalFileSize h inputs1 + TotalFileSize h expanded0 < kExpandedCompactionByteSizeLimit
            then let new_range = GetRange icmp h expanded0
              in case GetOverlappingInputs ucmp h v (level + 1) (Some (fst new_range)) (Some (snd new_range)) of
                   None \<Rightarrow> None
                 | Some expanded1 \<Rightarrow>
                     if length expanded1 = length inputs1
                     then Some (expanded0, expanded1, new_range, GetRange2 icmp h expanded0 expanded1)
                     else unchanged
            else unchanged
      else unchanged)"

definition SetupOtherInputs ::
  "(bytes \<Rightarrow> bytes \<Rightarrow> int) \<Rightarrow> file_store \<Rightarrow> db_version \<Rightarrow> bytes list \<Rightarrow> compaction \<Rightarrow> (compaction \<times> bytes list) option" where
  "SetupOtherInputs ucmp h v compact_pointer c =
     (let icmp = InternalKey_Compare ucmp; level = cp_level c; inputs0 = cp_inputs c ! 0; rng = GetRange icmp h inputs0 in
      do { inputs1 \<leftarrow> GetOverlappingInputs ucmp h v (level + 1) (Some (fst rng)) (Some (snd rng));
           (inputs0, inputs1, rng, all_range) \<leftarrow> expand_inputs ucmp h v level inputs0 inputs1 rng (GetRange2 icmp h inputs0 inputs1);
           grandparents \<leftarrow> (if level + 2 < kNumLevels
              then GetOverlappingInputs ucmp h v (level + 2) (Some (fst all_range)) (Some (snd all_range))
              else Some (cp_grandparents c));
           Some (c\<lparr>cp_inputs := [inputs0, inputs1], cp_grandparents := grandparents,
                   cp_edit := SetCompactPointer (cp_edit c) level (snd rng)\<rparr>,
                 compact_pointer[level := snd rng]) })"

text \<open>The file from which a compaction by size starts: the first one after the compaction pointer, or else the first one.\<close>

definition pick_file :: "(bytes \<Rightarrow> bytes \<Rightarrow> int) \<Rightarrow> file_store \<Rightarrow> file_ref list \<Rightarrow> bytes \<Rightarrow> file_ref" where
  "pick_file icmp h files pointer =
     (case find (\<lambda>f. pointer = [] \<or> icmp (fm_largest (h f)) pointer > 0) files of Some f \<Rightarrow> f | None \<Rightarrow> files ! 0)"

definition PickCompaction ::
  "(bytes \<Rightarrow> bytes \<Rightarrow> int) \<Rightarrow> file_store \<Rightarrow> nat \<Rightarrow> db_version \<Rightarrow> bytes list \<Rightarrow> (compaction option \<times> bytes list) option" where
  "PickCompaction ucmp h current v compact_pointer =
     (let icmp = InternalKey_Compare ucmp;
          size_compaction = (v_compaction_score v \<ge> 1); seek_compaction = (v_file_to_compact v \<noteq> None) in
      if \<not> size_compaction \<and> \<not> seek_compaction then Some (None, compact_pointer)
      else
        let level = (if size_compaction then nat (v_compaction_level v) else nat (v_file_to_compact_level v));
            file = (if size_compaction then pick_file icmp h (v_files v ! level) (compact_pointer ! level)
                    else the (v_file_to_compact v));
            c = (Compaction_init level)\<lparr>cp_inputs := [[file], []], cp_input_version := Some current\<rparr>
        in do { c \<leftarrow> (if level = 0
                  then let rng = GetRange icmp h [file]
                    in map_option (\<lambda>inputs. c\<lparr>cp_inputs := [inputs, []]\<rparr>)
                         (GetOverlappingInputs ucmp h v 0 (Some (fst rng)) (Some (snd rng)))
                  else Some c);
                (c, compact_pointer) \<leftarrow> SetupOtherInputs ucmp h v compact_pointer c;
                Some (Some c, compact_pointer) })"

text \<open>The inputs up to the first file with which they reach the size of an output file.\<close>

fun limit_inputs :: "file_store \<Rightarrow> uint64 \<Rightarrow> uint64 \<Rightarrow> file_ref list \<Rightarrow> file_ref list" where
  "limit_inputs h limit size_so_far [] = []"
| "limit_inputs h limit size_so_far (f # inputs) =
     (let size_so_far = size_so_far + fm_file_size (h f) in if size_so_far \<ge> limit then [f] else f # limit_inputs h limit size_so_far inputs)"

definition CompactRange ::
  "(bytes \<Rightarrow> bytes \<Rightarrow> int) \<Rightarrow> file_store \<Rightarrow> nat \<Rightarrow> db_version \<Rightarrow> bytes list \<Rightarrow> nat \<Rightarrow> bytes option \<Rightarrow> bytes option
    \<Rightarrow> (compaction option \<times> bytes list) option" where
  "CompactRange ucmp h current v compact_pointer level begin_key end_key =
     do { inputs \<leftarrow> GetOverlappingInputs ucmp h v level begin_key end_key;
          if inputs = [] then Some (None, compact_pointer)
          else let inputs = (if level > 0 then limit_inputs h (MaxFileSizeForLevel level) 0 inputs else inputs);
                   c = (Compaction_init level)\<lparr>cp_input_version := Some current, cp_inputs := [inputs, []]\<rparr>
            in do { (c, compact_pointer) \<leftarrow> SetupOtherInputs ucmp h v compact_pointer c; Some (Some c, compact_pointer) } }"

definition MaxNextLevelOverlappingBytes :: "(bytes \<Rightarrow> bytes \<Rightarrow> int) \<Rightarrow> file_store \<Rightarrow> db_version \<Rightarrow> int option" where
  "MaxNextLevelOverlappingBytes ucmp h v =
     foldl (\<lambda>result level. foldl (\<lambda>result f.
         do { result \<leftarrow> result;
              overlaps \<leftarrow> GetOverlappingInputs ucmp h v (level + 1) (Some (fm_smallest (h f))) (Some (fm_largest (h f)));
              let total_size = TotalFileSize h overlaps in Some (if total_size > result then total_size else result) })
       result (v_files v ! level)) (Some 0) [1..<kNumLevels - 1]"

section \<open>Keys below the base level\<close>

definition in_file :: "(bytes \<Rightarrow> bytes \<Rightarrow> int) \<Rightarrow> bytes \<Rightarrow> file_meta \<Rightarrow> bool" where
  "in_file ucmp u f \<longleftrightarrow> ucmp u (ExtractUserKey (fm_smallest f)) \<ge> 0 \<and> ucmp u (ExtractUserKey (fm_largest f)) \<le> 0"

text \<open>The files before the position of a level end before the key.\<close>

definition ptr_ok :: "(bytes \<Rightarrow> bytes \<Rightarrow> int) \<Rightarrow> file_store \<Rightarrow> file_ref list \<Rightarrow> bytes \<Rightarrow> nat \<Rightarrow> bool" where
  "ptr_ok ucmp h files u ptr \<longleftrightarrow> ptr \<le> length files \<and> (\<forall>i < ptr. ucmp u (ExtractUserKey (fm_largest (h (files ! i)))) > 0)"

definition ptrs_ok :: "(bytes \<Rightarrow> bytes \<Rightarrow> int) \<Rightarrow> file_store \<Rightarrow> db_version \<Rightarrow> compaction \<Rightarrow> bytes \<Rightarrow> bool" where
  "ptrs_ok ucmp h v c u \<longleftrightarrow> length (cp_level_ptrs c) = kNumLevels
     \<and> (\<forall>lvl. cp_level c + 2 \<le> lvl \<longrightarrow> lvl < kNumLevels \<longrightarrow> ptr_ok ucmp h (v_files v ! lvl) u (cp_level_ptrs c ! lvl))"

lemma ptrs_ok_init: "ptrs_ok ucmp h v ((Compaction_init level)\<lparr>cp_inputs := i, cp_input_version := iv\<rparr>) u"
  by (simp add: ptrs_ok_def ptr_ok_def Compaction_init_def)

context user_key_comparator
begin

lemma key_in_level_spec:
  assumes ok: "level_ok ucmp uvalid h files" and u: "uvalid u" and "ptr_ok ucmp h files u ptr"
  shows "case key_in_level ucmp h files u ptr of (ptr', found) \<Rightarrow>
    ptr_ok ucmp h files u ptr' \<and> (found \<longleftrightarrow> (\<exists>f \<in> set files. in_file ucmp u (h f)))"
  using assms(3)
proof (induction "length files - ptr" arbitrary: ptr rule: less_induct)
  case less
  have fok: "file_ok ucmp uvalid (h (files ! i))" if "i < length files" for i using ok that by (simp add: level_ok_def)
  have before: "\<not> in_file ucmp u (h (files ! i))" if "i < ptr" for i
    using less.prems that by (auto simp: ptr_ok_def in_file_def)
  show ?case
  proof (cases "ptr < length files")
    case False
    then have "ptr = length files" using less.prems by (simp add: ptr_ok_def)
    with before less.prems show ?thesis by (subst key_in_level.simps) (auto simp: in_set_conv_nth)
  next
    case True
    let ?f = "h (files ! ptr)"
    show ?thesis
    proof (cases "ucmp u (ExtractUserKey (fm_largest ?f)) \<le> 0")
      case False
      then have "ptr_ok ucmp h files u (ptr + 1)" using less.prems True by (auto simp: ptr_ok_def less_Suc_eq)
      with less.hyps [of "ptr + 1"] True False show ?thesis by (subst key_in_level.simps) (simp add: Let_def)
    next
      case le: True
      have after: "\<not> in_file ucmp u (h (files ! i))" if i: "ptr < i" "i < length files" and no: "\<not> in_file ucmp u ?f" for i
      proof -
        let ?s = "ExtractUserKey (fm_smallest ?f)" and ?si = "ExtractUserKey (fm_smallest (h (files ! i)))"
        have v: "uvalid ?s" "uvalid ?si" using file_ok_user(1) fok True i by blast+
        have "ucmp u ?s < 0" using no le by (auto simp: in_file_def)
        moreover have "ucmp ?s ?si \<le> 0" using file_limits_mono(2) [OF ok i] .
        ultimately have "ucmp u ?si < 0" using user.cmp_less_le_trans [OF u v] by simp
        then show ?thesis by (simp add: in_file_def)
      qed
      have "(\<exists>f \<in> set files. in_file ucmp u (h f)) \<longleftrightarrow> in_file ucmp u ?f"
      proof
        assume "\<exists>f \<in> set files. in_file ucmp u (h f)"
        then obtain i where "i < length files" "in_file ucmp u (h (files ! i))" by (auto simp: in_set_conv_nth)
        with before after show "in_file ucmp u ?f" by (metis nat_neq_iff)
      qed (use True in \<open>auto intro!: bexI [of _ "files ! ptr"]\<close>)
      with le True less.prems show ?thesis by (subst key_in_level.simps) (simp add: Let_def in_file_def)
    qed
  qed
qed

lemma base_level_loop_spec:
  assumes ok: "\<forall>lvl \<in> set lvls. level_ok ucmp uvalid h (v_files v ! lvl) \<and> ptr_ok ucmp h (v_files v ! lvl) u (ptrs ! lvl)"
    and u: "uvalid u" and lvls: "distinct lvls" "\<forall>lvl \<in> set lvls. lvl < length ptrs"
  shows "case base_level_loop ucmp h v u lvls ptrs of (r, ptrs') \<Rightarrow>
    length ptrs' = length ptrs \<and> (r \<longleftrightarrow> \<not> (\<exists>lvl \<in> set lvls. \<exists>f \<in> set (v_files v ! lvl). in_file ucmp u (h f)))
    \<and> (\<forall>lvl \<in> set lvls. ptr_ok ucmp h (v_files v ! lvl) u (ptrs' ! lvl)) \<and> (\<forall>lvl. lvl \<notin> set lvls \<longrightarrow> ptrs' ! lvl = ptrs ! lvl)"
  using assms(1,3,4)
proof (induction lvls arbitrary: ptrs)
  case (Cons lvl lvls)
  obtain ptr found where k: "key_in_level ucmp h (v_files v ! lvl) u (ptrs ! lvl) = (ptr, found)" by (rule prod.exhaust)
  have spec: "ptr_ok ucmp h (v_files v ! lvl) u ptr" "found \<longleftrightarrow> (\<exists>f \<in> set (v_files v ! lvl). in_file ucmp u (h f))"
    using key_in_level_spec [of h "v_files v ! lvl" u "ptrs ! lvl"] Cons.prems(1) u k by simp_all
  have other: "lvl \<noteq> l" if "l \<in> set lvls" for l using Cons.prems(2) that by auto
  show ?case
  proof (cases found)
    case True
    with k spec Cons.prems other show ?thesis by (auto simp: nth_list_update)
  next
    case False
    have "\<forall>l \<in> set lvls. level_ok ucmp uvalid h (v_files v ! l) \<and> ptr_ok ucmp h (v_files v ! l) u (ptrs[lvl := ptr] ! l)"
      using Cons.prems(1) other by simp
    from Cons.IH [OF this] Cons.prems(2,3) have IH: "case base_level_loop ucmp h v u lvls (ptrs[lvl := ptr]) of (r, ptrs') \<Rightarrow>
      length ptrs' = length ptrs \<and> (r \<longleftrightarrow> \<not> (\<exists>lvl \<in> set lvls. \<exists>f \<in> set (v_files v ! lvl). in_file ucmp u (h f)))
      \<and> (\<forall>lvl \<in> set lvls. ptr_ok ucmp h (v_files v ! lvl) u (ptrs' ! lvl)) \<and> (\<forall>l. l \<notin> set lvls \<longrightarrow> ptrs' ! l = ptrs[lvl := ptr] ! l)"
      by simp
    obtain r ptrs' where r: "base_level_loop ucmp h v u lvls (ptrs[lvl := ptr]) = (r, ptrs')" by (rule prod.exhaust)
    have "ptrs' ! lvl = ptr" using IH Cons.prems(2,3) unfolding r by simp
    with IH False k spec r show ?thesis by auto
  qed
qed simp

lemma IsBaseLevelForKey_spec:
  assumes ok: "\<forall>lvl. cp_level c + 2 \<le> lvl \<longrightarrow> lvl < kNumLevels \<longrightarrow> level_ok ucmp uvalid h (v_files v ! lvl)"
    and p: "ptrs_ok ucmp h v c u" and u: "uvalid u"
  shows "case IsBaseLevelForKey ucmp h v c u of (r, c') \<Rightarrow>
    (r \<longleftrightarrow> \<not> (\<exists>lvl. cp_level c + 2 \<le> lvl \<and> lvl < kNumLevels \<and> (\<exists>f \<in> set (v_files v ! lvl). in_file ucmp u (h f))))
    \<and> c' = c\<lparr>cp_level_ptrs := cp_level_ptrs c'\<rparr> \<and> ptrs_ok ucmp h v c' u"
  using base_level_loop_spec [of "[cp_level c + 2..<kNumLevels]" h v u "cp_level_ptrs c"] assms
  by (auto simp: IsBaseLevelForKey_def ptrs_ok_def split: prod.splits)

lemma ptr_ok_mono: "ptr_ok ucmp h files u ptr \<Longrightarrow> uvalid u \<Longrightarrow> uvalid u' \<Longrightarrow> ucmp u u' \<le> 0
    \<Longrightarrow> \<forall>f \<in> set files. file_ok ucmp uvalid (h f) \<Longrightarrow> ptr_ok ucmp h files u' ptr"
  unfolding ptr_ok_def
proof (elim conjE, intro conjI allI impI)
  fix i
  assume u: "uvalid u" "uvalid u'" "ucmp u u' \<le> 0" and f: "\<forall>f \<in> set files. file_ok ucmp uvalid (h f)"
    and i: "i < ptr" "ptr \<le> length files" and "\<forall>i < ptr. 0 < ucmp u (ExtractUserKey (fm_largest (h (files ! i))))"
  then have l: "0 < ucmp u (ExtractUserKey (fm_largest (h (files ! i))))" by blast
  have v: "uvalid (ExtractUserKey (fm_largest (h (files ! i))))" using f i by (intro file_ok_user(2)) simp
  show "0 < ucmp u' (ExtractUserKey (fm_largest (h (files ! i))))"
    using user.cmp_less_le_trans [OF v u(1,2)] user.cmp_swap [OF v u(1)] user.cmp_swap [OF v u(2)] l u(3) by simp
qed

end

end
