(* ===== verification/Dropping.thy ===== *)
theory Dropping imports Compaction VersionGet begin

text \<open>
  \<^verbatim>\<open>db/db_impl.cc\<close>: which entries a compaction drops. The test of the loop of \<open>DoCompactionWork\<close> is a function
  from the state it keeps between the entries; it amounts to a test of an entry and the one before it, and no reader
  can tell the entries that are left from all of them.
\<close>

section \<open>The test\<close>

record drop_state =
  dr_user_key :: "bytes option"
  dr_last_sequence :: uint64
  dr_compaction :: compaction

definition drop_entry ::
  "(bytes \<Rightarrow> bytes \<Rightarrow> int) \<Rightarrow> file_store \<Rightarrow> db_version \<Rightarrow> uint64 \<Rightarrow> bytes \<Rightarrow> drop_state \<Rightarrow> bool \<times> drop_state" where
  "drop_entry ucmp h v smallest_snapshot key st =
     (case ParseInternalKey key of
        None \<Rightarrow> (False, st\<lparr>dr_user_key := None, dr_last_sequence := kMaxSequenceNumber\<rparr>)
      | Some ikey \<Rightarrow>
          let st = (if (case dr_user_key st of None \<Rightarrow> True | Some u \<Rightarrow> ucmp (user_key ikey) u \<noteq> 0)
                    then st\<lparr>dr_user_key := Some (user_key ikey), dr_last_sequence := kMaxSequenceNumber\<rparr> else st);
              (hide, c) = (if dr_last_sequence st \<le> smallest_snapshot then (True, dr_compaction st)
                           else if type ikey = kTypeDeletion \<and> sequence ikey \<le> smallest_snapshot
                           then IsBaseLevelForKey ucmp h v (dr_compaction st) (user_key ikey)
                           else (False, dr_compaction st))
          in (hide, st\<lparr>dr_compaction := c, dr_last_sequence := sequence ikey\<rparr>))"

section \<open>The entries that are left\<close>

definition key_seq :: "bytes \<Rightarrow> uint64" where "key_seq k = drop_bit 8 (ExtractTag k)"

text \<open>
  An entry is hidden by the one before it when that has its user key and the oldest snapshot sees it. A deletion that
  the oldest snapshot sees is obsolete when no deeper level has its user key.
\<close>

definition hidden :: "uint64 \<Rightarrow> bytes option \<Rightarrow> bytes \<Rightarrow> bool" where
  "hidden s prev k \<longleftrightarrow> (case prev of None \<Rightarrow> False | Some p \<Rightarrow> ExtractUserKey p = ExtractUserKey k \<and> key_seq p \<le> s)"

definition obsolete :: "(bytes \<Rightarrow> bool) \<Rightarrow> uint64 \<Rightarrow> bytes \<Rightarrow> bool" where
  "obsolete base s k \<longleftrightarrow> \<not> is_value k \<and> key_seq k \<le> s \<and> base (ExtractUserKey k)"

definition survives :: "(bytes \<Rightarrow> bool) \<Rightarrow> uint64 \<Rightarrow> bytes option \<Rightarrow> bytes \<Rightarrow> bool" where
  "survives base s prev k \<longleftrightarrow> \<not> hidden s prev k \<and> \<not> obsolete base s k"

fun survivors :: "(bytes \<Rightarrow> bool) \<Rightarrow> uint64 \<Rightarrow> bytes option \<Rightarrow> (bytes \<times> bytes) list \<Rightarrow> (bytes \<times> bytes) list" where
  "survivors base s prev [] = []"
| "survivors base s prev ((k, x) # es) =
     (if survives base s prev k then (k, x) # survivors base s (Some k) es else survivors base s (Some k) es)"

definition prev_key :: "bytes option \<Rightarrow> (bytes \<times> bytes) list \<Rightarrow> bytes option" where
  "prev_key prev es = (if es = [] then prev else Some (fst (last es)))"

lemma survivors_append: "survivors base s prev (es @ fs) = survivors base s prev es @ survivors base s (prev_key prev es) fs"
  by (induction es arbitrary: prev) (auto simp: prev_key_def)

lemma survivors_snoc:
  "survivors base s prev (es @ [(k, x)]) =
     survivors base s prev es @ (if survives base s (prev_key prev es) k then [(k, x)] else [])"
  by (simp add: survivors_append)

lemma survivors_subset: "set (survivors base s prev es) \<subseteq> set es"
  by (induction base s prev es rule: survivors.induct) auto

lemma survivors_sorted: "cmp_sorted cmp es \<Longrightarrow> cmp_sorted cmp (survivors base s prev es)"
  unfolding cmp_sorted_def
proof (induction base s prev es rule: survivors.induct)
  case (2 base s prev k x es)
  then show ?case using survivors_subset [of base s "Some k" es] by auto
qed simp

lemma survivors_nth:
  assumes "i < length es" "survives base s (if i = 0 then prev else Some (fst (es ! (i - 1)))) (fst (es ! i))"
  shows "es ! i \<in> set (survivors base s prev es)"
  using assms
proof (induction es arbitrary: i prev)
  case (Cons e es)
  obtain k x where e: "e = (k, x)" by (rule prod.exhaust)
  show ?case
  proof (cases i)
    case 0
    with Cons.prems show ?thesis by (simp add: e)
  next
    case (Suc j)
    have "survives base s (if j = 0 then Some k else Some (fst (es ! (j - 1)))) (fst (es ! j))"
      using Cons.prems(2) Suc by (cases j) (simp_all add: e)
    then have "es ! j \<in> set (survivors base s (Some k) es)" using Cons.prems(1) Suc by (intro Cons.IH) simp_all
    with Suc show ?thesis by (simp add: e)
  qed
qed simp

lemma survivors_survive:
  assumes "e \<in> set (survivors base s prev es)"
  shows "\<exists>i < length es. es ! i = e \<and> survives base s (if i = 0 then prev else Some (fst (es ! (i - 1)))) (fst e)"
  using assms
proof (induction base s prev es rule: survivors.induct)
  case (2 base s prev k x es)
  consider "e = (k, x)" "survives base s prev k" | "e \<in> set (survivors base s (Some k) es)"
    using 2(3) by (auto split: if_splits)
  then show ?case
  proof cases
    case 1
    then show ?thesis by (intro exI [of _ 0]) simp
  next
    case 2
    with "2.IH" obtain i where i: "i < length es" "es ! i = e"
      "survives base s (if i = 0 then Some k else Some (fst (es ! (i - 1)))) (fst e)" by (metis (no_types, lifting))
    then have "survives base s (Some (fst (((k, x) # es) ! i))) (fst e)" by (cases i) simp_all
    with i show ?thesis by (intro exI [of _ "Suc i"]) simp
  qed
qed simp

section \<open>No reader sees the difference\<close>

text \<open>A reader at \<open>lk\<close> gets the value of the newest visible entry if it is no deletion.\<close>

definition reads :: "(bytes \<Rightarrow> bytes \<Rightarrow> int) \<Rightarrow> bytes \<Rightarrow> (bytes \<times> bytes) set \<Rightarrow> bytes \<Rightarrow> bool" where
  "reads ucmp lk es x \<longleftrightarrow> (\<exists>k. is_newest ucmp lk es k x \<and> is_value k)"

lemma key_seq_mono: "ExtractTag a \<ge> ExtractTag b \<Longrightarrow> key_seq a \<ge> key_seq b"
  by (simp add: key_seq_def word_le_nat_alt unat_drop_bit_nat div_le_mono)

context user_key_comparator
begin

lemma same_user_less:
  "ExtractUserKey a = ExtractUserKey b \<Longrightarrow> uvalid (ExtractUserKey a) \<Longrightarrow> icmp a b < 0 \<longleftrightarrow> ExtractTag a > ExtractTag b"
  "ExtractUserKey a = ExtractUserKey b \<Longrightarrow> uvalid (ExtractUserKey a) \<Longrightarrow> icmp a b \<le> 0 \<longleftrightarrow> ExtractTag a \<ge> ExtractTag b"
  by (auto simp: InternalKey_Compare_less InternalKey_Compare_le user.cmp_refl)

text \<open>Between two entries of a user key in a sorted list there are only entries of it.\<close>

lemma same_user_between:
  assumes es: "cmp_sorted icmp es" "\<forall>(k, x) \<in> set es. proper_key uvalid k"
    and i: "i \<le> m" "m \<le> j" "j < length es" and same: "ExtractUserKey (fst (es ! i)) = ExtractUserKey (fst (es ! j))"
  shows "ExtractUserKey (fst (es ! m)) = ExtractUserKey (fst (es ! j))"
proof -
  have v: "uvalid (ExtractUserKey (fst (es ! n)))" if "n < length es" for n
    using es(2) nth_mem [OF that] by (auto simp: proper_key_def case_prod_beta)
  have le: "ucmp (ExtractUserKey (fst (es ! a))) (ExtractUserKey (fst (es ! b))) \<le> 0" if "a \<le> b" "b < length es" for a b
  proof (cases "a = b")
    case True
    with v that show ?thesis by (simp add: user.cmp_refl)
  next
    case False
    with that es(1) sorted_wrt_nth_less [of "\<lambda>a b. icmp (fst a) (fst b) < 0" es a b]
    have "icmp (fst (es ! a)) (fst (es ! b)) < 0" by (simp add: cmp_sorted_def)
    then show ?thesis by (auto simp: InternalKey_Compare_less)
  qed
  have "ucmp (ExtractUserKey (fst (es ! m))) (ExtractUserKey (fst (es ! j))) \<le> 0"
    "ucmp (ExtractUserKey (fst (es ! j))) (ExtractUserKey (fst (es ! m))) \<le> 0"
    using le [of m j] le [of i m] i same by simp_all
  then have "ucmp (ExtractUserKey (fst (es ! j))) (ExtractUserKey (fst (es ! m))) = 0"
    using user.cmp_le_iff v [of m] v [of j] i by auto
  with user.cmp_eq [OF v [of j] v [of m]] i show ?thesis by simp
qed

text \<open>The entry of a user key that the oldest snapshot sees first; the older ones are hidden by it or by each other.\<close>

lemma first_seen:
  assumes es: "cmp_sorted icmp es" "\<forall>(k, x) \<in> set es. proper_key uvalid k"
    and e: "i < length es" "key_seq (fst (es ! i)) \<le> s"
  obtains j where "j \<le> i" "ExtractUserKey (fst (es ! j)) = ExtractUserKey (fst (es ! i))" "key_seq (fst (es ! j)) \<le> s"
    "\<not> hidden s (if j = 0 then None else Some (fst (es ! (j - 1)))) (fst (es ! j))"
    "\<And>m. j < m \<Longrightarrow> m < length es \<Longrightarrow> ExtractUserKey (fst (es ! m)) = ExtractUserKey (fst (es ! i)) \<Longrightarrow>
       hidden s (Some (fst (es ! (m - 1)))) (fst (es ! m))"
proof -
  let ?P = "\<lambda>j. ExtractUserKey (fst (es ! j)) = ExtractUserKey (fst (es ! i)) \<and> key_seq (fst (es ! j)) \<le> s"
  define j where "j = (LEAST j. ?P j)"
  have P: "?P j" unfolding j_def by (rule LeastI [of ?P i]) (simp add: e)
  have le: "j \<le> i" unfolding j_def by (rule Least_le) (simp add: e)
  have least: "\<not> ?P m" if "m < j" for m using not_less_Least that unfolding j_def by blast
  have "\<not> hidden s (if j = 0 then None else Some (fst (es ! (j - 1)))) (fst (es ! j))"
    using P least [of "j - 1"] by (auto simp: hidden_def)
  moreover have "hidden s (Some (fst (es ! (m - 1)))) (fst (es ! m))"
    if m: "j < m" "m < length es" and u: "ExtractUserKey (fst (es ! m)) = ExtractUserKey (fst (es ! i))" for m
  proof -
    have uj: "ExtractUserKey (fst (es ! j)) = ExtractUserKey (fst (es ! m))" using P u by simp
    then have um: "ExtractUserKey (fst (es ! (m - 1))) = ExtractUserKey (fst (es ! m))"
      using m by (intro same_user_between [OF es _ _ _ uj]) simp_all
    have "ExtractTag (fst (es ! (m - 1))) \<le> ExtractTag (fst (es ! j))"
    proof (cases "j = m - 1")
      case False
      with m es(1) sorted_wrt_nth_less [of "\<lambda>a b. icmp (fst a) (fst b) < 0" es j "m - 1"]
      have "icmp (fst (es ! j)) (fst (es ! (m - 1))) < 0" by (simp add: cmp_sorted_def)
      moreover have "uvalid (ExtractUserKey (fst (es ! j)))"
        using es(2) nth_mem [of j es] m by (auto simp: proper_key_def case_prod_beta)
      ultimately show ?thesis using same_user_less(1) [of "fst (es ! j)" "fst (es ! (m - 1))"] uj um by simp
    qed simp
    then have "key_seq (fst (es ! (m - 1))) \<le> s" using key_seq_mono P order_trans by blast
    with um show ?thesis by (simp add: hidden_def)
  qed
  ultimately show ?thesis using le P by (intro that) simp_all
qed

lemma survivors_read:
  assumes es: "cmp_sorted icmp es" "\<forall>(k, x) \<in> set es. proper_key uvalid k"
    and U: "\<forall>(k, x) \<in> U. proper_key uvalid k \<and> (\<forall>(k', x') \<in> set es. ucmp (ExtractUserKey k) (ExtractUserKey k') = 0 \<longrightarrow> icmp k k' < 0)"
    and D: "\<forall>(k, x) \<in> D. proper_key uvalid k \<and> \<not> base (ExtractUserKey k)"
    and lk: "proper_key uvalid lk" "is_value lk" "s \<le> key_seq lk"
  shows "reads ucmp lk (U \<union> set (survivors base s None es) \<union> D) x \<longleftrightarrow> reads ucmp lk (U \<union> set es \<union> D) x"
    (is "reads ucmp lk ?A x = reads ucmp lk ?B x")
proof
  let ?p = "\<lambda>i. if i = 0 then None else Some (fst (es ! (i - 1)))"
  have sub: "?A \<subseteq> ?B" using survivors_subset by fastforce
  have valid: "proper_key uvalid k" if "(k, y) \<in> ?B" for k y using that es(2) U D by fastforce
  have same: "ExtractUserKey k = ExtractUserKey lk" if "(k, y) \<in> ?B" "visible_entry ucmp lk k" for k y
    using user.cmp_eq valid [OF that(1)] lk(1) that(2) by (simp add: visible_entry_def proper_key_def)
  have vis: "visible_entry ucmp lk k" if k: "(k, y) \<in> ?B" "ExtractUserKey k = ExtractUserKey lk" "ExtractTag k \<le> ExtractTag lk" for k y
    using k lk(1) by (simp add: visible_entry_def same_user_less(2) proper_key_def user.cmp_refl)
  have tag: "ExtractTag a \<le> ExtractTag lk" if a: "proper_key uvalid a" "key_seq a \<le> s" for a
  proof -
    obtain key where key: "ParseInternalKey a = Some key" using a(1) by (auto simp: proper_key_def)
    obtain lkey where lkey: "ParseInternalKey lk = Some lkey" "type lkey = kTypeValue"
      using lk(1,2) by (auto simp: proper_key_def is_value_def)
    have tags: "ExtractTag a = PackSequenceAndType (sequence key) (type key)" "ExtractTag lk = PackSequenceAndType (sequence lkey) kTypeValue"
      and max: "sequence key \<le> kMaxSequenceNumber" "sequence lkey \<le> kMaxSequenceNumber"
      using Append_Parse [OF key] Append_Parse [OF lkey(1)] lkey(2) by (metis AppendInternalKey_eq Extract_tagged(2) append_Nil)+
    have "sequence key \<le> sequence lkey" using a(2) lk(3) max by (simp add: key_seq_def tags)
    then show ?thesis using Pack_less_iff [OF max(2,1), of kTypeValue "type key"] unfolding tags not_less [symmetric]
      by (cases "type key") (auto simp: less_ValueType_def)
  qed
  have dropped: "\<exists>i < length es. es ! i = (k, y) \<and> \<not> survives base s (?p i) k"
    if k: "(k, y) \<in> set es" "(k, y) \<notin> set (survivors base s None es)" for k y
  proof -
    obtain i where i: "i < length es" "es ! i = (k, y)" using k(1) by (auto simp: in_set_conv_nth)
    have "\<not> survives base s (?p i) (fst (es ! i))"
    proof
      assume "survives base s (?p i) (fst (es ! i))"
      from survivors_nth [OF i(1) this] i(2) k(2) show False by simp
    qed
    with i show ?thesis by (intro exI [of _ i]) simp
  qed
  have hider: "\<exists>p z. (p, z) \<in> set es \<and> visible_entry ucmp lk p \<and> icmp p k < 0"
    if i: "i < length es" "es ! i = (k, y)" "hidden s (?p i) k" and k: "ExtractUserKey k = ExtractUserKey lk" for i k y
  proof -
    obtain p z where p: "0 < i" "es ! (i - 1) = (p, z)" "ExtractUserKey p = ExtractUserKey k" "key_seq p \<le> s"
      using i(3) by (cases "es ! (i - 1)") (auto simp: hidden_def split: if_splits)
    have "(p, z) \<in> set es" using i(1) p(2) nth_mem [of "i - 1" es] by (metis less_imp_diff_less)
    moreover from this have "visible_entry ucmp lk p" using p(3,4) k valid tag by (intro vis [of p z]) auto
    moreover have "icmp p k < 0"
      using es(1) i(1,2) p(1,2) sorted_wrt_nth_less [of "\<lambda>a b. icmp (fst a) (fst b) < 0" es "i - 1" i] by (simp add: cmp_sorted_def)
    ultimately show ?thesis by blast
  qed
  show "reads ucmp lk ?A x" if B: "reads ucmp lk ?B x"
  proof -
    obtain k where k: "is_newest ucmp lk ?B k x" "is_value k" using B by (auto simp: reads_def)
    then have kB: "(k, x) \<in> ?B" "visible_entry ucmp lk k" and new: "\<And>k' x'. (k', x') \<in> ?B \<Longrightarrow> visible_entry ucmp lk k' \<Longrightarrow> icmp k k' \<le> 0"
      unfolding is_newest_def by blast+
    have "(k, x) \<in> ?A"
    proof (rule ccontr)
      assume "(k, x) \<notin> ?A"
      with kB(1) obtain i where i: "i < length es" "es ! i = (k, x)" "\<not> survives base s (?p i) k" using dropped by blast
      then have "hidden s (?p i) k" using k(2) by (simp add: survives_def obsolete_def)
      from hider [OF i(1,2) this same [OF kB]] obtain p z where p: "(p, z) \<in> set es" "visible_entry ucmp lk p" "icmp p k < 0" by blast
      have "icmp k p \<le> 0" using new [of p z] p by blast
      with p(3) internal.cmp_swap [of p k] valid kB(1) p(1) proper_key_valid show False by fastforce
    qed
    with k sub kB(2) new show ?thesis unfolding reads_def is_newest_def by blast
  qed
  show "reads ucmp lk ?B x" if A: "reads ucmp lk ?A x"
  proof -
    obtain k where k: "is_newest ucmp lk ?A k x" "is_value k" using A by (auto simp: reads_def)
    then have kA: "(k, x) \<in> ?A" "visible_entry ucmp lk k" and new: "\<And>k' x'. (k', x') \<in> ?A \<Longrightarrow> visible_entry ucmp lk k' \<Longrightarrow> icmp k k' \<le> 0"
      unfolding is_newest_def by blast+
    have kB: "(k, x) \<in> ?B" using kA(1) sub by blast
    have kv: "internal_valid uvalid k" "uvalid (ExtractUserKey k)" using valid [OF kB] proper_key_valid by (auto simp: proper_key_def)
    have "icmp k e \<le> 0" if e: "(e, y) \<in> ?B" "visible_entry ucmp lk e" for e y
    proof (cases "(e, y) \<in> ?A")
      case True
      with new e(2) show ?thesis by blast
    next
      case False
      then have ee: "(e, y) \<in> set es" "(e, y) \<notin> set (survivors base s None es)" using e(1) by blast+
      obtain i where i: "i < length es" "es ! i = (e, y)" "\<not> survives base s (?p i) e" using dropped [OF ee] by blast
      have ev: "internal_valid uvalid e" using valid [OF e(1)] proper_key_valid by blast
      have ue: "ExtractUserKey e = ExtractUserKey lk" "ExtractUserKey k = ExtractUserKey lk" using same e kB kA(2) by blast+
      have old: "key_seq (fst (es ! i)) \<le> s"
      proof (cases "obsolete base s e")
        case True
        with i(2) show ?thesis by (simp add: obsolete_def)
      next
        case False
        with i(3) have hid: "hidden s (?p i) e" by (simp add: survives_def)
        obtain p z where p: "i \<noteq> 0" "es ! (i - 1) = (p, z)" "ExtractUserKey p = ExtractUserKey e" "key_seq p \<le> s"
          using hid by (cases "es ! (i - 1)") (auto simp: hidden_def split: if_splits)
        have "icmp p e < 0"
          using es(1) i(1,2) p(1,2) sorted_wrt_nth_less [of "\<lambda>a b. icmp (fst a) (fst b) < 0" es "i - 1" i] by (simp add: cmp_sorted_def)
        then have "ExtractTag e < ExtractTag p" using same_user_less(1) [OF p(3)] p(3) ue kv(2) by simp
        then have "key_seq e \<le> key_seq p" by (intro key_seq_mono) simp
        with p(4) i(2) show ?thesis by simp
      qed
      obtain n where n: "n \<le> i" "ExtractUserKey (fst (es ! n)) = ExtractUserKey lk" "key_seq (fst (es ! n)) \<le> s"
        "\<not> hidden s (?p n) (fst (es ! n))"
        "\<And>m. n < m \<Longrightarrow> m < length es \<Longrightarrow> ExtractUserKey (fst (es ! m)) = ExtractUserKey lk \<Longrightarrow> hidden s (Some (fst (es ! (m - 1)))) (fst (es ! m))"
        using first_seen [OF es i(1) old] i(2) ue(1) by (metis fst_conv)
      obtain f z where f: "es ! n = (f, z)" by (rule prod.exhaust)
      have fB: "(f, z) \<in> ?B" using nth_mem [of n es] n(1) i(1) f by simp
      have fv: "visible_entry ucmp lk f" using n(2,3) f tag valid [OF fB] by (intro vis [OF fB]) simp_all
      have fe: "icmp f e \<le> 0"
        using es(1) i(1,2) n(1) f sorted_wrt_nth_less [of "\<lambda>a b. icmp (fst a) (fst b) < 0" es n i] internal.cmp_refl [OF ev]
        by (cases "n = i") (auto simp: cmp_sorted_def)
      show ?thesis
      proof (cases "obsolete base s f")
        case False
        then have "(f, z) \<in> ?A" using survivors_nth [of n es base s None] n(1,4) i(1) f by (simp add: survives_def)
        then have "icmp k f \<le> 0" using new fv by blast
        with internal.cmp_trans [OF kv(1) _ ev this fe] show ?thesis using valid [OF fB] proper_key_valid by blast
      next
        case True
        consider "(k, x) \<in> U" | "(k, x) \<in> set (survivors base s None es)" | "(k, x) \<in> D" using kA(1) by blast
        then show ?thesis
        proof cases
          case 1
          have "ucmp (ExtractUserKey k) (ExtractUserKey e) = 0" using ue kv(2) by (simp add: user.cmp_refl)
          with U 1 ee(1) show ?thesis by fastforce
        next
          case 2
          obtain m where m: "m < length es" "es ! m = (k, x)" "survives base s (?p m) k" using survivors_survive [OF 2] by auto
          have "m < n"
          proof (rule ccontr)
            assume "\<not> m < n"
            then consider "m = n" | "n < m" by linarith
            then show False
            proof cases
              case 1
              with True k(2) f m(2) show False by (simp add: obsolete_def)
            next
              case 2
              with n(5) [OF 2 m(1)] m(2,3) ue(2) show False by (simp add: survives_def)
            qed
          qed
          then have "icmp k f < 0"
            using es(1) i(1) n(1) m(2) f sorted_wrt_nth_less [of "\<lambda>a b. icmp (fst a) (fst b) < 0" es m n] by (simp add: cmp_sorted_def)
          then have "icmp k f \<le> 0" by simp
          with internal.cmp_trans [OF kv(1) _ ev this fe] show ?thesis using valid [OF fB] proper_key_valid by blast
        next
          case 3
          with D have "\<not> base (ExtractUserKey k)" by auto
          with True n(2) f ue(2) show ?thesis by (simp add: obsolete_def)
        qed
      qed
    qed
    with k kB kA(2) show ?thesis unfolding reads_def is_newest_def by blast
  qed
qed

end

section \<open>The test of the code\<close>

definition base_level :: "(bytes \<Rightarrow> bytes \<Rightarrow> int) \<Rightarrow> file_store \<Rightarrow> db_version \<Rightarrow> nat \<Rightarrow> bytes \<Rightarrow> bool" where
  "base_level ucmp h v level u \<longleftrightarrow>
     \<not> (\<exists>lvl. level + 2 \<le> lvl \<and> lvl < kNumLevels \<and> (\<exists>f \<in> set (v_files v ! lvl). in_file ucmp u (h f)))"

definition drop_inv :: "drop_state \<Rightarrow> bytes option \<Rightarrow> bool" where
  "drop_inv st prev \<longleftrightarrow> dr_user_key st = map_option ExtractUserKey prev
     \<and> dr_last_sequence st = (case prev of None \<Rightarrow> kMaxSequenceNumber | Some p \<Rightarrow> key_seq p)"

lemma Parse_parts: "ParseInternalKey k = Some key \<Longrightarrow>
    user_key key = ExtractUserKey k \<and> sequence key = key_seq k \<and> (is_value k \<longleftrightarrow> type key = kTypeValue)"
  by (auto simp: ParseInternalKey_def ExtractUserKey_def key_seq_def is_value_def Let_def split: if_splits option.splits)

context user_key_comparator
begin

lemma drop_entry_survives:
  assumes k: "proper_key uvalid k" and prev: "\<forall>p. prev = Some p \<longrightarrow> proper_key uvalid p"
    and ok: "\<forall>lvl. cp_level (dr_compaction st) + 2 \<le> lvl \<longrightarrow> lvl < kNumLevels \<longrightarrow> level_ok ucmp uvalid h (v_files v ! lvl)"
    and ptrs: "ptrs_ok ucmp h v (dr_compaction st) (ExtractUserKey k)"
    and inv: "drop_inv st prev" and s: "s < kMaxSequenceNumber"
  shows "\<exists>st' ptrs. drop_entry ucmp h v s k st = (\<not> survives (base_level ucmp h v (cp_level (dr_compaction st))) s prev k, st')
    \<and> drop_inv st' (Some k) \<and> dr_compaction st' = (dr_compaction st)\<lparr>cp_level_ptrs := ptrs\<rparr>
    \<and> ptrs_ok ucmp h v (dr_compaction st') (ExtractUserKey k)"
proof -
  let ?u = "ExtractUserKey k" and ?c = "dr_compaction st"
  let ?base = "base_level ucmp h v (cp_level ?c)"
  obtain key where key: "ParseInternalKey k = Some key" using k by (auto simp: proper_key_def)
  note parts = Parse_parts [OF key]
  have u: "uvalid ?u" using k by (simp add: proper_key_def)
  define st1 where "st1 = (if (case dr_user_key st of None \<Rightarrow> True | Some u \<Rightarrow> ucmp ?u u \<noteq> 0)
    then st\<lparr>dr_user_key := Some ?u, dr_last_sequence := kMaxSequenceNumber\<rparr> else st)"
  have st1: "dr_user_key st1 = Some ?u" "dr_compaction st1 = ?c" "dr_last_sequence st1 \<le> s \<longleftrightarrow> hidden s prev k"
  proof -
    show "dr_compaction st1 = ?c" by (simp add: st1_def)
    show "dr_user_key st1 = Some ?u" "dr_last_sequence st1 \<le> s \<longleftrightarrow> hidden s prev k"
    proof (atomize (full), cases prev)
      case None
      with inv s show "dr_user_key st1 = Some ?u \<and> (dr_last_sequence st1 \<le> s \<longleftrightarrow> hidden s prev k)"
        by (simp add: drop_inv_def hidden_def st1_def not_le)
    next
      case (Some p)
      have up: "uvalid (ExtractUserKey p)" using prev Some by (simp add: proper_key_def)
      have "ucmp ?u (ExtractUserKey p) = 0 \<longleftrightarrow> ExtractUserKey p = ?u"
        using user.cmp_eq [OF u up] user.cmp_refl [OF u] by metis
      with Some inv s show "dr_user_key st1 = Some ?u \<and> (dr_last_sequence st1 \<le> s \<longleftrightarrow> hidden s prev k)"
        by (simp add: drop_inv_def hidden_def st1_def not_le)
    qed
  qed
  obtain r c where rc: "IsBaseLevelForKey ucmp h v ?c ?u = (r, c)" by (rule prod.exhaust)
  have base: "r \<longleftrightarrow> ?base ?u" "c = ?c\<lparr>cp_level_ptrs := cp_level_ptrs c\<rparr>" "ptrs_ok ucmp h v c ?u"
    using IsBaseLevelForKey_spec [OF ok ptrs u] unfolding rc base_level_def by simp_all
  have same: "?c = ?c\<lparr>cp_level_ptrs := cp_level_ptrs ?c\<rparr>" by simp
  let ?ask = "\<not> hidden s prev k \<and> \<not> is_value k \<and> key_seq k \<le> s"
  let ?c' = "if ?ask then c else ?c"
  have eq: "drop_entry ucmp h v s k st =
     (case if dr_last_sequence st1 \<le> s then (True, dr_compaction st1)
           else if type key = kTypeDeletion \<and> sequence key \<le> s then IsBaseLevelForKey ucmp h v (dr_compaction st1) (user_key key)
           else (False, dr_compaction st1) of
        (hide, c) \<Rightarrow> (hide, st1\<lparr>dr_compaction := c, dr_last_sequence := sequence key\<rparr>))"
    by (simp only: drop_entry_def key option.case Let_def st1_def parts)
  have "type key = kTypeDeletion \<longleftrightarrow> \<not> is_value k" using parts by (cases "type key") simp_all
  then have "drop_entry ucmp h v s k st =
      (\<not> survives ?base s prev k, st1\<lparr>dr_compaction := ?c', dr_last_sequence := key_seq k\<rparr>)"
    unfolding eq using parts st1 base(1) rc by (simp add: survives_def obsolete_def)
  moreover have "drop_inv (st1\<lparr>dr_compaction := ?c', dr_last_sequence := key_seq k\<rparr>) (Some k)"
    using st1(1) by (simp add: drop_inv_def)
  moreover have "?c' = ?c\<lparr>cp_level_ptrs := cp_level_ptrs ?c'\<rparr>" using base(2) by simp
  moreover have "ptrs_ok ucmp h v ?c' ?u" using base(3) ptrs by simp
  ultimately show ?thesis
    by (intro exI [of _ "st1\<lparr>dr_compaction := ?c', dr_last_sequence := key_seq k\<rparr>"] exI [of _ "cp_level_ptrs ?c'"]) simp
qed

end

end
