(* ===== verification/CompactionWork.thy ===== *)
theory CompactionWork imports Dropping TableProps Filename begin

text \<open>
  \<^verbatim>\<open>db/db_impl.cc\<close>: \<open>DoCompactionWork\<close> with \<open>CompactionState\<close> and the functions that open, finish and install its
  output files. It reads the merged inputs, leaves out the entries that no reader can see any more, and writes the others to
  new tables. What it calls of the rest of the database and of the environment is a record of operations on a state \<open>'w\<close>.
  An output file is a value \<open>'f\<close> while it is written; \<open>close\<close> makes it part of the state.
\<close>

section \<open>The state\<close>

record compaction_output =
  out_number :: uint64
  out_file_size :: uint64
  out_smallest :: bytes
  out_largest :: bytes

text \<open>The file that is written is part of the builder.\<close>

record 'f compaction_state =
  cs_compaction :: compaction
  cs_smallest_snapshot :: uint64
  cs_outputs :: "compaction_output list"
  cs_builder :: "'f table_builder option"
  cs_total_bytes :: uint64

definition CompactionState_init :: "compaction \<Rightarrow> uint64 \<Rightarrow> 'f compaction_state" where
  "CompactionState_init c smallest_snapshot =
     \<lparr>cs_compaction = c, cs_smallest_snapshot = smallest_snapshot, cs_outputs = [], cs_builder = None, cs_total_bytes = 0\<rparr>"

definition map_current_output :: "(compaction_output \<Rightarrow> compaction_output) \<Rightarrow> 'f compaction_state \<Rightarrow> 'f compaction_state" where
  "map_current_output g cs = cs\<lparr>cs_outputs := butlast (cs_outputs cs) @ [g (last (cs_outputs cs))]\<rparr>"

record compaction_stats =
  st_micros :: uint64
  st_bytes_read :: uint64
  st_bytes_written :: uint64

definition CompactionStats_Add :: "compaction_stats \<Rightarrow> compaction_stats \<Rightarrow> compaction_stats" where
  "CompactionStats_Add s c = \<lparr>st_micros = st_micros s + st_micros c, st_bytes_read = st_bytes_read s + st_bytes_read c,
     st_bytes_written = st_bytes_written s + st_bytes_written c\<rparr>"

text \<open>
  The operations. \<open>we_compact_imm\<close> is what is done under the mutex for an immutable memtable; \<open>we_table_status\<close> is the
  status of an iterator that the table cache opens on the file with a number and a size.
\<close>

record ('w, 'f) work_env =
  we_dbname :: string
  we_options :: options
  we_compress :: "bytes \<Rightarrow> bytes option"
  we_shutting_down :: "'w \<Rightarrow> bool"
  we_has_imm :: "'w \<Rightarrow> bool"
  we_compact_imm :: "'w \<Rightarrow> 'w"
  we_NowMicros :: "'w \<Rightarrow> uint64 \<times> 'w"
  we_NewFileNumber :: "'w \<Rightarrow> uint64 \<times> 'w"
  we_pending_insert :: "uint64 \<Rightarrow> 'w \<Rightarrow> 'w"
  we_pending_erase :: "uint64 \<Rightarrow> 'w \<Rightarrow> 'w"
  we_NewWritableFile :: "string \<Rightarrow> 'w \<Rightarrow> (status \<times> 'f) \<times> 'w"
  we_Append :: "'f \<Rightarrow> bytes \<Rightarrow> status \<times> 'f"
  we_Flush :: "'f \<Rightarrow> status \<times> 'f"
  we_Sync :: "'f \<Rightarrow> status \<times> 'f"
  we_Close :: "'f \<Rightarrow> 'w \<Rightarrow> status \<times> 'w"
  we_table_status :: "uint64 \<Rightarrow> uint64 \<Rightarrow> 'w \<Rightarrow> status \<times> 'w"
  we_add_stats :: "nat \<Rightarrow> compaction_stats \<Rightarrow> 'w \<Rightarrow> 'w"
  we_LogAndApply :: "version_edit \<Rightarrow> 'w \<Rightarrow> status \<times> 'w"
  we_RecordBackgroundError :: "status \<Rightarrow> 'w \<Rightarrow> 'w"

section \<open>Output files\<close>

definition OpenCompactionOutputFile ::
  "('w, 'f) work_env \<Rightarrow> 'w \<Rightarrow> 'f compaction_state \<Rightarrow> status \<times> 'w \<times> 'f compaction_state" where
  "OpenCompactionOutputFile env w cs =
     (let (file_number, w) = we_NewFileNumber env w;
          w = we_pending_insert env file_number w;
          out = \<lparr>out_number = file_number, out_file_size = 0, out_smallest = [], out_largest = []\<rparr>;
          cs = cs\<lparr>cs_outputs := cs_outputs cs @ [out]\<rparr>;
          ((s, f), w) = we_NewWritableFile env (TableFileName (we_dbname env) file_number) w
      in (s, w, if ok s then cs\<lparr>cs_builder := Some (TableBuilder_make (we_options env) f)\<rparr> else cs))"

definition FinishCompactionOutputFile ::
  "('w, 'f) work_env \<Rightarrow> status \<Rightarrow> 'w \<Rightarrow> 'f compaction_state \<Rightarrow> status \<times> 'w \<times> 'f compaction_state" where
  "FinishCompactionOutputFile env input_status w cs =
     (let r = the (cs_builder cs);
          output_number = out_number (last (cs_outputs cs));
          current_entries = NumEntries r;
          (s, r) = (if ok input_status then TableBuilder_Finish (we_Append env) (we_Flush env) (we_compress env) r
                    else (input_status, TableBuilder_Abandon r));
          current_bytes = FileSize r;
          cs = (map_current_output (\<lambda>o'. o'\<lparr>out_file_size := current_bytes\<rparr>) cs)
                 \<lparr>cs_total_bytes := cs_total_bytes cs + current_bytes, cs_builder := None\<rparr>;
          (s, f) = (if ok s then we_Sync env (tb_file r) else (s, tb_file r));
          (s, w) = (if ok s then we_Close env f w else (s, w));
          (s, w) = (if ok s \<and> current_entries > 0 then we_table_status env output_number current_bytes w else (s, w))
      in (s, w, cs))"

definition InstallCompactionResults ::
  "('w, 'f) work_env \<Rightarrow> file_store \<Rightarrow> 'w \<Rightarrow> 'f compaction_state \<Rightarrow> status \<times> 'w \<times> 'f compaction_state" where
  "InstallCompactionResults env h w cs =
     (let c = cs_compaction cs;
          edit = AddInputDeletions h c (cp_edit c);
          edit = foldl (\<lambda>edit out. AddFile edit (cp_level c + 1) (out_number out) (out_file_size out) (out_smallest out) (out_largest out))
                   edit (cs_outputs cs);
          (s, w) = we_LogAndApply env edit w
      in (s, w, cs\<lparr>cs_compaction := c\<lparr>cp_edit := edit\<rparr>\<rparr>))"

text \<open>Without the objects that are deleted, \<open>CleanupCompaction\<close> forgets the numbers of the outputs.\<close>

definition CleanupCompaction :: "('w, 'f) work_env \<Rightarrow> 'w \<Rightarrow> 'f compaction_state \<Rightarrow> 'w" where
  "CleanupCompaction env w cs = foldl (\<lambda>w out. we_pending_erase env (out_number out) w) w (cs_outputs cs)"

section \<open>The loop\<close>

record ('s, 'w, 'f) work_state =
  wk_input :: 's
  wk_world :: 'w
  wk_cs :: "'f compaction_state"
  wk_drop :: drop_state
  wk_status :: status
  wk_broken :: bool
  wk_imm_micros :: uint64

text \<open>The compaction is kept once, in \<open>wk_drop\<close>, while the loop runs.\<close>

definition prioritize_imm :: "('w, 'f) work_env \<Rightarrow> ('s, 'w, 'f) work_state \<Rightarrow> ('s, 'w, 'f) work_state" where
  "prioritize_imm env st =
     (if we_has_imm env (wk_world st)
      then let (imm_start, w) = we_NowMicros env (wk_world st);
               w = we_compact_imm env w;
               (imm_end, w) = we_NowMicros env w
           in st\<lparr>wk_world := w, wk_imm_micros := wk_imm_micros st + (imm_end - imm_start)\<rparr>
      else st)"

text \<open>A call that finishes or opens a file; an error ends the loop.\<close>

definition wk_call ::
  "('w \<Rightarrow> 'f compaction_state \<Rightarrow> status \<times> 'w \<times> 'f compaction_state) \<Rightarrow> ('s, 'w, 'f) work_state \<Rightarrow> ('s, 'w, 'f) work_state" where
  "wk_call g st =
     (case g (wk_world st) (wk_cs st) of
        (s, w, cs) \<Rightarrow> st\<lparr>wk_status := s, wk_world := w, wk_cs := cs, wk_broken := \<not> ok s\<rparr>)"

definition stop_before ::
  "('w, 'f) work_env \<Rightarrow> (bytes \<Rightarrow> bytes \<Rightarrow> int) \<Rightarrow> file_store \<Rightarrow> 's iter_ops \<Rightarrow> ('s, 'w, 'f) work_state \<Rightarrow> ('s, 'w, 'f) work_state" where
  "stop_before env ucmp h iops st =
     (let (stop, c) = ShouldStopBefore (InternalKey_Compare ucmp) h (dr_compaction (wk_drop st)) (op_key iops (wk_input st));
          st = st\<lparr>wk_drop := (wk_drop st)\<lparr>dr_compaction := c\<rparr>\<rparr>
      in if stop \<and> cs_builder (wk_cs st) \<noteq> None
         then wk_call (FinishCompactionOutputFile env (op_status iops (wk_input st))) st else st)"

definition add_entry :: "('w, 'f) work_env \<Rightarrow> bytes \<Rightarrow> bytes \<Rightarrow> 'f compaction_state \<Rightarrow> 'f compaction_state" where
  "add_entry env key val cs =
     (let r = the (cs_builder cs);
          cs = (if NumEntries r = 0 then map_current_output (\<lambda>o'. o'\<lparr>out_smallest := key\<rparr>) cs else cs);
          cs = map_current_output (\<lambda>o'. o'\<lparr>out_largest := key\<rparr>) cs
      in cs\<lparr>cs_builder := Some (TableBuilder_Add (we_Append env) (we_Flush env) (we_compress env) r key val)\<rparr>)"

definition keep_entry :: "('w, 'f) work_env \<Rightarrow> 's iter_ops \<Rightarrow> ('s, 'w, 'f) work_state \<Rightarrow> ('s, 'w, 'f) work_state" where
  "keep_entry env iops st =
     (let st = (if cs_builder (wk_cs st) = None then wk_call (OpenCompactionOutputFile env) st else st)
      in if wk_broken st then st
         else let st = st\<lparr>wk_cs := add_entry env (op_key iops (wk_input st)) (op_value iops (wk_input st)) (wk_cs st)\<rparr>
              in if FileSize (the (cs_builder (wk_cs st))) \<ge> cp_max_output_file_size (dr_compaction (wk_drop st))
                 then wk_call (FinishCompactionOutputFile env (op_status iops (wk_input st))) st else st)"

definition work_round ::
  "('w, 'f) work_env \<Rightarrow> (bytes \<Rightarrow> bytes \<Rightarrow> int) \<Rightarrow> file_store \<Rightarrow> db_version \<Rightarrow> 's iter_ops
    \<Rightarrow> ('s, 'w, 'f) work_state \<Rightarrow> ('s, 'w, 'f) work_state option" where
  "work_round env ucmp h v iops st =
     (let st = stop_before env ucmp h iops (prioritize_imm env st) in
      if wk_broken st then Some st
      else let (hide, dr) = drop_entry ucmp h v (cs_smallest_snapshot (wk_cs st)) (op_key iops (wk_input st)) (wk_drop st);
               st = st\<lparr>wk_drop := dr\<rparr>;
               st = (if hide then st else keep_entry env iops st)
           in if wk_broken st then Some st
              else do { it \<leftarrow> op_Next iops (wk_input st); Some (st\<lparr>wk_input := it\<rparr>) })"

definition work_goes_on :: "('w, 'f) work_env \<Rightarrow> 's iter_ops \<Rightarrow> ('s, 'w, 'f) work_state \<Rightarrow> bool" where
  "work_goes_on env iops st \<longleftrightarrow>
     \<not> wk_broken st \<and> op_Valid iops (wk_input st) \<and> \<not> we_shutting_down env (wk_world st)"

partial_function (option) loop_while :: "('a \<Rightarrow> bool) \<Rightarrow> ('a \<Rightarrow> 'a option) \<Rightarrow> 'a \<Rightarrow> 'a option" where
  "loop_while b body x = (if b x then do { y \<leftarrow> body x; loop_while b body y } else Some x)"

text \<open>After the loop.\<close>

definition work_end ::
  "('w, 'f) work_env \<Rightarrow> 's iter_ops \<Rightarrow> ('s, 'w, 'f) work_state \<Rightarrow> ('s, 'w, 'f) work_state" where
  "work_end env iops st =
     (let st = (if ok (wk_status st) \<and> we_shutting_down env (wk_world st)
                then st\<lparr>wk_status := IOError ''Deleting DB during compaction'' []\<rparr> else st);
          st = (if ok (wk_status st) \<and> cs_builder (wk_cs st) \<noteq> None
                then wk_call (FinishCompactionOutputFile env (op_status iops (wk_input st))) st else st)
      in if ok (wk_status st) then st\<lparr>wk_status := op_status iops (wk_input st)\<rparr> else st)"

definition work_stats :: "file_store \<Rightarrow> uint64 \<Rightarrow> 'f compaction_state \<Rightarrow> compaction_stats" where
  "work_stats h micros cs =
     \<lparr>st_micros = micros,
      st_bytes_read = sum_list (map (fm_file_size \<circ> h) (concat (cp_inputs (cs_compaction cs)))),
      st_bytes_written = sum_list (map out_file_size (cs_outputs cs))\<rparr>"

text \<open>
  \<open>snapshots\<close> are the sequence numbers of the snapshots, the oldest first; \<open>it\<close> is the result of
  \<open>MakeInputIterator\<close>, and \<open>v\<close> the input version of the compaction.
\<close>

definition DoCompactionWork ::
  "('w, 'f) work_env \<Rightarrow> (bytes \<Rightarrow> bytes \<Rightarrow> int) \<Rightarrow> file_store \<Rightarrow> db_version \<Rightarrow> 's iter_ops \<Rightarrow> 's \<Rightarrow> uint64 list \<Rightarrow> uint64
    \<Rightarrow> 'w \<Rightarrow> compaction \<Rightarrow> (status \<times> 'w \<times> 'f compaction_state) option" where
  "DoCompactionWork env ucmp h v iops it snapshots last_sequence w c =
     (let (start_micros, w) = we_NowMicros env w;
          smallest_snapshot = (if snapshots = [] then last_sequence else hd snapshots)
      in do { it \<leftarrow> op_SeekToFirst iops it;
              st \<leftarrow> loop_while (work_goes_on env iops) (work_round env ucmp h v iops)
                \<lparr>wk_input = it, wk_world = w, wk_cs = CompactionState_init c smallest_snapshot,
                 wk_drop = \<lparr>dr_user_key = None, dr_last_sequence = kMaxSequenceNumber, dr_compaction = c\<rparr>,
                 wk_status = OK, wk_broken = False, wk_imm_micros = 0\<rparr>;
              let st = work_end env iops st;
                  (end_micros, w) = we_NowMicros env (wk_world st);
                  cs = (wk_cs st)\<lparr>cs_compaction := dr_compaction (wk_drop st)\<rparr>;
                  w = we_add_stats env (cp_level c + 1) (work_stats h (end_micros - start_micros - wk_imm_micros st) cs) w;
                  (s, w, cs) = (if ok (wk_status st) then InstallCompactionResults env h w cs else (wk_status st, w, cs));
                  w = (if ok s then w else we_RecordBackgroundError env s w)
              in Some (s, w, cs) })"

section \<open>The contract of the environment\<close>

text \<open>
  What a compaction needs: no shutdown, file operations that succeed, tables that the table cache can open, and numbers
  of files that are not in use; \<open>w_ok m w\<close> says that \<open>m\<close> more numbers can be given out. \<open>good n f\<close> says that \<open>f\<close> is written to the file with number \<open>n\<close>; \<open>files w\<close> are the
  numbers that were given out, and the contents of the files that were closed. Work on the immutable memtable may add files.
\<close>

datatype file_slot = Issued | Closed bytes

definition built :: "('w, 'f) work_env \<Rightarrow> ('f \<Rightarrow> bytes) \<Rightarrow> (uint64 \<Rightarrow> 'f \<Rightarrow> bool) \<Rightarrow> uint64 \<Rightarrow> bytes \<Rightarrow> (bytes \<times> bytes) list \<Rightarrow> bool" where
  "built env contents good n C es \<longleftrightarrow>
     (\<exists>f r. good n f \<and> contents f = [] \<and> contents (tb_file r) = C
        \<and> TableBuilder_Finish (we_Append env) (we_Flush env) (we_compress env)
            (tb_add_all (we_Append env) (we_Flush env) (we_compress env) (TableBuilder_make (we_options env) f) es) = (OK, r))"

locale compaction_env = user_key_comparator ucmp uvalid usep usucc
  for ucmp :: "bytes \<Rightarrow> bytes \<Rightarrow> int" and uvalid usep usucc +
  fixes env :: "('w, 'f) work_env"
    and contents :: "'f \<Rightarrow> bytes"
    and good :: "uint64 \<Rightarrow> 'f \<Rightarrow> bool"
    and files :: "'w \<Rightarrow> uint64 \<Rightarrow> file_slot option"
    and w_ok :: "nat \<Rightarrow> 'w \<Rightarrow> bool"
    and snappy_length :: "bytes \<Rightarrow> nat option"
    and snappy_uncompress :: "bytes \<Rightarrow> nat \<Rightarrow> bytes option"
  assumes order: "o_compare (we_options env) = InternalKey_Compare ucmp"
    and writer: "table_writer (we_Append env) (we_Flush env) contents (good n) (we_options env) (internal_valid uvalid)
      (we_compress env) snappy_length snappy_uncompress"
    and fewer: "w_ok (Suc m) w \<Longrightarrow> w_ok m w"
    and no_shutdown: "w_ok m w \<Longrightarrow> \<not> we_shutting_down env w"
    and now: "w_ok m w \<Longrightarrow> we_NowMicros env w = (t, w') \<Longrightarrow> w_ok m w' \<and> files w' = files w"
    and compact_imm: "w_ok (Suc m) w \<Longrightarrow> w_ok m (we_compact_imm env w) \<and> (files w n = Some slot \<longrightarrow> files (we_compact_imm env w) n = Some slot)"
    and new_number: "w_ok (Suc m) w \<Longrightarrow> we_NewFileNumber env w = (n, w') \<Longrightarrow> w_ok m w' \<and> files w n = None \<and> files w' = (files w)(n \<mapsto> Issued)"
    and pending: "w_ok m w \<Longrightarrow> w_ok m (we_pending_insert env n w) \<and> files (we_pending_insert env n w) = files w"
    and new_file: "w_ok m w \<Longrightarrow> we_NewWritableFile env (TableFileName (we_dbname env) n) w = ((s, f), w') \<Longrightarrow>
      s = OK \<and> good n f \<and> contents f = [] \<and> w_ok m w' \<and> files w' = files w"
    and sync: "good n f \<Longrightarrow> we_Sync env f = (s, f') \<Longrightarrow> s = OK \<and> good n f' \<and> contents f' = contents f"
    and close: "w_ok m w \<Longrightarrow> good n f \<Longrightarrow> files w n \<noteq> None \<Longrightarrow> we_Close env f w = (s, w') \<Longrightarrow>
      s = OK \<and> w_ok m w' \<and> files w' = (files w)(n \<mapsto> Closed (contents f))"
    and stats: "w_ok m w \<Longrightarrow> w_ok m (we_add_stats env lvl st w) \<and> files (we_add_stats env lvl st w) = files w"
    and table_status: "w_ok m w \<Longrightarrow> files w n = Some (Closed C) \<Longrightarrow> built env contents good n C es \<Longrightarrow> entries_size es < 2 ^ 31 \<Longrightarrow>
      we_table_status env n (of_nat (length C)) w = (s, w') \<Longrightarrow> s = OK \<and> w_ok m w' \<and> files w' = files w"
begin

abbreviation "run_builder \<equiv> tb_add_all (we_Append env) (we_Flush env) (we_compress env)"

definition finished :: "'w \<Rightarrow> compaction_output \<Rightarrow> (bytes \<times> bytes) list \<Rightarrow> bool" where
  "finished w o' es \<longleftrightarrow> es \<noteq> [] \<and> out_smallest o' = fst (hd es) \<and> out_largest o' = fst (last es)
     \<and> (\<exists>C. files w (out_number o') = Some (Closed C) \<and> built env contents good (out_number o') C es \<and> out_file_size o' = of_nat (length C))"

definition closed_outputs :: "'f compaction_state \<Rightarrow> compaction_output list" where
  "closed_outputs cs = (if cs_builder cs = None then cs_outputs cs else butlast (cs_outputs cs))"

definition building :: "'w \<Rightarrow> 'f compaction_state \<Rightarrow> (bytes \<times> bytes) list \<Rightarrow> bool" where
  "building w cs cur \<longleftrightarrow>
     (case cs_builder cs of
        None \<Rightarrow> cur = []
      | Some r \<Rightarrow> cs_outputs cs \<noteq> [] \<and> files w (out_number (last (cs_outputs cs))) = Some Issued
          \<and> (\<exists>f. good (out_number (last (cs_outputs cs))) f \<and> contents f = []
            \<and> r = run_builder (TableBuilder_make (we_options env) f) cur)
          \<and> (cur \<noteq> [] \<longrightarrow> out_smallest (last (cs_outputs cs)) = fst (hd cur) \<and> out_largest (last (cs_outputs cs)) = fst (last cur)))"

text \<open>The entries \<open>es\<close> were written: each finished output holds some of them, the current one the last ones.\<close>

definition out_inv :: "'w \<Rightarrow> 'f compaction_state \<Rightarrow> (bytes \<times> bytes) list \<Rightarrow> (bytes \<times> bytes) list \<Rightarrow> bool" where
  "out_inv w cs es cur \<longleftrightarrow> building w cs cur \<and> distinct (map out_number (cs_outputs cs))
     \<and> (\<exists>gs. es = concat gs @ cur \<and> list_all2 (finished w) (closed_outputs cs) gs)"

lemma finished_mono:
  "finished w o' es \<Longrightarrow> (\<And>n slot. files w n = Some slot \<Longrightarrow> n = out_number o' \<Longrightarrow> files w' n = Some slot) \<Longrightarrow> finished w' o' es"
  unfolding finished_def by blast

lemma out_inv_mono:
  assumes "out_inv w cs es cur" "\<And>n slot. files w n = Some slot \<Longrightarrow> files w' n = Some slot"
  shows "out_inv w' cs es cur"
proof -
  have "building w' cs cur" using assms by (auto simp: out_inv_def building_def split: option.splits)
  then show ?thesis using assms(1) list_all2_mono [of "finished w" _ _ "finished w'"] finished_mono [OF _ assms(2)]
    unfolding out_inv_def by blast
qed

lemma finished_numbers:
  assumes "list_all2 (finished w) os gs" "o' \<in> set os"
  shows "files w (out_number o') \<noteq> None"
proof -
  obtain i where "i < length os" "os ! i = o'" using assms(2) by (auto simp: in_set_conv_nth)
  then have "finished w o' (gs ! i)" using assms(1) by (auto simp: list_all2_conv_all_nth)
  then show ?thesis by (auto simp: finished_def)
qed

lemma Open_ok:
  assumes w: "w_ok (Suc m) w" and inv: "out_inv w cs es []" and none: "cs_builder cs = None"
  shows "\<exists>w' cs'. OpenCompactionOutputFile env w cs = (OK, w', cs') \<and> w_ok m w' \<and> out_inv w' cs' es [] \<and> cs_builder cs' \<noteq> None
    \<and> cs_smallest_snapshot cs' = cs_smallest_snapshot cs"
proof -
  obtain n w1 where 1: "we_NewFileNumber env w = (n, w1)" by (rule prod.exhaust)
  note n = new_number [OF w 1]
  define w2 where "w2 = we_pending_insert env n w1"
  have w2: "w_ok m w2" "files w2 = (files w)(n \<mapsto> Issued)" using pending [of m w1 n] n by (simp_all add: w2_def)
  obtain s f w3 where 3: "we_NewWritableFile env (TableFileName (we_dbname env) n) w2 = ((s, f), w3)" by (metis prod.exhaust)
  note f = new_file [OF w2(1) 3]
  define out where "out = \<lparr>out_number = n, out_file_size = 0, out_smallest = [], out_largest = []\<rparr>"
  define cs' where "cs' = cs\<lparr>cs_outputs := cs_outputs cs @ [out], cs_builder := Some (TableBuilder_make (we_options env) f)\<rparr>"
  have eq: "OpenCompactionOutputFile env w cs = (OK, w3, cs')"
    using 3 f by (simp add: OpenCompactionOutputFile_def 1 w2_def [symmetric] cs'_def out_def ok_def)
  obtain gs where gs: "es = concat gs" "list_all2 (finished w) (cs_outputs cs) gs" "distinct (map out_number (cs_outputs cs))"
    using inv none by (auto simp: out_inv_def closed_outputs_def)
  have same: "files w3 = (files w)(n \<mapsto> Issued)" using f w2 by simp
  have "list_all2 (finished w3) (cs_outputs cs) gs" 
    by (rule list_all2_mono [OF gs(2)], erule finished_mono) (use n same in auto)
  moreover have "n \<notin> out_number ` set (cs_outputs cs)" using finished_numbers [OF gs(2)] n by fastforce
  moreover have "building w3 cs' []"
    unfolding building_def by (simp add: cs'_def out_def tb_add_all_def same) (use f in blast)
  ultimately have "out_inv w3 cs' es []"
    using gs by (auto simp: out_inv_def closed_outputs_def cs'_def out_def)
  with eq f show ?thesis by (auto simp: cs'_def)
qed

lemma Flush_entries: "tb_num_entries (TableBuilder_Flush fa ff sc r) = tb_num_entries r"
  by (simp add: TableBuilder_Flush_def WriteBlock_def WriteRawBlock_def Let_def split: prod.splits)

lemma Add_entries: "tb_status r = OK \<Longrightarrow> tb_num_entries (TableBuilder_Add fa ff sc r k x) = Suc (tb_num_entries r)"
  by (simp add: TableBuilder_Add_def Let_def tb_ok_def ok_def Flush_entries add_index_entry_def)

lemma run_builder_inv:
  assumes "good n f" "contents f = []" "cmp_sorted icmp es" "\<forall>(k, x) \<in> set es. internal_valid uvalid k"
  shows "\<exists>seps bs cur. table_writer.tb_inv contents (good n) (we_options env) (internal_valid uvalid) snappy_length snappy_uncompress
      (run_builder (TableBuilder_make (we_options env) f) es) seps bs cur \<and> table_writer.all_entries bs cur = es"
  using table_writer.tb_add_all_inv [OF writer assms(1,2)] assms(3,4) order by simp

lemma run_builder_entries:
  assumes "good n f" "contents f = []" "cmp_sorted icmp es" "\<forall>(k, x) \<in> set es. internal_valid uvalid k"
  shows "NumEntries (run_builder (TableBuilder_make (we_options env) f) es) = length es"
  using assms(3,4)
proof (induction es rule: rev_induct)
  case Nil
  then show ?case by (simp add: tb_add_all_def NumEntries_def TableBuilder_make_def)
next
  case (snoc kx es)
  obtain k x where kx: "kx = (k, x)" by (rule prod.exhaust)
  have es: "cmp_sorted icmp es" "\<forall>(k, x) \<in> set es. internal_valid uvalid k"
    using snoc.prems by (simp_all add: cmp_sorted_def sorted_wrt_append)
  let ?r = "run_builder (TableBuilder_make (we_options env) f) es"
  have "tb_status ?r = OK"
    using run_builder_inv [OF assms(1,2) es] table_writer.tb_inv_def [OF writer] table_writer.tb_base_def [OF writer] by auto
  from Add_entries [OF this] snoc.IH [OF es] show ?case by (simp add: kx tb_add_all_def NumEntries_def)
qed

lemma run_builder_finish:
  assumes "good n f" "contents f = []" "cmp_sorted icmp es" "\<forall>(k, x) \<in> set es. internal_valid uvalid k"
  shows "\<exists>r'. TableBuilder_Finish (we_Append env) (we_Flush env) (we_compress env) (run_builder (TableBuilder_make (we_options env) f) es) = (OK, r')
    \<and> good n (tb_file r') \<and> FileSize r' = of_nat (length (contents (tb_file r'))) \<and> built env contents good n (contents (tb_file r')) es"
proof -
  obtain seps bs cur where "table_writer.tb_inv contents (good n) (we_options env) (internal_valid uvalid) snappy_length snappy_uncompress
      (run_builder (TableBuilder_make (we_options env) f) es) seps bs cur"
    using run_builder_inv [OF assms] by blast
  from table_writer.TableBuilder_Finish_ok [OF writer this] assms(1,2) show ?thesis
    unfolding built_def FileSize_def by blast
qed

lemma add_entry_ok:
  assumes inv: "out_inv w cs es cur" and b: "cs_builder cs \<noteq> None"
    and sorted: "cmp_sorted icmp (es @ [(k, x)])" "\<forall>(k, x) \<in> set es. internal_valid uvalid k"
  shows "out_inv w (add_entry env k x cs) (es @ [(k, x)]) (cur @ [(k, x)]) \<and> cs_builder (add_entry env k x cs) \<noteq> None
    \<and> cs_smallest_snapshot (add_entry env k x cs) = cs_smallest_snapshot cs"
proof -
  obtain r os o' where r: "cs_builder cs = Some r" "cs_outputs cs = os @ [o']"
    using inv b by (cases "cs_outputs cs" rule: rev_cases) (auto simp: out_inv_def building_def)
  obtain f where f: "good (out_number o') f" "contents f = []" "r = run_builder (TableBuilder_make (we_options env) f) cur"
    and issued: "files w (out_number o') = Some Issued"
    and lim: "cur \<noteq> [] \<Longrightarrow> out_smallest o' = fst (hd cur) \<and> out_largest o' = fst (last cur)"
    using inv r by (auto simp: out_inv_def building_def)
  obtain gs where gs: "es = concat gs @ cur" "list_all2 (finished w) os gs" "distinct (map out_number (os @ [o']))"
    using inv r by (auto simp: out_inv_def closed_outputs_def)
  have "cmp_sorted icmp cur" "\<forall>(k, x) \<in> set cur. internal_valid uvalid k"
    using sorted by (simp_all add: gs(1) cmp_sorted_def sorted_wrt_append)
  from run_builder_entries [OF f(1,2) this] have n: "NumEntries r = length cur" by (simp add: f(3))
  define o1 where "o1 = (if cur = [] then o'\<lparr>out_smallest := k\<rparr> else o')\<lparr>out_largest := k\<rparr>"
  have eq: "add_entry env k x cs = cs\<lparr>cs_outputs := os @ [o1],
      cs_builder := Some (TableBuilder_Add (we_Append env) (we_Flush env) (we_compress env) r k x)\<rparr>"
    using r n by (simp add: add_entry_def map_current_output_def o1_def Let_def)
  have num: "out_number o1 = out_number o'" by (simp add: o1_def)
  have run: "TableBuilder_Add (we_Append env) (we_Flush env) (we_compress env) r k x = run_builder (TableBuilder_make (we_options env) f) (cur @ [(k, x)])"
    by (simp add: f(3) tb_add_all_def)
  have "building w (add_entry env k x cs) (cur @ [(k, x)])"
    unfolding building_def eq run using f(1,2) lim issued by (auto simp: num o1_def)
  moreover have "list_all2 (finished w) (closed_outputs (add_entry env k x cs)) gs"
    using gs(2) by (simp add: closed_outputs_def eq)
  ultimately show ?thesis using gs(1,3) num unfolding out_inv_def by (auto simp: eq)
qed

lemma Finish_ok:
  assumes w: "w_ok m w" and inv: "out_inv w cs es cur" and b: "cs_builder cs \<noteq> None" "cur \<noteq> []"
    and sorted: "cmp_sorted icmp es" "\<forall>(k, x) \<in> set es. internal_valid uvalid k" and size: "entries_size es < 2 ^ 31"
  shows "\<exists>w' cs'. FinishCompactionOutputFile env OK w cs = (OK, w', cs') \<and> w_ok m w' \<and> out_inv w' cs' es [] \<and> cs_builder cs' = None
    \<and> cs_smallest_snapshot cs' = cs_smallest_snapshot cs"
proof -
  obtain r os o' where r: "cs_builder cs = Some r" "cs_outputs cs = os @ [o']"
    using inv b by (cases "cs_outputs cs" rule: rev_cases) (auto simp: out_inv_def building_def)
  let ?n = "out_number o'"
  obtain f where f: "good ?n f" "contents f = []" "r = run_builder (TableBuilder_make (we_options env) f) cur"
    and issued: "files w (out_number o') = Some Issued"
    and lim: "out_smallest o' = fst (hd cur) \<and> out_largest o' = fst (last cur)"
    using inv r b(2) by (auto simp: out_inv_def building_def)
  obtain gs where gs: "es = concat gs @ cur" "list_all2 (finished w) os gs" "distinct (map out_number (os @ [o']))"
    using inv r by (auto simp: out_inv_def closed_outputs_def)
  have cur: "cmp_sorted icmp cur" "\<forall>(k, x) \<in> set cur. internal_valid uvalid k"
    using sorted by (simp_all add: gs(1) cmp_sorted_def sorted_wrt_append)
  have n: "NumEntries r = length cur" using run_builder_entries [OF f(1,2) cur] by (simp add: f(3))
  obtain r1 where r1: "TableBuilder_Finish (we_Append env) (we_Flush env) (we_compress env) r = (OK, r1)" "good ?n (tb_file r1)"
    "FileSize r1 = of_nat (length (contents (tb_file r1)))" "built env contents good ?n (contents (tb_file r1)) cur"
    using run_builder_finish [OF f(1,2) cur] f(3) by blast
  obtain s2 f2 where f2: "we_Sync env (tb_file r1) = (s2, f2)" by (rule prod.exhaust)
  note y = sync [OF r1(2) f2]
  obtain s3 w3 where w3: "we_Close env f2 w = (s3, w3)" by (rule prod.exhaust)
  note c = close [OF w, of ?n f2 s3 w3]
  have c: "s3 = OK" "w_ok m w3" "files w3 = (files w)(?n \<mapsto> Closed (contents (tb_file r1)))" using c y w3 issued by simp_all
  obtain s4 w4 where w4: "we_table_status env ?n (of_nat (length (contents (tb_file r1)))) w3 = (s4, w4)" by (rule prod.exhaust)
  have t: "s4 = OK" "w_ok m w4" "files w4 = files w3" using table_status [OF c(2) _ r1(4) _ w4] c(3) size by (simp_all add: gs(1) entries_size_append)
  define o1 where "o1 = o'\<lparr>out_file_size := FileSize r1\<rparr>"
  define cs' where "cs' = cs\<lparr>cs_outputs := os @ [o1], cs_total_bytes := cs_total_bytes cs + FileSize r1, cs_builder := None\<rparr>"
  have eq: "FinishCompactionOutputFile env OK w cs = (OK, w4, cs')"
    using r n b(2) r1(1,3) f2 y w3 c w4 t
    by (simp add: FinishCompactionOutputFile_def map_current_output_def cs'_def o1_def Let_def ok_def)
  have "finished w4 o1 cur"
    using b(2) lim r1(3,4) c(3) t(3) by (simp add: finished_def o1_def)
  moreover have "list_all2 (finished w4) os gs"
  proof (rule list.rel_mono_strong [OF gs(2)])
    fix o2 g
    assume "o2 \<in> set os" "finished w o2 g"
    moreover have "out_number o2 \<noteq> ?n" using gs(3) \<open>o2 \<in> set os\<close> by (auto simp: image_iff)
    ultimately show "finished w4 o2 g" by (elim finished_mono) (simp add: c(3) t(3))
  qed
  ultimately have "list_all2 (finished w4) (closed_outputs cs') (gs @ [cur])"
    by (simp add: closed_outputs_def cs'_def list_all2_appendI)
  moreover have "es = concat (gs @ [cur]) @ []" by (simp add: gs(1))
  moreover have "building w4 cs' []" "distinct (map out_number (cs_outputs cs'))"
    using gs(3) by (simp_all add: building_def cs'_def o1_def)
  ultimately have "out_inv w4 cs' es []" unfolding out_inv_def by blast
  with eq t(2) show ?thesis by (simp add: cs'_def)
qed

end

section \<open>The loop writes the entries that survive\<close>

definition same_position :: "compaction \<Rightarrow> compaction \<Rightarrow> bool" where
  "same_position c c' \<longleftrightarrow> cp_level c' = cp_level c \<and> cp_level_ptrs c' = cp_level_ptrs c
     \<and> cp_inputs c' = cp_inputs c \<and> cp_edit c' = cp_edit c"

lemma grandparent_loop_position: "same_position c (grandparent_loop icmp h k c)"
proof (induction icmp h k c rule: grandparent_loop.induct)
  case (1 icmp h k c)
  then show ?case by (subst grandparent_loop.simps) (auto simp: same_position_def)
qed

lemma ShouldStopBefore_position: "ShouldStopBefore icmp h c k = (stop, c') \<Longrightarrow> same_position c c'"
  using grandparent_loop_position [of c icmp h k]
  by (auto simp: ShouldStopBefore_def Let_def same_position_def split: if_splits)

locale compaction_run = compaction_env ucmp uvalid usep usucc env contents good files w_ok snappy_length snappy_uncompress +
  inp: iterator rep "InternalKey_Compare ucmp" "internal_valid uvalid" iops
  for ucmp :: "bytes \<Rightarrow> bytes \<Rightarrow> int" and uvalid usep usucc and env :: "('w, 'f) work_env"
    and contents good files w_ok snappy_length snappy_uncompress
    and rep :: "'s \<Rightarrow> (bytes \<times> bytes) list \<Rightarrow> nat \<Rightarrow> bool" and iops +
  fixes h :: file_store and v :: db_version and level :: nat and s :: uint64 and l :: "(bytes \<times> bytes) list"
    and c0 :: compaction
  assumes levels: "\<forall>lvl. level + 2 \<le> lvl \<longrightarrow> lvl < kNumLevels \<longrightarrow> level_ok ucmp uvalid h (v_files v ! lvl)"
    and oldest: "s < kMaxSequenceNumber"
    and proper: "\<forall>(k, x) \<in> set l. proper_key uvalid k"
    and size: "entries_size l < 2 ^ 31"
    and start: "cp_level c0 = level" "cp_level_ptrs c0 = replicate kNumLevels 0"
begin

abbreviation "kept i \<equiv> survivors (base_level ucmp h v level) s None (take i l)"

definition work_inv :: "('s, 'w, 'f) work_state \<Rightarrow> nat \<Rightarrow> nat \<Rightarrow> bool" where
  "work_inv st i m \<longleftrightarrow> rep (wk_input st) l i \<and> w_ok m (wk_world st) \<and> wk_status st = OK \<and> \<not> wk_broken st
     \<and> (\<exists>cur. out_inv (wk_world st) (wk_cs st) (kept i) cur \<and> (cs_builder (wk_cs st) \<noteq> None \<longrightarrow> cur \<noteq> []))
     \<and> cs_smallest_snapshot (wk_cs st) = s \<and> drop_inv (wk_drop st) (prev_key None (take i l))
     \<and> cp_level (dr_compaction (wk_drop st)) = level \<and> cp_inputs (dr_compaction (wk_drop st)) = cp_inputs c0
     \<and> cp_edit (dr_compaction (wk_drop st)) = cp_edit c0
     \<and> (i < length l \<longrightarrow> ptrs_ok ucmp h v (dr_compaction (wk_drop st)) (ExtractUserKey (fst (l ! i))))"

lemma work_invE:
  assumes "work_inv st i m"
  obtains cur where "rep (wk_input st) l i" "w_ok m (wk_world st)" "wk_status st = OK" "\<not> wk_broken st"
    "out_inv (wk_world st) (wk_cs st) (kept i) cur" "cs_builder (wk_cs st) \<noteq> None \<longrightarrow> cur \<noteq> []"
    "cs_smallest_snapshot (wk_cs st) = s" "drop_inv (wk_drop st) (prev_key None (take i l))"
    "cp_level (dr_compaction (wk_drop st)) = level" "cp_inputs (dr_compaction (wk_drop st)) = cp_inputs c0"
    "cp_edit (dr_compaction (wk_drop st)) = cp_edit c0"
    "i < length l \<longrightarrow> ptrs_ok ucmp h v (dr_compaction (wk_drop st)) (ExtractUserKey (fst (l ! i)))"
  using assms unfolding work_inv_def by (elim exE conjE) (rule that)

lemma kept_sorted: "rep it l i \<Longrightarrow> cmp_sorted icmp (kept j)" "\<forall>(k, x) \<in> set (kept j). internal_valid uvalid k"
proof -
  assume "rep it l i"
  then have "cmp_sorted icmp l" by (rule inp.rep_sorted)
  then have "cmp_sorted icmp (take j l)" by (simp add: cmp_sorted_def sorted_wrt_take)
  then show "cmp_sorted icmp (kept j)" by (rule survivors_sorted)
next
  show "\<forall>(k, x) \<in> set (kept j). internal_valid uvalid k"
    using survivors_subset [of "base_level ucmp h v level" s None "take j l"] proper proper_key_valid set_take_subset [of j l] by fastforce
qed

lemma kept_size: "entries_size (kept j) < 2 ^ 31"
proof -
  have "entries_size (survivors base t prev es) \<le> entries_size es" for base t prev es
    by (induction base t prev es rule: survivors.induct) (auto simp: entries_size_def)
  moreover have "entries_size (take j l) \<le> entries_size l"
    using entries_size_append [of "take j l" "drop j l"] by simp
  ultimately show ?thesis using size by (meson le_less_trans)
qed

lemma prioritize_inv: "work_inv st i (Suc m) \<Longrightarrow> work_inv (prioritize_imm env st) i m"
proof (cases "we_has_imm env (wk_world st)")
  case True
  assume inv: "work_inv st i (Suc m)"
  obtain t1 w1 where 1: "we_NowMicros env (wk_world st) = (t1, w1)" by (rule prod.exhaust)
  obtain t2 w2 where 2: "we_NowMicros env (we_compact_imm env w1) = (t2, w2)" by (rule prod.exhaust)
  have w: "w_ok (Suc m) (wk_world st)" using inv by (simp add: work_inv_def)
  note a = now [OF w 1]
  then have b: "w_ok m (we_compact_imm env w1)" using compact_imm by blast
  have keep: "files (wk_world st) n = Some slot \<Longrightarrow> files w2 n = Some slot" for n slot
    using a compact_imm [of m w1 n slot] now [OF b 2] by simp
  have w2: "w_ok m w2" using now [OF b 2] by simp
  define st1 where "st1 = prioritize_imm env st"
  have st1: "wk_world st1 = w2" "wk_input st1 = wk_input st" "wk_cs st1 = wk_cs st" "wk_drop st1 = wk_drop st"
    "wk_status st1 = wk_status st" "wk_broken st1 = wk_broken st"
    using True by (simp_all add: st1_def prioritize_imm_def 1 2)
  have "out_inv w2 (wk_cs st) es cur" if "out_inv (wk_world st) (wk_cs st) es cur" for es cur
    using out_inv_mono [OF that keep] .
  with inv w2 show ?thesis unfolding st1_def [symmetric] work_inv_def st1 by blast
qed (auto simp: prioritize_imm_def work_inv_def fewer)

lemma stop_before_inv:
  assumes "work_inv st i m" "i < length l"
  shows "work_inv (stop_before env ucmp h iops st) i m"
proof -
  obtain cur where st: "rep (wk_input st) l i" "w_ok m (wk_world st)" "wk_status st = OK" "\<not> wk_broken st"
    "out_inv (wk_world st) (wk_cs st) (kept i) cur" "cs_builder (wk_cs st) \<noteq> None \<longrightarrow> cur \<noteq> []"
    "cs_smallest_snapshot (wk_cs st) = s" "drop_inv (wk_drop st) (prev_key None (take i l))"
    "cp_level (dr_compaction (wk_drop st)) = level" "cp_inputs (dr_compaction (wk_drop st)) = cp_inputs c0"
    "cp_edit (dr_compaction (wk_drop st)) = cp_edit c0"
    "i < length l \<longrightarrow> ptrs_ok ucmp h v (dr_compaction (wk_drop st)) (ExtractUserKey (fst (l ! i)))"
    using assms(1) by (rule work_invE)
  obtain stop c where c: "ShouldStopBefore icmp h (dr_compaction (wk_drop st)) (op_key iops (wk_input st)) = (stop, c)" by (rule prod.exhaust)
  define st1 where "st1 = st\<lparr>wk_drop := (wk_drop st)\<lparr>dr_compaction := c\<rparr>\<rparr>"
  have pos: "same_position (dr_compaction (wk_drop st)) c" by (rule ShouldStopBefore_position [OF c])
  have inv1: "work_inv st1 i m"
    unfolding work_inv_def st1_def using st pos by (auto simp: drop_inv_def same_position_def ptrs_ok_def)
  show ?thesis
  proof (cases "stop \<and> cs_builder (wk_cs st) \<noteq> None")
    case False
    then show ?thesis using inv1 by (auto simp: stop_before_def c st1_def Let_def)
  next
    case True
    have "op_status iops (wk_input st) = OK" by (rule inp.status_ok [OF st(1)])
    moreover obtain w' cs' where fin: "FinishCompactionOutputFile env OK (wk_world st) (wk_cs st) = (OK, w', cs')" "w_ok m w'"
      "out_inv w' cs' (kept i) []" "cs_builder cs' = None" "cs_smallest_snapshot cs' = cs_smallest_snapshot (wk_cs st)"
      using Finish_ok [OF st(2,5) _ _ kept_sorted(1) [OF st(1)] kept_sorted(2) kept_size] True st(6) by blast
    ultimately have "stop_before env ucmp h iops st = st1\<lparr>wk_status := OK, wk_world := w', wk_cs := cs', wk_broken := False\<rparr>"
      using True by (simp add: stop_before_def c wk_call_def st1_def ok_def)
    with inv1 fin st(7) show ?thesis unfolding work_inv_def by (auto simp: st1_def)
  qed
qed

lemma kept_Suc:
  assumes "i < length l" "l ! i = (k, x)"
  shows "kept (Suc i) = kept i @ (if survives (base_level ucmp h v level) s (prev_key None (take i l)) k then [(k, x)] else [])"
  by (simp add: take_Suc_conv_app_nth [OF assms(1)] assms(2) survivors_snoc)

lemma keep_entry_inv:
  assumes st: "rep (wk_input st) l i" "i < length l" "w_ok (Suc m) (wk_world st)" "wk_status st = OK" "\<not> wk_broken st"
      "out_inv (wk_world st) (wk_cs st) (kept i) cur" "cs_builder (wk_cs st) \<noteq> None \<longrightarrow> cur \<noteq> []"
      "cs_smallest_snapshot (wk_cs st) = s"
    and next_kept: "kept (Suc i) = kept i @ [l ! i]"
  shows "\<exists>st' cur'. keep_entry env iops st = st' \<and> w_ok m (wk_world st') \<and> wk_status st' = OK \<and> \<not> wk_broken st'
    \<and> out_inv (wk_world st') (wk_cs st') (kept (Suc i)) cur' \<and> (cs_builder (wk_cs st') \<noteq> None \<longrightarrow> cur' \<noteq> [])
    \<and> cs_smallest_snapshot (wk_cs st') = s \<and> wk_input st' = wk_input st \<and> wk_drop st' = wk_drop st"
proof -
  define st1 where "st1 = (if cs_builder (wk_cs st) = None then wk_call (OpenCompactionOutputFile env) st else st)"
  have ex: "\<exists>cur1. w_ok m (wk_world st1) \<and> wk_status st1 = OK \<and> \<not> wk_broken st1 \<and> out_inv (wk_world st1) (wk_cs st1) (kept i) cur1
    \<and> cs_builder (wk_cs st1) \<noteq> None \<and> cs_smallest_snapshot (wk_cs st1) = s \<and> wk_input st1 = wk_input st \<and> wk_drop st1 = wk_drop st"
  proof (cases "cs_builder (wk_cs st) = None")
    case True
    then have "cur = []" using st(6) by (simp add: out_inv_def building_def)
    with Open_ok [OF st(3) _ True] st(6) obtain w' cs' where op: "OpenCompactionOutputFile env (wk_world st) (wk_cs st) = (OK, w', cs')"
      "w_ok m w'" "out_inv w' cs' (kept i) []" "cs_builder cs' \<noteq> None" "cs_smallest_snapshot cs' = cs_smallest_snapshot (wk_cs st)" by blast
    with True st(8) show ?thesis by (intro exI [of _ "[]"]) (simp add: st1_def wk_call_def ok_def)
  next
    case False
    then have "st1 = st" unfolding st1_def by (rule if_not_P)
    with st False show ?thesis by (intro exI [of _ cur]) (simp add: fewer)
  qed
  then obtain cur1 where st1: "w_ok m (wk_world st1)" "wk_status st1 = OK" "\<not> wk_broken st1" "out_inv (wk_world st1) (wk_cs st1) (kept i) cur1"
    "cs_builder (wk_cs st1) \<noteq> None" "cs_smallest_snapshot (wk_cs st1) = s" "wk_input st1 = wk_input st" "wk_drop st1 = wk_drop st" by blast
  obtain k x where kx: "l ! i = (k, x)" by (rule prod.exhaust)
  have key: "op_key iops (wk_input st1) = k" "op_value iops (wk_input st1) = x"
    using inp.key_eq [OF st(1,2)] inp.value_eq [OF st(1,2)] st1(7) kx by simp_all
  define cs2 where "cs2 = add_entry env k x (wk_cs st1)"
  have sorted: "cmp_sorted icmp (kept i @ [(k, x)])" using kept_sorted(1) [OF st(1), of "Suc i"] unfolding next_kept kx .
  have cs2: "out_inv (wk_world st1) cs2 (kept i @ [(k, x)]) (cur1 @ [(k, x)])" "cs_builder cs2 \<noteq> None" "cs_smallest_snapshot cs2 = s"
    using add_entry_ok [OF st1(4,5) sorted kept_sorted(2)] st1(6) by (simp_all add: cs2_def)
  define st2 where "st2 = st1\<lparr>wk_cs := cs2\<rparr>"
  have eq: "keep_entry env iops st = (if FileSize (the (cs_builder (wk_cs st2))) \<ge> cp_max_output_file_size (dr_compaction (wk_drop st2))
      then wk_call (FinishCompactionOutputFile env (op_status iops (wk_input st2))) st2 else st2)"
    using st1(3) key by (simp add: keep_entry_def st1_def [symmetric] st2_def cs2_def Let_def)
  show ?thesis
  proof (cases "FileSize (the (cs_builder (wk_cs st2))) \<ge> cp_max_output_file_size (dr_compaction (wk_drop st2))")
    case False
    then show ?thesis unfolding eq using st1 cs2
      by (intro exI [of _ st2] exI [of _ "cur1 @ [(k, x)]"]) (simp add: st2_def next_kept kx)
  next
    case True
    have "op_status iops (wk_input st2) = OK" using inp.status_ok [OF st(1)] by (simp add: st2_def st1(7))
    moreover obtain w' cs' where fin: "FinishCompactionOutputFile env OK (wk_world st1) cs2 = (OK, w', cs')" "w_ok m w'"
      "out_inv w' cs' (kept i @ [(k, x)]) []" "cs_builder cs' = None" "cs_smallest_snapshot cs' = cs_smallest_snapshot cs2"
      using Finish_ok [OF st1(1) cs2(1,2) _ sorted] kept_sorted(2) [of "Suc i"] kept_size [of "Suc i"] unfolding next_kept kx by blast
    ultimately have "wk_call (FinishCompactionOutputFile env (op_status iops (wk_input st2))) st2 =
        st2\<lparr>wk_status := OK, wk_world := w', wk_cs := cs', wk_broken := False\<rparr>"
      by (simp add: wk_call_def st2_def ok_def)
    with True fin st1 cs2(3) show ?thesis unfolding eq
      by (intro exI [of _ "st2\<lparr>wk_status := OK, wk_world := w', wk_cs := cs', wk_broken := False\<rparr>"] exI [of _ "[]"])
        (simp add: st2_def next_kept kx)
  qed
qed

lemma ptrs_ok_step:
  assumes p: "ptrs_ok ucmp h v c (ExtractUserKey k)" and c: "cp_level c = level"
    and k: "proper_key uvalid k" "proper_key uvalid k'" and less: "icmp k k' < 0"
  shows "ptrs_ok ucmp h v c (ExtractUserKey k')"
proof -
  have u: "uvalid (ExtractUserKey k)" "uvalid (ExtractUserKey k')" "ucmp (ExtractUserKey k) (ExtractUserKey k') \<le> 0"
    using k less by (auto simp: proper_key_def InternalKey_Compare_less)
  show ?thesis unfolding ptrs_ok_def
  proof (intro conjI allI impI)
    show "length (cp_level_ptrs c) = kNumLevels" using p by (simp add: ptrs_ok_def)
    fix lvl
    assume lvl: "cp_level c + 2 \<le> lvl" "lvl < kNumLevels"
    then have "ptr_ok ucmp h (v_files v ! lvl) (ExtractUserKey k) (cp_level_ptrs c ! lvl)" using p by (simp add: ptrs_ok_def)
    moreover have "\<forall>f \<in> set (v_files v ! lvl). file_ok ucmp uvalid (h f)" using levels lvl c by (simp add: level_ok_def)
    ultimately show "ptr_ok ucmp h (v_files v ! lvl) (ExtractUserKey k') (cp_level_ptrs c ! lvl)" using u by (rule_tac ptr_ok_mono)
  qed
qed

lemma work_round_inv:
  assumes inv: "work_inv st i (Suc (Suc m))" and i: "i < length l"
  shows "\<exists>st'. work_round env ucmp h v iops st = Some st' \<and> work_inv st' (Suc i) m"
proof -
  define st1 where "st1 = stop_before env ucmp h iops (prioritize_imm env st)"
  have "work_inv st1 i (Suc m)" unfolding st1_def by (intro stop_before_inv prioritize_inv inv i)
  then obtain cur where st1: "rep (wk_input st1) l i" "w_ok (Suc m) (wk_world st1)" "wk_status st1 = OK" "\<not> wk_broken st1"
    "out_inv (wk_world st1) (wk_cs st1) (kept i) cur" "cs_builder (wk_cs st1) \<noteq> None \<longrightarrow> cur \<noteq> []"
    "cs_smallest_snapshot (wk_cs st1) = s" "drop_inv (wk_drop st1) (prev_key None (take i l))"
    "cp_level (dr_compaction (wk_drop st1)) = level" "cp_inputs (dr_compaction (wk_drop st1)) = cp_inputs c0"
    "cp_edit (dr_compaction (wk_drop st1)) = cp_edit c0"
    "i < length l \<longrightarrow> ptrs_ok ucmp h v (dr_compaction (wk_drop st1)) (ExtractUserKey (fst (l ! i)))"
    by (rule work_invE)
  obtain k x where kx: "l ! i = (k, x)" by (rule prod.exhaust)
  have pk: "proper_key uvalid (fst (l ! j))" if "j < length l" for j using proper nth_mem [OF that] by (auto simp: case_prod_beta)
  have prev: "\<forall>p. prev_key None (take i l) = Some p \<longrightarrow> proper_key uvalid p"
  proof (intro allI impI)
    fix p
    assume "prev_key None (take i l) = Some p"
    then have "take i l \<noteq> []" "p = fst (last (take i l))" by (auto simp: prev_key_def split: if_splits)
    moreover from this have "last (take i l) \<in> set l" using set_take_subset [of i l] last_in_set [of "take i l"] by blast
    ultimately show "proper_key uvalid p" using proper by (auto simp: case_prod_beta)
  qed
  let ?base = "base_level ucmp h v level" and ?prev = "prev_key None (take i l)"
  obtain dr ptrs where dr: "drop_entry ucmp h v s k (wk_drop st1) = (\<not> survives ?base s ?prev k, dr)" "drop_inv dr (Some k)"
    "dr_compaction dr = (dr_compaction (wk_drop st1))\<lparr>cp_level_ptrs := ptrs\<rparr>" "ptrs_ok ucmp h v (dr_compaction dr) (ExtractUserKey k)"
    using drop_entry_survives [of k ?prev "wk_drop st1" h v s] pk [OF i] prev levels st1(8,9,12) i oldest kx by auto
  define st2 where "st2 = st1\<lparr>wk_drop := dr\<rparr>"
  define st3 where "st3 = (if survives ?base s ?prev k then keep_entry env iops st2 else st2)"
  have st2: "rep (wk_input st2) l i" "w_ok (Suc m) (wk_world st2)" "wk_status st2 = OK" "\<not> wk_broken st2"
    "out_inv (wk_world st2) (wk_cs st2) (kept i) cur" "cs_builder (wk_cs st2) \<noteq> None \<longrightarrow> cur \<noteq> []"
    "cs_smallest_snapshot (wk_cs st2) = s"
    using st1 by (simp_all add: st2_def)
  have "\<exists>cur'. w_ok m (wk_world st3) \<and> wk_status st3 = OK \<and> \<not> wk_broken st3
    \<and> out_inv (wk_world st3) (wk_cs st3) (kept (Suc i)) cur' \<and> (cs_builder (wk_cs st3) \<noteq> None \<longrightarrow> cur' \<noteq> [])
    \<and> cs_smallest_snapshot (wk_cs st3) = s \<and> wk_input st3 = wk_input st1 \<and> wk_drop st3 = dr"
  proof (cases "survives ?base s ?prev k")
    case True
    then have "kept (Suc i) = kept i @ [l ! i]" using kept_Suc [OF i kx] kx by simp
    from keep_entry_inv [OF st2(1) i st2(2-7) this] True show ?thesis by (auto simp: st3_def st2_def)
  next
    case False
    with st2 kept_Suc [OF i kx] show ?thesis by (intro exI [of _ cur]) (simp add: st3_def st2_def fewer)
  qed
  then obtain cur' where st3: "w_ok m (wk_world st3)" "wk_status st3 = OK" "\<not> wk_broken st3"
    "out_inv (wk_world st3) (wk_cs st3) (kept (Suc i)) cur'" "cs_builder (wk_cs st3) \<noteq> None \<longrightarrow> cur' \<noteq> []"
    "cs_smallest_snapshot (wk_cs st3) = s" "wk_input st3 = wk_input st1" "wk_drop st3 = dr" by blast
  obtain it where it: "op_Next iops (wk_input st1) = Some it" "rep it l (Suc i)" using inp.next_rep [OF st1(1) i] by blast
  have key: "op_key iops (wk_input st1) = k" using inp.key_eq [OF st1(1) i] kx by simp
  have c: "(if \<not> survives ?base s ?prev k then st2 else keep_entry env iops st2) = st3" by (simp add: st3_def)
  have "work_round env ucmp h v iops st = Some (st3\<lparr>wk_input := it\<rparr>)"
    unfolding work_round_def st1_def [symmetric] Let_def key st1(7) dr(1) prod.case st2_def [symmetric] c
    using st1(4) st3(3,7) it(1) by simp
  moreover have "prev_key None (take (Suc i) l) = Some k" using i kx by (simp add: prev_key_def take_Suc_conv_app_nth)
  moreover have "ptrs_ok ucmp h v (dr_compaction dr) (ExtractUserKey (fst (l ! Suc i)))" if j: "Suc i < length l"
  proof -
    have "icmp k (fst (l ! Suc i)) < 0"
      using inp.rep_sorted [OF st1(1)] sorted_wrt_nth_less [of "\<lambda>a b. icmp (fst a) (fst b) < 0" l i "Suc i"] j kx by (simp add: cmp_sorted_def)
    with ptrs_ok_step [OF dr(4)] dr(3) st1(9) pk [OF i] pk [OF j] kx show ?thesis by simp
  qed
  moreover have "cp_level (dr_compaction dr) = level" "cp_inputs (dr_compaction dr) = cp_inputs c0" "cp_edit (dr_compaction dr) = cp_edit c0"
    using dr(3) st1(9-11) by simp_all
  ultimately show ?thesis using st3 it(2) dr(2) unfolding work_inv_def by (intro exI [of _ "st3\<lparr>wk_input := it\<rparr>"]) auto
qed

lemma loop_ends:
  "work_inv st i (2 * (length l - i)) \<Longrightarrow> \<exists>st'. loop_while (work_goes_on env iops) (work_round env ucmp h v iops) st = Some st' \<and> work_inv st' (length l) 0"
proof (induction "length l - i" arbitrary: st i)
  case 0
  then have i: "i = length l" using inp.rep_le by (fastforce simp: work_inv_def)
  then have "\<not> work_goes_on env iops st" using 0 inp.valid_iff by (auto simp: work_goes_on_def work_inv_def)
  with 0 i show ?case by (subst loop_while.simps) simp
next
  case (Suc n)
  then have i: "i < length l" by simp
  have "rep (wk_input st) l i" "\<not> wk_broken st" "w_ok (2 * (length l - i)) (wk_world st)" using Suc.prems by (simp_all add: work_inv_def)
  then have "work_goes_on env iops st" using i inp.valid_iff no_shutdown by (auto simp: work_goes_on_def)
  moreover have "2 * (length l - i) = Suc (Suc (2 * (length l - Suc i)))" using i by simp
  moreover from Suc.prems [unfolded this] obtain st' where st': "work_round env ucmp h v iops st = Some st'" "work_inv st' (Suc i) (2 * (length l - Suc i))"
    using work_round_inv [OF _ i] by blast
  moreover have "n = length l - Suc i" using Suc.hyps(2) by simp
  ultimately show ?case using Suc.hyps(1) [OF _ st'(2)] by (subst loop_while.simps) simp
qed

definition install_edit :: "compaction_output list \<Rightarrow> version_edit" where
  "install_edit outs = foldl (\<lambda>edit out. AddFile edit (level + 1) (out_number out) (out_file_size out) (out_smallest out) (out_largest out))
     (AddInputDeletions h c0 (cp_edit c0)) outs"

lemma AddInputDeletions_same:
  "cp_inputs c = cp_inputs c' \<Longrightarrow> cp_level c = cp_level c' \<Longrightarrow> AddInputDeletions h c e = AddInputDeletions h c' e"
  by (simp add: AddInputDeletions_def)

lemma work_end_ok:
  assumes inv: "work_inv st (length l) m"
  shows "\<exists>gs. wk_status (work_end env iops st) = OK \<and> w_ok m (wk_world (work_end env iops st))
    \<and> wk_drop (work_end env iops st) = wk_drop st
    \<and> distinct (map out_number (cs_outputs (wk_cs (work_end env iops st))))
    \<and> concat gs = kept (length l) \<and> list_all2 (finished (wk_world (work_end env iops st))) (cs_outputs (wk_cs (work_end env iops st))) gs"
proof -
  obtain cur where st: "rep (wk_input st) l (length l)" "w_ok m (wk_world st)" "wk_status st = OK"
    "out_inv (wk_world st) (wk_cs st) (kept (length l)) cur" "cs_builder (wk_cs st) \<noteq> None \<longrightarrow> cur \<noteq> []"
    using inv by (rule work_invE)
  have ok0: "\<not> (ok (wk_status st) \<and> we_shutting_down env (wk_world st))" using no_shutdown st(2) by blast
  have in_ok: "op_status iops (wk_input st) = OK" by (rule inp.status_ok [OF st(1)])
  have outs: "\<exists>gs. distinct (map out_number (cs_outputs cs)) \<and> concat gs = es \<and> list_all2 (finished w) (cs_outputs cs) gs"
    if "out_inv w cs es []" "cs_builder cs = None" for w cs es
    using that by (auto simp: out_inv_def closed_outputs_def)
  show ?thesis
  proof (cases "cs_builder (wk_cs st) = None")
    case True
    then have "cur = []" using st(4) by (simp add: out_inv_def building_def)
    with outs [of "wk_world st" "wk_cs st"] st(4) True
    obtain gs where "distinct (map out_number (cs_outputs (wk_cs st)))" "concat gs = kept (length l)"
      "list_all2 (finished (wk_world st)) (cs_outputs (wk_cs st)) gs" by blast
    moreover have "work_end env iops st = st" using ok0 True st(3) in_ok by (simp add: work_end_def ok_def)
    ultimately show ?thesis using st(2,3) by (intro exI [of _ gs]) simp
  next
    case False
    obtain w' cs' where fin: "FinishCompactionOutputFile env OK (wk_world st) (wk_cs st) = (OK, w', cs')" "w_ok m w'"
      "out_inv w' cs' (kept (length l)) []" "cs_builder cs' = None"
      using Finish_ok [OF st(2,4) False _ kept_sorted(1) [OF st(1)] kept_sorted(2) kept_size] st(5) False by blast
    from outs [OF fin(3,4)] obtain gs where gs: "distinct (map out_number (cs_outputs cs'))" "concat gs = kept (length l)"
      "list_all2 (finished w') (cs_outputs cs') gs" by blast
    have "work_end env iops st = st\<lparr>wk_status := OK, wk_world := w', wk_cs := cs', wk_broken := False\<rparr>"
      using ok0 False st(3) in_ok fin(1) by (simp add: work_end_def wk_call_def ok_def Let_def)
    with gs fin(2) show ?thesis by (intro exI [of _ gs]) simp
  qed
qed

lemma DoCompactionWork_writes:
  assumes w: "w_ok (2 * length l) w" and it: "rep it l i" and oldest_snapshot: "(if snapshots = [] then last_sequence else hd snapshots) = s"
  shows "\<exists>w' cs gs. w_ok 0 w' \<and> distinct (map out_number (cs_outputs cs)) \<and> list_all2 (finished w') (cs_outputs cs) gs
    \<and> concat gs = survivors (base_level ucmp h v level) s None l
    \<and> DoCompactionWork env ucmp h v iops it snapshots last_sequence w c0 =
        Some (case we_LogAndApply env (install_edit (cs_outputs cs)) w' of
          (r, w'') \<Rightarrow> (r, if ok r then w'' else we_RecordBackgroundError env r w'', cs))"
proof -
  obtain t0 w0 where t0: "we_NowMicros env w = (t0, w0)" by (rule prod.exhaust)
  note w0 = now [OF w t0]
  obtain it0 where it0: "op_SeekToFirst iops it = Some it0" "rep it0 l 0" using inp.seek_first_rep [OF it] by blast
  define st0 :: "('s, 'w, 'f) work_state" where "st0 = \<lparr>wk_input = it0, wk_world = w0, wk_cs = CompactionState_init c0 s,
     wk_drop = \<lparr>dr_user_key = None, dr_last_sequence = kMaxSequenceNumber, dr_compaction = c0\<rparr>,
     wk_status = OK, wk_broken = False, wk_imm_micros = 0\<rparr>"
  have "work_inv st0 0 (2 * (length l - 0))"
    using w0 it0(2) start by (simp add: work_inv_def st0_def CompactionState_init_def out_inv_def building_def closed_outputs_def
      drop_inv_def prev_key_def ptrs_ok_def ptr_ok_def)
  from loop_ends [OF this] obtain st where st: "loop_while (work_goes_on env iops) (work_round env ucmp h v iops) st0 = Some st"
    "work_inv st (length l) 0" by blast
  define st' where "st' = work_end env iops st"
  obtain gs where gs: "wk_status st' = OK" "w_ok 0 (wk_world st')" "wk_drop st' = wk_drop st" "distinct (map out_number (cs_outputs (wk_cs st')))"
    "concat gs = kept (length l)" "list_all2 (finished (wk_world st')) (cs_outputs (wk_cs st')) gs"
    using work_end_ok [OF st(2)] unfolding st'_def [symmetric] by (elim exE conjE) (rule that)
  obtain t1 w1 where t1: "we_NowMicros env (wk_world st') = (t1, w1)" by (rule prod.exhaust)
  note w1 = now [OF gs(2) t1]
  let ?c = "dr_compaction (wk_drop st)"
  have c: "cp_level ?c = level" "cp_inputs ?c = cp_inputs c0" "cp_edit ?c = cp_edit c0" using st(2) by (simp_all add: work_inv_def)
  define cs1 where "cs1 = (wk_cs st')\<lparr>cs_compaction := ?c\<rparr>"
  define w2 where "w2 = we_add_stats env (cp_level c0 + 1) (work_stats h (t1 - t0 - wk_imm_micros st') cs1) w1"
  have w2: "w_ok 0 w2" "files w2 = files (wk_world st')" using stats [of 0 w1] w1 by (simp_all add: w2_def)
  have edit: "foldl (\<lambda>edit out. AddFile edit (cp_level ?c + 1) (out_number out) (out_file_size out) (out_smallest out) (out_largest out))
      (AddInputDeletions h ?c (cp_edit ?c)) (cs_outputs cs1) = install_edit (cs_outputs cs1)"
    using AddInputDeletions_same [of ?c c0] c start by (simp add: install_edit_def)
  define cs2 where "cs2 = cs1\<lparr>cs_compaction := ?c\<lparr>cp_edit := install_edit (cs_outputs cs1)\<rparr>\<rparr>"
  have outs: "cs_outputs cs2 = cs_outputs (wk_cs st')" "cs_outputs cs1 = cs_outputs (wk_cs st')" "cs_compaction cs1 = ?c"
    by (simp_all add: cs2_def cs1_def)
  have inst: "InstallCompactionResults env h w2 cs1 = (case we_LogAndApply env (install_edit (cs_outputs cs2)) w2 of (r, w'') \<Rightarrow> (r, w'', cs2))"
    by (simp only: InstallCompactionResults_def Let_def outs(3) edit cs2_def) (simp split: prod.splits)
  have "DoCompactionWork env ucmp h v iops it snapshots last_sequence w c0 =
        Some (case we_LogAndApply env (install_edit (cs_outputs cs2)) w2 of
          (r, w'') \<Rightarrow> (r, if ok r then w'' else we_RecordBackgroundError env r w'', cs2))"
    unfolding DoCompactionWork_def t0 Let_def prod.case it0(1) oldest_snapshot st0_def [symmetric] st(1) Option.bind.bind_lunit
      st'_def [symmetric] t1 gs(3) cs1_def [symmetric] w2_def [symmetric] gs(1) inst
    by (simp add: ok_def split: prod.splits)
  moreover have "list_all2 (finished w2) (cs_outputs cs2) gs"
    unfolding outs by (rule list_all2_mono [OF gs(6)], erule finished_mono) (simp add: w2)
  ultimately show ?thesis using w2(1) gs(4,5) unfolding outs by (intro exI [of _ w2] exI [of _ cs2] exI [of _ gs]) (simp add: outs)
qed

end

end
