(* ===== verification/MemEnv.thy ===== *)
theory MemEnv imports MemFile "HOL-Library.List_Lexorder" "HOL-Library.Char_ord" begin

text \<open>
  \<^verbatim>\<open>helpers/memenv/memenv.cc\<close>: the file system of \<open>InMemoryEnv\<close>. A name leads to a file object, and so do the
  handles that were opened on it; a file that is deleted or replaced lives on for its handles. The ordered map of names
  is an association list in increasing order; reference counts are left out, since nothing reads them.
\<close>

section \<open>Ordered maps\<close>

fun map_put :: "'a::linorder \<Rightarrow> 'b \<Rightarrow> ('a \<times> 'b) list \<Rightarrow> ('a \<times> 'b) list" where
  "map_put k v [] = [(k, v)]"
| "map_put k v ((k', v') # m) =
     (if k < k' then (k, v) # (k', v') # m else if k = k' then (k, v) # m else (k', v') # map_put k v m)"

definition map_erase :: "'a \<Rightarrow> ('a \<times> 'b) list \<Rightarrow> ('a \<times> 'b) list" where
  "map_erase k m = filter (\<lambda>(k', _). k' \<noteq> k) m"

lemma map_put_lookup [simp]: "sorted_wrt (<) (map fst m) \<Longrightarrow> map_of (map_put k v m) = (map_of m)(k \<mapsto> v)"
proof (induction k v m rule: map_put.induct)
  case (2 k v k' v' m)
  have "map_of m k = None" if "k < k'" using 2(2) that by (force simp: map_of_eq_None_iff)
  with 2 show ?case by (auto simp: fun_upd_twist)
qed simp

lemma map_put_keys: "set (map fst (map_put k v m)) = insert k (set (map fst m))"
  by (induction k v m rule: map_put.induct) auto

lemma map_put_sorted: "sorted_wrt (<) (map fst m) \<Longrightarrow> sorted_wrt (<) (map fst (map_put k v m))"
proof (induction k v m rule: map_put.induct)
  case (2 k v k' v' m)
  then show ?case using map_put_keys [of k v m] by (auto simp: image_iff)
qed simp

lemma map_erase_lookup [simp]: "map_of (map_erase k m) = (map_of m)(k := None)"
  by (induction m) (auto simp: map_erase_def)

lemma map_erase_sorted: "sorted_wrt (<) (map fst m) \<Longrightarrow> sorted_wrt (<) (map fst (map_erase k m))"
  by (induction m) (auto simp: map_erase_def)

section \<open>The environment\<close>

type_synonym file_handle = nat

record mem_env =
  me_file_map :: "(string \<times> file_handle) list"
  me_files :: "file_handle \<Rightarrow> file_state"
  me_next :: file_handle

definition InMemoryEnv_init :: mem_env where
  "InMemoryEnv_init = \<lparr>me_file_map = [], me_files = (\<lambda>_. FileState_init), me_next = 0\<rparr>"

definition me_find :: "mem_env \<Rightarrow> string \<Rightarrow> file_handle option" where
  "me_find env fname = map_of (me_file_map env) fname"

text \<open>The objects for reading and for writing hold the file; \<open>NewSequentialFile\<close> also starts at position 0.\<close>

definition me_NewSequentialFile :: "mem_env \<Rightarrow> string \<Rightarrow> (status \<times> (file_handle \<times> nat) option)" where
  "me_NewSequentialFile env fname =
     (case me_find env fname of
        None \<Rightarrow> (IOError fname ''File not found'', None)
      | Some f \<Rightarrow> (OK, Some (f, 0)))"

definition me_NewRandomAccessFile :: "mem_env \<Rightarrow> string \<Rightarrow> status \<times> file_handle option" where
  "me_NewRandomAccessFile env fname =
     (case me_find env fname of
        None \<Rightarrow> (IOError fname ''File not found'', None)
      | Some f \<Rightarrow> (OK, Some f))"

definition me_DeleteFileInternal :: "mem_env \<Rightarrow> string \<Rightarrow> mem_env" where
  "me_DeleteFileInternal env fname =
     (case me_find env fname of
        None \<Rightarrow> env
      | Some f \<Rightarrow> env\<lparr>me_file_map := map_erase fname (me_file_map env)\<rparr>)"

definition me_NewWritableFile :: "mem_env \<Rightarrow> string \<Rightarrow> (status \<times> file_handle) \<times> mem_env" where
  "me_NewWritableFile env fname =
     (let env = (if me_find env fname \<noteq> None then me_DeleteFileInternal env fname else env);
          file = me_next env;
          env = env\<lparr>me_files := (me_files env)(file := FileState_init), me_next := file + 1\<rparr>;
          env = env\<lparr>me_file_map := map_put fname file (me_file_map env)\<rparr>
      in ((OK, file), env))"

definition me_FileExists :: "mem_env \<Rightarrow> string \<Rightarrow> bool" where
  "me_FileExists env fname \<longleftrightarrow> me_find env fname \<noteq> None"

definition me_GetChildren :: "mem_env \<Rightarrow> string \<Rightarrow> status \<times> string list" where
  "me_GetChildren env dir =
     (OK, map (\<lambda>filename. drop (length dir + 1) filename)
        (filter (\<lambda>filename. length filename \<ge> length dir + 1 \<and> filename ! length dir = CHR ''/'' \<and> take (length dir) filename = dir)
           (map fst (me_file_map env))))"

definition me_DeleteFile :: "mem_env \<Rightarrow> string \<Rightarrow> status \<times> mem_env" where
  "me_DeleteFile env fname =
     (if me_find env fname = None then (IOError fname ''File not found'', env) else (OK, me_DeleteFileInternal env fname))"

definition me_GetFileSize :: "mem_env \<Rightarrow> string \<Rightarrow> status \<times> nat option" where
  "me_GetFileSize env fname =
     (case me_find env fname of
        None \<Rightarrow> (IOError fname ''File not found'', None)
      | Some f \<Rightarrow> (OK, Some (fs_size (me_files env f))))"

text \<open>
  When the two names are the same, nothing is left under the name after \<open>DeleteFileInternal\<close>: the null pointer that
  \<open>operator[]\<close> enters for it is erased again.
\<close>

definition me_RenameFile :: "mem_env \<Rightarrow> string \<Rightarrow> string \<Rightarrow> status \<times> mem_env" where
  "me_RenameFile env src target =
     (if me_find env src = None then (IOError src ''File not found'', env)
      else let env = me_DeleteFileInternal env target;
               m = (case me_find env src of Some f \<Rightarrow> map_put target f (me_file_map env) | None \<Rightarrow> me_file_map env)
           in (OK, env\<lparr>me_file_map := map_erase src m\<rparr>))"

text \<open>The operations of the handles.\<close>

definition me_Append :: "mem_env \<Rightarrow> file_handle \<Rightarrow> bytes \<Rightarrow> status \<times> mem_env" where
  "me_Append env f data =
     (let (s, st) = WritableFile_Append (me_files env f) data in (s, env\<lparr>me_files := (me_files env)(f := st)\<rparr>))"

definition me_Read :: "mem_env \<Rightarrow> file_handle \<Rightarrow> nat \<Rightarrow> nat \<Rightarrow> status \<times> bytes" where
  "me_Read env f offset n = RandomAccessFile_Read (me_files env f) offset n"

definition me_SequentialRead :: "mem_env \<Rightarrow> file_handle \<times> nat \<Rightarrow> nat \<Rightarrow> status \<times> bytes \<times> (file_handle \<times> nat)" where
  "me_SequentialRead env h n =
     (case SequentialFile_Read ((SequentialFile_init (me_files env (fst h)))\<lparr>sf_pos := snd h\<rparr>) n of
        (s, data, sf) \<Rightarrow> (s, data, (fst h, sf_pos sf)))"

section \<open>The named files\<close>

text \<open>What the names lead to; handles are of files that exist, and a file has one name at most.\<close>

definition me_ok :: "mem_env \<Rightarrow> bool" where
  "me_ok env \<longleftrightarrow> sorted_wrt (<) (map fst (me_file_map env))
     \<and> (\<forall>a b f. me_find env a = Some f \<longrightarrow> me_find env b = Some f \<longrightarrow> a = b)
     \<and> (\<forall>a f. me_find env a = Some f \<longrightarrow> f < me_next env) \<and> (\<forall>f < me_next env. fs_inv (me_files env f))"

definition me_view :: "mem_env \<Rightarrow> string \<Rightarrow> bytes option" where
  "me_view env fname = map_option (\<lambda>f. fs_contents (me_files env f)) (me_find env fname)"

lemma me_ok_init: "me_ok InMemoryEnv_init" "me_view InMemoryEnv_init = Map.empty"
  by (auto simp: me_ok_def InMemoryEnv_init_def me_view_def me_find_def)

lemma me_find_live: "me_ok env \<Longrightarrow> me_find env fname = Some f \<Longrightarrow> f < me_next env \<and> fs_inv (me_files env f)"
  by (auto simp: me_ok_def)

lemma me_find_inj: "me_ok env \<Longrightarrow> me_find env a = Some f \<Longrightarrow> me_find env b = Some f \<Longrightarrow> a = b"
  unfolding me_ok_def by blast

lemma DeleteFileInternal_ok:
  assumes "me_ok env"
  shows "me_ok (me_DeleteFileInternal env fname)" "me_view (me_DeleteFileInternal env fname) = (me_view env)(fname := None)"
    "me_find (me_DeleteFileInternal env fname) = (me_find env)(fname := None)"
    "me_files (me_DeleteFileInternal env fname) = me_files env" "me_next (me_DeleteFileInternal env fname) = me_next env"
proof -
  show find: "me_find (me_DeleteFileInternal env fname) = (me_find env)(fname := None)"
    by (auto simp: me_DeleteFileInternal_def me_find_def fun_eq_iff split: option.splits)
  show files: "me_files (me_DeleteFileInternal env fname) = me_files env" "me_next (me_DeleteFileInternal env fname) = me_next env"
    by (simp_all add: me_DeleteFileInternal_def split: option.splits)
  show "me_view (me_DeleteFileInternal env fname) = (me_view env)(fname := None)"
    by (auto simp: me_view_def find files fun_eq_iff)
  have "sorted_wrt (<) (map fst (me_file_map (me_DeleteFileInternal env fname)))"
    using assms map_erase_sorted by (auto simp: me_DeleteFileInternal_def me_ok_def split: option.splits)
  with assms show "me_ok (me_DeleteFileInternal env fname)"
    unfolding me_ok_def find files by (auto split: if_splits)
qed

lemma NewWritableFile_ok:
  assumes ok: "me_ok env" and new: "me_NewWritableFile env fname = ((s, f), env')"
  shows "s = OK \<and> me_ok env' \<and> me_find env' fname = Some f \<and> me_view env' = (me_view env)(fname \<mapsto> []) \<and> me_files env' f = FileState_init
    \<and> f = me_next env \<and> me_next env' = Suc f"
proof -
  define e1 where "e1 = (if me_find env fname \<noteq> None then me_DeleteFileInternal env fname else env)"
  have e1: "me_ok e1" "me_find e1 = (me_find env)(fname := None)" "me_files e1 = me_files env" "me_next e1 = me_next env"
    using DeleteFileInternal_ok [OF ok, of fname] ok by (auto simp: e1_def)
  have env': "s = OK" "f = me_next e1" "env' = e1\<lparr>me_files := (me_files e1)(f := FileState_init), me_next := f + 1,
      me_file_map := map_put fname f (me_file_map e1)\<rparr>"
    using new unfolding me_NewWritableFile_def Let_def e1_def [symmetric] by auto
  have srt: "sorted_wrt (<) (map fst (me_file_map e1))" using e1(1) by (simp add: me_ok_def)
  have fresh: "me_find env a \<noteq> Some f" for a using me_find_live [OF ok, of a f] e1(4) env'(2) by auto
  have find: "me_find env' = (me_find env)(fname \<mapsto> f)"
    using e1(2) map_put_lookup [OF srt] by (simp add: me_find_def env'(3) fun_eq_iff)
  have "me_ok env'"
    unfolding me_ok_def find
  proof (intro conjI allI impI)
    show "sorted_wrt (<) (map fst (me_file_map env'))" by (simp add: env'(3) map_put_sorted srt)
    show "a = b" if "((me_find env)(fname \<mapsto> f)) a = Some g" "((me_find env)(fname \<mapsto> f)) b = Some g" for a b g
      using that fresh me_find_inj [OF ok] by (auto split: if_splits)
    show "g < me_next env'" if "((me_find env)(fname \<mapsto> f)) a = Some g" for a g
      using that me_find_live [OF ok, of a g] env'(2) e1(4) by (auto simp: env'(3) split: if_splits)
    show "fs_inv (me_files env' g)" if "g < me_next env'" for g
      using that ok e1(3,4) env'(2) by (auto simp: env'(3) me_ok_def less_Suc_eq)
  qed
  moreover have "me_view env' = (me_view env)(fname \<mapsto> [])"
  proof (rule ext)
    fix a
    have "me_files env' f = FileState_init" "me_files env' g = me_files env g" if "g \<noteq> f" for g
      using that e1(3) by (simp_all add: env'(3))
    then show "me_view env' a = ((me_view env)(fname \<mapsto> [])) a"
      unfolding me_view_def find using fresh [of a] by (cases "me_find env a") (auto simp: env'(3))
  qed
  ultimately show ?thesis using env' e1(4) find by simp
qed

lemma Append_ok:
  assumes ok: "me_ok env" and f: "me_find env fname = Some f" and app: "me_Append env f data = (s, env')"
  shows "s = OK \<and> me_ok env' \<and> me_find env' = me_find env \<and> me_view env' = (me_view env)(fname \<mapsto> fs_contents (me_files env f) @ data)"
proof -
  obtain st where st: "WritableFile_Append (me_files env f) data = (OK, st)" "fs_inv st" "fs_contents st = fs_contents (me_files env f) @ data"
    using mem_writable.append_ok me_find_live [OF ok f] by (cases "WritableFile_Append (me_files env f) data") blast
  have env': "s = OK" "env' = env\<lparr>me_files := (me_files env)(f := st)\<rparr>" using app st(1) by (auto simp: me_Append_def)
  have find: "me_find env' = me_find env" by (simp add: me_find_def env'(2) fun_eq_iff)
  have "me_view env' = (me_view env)(fname \<mapsto> fs_contents (me_files env f) @ data)"
  proof (rule ext)
    fix a
    have "me_files env' f = st" "g \<noteq> f \<Longrightarrow> me_files env' g = me_files env g" for g by (simp_all add: env'(2))
    then show "me_view env' a = ((me_view env)(fname \<mapsto> fs_contents (me_files env f) @ data)) a"
    proof (cases "a = fname")
      case True
      with f st(3) \<open>me_files env' f = st\<close> show ?thesis by (simp add: me_view_def find)
    next
      case False
      then have "me_find env a \<noteq> Some f" using me_find_inj [OF ok f] by blast
      with False show ?thesis unfolding me_view_def find by (cases "me_find env a") (simp_all add: env'(2))
    qed
  qed
  moreover have "me_ok env'" using ok st(2) unfolding me_ok_def find by (simp add: env'(2))
  ultimately show ?thesis using env' find by simp
qed

lemma RenameFile_ok:
  assumes ok: "me_ok env" and src: "me_view env src = Some x" and ren: "me_RenameFile env src target = (s, env')"
  shows "s = OK \<and> me_ok env' \<and> me_view env' = (if src = target then (me_view env)(src := None) else (me_view env)(target \<mapsto> x, src := None))"
proof -
  obtain f where f: "me_find env src = Some f" using src by (auto simp: me_view_def)
  define e1 where "e1 = me_DeleteFileInternal env target"
  note e1 = DeleteFileInternal_ok [OF ok, of target, folded e1_def]
  have srt: "sorted_wrt (<) (map fst (me_file_map e1))" using e1(1) by (simp add: me_ok_def)
  define m where "m = (case me_find e1 src of Some f \<Rightarrow> map_put target f (me_file_map e1) | None \<Rightarrow> me_file_map e1)"
  have env': "s = OK" "env' = e1\<lparr>me_file_map := map_erase src m\<rparr>"
    using ren f unfolding me_RenameFile_def Let_def e1_def m_def by simp_all
  show ?thesis
  proof (cases "src = target")
    case True
    then have "m = me_file_map e1" by (simp add: m_def e1(3))
    moreover have "me_find e1 src = None" using True by (simp add: e1(3))
    ultimately have find: "me_find env' = me_find e1" by (auto simp: env'(2) me_find_def fun_eq_iff)
    have "sorted_wrt (<) (map fst (me_file_map env'))" using srt \<open>m = me_file_map e1\<close> by (simp add: env'(2) map_erase_sorted)
    then have "me_ok env'" using e1(1) unfolding me_ok_def find by (simp add: env'(2))
    moreover have "me_view env' = me_view e1" unfolding me_view_def find by (simp add: env'(2))
    ultimately show ?thesis using True env'(1) e1(2) by simp
  next
    case False
    then have m: "m = map_put target f (me_file_map e1)" by (simp add: m_def e1(3) f)
    have look: "map_of (map_erase src m) = (map_of (me_file_map e1))(target \<mapsto> f, src := None)"
      by (simp add: m map_put_lookup [OF srt])
    have find: "me_find env' = (me_find env)(target \<mapsto> f, src := None)"
      using look e1(3) False by (auto simp: me_find_def env'(2) fun_eq_iff)
    have srt': "sorted_wrt (<) (map fst (me_file_map env'))" by (simp add: env'(2) m map_erase_sorted map_put_sorted srt)
    have "me_ok env'" unfolding me_ok_def find
    proof (intro conjI allI impI srt')
      show "a = b" if "((me_find env)(target \<mapsto> f, src := None)) a = Some g" "((me_find env)(target \<mapsto> f, src := None)) b = Some g" for a b g
        using that me_find_inj [OF ok] f by (auto split: if_splits)
      show "g < me_next env'" if "((me_find env)(target \<mapsto> f, src := None)) a = Some g" for a g
        using that me_find_live [OF ok, of _ g] f by (auto simp: env'(2) e1(5) split: if_splits)
      show "fs_inv (me_files env' g)" if "g < me_next env'" for g
        using that ok by (simp add: env'(2) e1(4,5) me_ok_def)
    qed
    moreover have "me_view env' = (me_view env)(target \<mapsto> x, src := None)"
      using src f unfolding me_view_def find by (auto simp: env'(2) e1(4) fun_eq_iff)
    ultimately show ?thesis using env'(1) False by simp
  qed
qed

text \<open>A file that is open stays what it is while names change.\<close>

lemma Read_ok:
  assumes "me_ok env" "me_NewRandomAccessFile env fname = (OK, Some f)" "off \<le> length (the (me_view env fname))"
  shows "me_Read env f off n = (OK, take n (drop off (the (me_view env fname))))"
proof -
  have f: "me_find env fname = Some f" using assms(2) by (auto simp: me_NewRandomAccessFile_def split: option.splits)
  have "fs_inv (me_files env f)" using me_find_live [OF assms(1) f] by simp
  with assms(3) mem_random.pread_ok [of "me_files env f" off n] f show ?thesis
    by (cases "RandomAccessFile_Read (me_files env f) off n") (simp add: me_Read_def me_view_def)
qed

section \<open>Properties\<close>

text \<open>
  C1. The environment in memory is a map from names to contents. On a sound state: a new writable file is empty under
  its name and replaces an old one; appending to the file of a name appends to its contents; deleting removes the name,
  and fails exactly when there is no such file; renaming moves the contents to the target and replaces what is there,
  but a file that is renamed to its own name is lost; the size of a file is the length of its contents. Every operation
  keeps the state sound.
\<close>

theorem InMemoryEnv_refines_named_files:
  assumes "me_ok env"
  shows "(case me_NewWritableFile env a of ((s, f), env') \<Rightarrow>
        s = OK \<and> me_ok env' \<and> me_view env' = (me_view env)(a \<mapsto> []) \<and> me_find env' a = Some f)
    \<and> (case me_find env a of None \<Rightarrow> me_view env a = None | Some f \<Rightarrow> (case me_Append env f data of (s, env') \<Rightarrow>
        s = OK \<and> me_ok env' \<and> me_view env' = (me_view env)(a \<mapsto> the (me_view env a) @ data)))
    \<and> (case me_DeleteFile env a of (s, env') \<Rightarrow>
        me_ok env' \<and> me_view env' = (me_view env)(a := None) \<and> (ok s \<longleftrightarrow> me_view env a \<noteq> None))
    \<and> (case me_RenameFile env a b of (s, env') \<Rightarrow> me_ok env' \<and> (case me_view env a of
          None \<Rightarrow> \<not> ok s \<and> env' = env
        | Some x \<Rightarrow> s = OK \<and> me_view env' = (if a = b then (me_view env)(a := None) else (me_view env)(b \<mapsto> x, a := None))))
    \<and> snd (me_GetFileSize env a) = map_option length (me_view env a)"
proof (intro conjI)
  show "case me_NewWritableFile env a of ((s, f), env') \<Rightarrow>
      s = OK \<and> me_ok env' \<and> me_view env' = (me_view env)(a \<mapsto> []) \<and> me_find env' a = Some f"
    using NewWritableFile_ok [OF assms] by (fastforce split: prod.splits)
  show "case me_find env a of None \<Rightarrow> me_view env a = None | Some f \<Rightarrow> (case me_Append env f data of (s, env') \<Rightarrow>
      s = OK \<and> me_ok env' \<and> me_view env' = (me_view env)(a \<mapsto> the (me_view env a) @ data))"
    using Append_ok [OF assms] by (auto simp: me_view_def split: option.splits prod.splits)
  show "case me_DeleteFile env a of (s, env') \<Rightarrow>
      me_ok env' \<and> me_view env' = (me_view env)(a := None) \<and> (ok s \<longleftrightarrow> me_view env a \<noteq> None)"
    using DeleteFileInternal_ok [OF assms, of a] assms
    by (auto simp: me_DeleteFile_def me_view_def ok_def IOError_def mk_status_def fun_eq_iff)
  show "case me_RenameFile env a b of (s, env') \<Rightarrow> me_ok env' \<and> (case me_view env a of
        None \<Rightarrow> \<not> ok s \<and> env' = env
      | Some x \<Rightarrow> s = OK \<and> me_view env' = (if a = b then (me_view env)(a := None) else (me_view env)(b \<mapsto> x, a := None)))"
  proof (cases "me_view env a")
    case None
    with assms show ?thesis by (simp add: me_RenameFile_def me_view_def ok_def IOError_def mk_status_def)
  next
    case (Some x)
    from RenameFile_ok [OF assms this, of b] Some show ?thesis by (cases "me_RenameFile env a b") simp
  qed
  show "snd (me_GetFileSize env a) = map_option length (me_view env a)"
    using me_find_live [OF assms, of a] by (cases "me_find env a") (simp_all add: me_GetFileSize_def me_view_def)
qed

definition two_files :: mem_env where
  "two_files = (let a = me_NewWritableFile InMemoryEnv_init ''a''
     in snd (me_NewWritableFile (snd (me_Append (snd a) (snd (fst a)) [1, 2])) ''b''))"

theorem InMemoryEnv_refines_named_files_witness:
  "me_view (snd (me_RenameFile two_files ''a'' ''b'')) ''b'' = Some [1, 2] \<and> me_view (snd (me_RenameFile two_files ''a'' ''a'')) ''a'' = None"
proof -
  let ?e1 = "snd (me_NewWritableFile InMemoryEnv_init ''a'')" and ?f = "snd (fst (me_NewWritableFile InMemoryEnv_init ''a''))"
  let ?e2 = "snd (me_Append ?e1 ?f [1, 2])"
  note step = InMemoryEnv_refines_named_files
  have e1: "me_ok ?e1 \<and> me_view ?e1 ''a'' = Some [] \<and> me_find ?e1 ''a'' = Some ?f"
    using step [OF me_ok_init(1), of "''a''" "[]" "''b''"] by (simp split: prod.splits)
  then have e2: "me_ok ?e2 \<and> me_view ?e2 ''a'' = Some [1, 2]"
    using step [of ?e1 "''a''" "[1, 2]" "''b''"] by (simp split: prod.splits)
  then have "me_ok two_files \<and> me_view two_files ''a'' = Some [1, 2]"
    using step [of ?e2 "''b''" "[]" "''b''"] unfolding two_files_def Let_def by (cases "me_NewWritableFile ?e2 ''b''") auto
  then show ?thesis
    using step [of two_files "''a''" "[]" "''b''"] step [of two_files "''a''" "[]" "''a''"] by (simp split: prod.splits)
qed

end
