(* ===== verification/Spec2Isabelle.thy ===== *)
theory Spec2Isabelle imports Crc32c Lcg_Random Arena SkipList DbFormat MemTable WriteBatch
    LogReader Filename FilterBlock BlockIter TableProps VersionEdit Reading VersionGet VersionBuilder CompactionWork MemEnv begin

text \<open>
  A verification library for LevelDB 1.18 as it is packed in this repository under
  \<^verbatim>\<open>src/main/jni/leveldb-1.18\<close>; the paths below are relative to that directory.

  \<^bold>\<open>The program.\<close> LevelDB is an ordered map from byte strings to byte strings. A write is a batch of
  updates; it gets consecutive sequence numbers, is appended to a log and inserted into a skip list
  in memory. A full memory table is written to a sorted table file; the files are arranged in levels
  by a version, which a manifest of version edits records. A read takes a sequence number, looks into the
  memory tables and then into the files, or iterates over all of them merged, and shows for each user
  key its newest entry that is not newer than the sequence number.

  \<^bold>\<open>Foundations.\<close> \<open>Prelude\<close>: bytes, words, shared lemmas. \<open>Slice\<close> (\<^verbatim>\<open>slice.h\<close>, \<^verbatim>\<open>status.cc\<close>): comparison of
  byte strings, statuses. \<open>Coding\<close> (\<^verbatim>\<open>util/coding.cc\<close>): fixed and variable length integers.
  \<open>Crc32c\<close> (\<^verbatim>\<open>util/crc32c.cc\<close>): the table-driven checksum equals bit-by-bit division.
  \<open>Comparators\<close> (\<^verbatim>\<open>util/comparator.cc\<close>), \<open>Filter_Policy\<close>, \<open>File_Api\<close>, \<open>Iterator_Api\<close>: the interfaces the
  components are written against, as locales. \<open>Lcg_Random\<close>, \<open>Arena\<close>, \<open>Logging\<close>, \<open>Filename\<close>:
  \<^verbatim>\<open>util/random.h\<close>, \<^verbatim>\<open>util/arena.cc\<close>, \<^verbatim>\<open>util/logging.cc\<close>, \<^verbatim>\<open>db/filename.cc\<close>.

  \<^bold>\<open>Memory.\<close> \<open>SkipList\<close> (\<^verbatim>\<open>db/skiplist.h\<close>): nodes in a store with one link per level; insertion refines
  insertion into a sorted list. \<open>DbFormat\<close> (\<^verbatim>\<open>db/dbformat.cc\<close>): internal keys and their order.
  \<open>MemTable\<close> (\<^verbatim>\<open>db/memtable.cc\<close>): lookups find the newest visible version.
  \<open>WriteBatch\<close> (\<^verbatim>\<open>db/write_batch.cc\<close>): a batch denotes a list of updates, and inserting it applies them.

  \<^bold>\<open>Logs.\<close> \<open>LogFormat\<close>, \<open>LogWriter\<close>, \<open>LogReader\<close> (\<^verbatim>\<open>db/log_writer.cc\<close>, \<^verbatim>\<open>db/log_reader.cc\<close>): what was
  written is read back, and after a crash a prefix of the records. \<open>MemFile\<close>
  (\<^verbatim>\<open>helpers/memenv/memenv.cc\<close>) gives the file interfaces the logs and tables are instantiated with.

  \<^bold>\<open>Tables.\<close> \<open>BlockBuilder\<close>, \<open>Block\<close>, \<open>BlockIter\<close> (\<^verbatim>\<open>table/block_builder.cc\<close>, \<^verbatim>\<open>table/block.cc\<close>): blocks with
  shared prefixes and restart points. \<open>Bloom\<close>, \<open>FilterBlock\<close> (\<^verbatim>\<open>util/bloom.cc\<close>, \<^verbatim>\<open>table/filter_block.cc\<close>): no
  key is missed. \<open>TableFormat\<close> (\<^verbatim>\<open>table/format.cc\<close>), \<open>TableBuilder\<close> (\<^verbatim>\<open>table/table_builder.cc\<close>) with its
  invariant in \<open>TableFile\<close>, \<open>TwoLevel\<close> (\<^verbatim>\<open>table/two_level_iterator.cc\<close>), \<open>Table\<close> and \<open>TableProps\<close>
  (\<^verbatim>\<open>table/table.cc\<close>): a table that was built reads back its entries.

  \<^bold>\<open>Reading.\<close> \<open>Merger\<close> (\<^verbatim>\<open>table/merger.cc\<close>) merges sorted iterators, \<open>DBIter\<close> (\<^verbatim>\<open>db/db_iter.cc\<close>) turns entries
  into the view at a sequence number, \<open>Cursor\<close> states both as refinements of a cursor on a list, and
  \<open>Reading\<close> composes them.

  \<^bold>\<open>Versions.\<close> \<open>VersionEdit\<close> (\<^verbatim>\<open>db/version_edit.cc\<close>): records of the manifest. \<open>Version\<close> and \<open>Ranges\<close>
  (\<^verbatim>\<open>db/version_set.cc\<close>): the queries on the files of a version. \<open>VersionGet\<close>: a lookup in the
  files finds the newest visible entry. \<open>VersionBuilder\<close>: applying edits keeps the order of the levels.
  \<open>Compaction\<close>: the choice of the inputs of a compaction, and the levels below it.

  \<^bold>\<open>Loops.\<close> A loop that need not end on every input is a \<open>partial_function\<close> into option or a
  \<open>while_option\<close>, and its lemmas state that it returns; the others are total functions with a measure.
  There is no fuel. Integers keep their width where the code can overflow.

  \<^bold>\<open>Not modelled.\<close> Threads, mutexes and memory barriers: the operations are modelled as one thread runs
  them. System calls of the environment and of the port, the benchmark and command-line programs, the C and Java
  bindings: input, output and conversions around the operations above. The vendored compressor: its
  functions are parameters of the table format, with the law that decompression inverts compression.
  Memory that is freed is not tracked.
\<close>

end
